(* ===== verification/OFED_Prelude.thy ===== *)
theory OFED_Prelude
  imports Main "HOL-Library.Word"
begin

text \<open>
  Shared vocabulary of the development: names for the C integer types of the
  sources, the proof collections the component theories extend, and the generic
  facts on bounded search and on 32-bit words that several components need.
\<close>

unbundle bit_operations_syntax

section \<open>Integer types of the sources\<close>

type_synonym u8 = "8 word"
type_synonym u16 = "16 word"
type_synonym u32 = "32 word"
type_synonym u64 = "64 word"

text \<open>
  \<open>wofed_bits\<close> collects the equations that read a bit back out of a bitmap
  operation; \<open>wofed_inv\<close> collects invariant-preservation facts.
\<close>

text \<open>The negative error numbers the modelled code returns.\<close>

datatype errno = EINVAL | ENOMEM | EFAULT | EAGAIN | EBUSY | ENOSYS | ENODEV | EIO | ERANGE

named_theorems wofed_bits
named_theorems wofed_inv

section \<open>Bounded linear search\<close>

text \<open>
  The reference specification of every \<open>find first\<close> routine of the
  sources: the least index of \<open>[lo, hi)\<close> at which a predicate holds, or
  \<open>hi\<close> when there is none.
\<close>

definition first_idx :: "(nat \<Rightarrow> bool) \<Rightarrow> nat \<Rightarrow> nat \<Rightarrow> nat" where
  "first_idx P lo hi = (case find P [lo..<hi] of None \<Rightarrow> hi | Some i \<Rightarrow> i)"

lemma first_idx_eqI:
  assumes "lo \<le> k" "k \<le> hi" "\<And>j. lo \<le> j \<Longrightarrow> j < k \<Longrightarrow> \<not> P j" "k < hi \<Longrightarrow> P k"
  shows "first_idx P lo hi = k"
proof (cases "k < hi")
  case True
  then have "[lo..<hi] = [lo..<k] @ k # [Suc k..<hi]"
    using assms(1) upt_add_eq_append[of lo k "hi - k"] upt_conv_Cons[of k hi] by simp
  moreover have "find P ([lo..<k] @ k # [Suc k..<hi]) = Some k"
    using assms(3) assms(4)[OF True] by (auto simp: find_Some_iff nth_append)
  ultimately show ?thesis by (simp add: first_idx_def)
next
  case False
  with assms(2) have "k = hi" by simp
  with assms(3) have "find P [lo..<hi] = None" by (auto simp: find_None_iff)
  with \<open>k = hi\<close> show ?thesis by (simp add: first_idx_def)
qed

lemma first_idx_bounds:
  assumes "lo \<le> hi"
  shows "lo \<le> first_idx P lo hi" and "first_idx P lo hi \<le> hi"
  using assms by (auto simp: first_idx_def find_Some_iff split: option.splits)

lemma first_idx_below:
  assumes "lo \<le> j" "j < first_idx P lo hi"
  shows "\<not> P j"
proof (cases "find P [lo..<hi]")
  case None
  with assms show ?thesis by (auto simp: first_idx_def find_None_iff)
next
  case (Some i)
  then obtain m where m: "m < hi - lo" "i = lo + m" and nb: "\<forall>n<m. \<not> P (lo + n)"
    by (auto simp: find_Some_iff)
  from assms Some m have "j - lo < m" by (simp add: first_idx_def)
  with nb assms(1) show ?thesis by (metis le_add_diff_inverse)
qed

lemma first_idx_hit:
  assumes "first_idx P lo hi < hi"
  shows "P (first_idx P lo hi)"
proof (cases "find P [lo..<hi]")
  case (Some i)
  then have "P i" by (auto simp: find_Some_iff)
  with Some show ?thesis by (simp add: first_idx_def)
qed (use assms in \<open>simp add: first_idx_def\<close>)

lemma first_idx_none_iff:
  assumes "lo \<le> hi"
  shows "first_idx P lo hi = hi \<longleftrightarrow> (\<forall>j. lo \<le> j \<and> j < hi \<longrightarrow> \<not> P j)"
  using assms first_idx_below[of lo _ P hi] first_idx_eqI[of lo hi hi P] by auto

lemma first_idx_split:
  assumes "lo \<le> mid" "mid \<le> hi"
  shows "first_idx P lo hi =
    (if first_idx P lo mid < mid then first_idx P lo mid else first_idx P mid hi)"
proof (cases "first_idx P lo mid < mid")
  case True
  then show ?thesis
    using assms first_idx_bounds[OF assms(1), of P] first_idx_below[of lo _ P mid]
      first_idx_hit[of P lo mid]
    by (auto intro!: first_idx_eqI)
next
  case False
  then have none: "\<forall>j. lo \<le> j \<and> j < mid \<longrightarrow> \<not> P j"
    using first_idx_bounds(2)[OF assms(1), of P] first_idx_none_iff[OF assms(1), of P] by simp
  have "first_idx P lo hi = first_idx P mid hi"
  proof (rule first_idx_eqI)
    show "lo \<le> first_idx P mid hi" "first_idx P mid hi \<le> hi"
      using first_idx_bounds[OF assms(2), of P] assms(1) by auto
    show "\<not> P j" if "lo \<le> j" "j < first_idx P mid hi" for j
      using none that first_idx_below[of mid j P hi] by (cases "j < mid") auto
    show "P (first_idx P mid hi)" if "first_idx P mid hi < hi"
      using that by (rule first_idx_hit)
  qed
  with False show ?thesis by simp
qed

lemma first_idx_shift:
  assumes "lo \<le> hi"
  shows "first_idx P (d + lo) (d + hi) = d + first_idx (\<lambda>i. P (d + i)) lo hi"
proof (rule first_idx_eqI)
  let ?k = "first_idx (\<lambda>i. P (d + i)) lo hi"
  show "d + lo \<le> d + ?k" "d + ?k \<le> d + hi"
    using first_idx_bounds[OF assms, of "\<lambda>i. P (d + i)"] by auto
  show "\<not> P j" if "d + lo \<le> j" "j < d + ?k" for j
    using that first_idx_below[of lo "j - d" "\<lambda>i. P (d + i)" hi] by simp
  show "P (d + ?k)" if "d + ?k < d + hi"
    using that first_idx_hit[of "\<lambda>i. P (d + i)" lo hi] by simp
qed

lemma first_idx_cong:
  assumes "\<And>i. lo \<le> i \<Longrightarrow> i < hi \<Longrightarrow> P i = Q i"
  shows "first_idx P lo hi = first_idx Q lo hi"
proof -
  have "find P [lo..<hi] = find Q [lo..<hi]"
    by (rule find_cong) (use assms in auto)
  then show ?thesis by (simp add: first_idx_def)
qed

lemma first_idx_rec:
  "first_idx P lo hi = (if lo < hi \<and> \<not> P lo then first_idx P (Suc lo) hi else if lo < hi then lo else hi)"
  by (simp add: first_idx_def upt_conv_Cons)

lemma first_idx_skip:
  assumes "lo \<le> mid" "mid \<le> hi" "\<And>i. lo \<le> i \<Longrightarrow> i < mid \<Longrightarrow> \<not> P i"
  shows "first_idx P lo hi = first_idx P mid hi"
  using first_idx_split[OF assms(1,2), of P] first_idx_none_iff[OF assms(1), of P] assms(3) by auto

lemma first_idx_stop:
  assumes "lo \<le> i" "i < mid" "mid \<le> hi" "P i"
  shows "first_idx P lo hi = first_idx P lo mid" "first_idx P lo mid < mid"
proof -
  show "first_idx P lo mid < mid"
    using assms first_idx_bounds(2)[of lo mid P] first_idx_none_iff[of lo mid P] by fastforce
  then show "first_idx P lo hi = first_idx P lo mid"
    using first_idx_split[of lo mid hi P] assms by simp
qed

lemma first_idx_min:
  assumes "lo \<le> n" "lo \<le> hi" "first_idx P lo hi < hi \<or> n \<le> hi"
  shows "min (first_idx P lo hi) n = first_idx P lo n"
proof (cases "n \<le> hi")
  case True
  then show ?thesis
    using first_idx_split[of lo n hi P] first_idx_bounds[of lo n P] first_idx_bounds[of n hi P] assms
    by (auto simp: min_def split: if_splits)
next
  case False
  then show ?thesis
    using first_idx_split[of lo hi n P] assms by (auto simp: min_def)
qed

section \<open>Words\<close>

lemma and_pow2_eq_0_iff [simp]:
  fixes w :: "'a::len word"
  shows "w AND 2 ^ n = 0 \<longleftrightarrow> \<not> bit w n"
proof
  assume h: "w AND 2 ^ n = 0"
  have "bit (w AND 2 ^ n) n \<longleftrightarrow> bit w n"
    by (auto simp: bit_and_iff bit_exp_iff possible_bit_def dest: bit_imp_le_length)
  with h show "\<not> bit w n" by auto
next
  assume h: "\<not> bit w n"
  show "w AND 2 ^ n = 0"
    by (rule bit_word_eqI) (use h in \<open>auto simp: bit_and_iff bit_exp_iff\<close>)
qed

lemma pow2_and_eq_0_iff [simp]:
  fixes w :: "'a::len word"
  shows "2 ^ n AND w = 0 \<longleftrightarrow> \<not> bit w n"
  by (simp add: and.commute)

lemma unat_pow2 [simp]:
  assumes "n < LENGTH('a)"
  shows "unat (2 ^ n :: 'a::len word) = 2 ^ n"
proof -
  have "unat (of_nat (2 ^ n) :: 'a word) = 2 ^ n"
    using assms by (simp only: unat_of_nat) simp
  then show ?thesis by simp
qed

lemma unat_of_nat_less:
  assumes "n < 2 ^ LENGTH('a)"
  shows "unat (of_nat n :: 'a::len word) = n"
  using assms by (simp only: unat_of_nat) simp

lemma eq_0_iff_no_bit:
  fixes w :: "'a::len word"
  shows "w = 0 \<longleftrightarrow> (\<forall>i < LENGTH('a). \<not> bit w i)"
  by (auto intro: bit_word_eqI)

lemma not_eq_0_iff_all_bit:
  fixes w :: "'a::len word"
  shows "NOT w = 0 \<longleftrightarrow> (\<forall>i < LENGTH('a). bit w i)"
  unfolding eq_0_iff_no_bit by (auto simp: bit_not_iff possible_bit_def)

lemma unat_Suc_less:
  fixes i e :: "'a::len word"
  assumes "i < e"
  shows "unat (i + 1) = unat i + 1"
proof -
  have "unat e < 2 ^ LENGTH('a)" by simp
  moreover have "unat i < unat e" using assms by (simp add: word_less_nat_alt)
  ultimately have "unat i + 1 < 2 ^ LENGTH('a)" by linarith
  then show ?thesis by (simp add: unat_word_ariths)
qed

lemma unat_add_less:
  fixes a b :: "'a::len word"
  assumes "unat a + unat b < 2 ^ LENGTH('a)"
  shows "unat (a + b) = unat a + unat b"
  using assms by (simp add: unat_word_ariths)

lemma unat_sub_le:
  fixes a b :: "'a::len word"
  assumes "unat b \<le> unat a"
  shows "unat (a - b) = unat a - unat b"
  using assms by (intro unat_sub) (simp add: word_le_nat_alt)

text \<open>Iterations of a C loop \<open>for (i = 0; i < n; i++)\<close> with signed bound \<open>n\<close>.\<close>

definition int_count :: "u32 \<Rightarrow> nat" where
  "int_count n = nat (sint n)"

lemma int_count_unat: "unat n < 2 ^ 31 \<Longrightarrow> int_count n = unat n"
proof -
  assume h: "unat n < 2 ^ 31"
  then have "\<not> bit (unat n) 31" by (simp add: bit_iff_odd)
  then have "\<not> bit n 31" by (simp add: bit_unsigned_iff)
  then have "sint n = take_bit 31 (uint n)"
    by (simp add: sint_uint signed_take_bit_eq_if_positive bit_uint_iff)
  also have "\<dots> = uint n"
  proof (rule take_bit_int_eq_self)
    have "int (unat n) < int (2 ^ 31)" using h by (simp only: of_nat_less_iff)
    then show "uint n < 2 ^ 31" by simp
  qed simp
  finally show ?thesis by (simp add: int_count_def)
qed

lemma sint_small:
  assumes "unat (w :: u32) < 2 ^ 31"
  shows "sint w = int (unat w)"
proof (cases "unat w = 0")
  case True
  then have "w = 0" by (simp add: unat_eq_zero)
  then show ?thesis by simp
next
  case False
  then have "nat (sint w) = unat w" using int_count_unat[OF assms] by (simp add: int_count_def)
  then show ?thesis using False by linarith
qed

section \<open>Counting\<close>

definition count_upto :: "(nat \<Rightarrow> bool) \<Rightarrow> nat \<Rightarrow> nat" where
  "count_upto P n = length (filter P [0..<n])"

lemma count_upto_card: "count_upto P n = card {i. i < n \<and> P i}"
proof -
  have "set (filter P [0..<n]) = {i. i < n \<and> P i}" by auto
  moreover have "distinct (filter P [0..<n])" by simp
  ultimately show ?thesis unfolding count_upto_def by (metis distinct_card)
qed

lemma count_upto_le: "count_upto P n \<le> n"
  unfolding count_upto_def by (metis diff_zero length_filter_le length_upt)

lemma count_upto_not: "count_upto (\<lambda>i. \<not> P i) n + count_upto P n = n"
  unfolding count_upto_def using sum_length_filter_compl[of P "[0..<n]"] by simp

lemma count_upto_insert:
  assumes "i < n" "\<not> P i" "\<And>j. j < n \<Longrightarrow> Q j \<longleftrightarrow> j = i \<or> P j"
  shows "count_upto Q n = Suc (count_upto P n)"
proof -
  have "{j. j < n \<and> Q j} = insert i {j. j < n \<and> P j}" using assms by auto
  then show ?thesis using assms(2) by (simp add: count_upto_card)
qed

lemma count_upto_cong: "(\<And>j. j < n \<Longrightarrow> P j = Q j) \<Longrightarrow> count_upto P n = count_upto Q n"
  unfolding count_upto_def by (metis (mono_tags, lifting) atLeastLessThan_iff filter_cong set_upt)

end
