(* ===== verification/L2w_Bit.thy ===== *)
theory L2w_Bit
  imports OFED_Prelude
begin

text \<open>
  The bit and bitmap primitives of the HCA drivers
  (\<open>hw/mlx4/kernel/inc/l2w_bit.h\<close>, \<open>l2w_bitmap.h\<close> and the lookup tables and
  out-of-line routines of \<open>hw/mlx4/kernel/bus/core/l2w.c\<close>).  A bitmap is the array
  of 32-bit \<open>unsigned long\<close> words the code manipulates; the \<open>int\<close> results and
  arguments of the search routines are 32-bit patterns, so that the wrap-around in
  \<open>find_next_zero_bit\<close> is the one the code performs.  Each routine is shown equal
  to the bounded linear search \<open>first_idx\<close>.
\<close>

section \<open>Single words\<close>

text \<open>\<open>fls\<close>: five conditional shifts narrow the position of the highest set bit.\<close>

definition fls_step :: "u32 \<Rightarrow> nat \<Rightarrow> u32 \<times> nat \<Rightarrow> u32 \<times> nat" where
  "fls_step m k = (\<lambda>(x, r). if x AND m = 0 then (push_bit k x, r - k) else (x, r))"

definition fls :: "u32 \<Rightarrow> nat" where
  "fls x = (if x = 0 then 0 else
     snd (fls_step 0x80000000 1
         (fls_step 0xc0000000 2
         (fls_step 0xf0000000 4
         (fls_step 0xff000000 8
         (fls_step 0xffff0000 16 (x, 32)))))))"

definition is_power_of_2 :: "u32 \<Rightarrow> bool" where
  "is_power_of_2 n \<longleftrightarrow> n \<noteq> 0 \<and> n AND (n - 1) = 0"

definition roundup_pow_of_two :: "u32 \<Rightarrow> u32" where
  "roundup_pow_of_two x = push_bit (fls (x - 1)) 1"

definition ilog2 :: "u32 \<Rightarrow> int" where
  "ilog2 val = int (fls val) - 1"

text \<open>The raw searches shift a one-bit mask over the word; the result is one-based, 0 for none.\<close>

function ffs_raw_loop :: "u32 \<Rightarrow> u32 \<Rightarrow> nat \<Rightarrow> nat \<Rightarrow> nat \<Rightarrow> nat" where
  "ffs_raw_loop w msk ofs ix rbc =
     (if ix < rbc
      then if w AND msk \<noteq> 0 then ofs + ix + 1
           else ffs_raw_loop w (push_bit 1 msk) ofs (Suc ix) rbc
      else 0)"
  by pat_completeness auto
termination
  by (relation "measure (\<lambda>(w, msk, ofs, ix, rbc). rbc - ix)") auto

declare ffs_raw_loop.simps [simp del]

definition ffs_raw :: "u32 \<Rightarrow> nat \<Rightarrow> nat" where
  "ffs_raw w ofs =
     (if w = 0 then 0 else ffs_raw_loop w (push_bit ofs 1) ofs 0 (32 - ofs))"

function ffz_raw_loop :: "u32 \<Rightarrow> u32 \<Rightarrow> nat \<Rightarrow> nat \<Rightarrow> nat \<Rightarrow> nat" where
  "ffz_raw_loop w msk ofs ix rbc =
     (if ix < rbc
      then if w AND msk = 0 then ofs + ix + 1
           else ffz_raw_loop w (push_bit 1 msk) ofs (Suc ix) rbc
      else 0)"
  by pat_completeness auto
termination
  by (relation "measure (\<lambda>(w, msk, ofs, ix, rbc). rbc - ix)") auto

declare ffz_raw_loop.simps [simp del]

definition ffz_raw :: "u32 \<Rightarrow> nat \<Rightarrow> nat" where
  "ffz_raw w ofs =
     (if NOT w = 0 then 0 else ffz_raw_loop w (push_bit ofs 1) ofs 0 (32 - ofs))"

text \<open>The 256-entry tables as \<open>fill_bit_tbls\<close> leaves them.\<close>

definition g_set_bit_tbl :: "nat list" where
  "g_set_bit_tbl = (map (\<lambda>i. ffs_raw (of_nat i) 0 - 1) [0..<256])[0 := 8]"

definition g_clr_bit_tbl :: "nat list" where
  "g_clr_bit_tbl = (map (\<lambda>i. ffz_raw (of_nat i) 0 - 1) [0..<256])[255 := 8]"

text \<open>Little-endian views of a dword at a byte offset.\<close>

definition dword_short :: "u32 \<Rightarrow> nat \<Rightarrow> u16" where
  "dword_short w k = ucast (drop_bit (8 * k) w)"

definition dword_byte :: "u32 \<Rightarrow> nat \<Rightarrow> u8" where
  "dword_byte w k = ucast (drop_bit (8 * k) w)"

definition set_bit_in_dword :: "u32 \<Rightarrow> nat" where
  "set_bit_in_dword w =
     (let p = (if dword_short w 0 = 0 then 2 else 0);
          q = (if dword_byte w p = 0 then p + 1 else p)
      in 8 * q + g_set_bit_tbl ! unat (dword_byte w q))"

definition clr_bit_in_dword :: "u32 \<Rightarrow> nat" where
  "clr_bit_in_dword w =
     (let p = (if NOT (dword_short w 0) = 0 then 2 else 0);
          q = (if NOT (dword_byte w p) = 0 then p + 1 else p)
      in 8 * q + g_clr_bit_tbl ! unat (dword_byte w q))"

definition ffs :: "u32 \<Rightarrow> nat" where
  "ffs w = (if w = 0 then 0 else set_bit_in_dword w + 1)"

definition ffz :: "u32 \<Rightarrow> nat" where
  "ffz w = (if NOT w = 0 then 0 else clr_bit_in_dword w + 1)"

section \<open>Bitmaps\<close>

definition bits_to_longs :: "u32 \<Rightarrow> u32" where
  "bits_to_longs bits = (bits + 32 - 1) div 32"

definition l2w_set_bit :: "nat \<Rightarrow> u32 list \<Rightarrow> u32 list" where
  "l2w_set_bit nr addr =
     (let k = nr div 32 in addr[k := addr ! k OR push_bit (nr mod 32) 1])"

definition l2w_clear_bit :: "nat \<Rightarrow> u32 list \<Rightarrow> u32 list" where
  "l2w_clear_bit nr addr =
     (let k = nr div 32 in addr[k := addr ! k AND NOT (push_bit (nr mod 32) 1)])"

definition l2w_test_bit :: "nat \<Rightarrow> u32 list \<Rightarrow> bool" where
  "l2w_test_bit nr addr \<longleftrightarrow> push_bit (nr mod 32) 1 AND addr ! (nr div 32) \<noteq> 0"

function find_first_bit_loop :: "u32 list \<Rightarrow> nat \<Rightarrow> nat \<Rightarrow> u32 \<Rightarrow> u32" where
  "find_first_bit_loop addr k n bits_size =
     (if k < n
      then if addr ! k = 0 then find_first_bit_loop addr (Suc k) n bits_size
           else of_nat (32 * k + set_bit_in_dword (addr ! k))
      else bits_size)"
  by pat_completeness auto
termination
  by (relation "measure (\<lambda>(addr, k, n, b). n - k)") auto

declare find_first_bit_loop.simps [simp del]

definition find_first_bit :: "u32 list \<Rightarrow> u32 \<Rightarrow> u32" where
  "find_first_bit addr bits_size =
     find_first_bit_loop addr 0 (unat (bits_to_longs bits_size)) bits_size"

function find_first_zero_bit_loop :: "u32 list \<Rightarrow> nat \<Rightarrow> nat \<Rightarrow> u32 \<Rightarrow> u32" where
  "find_first_zero_bit_loop addr k n bits_size =
     (if k < n
      then if NOT (addr ! k) = 0 then find_first_zero_bit_loop addr (Suc k) n bits_size
           else of_nat (32 * k + clr_bit_in_dword (addr ! k))
      else bits_size)"
  by pat_completeness auto
termination
  by (relation "measure (\<lambda>(addr, k, n, b). n - k)") auto

declare find_first_zero_bit_loop.simps [simp del]

definition find_first_zero_bit :: "u32 list \<Rightarrow> u32 \<Rightarrow> u32" where
  "find_first_zero_bit addr bits_size =
     find_first_zero_bit_loop addr 0 (unat (bits_to_longs bits_size)) bits_size"

definition find_next_zero_bit :: "u32 list \<Rightarrow> u32 \<Rightarrow> u32 \<Rightarrow> u32" where
  "find_next_zero_bit addr bits_size ofs =
     (let ix = ofs AND 31;
          base = ofs AND NOT 31;
          p = unat (drop_bit 5 base);
          rest = (\<lambda>p b. find_first_zero_bit (drop p addr) (bits_size - 32 * of_nat p) + b)
      in if ix \<noteq> 0
         then let res = ffz_raw (addr ! p) (unat ix)
              in if res \<noteq> 0 then base + of_nat res - 1 else rest (p + 1) (base + 32)
         else rest p base)"

definition bitmap_zero :: "u32 list \<Rightarrow> nat \<Rightarrow> u32 list" where
  "bitmap_zero dst nbits =
     (if nbits \<le> 32 then dst[0 := 0]
      else replicate ((nbits + 31) div 32) 0 @ drop ((nbits + 31) div 32) dst)"

definition bitmap_last_word_mask :: "nat \<Rightarrow> u32" where
  "bitmap_last_word_mask nbits =
     (if nbits mod 32 \<noteq> 0 then push_bit (nbits mod 32) 1 - 1 else NOT 0)"

definition bitmap_full_long :: "u32 list \<Rightarrow> nat \<Rightarrow> bool" where
  "bitmap_full_long bitmap bits =
     (let lim = bits div 32
      in list_all (\<lambda>k. NOT (bitmap ! k) = 0) [0..<lim] \<and>
         (bits mod 32 \<noteq> 0 \<longrightarrow> NOT (bitmap ! lim) AND bitmap_last_word_mask bits = 0))"

definition bitmap_full :: "u32 list \<Rightarrow> nat \<Rightarrow> bool" where
  "bitmap_full src nbits =
     (if nbits \<le> 32 then NOT (src ! 0) AND bitmap_last_word_mask nbits = 0
      else bitmap_full_long src nbits)"

definition bitmap_empty_long :: "u32 list \<Rightarrow> nat \<Rightarrow> bool" where
  "bitmap_empty_long bitmap bits =
     (let lim = bits div 32
      in list_all (\<lambda>k. bitmap ! k = 0) [0..<lim] \<and>
         (bits mod 32 \<noteq> 0 \<longrightarrow> bitmap ! lim AND bitmap_last_word_mask bits = 0))"

definition bitmap_empty :: "u32 list \<Rightarrow> nat \<Rightarrow> bool" where
  "bitmap_empty src nbits =
     (if nbits \<le> 32 then src ! 0 AND bitmap_last_word_mask nbits = 0
      else bitmap_empty_long src nbits)"

definition bitmap_fill :: "u32 list \<Rightarrow> nat \<Rightarrow> u32 list" where
  "bitmap_fill dst nbits =
     (let nlongs = (nbits + 31) div 32;
          dst' = (if nlongs > 1 then replicate (nlongs - 1) (NOT 0) @ drop (nlongs - 1) dst else dst)
      in dst'[nlongs - 1 := bitmap_last_word_mask nbits])"

section \<open>Single words: correctness\<close>

lemma and_top_mask_eq_0_iff:
  fixes x :: u32
  assumes "n \<le> 32"
  shows "x AND NOT (mask n) = 0 \<longleftrightarrow> unat x < 2 ^ n"
proof -
  have "x AND NOT (mask n) = 0 \<longleftrightarrow> take_bit n x = x"
  proof
    assume h: "x AND NOT (mask n) = 0"
    show "take_bit n x = x"
    proof (rule bit_word_eqI)
      fix i assume "i < LENGTH(32)"
      moreover have "\<not> bit (x AND NOT (mask n)) i" using h by simp
      ultimately show "bit (take_bit n x) i = bit x i"
        by (auto simp: bit_take_bit_iff bit_and_iff bit_not_iff bit_mask_iff possible_bit_def)
    qed
  next
    assume h: "take_bit n x = x"
    show "x AND NOT (mask n) = 0"
      by (subst h[symmetric], rule bit_word_eqI)
        (auto simp: bit_take_bit_iff bit_and_iff bit_not_iff bit_mask_iff possible_bit_def)
  qed
  also have "\<dots> \<longleftrightarrow> unat x < 2 ^ n"
  proof -
    have "unat (take_bit n x) = take_bit n (unat x)"
      by (rule unsigned_take_bit_eq)
    then have "unat (take_bit n x) = unat x mod 2 ^ n"
      by (simp only: take_bit_eq_mod)
    then show ?thesis
      by (metis mod_less mod_less_divisor word_unat_eq_iff zero_less_numeral zero_less_power)
  qed
  finally show ?thesis .
qed

lemma fls_step_inv:
  assumes "unat x = unat x0 * 2 ^ (32 - r)" "r \<le> 32" "x0 \<noteq> 0"
    and "2 ^ (32 - 2 * k) \<le> unat x" "2 * k \<le> 32" "m = NOT (mask (32 - k))"
    and "fls_step m k (x, r) = (x', r')"
  shows "unat x' = unat x0 * 2 ^ (32 - r')" and "r' \<le> 32" and "2 ^ (32 - k) \<le> unat x'"
proof -
  have pos: "1 \<le> unat x0" using assms(3) by (simp add: Suc_leI unat_gt_0)
  have m: "x AND m = 0 \<longleftrightarrow> unat x < 2 ^ (32 - k)"
    using and_top_mask_eq_0_iff[of "32 - k" x] assms(6) by simp
  have "unat x' = unat x0 * 2 ^ (32 - r') \<and> r' \<le> 32 \<and> 2 ^ (32 - k) \<le> unat x'"
  proof (cases "unat x < 2 ^ (32 - k)")
    case False
    then have "x' = x" "r' = r" using assms(7) m by (auto simp: fls_step_def)
    with False assms show ?thesis by simp
  next
    case True
    then have x': "x' = push_bit k x" and r': "r' = r - k"
      using assms(7) m by (auto simp: fls_step_def)
    have "2 ^ (32 - r) \<le> unat x" using assms(1) pos by simp
    with True have "(2::nat) ^ (32 - r) < 2 ^ (32 - k)" by linarith
    then have kr: "k < r" using assms(2) by simp
    have "unat x * 2 ^ k < 2 ^ (32 - k) * 2 ^ k" using True by simp
    also have "\<dots> = (2::nat) ^ 32" using assms(5) by (simp flip: power_add)
    finally have b: "unat x * 2 ^ k < 2 ^ 32" .
    have "unat x' = take_bit 32 (push_bit k (unat x))"
      by (simp add: x' unsigned_push_bit_eq)
    also have "\<dots> = unat x * 2 ^ k mod 2 ^ 32"
      by (simp only: push_bit_eq_mult take_bit_eq_mod)
    finally have ux: "unat x' = unat x * 2 ^ k" using b by (simp only: mod_less)
    have e: "32 - r' = (32 - r) + k" using kr assms(2) by (simp add: r')
    have "(2::nat) ^ (32 - k) = 2 ^ (32 - 2 * k) * 2 ^ k"
      using assms(5) by (simp flip: power_add)
    also have "\<dots> \<le> unat x'" using assms(4) by (simp add: ux)
    finally have "2 ^ (32 - k) \<le> unat x'" .
    moreover have "unat x' = unat x0 * 2 ^ (32 - r')"
      by (simp only: ux e assms(1)) (simp add: power_add algebra_simps)
    ultimately show ?thesis using assms(2) by (simp add: r')
  qed
  then show "unat x' = unat x0 * 2 ^ (32 - r')" and "r' \<le> 32" and "2 ^ (32 - k) \<le> unat x'"
    by auto
qed

lemma fls_bounds:
  assumes "x \<noteq> 0"
  shows "0 < fls x" "fls x \<le> 32" "2 ^ (fls x - 1) \<le> unat x" "unat x < 2 ^ fls x"
proof -
  obtain x1 r1 where s1: "fls_step 0xffff0000 16 (x, 32) = (x1, r1)" by fastforce
  obtain x2 r2 where s2: "fls_step 0xff000000 8 (x1, r1) = (x2, r2)" by fastforce
  obtain x3 r3 where s3: "fls_step 0xf0000000 4 (x2, r2) = (x3, r3)" by fastforce
  obtain x4 r4 where s4: "fls_step 0xc0000000 2 (x3, r3) = (x4, r4)" by fastforce
  obtain x5 r5 where s5: "fls_step 0x80000000 1 (x4, r4) = (x5, r5)" by fastforce
  have f: "fls x = r5" using assms by (simp only: fls_def s1 s2 s3 s4 s5 if_False snd_conv)
  have pos: "1 \<le> unat x" using assms by (simp add: Suc_leI unat_gt_0)
  note i1 = fls_step_inv[of x x 32 16 "0xffff0000" x1 r1, OF _ _ assms _ _ _ s1]
  have a1: "unat x1 = unat x * 2 ^ (32 - r1)" "r1 \<le> 32" "2 ^ 16 \<le> unat x1"
    using i1 pos by (simp_all add: mask_eq_exp_minus_1)
  have a2: "unat x2 = unat x * 2 ^ (32 - r2)" "r2 \<le> 32" "2 ^ 24 \<le> unat x2"
    using fls_step_inv[of x1 x r1 8 "0xff000000" x2 r2, OF a1(1,2) assms _ _ _ s2] a1(3)
    by (simp_all add: mask_eq_exp_minus_1)
  have a3: "unat x3 = unat x * 2 ^ (32 - r3)" "r3 \<le> 32" "2 ^ 28 \<le> unat x3"
    using fls_step_inv[of x2 x r2 4 "0xf0000000" x3 r3, OF a2(1,2) assms _ _ _ s3] a2(3)
    by (simp_all add: mask_eq_exp_minus_1)
  have a4: "unat x4 = unat x * 2 ^ (32 - r4)" "r4 \<le> 32" "2 ^ 30 \<le> unat x4"
    using fls_step_inv[of x3 x r3 2 "0xc0000000" x4 r4, OF a3(1,2) assms _ _ _ s4] a3(3)
    by (simp_all add: mask_eq_exp_minus_1)
  have a5: "unat x5 = unat x * 2 ^ (32 - r5)" "r5 \<le> 32" "2 ^ 31 \<le> unat x5"
    using fls_step_inv[of x4 x r4 1 "0x80000000" x5 r5, OF a4(1,2) assms _ _ _ s5] a4(3)
    by (simp_all add: mask_eq_exp_minus_1)
  have lt: "unat x5 < 2 ^ 32" using unsigned_less[of x5] by simp
  have r0: "0 < r5"
  proof (rule ccontr)
    assume "\<not> 0 < r5"
    then have "unat x5 = unat x * 2 ^ 32" using a5(1) by simp
    with lt pos show False by simp
  qed
  have e1: "(2::nat) ^ 31 = 2 ^ (r5 - 1) * 2 ^ (32 - r5)"
    using r0 a5(2) by (simp flip: power_add)
  have e2: "(2::nat) ^ 32 = 2 ^ r5 * 2 ^ (32 - r5)"
    using a5(2) by (simp flip: power_add)
  show "0 < fls x" "fls x \<le> 32" using r0 a5(2) f by simp_all
  show "2 ^ (fls x - 1) \<le> unat x"
    using a5(1,3) unfolding f e1 by simp
  show "unat x < 2 ^ fls x"
    using a5(1) lt unfolding f e2 by simp
qed

lemma roundup_pow_of_two_props:
  assumes "0 < x" "unat x \<le> 2 ^ 31"
  shows "unat (roundup_pow_of_two x) = 2 ^ fls (x - 1)"
    and "fls (x - 1) \<le> 31"
    and "unat x \<le> unat (roundup_pow_of_two x)"
    and "x \<noteq> 1 \<Longrightarrow> unat (roundup_pow_of_two x) < 2 * unat x"
proof -
  have x1: "unat (x - 1) = unat x - 1"
    using assms(1) by (intro unat_minus_one) auto
  have ux: "0 < unat x" using assms(1) by (simp add: unat_gt_0)
  show f31: "fls (x - 1) \<le> 31"
  proof (cases "x - 1 = 0")
    case False
    have "2 ^ (fls (x - 1) - 1) \<le> unat x - 1" using fls_bounds(3)[OF False] x1 by simp
    also have "\<dots> < 2 ^ 31" using assms(2) ux by simp
    finally have "fls (x - 1) - 1 < 31" by (rule power_less_imp_less_exp[rotated]) simp
    then show ?thesis by simp
  qed (simp add: fls_def)
  show p: "unat (roundup_pow_of_two x) = 2 ^ fls (x - 1)"
    using f31 by (simp add: roundup_pow_of_two_def)
  show "unat x \<le> unat (roundup_pow_of_two x)"
  proof (cases "x - 1 = 0")
    case False
    then show ?thesis using fls_bounds(4)[OF False] x1 p by simp
  next
    case True
    then show ?thesis using p x1 by (simp add: fls_def)
  qed
  show "unat (roundup_pow_of_two x) < 2 * unat x" if "x \<noteq> 1"
  proof -
    have nz: "x - 1 \<noteq> 0" using that by simp
    have "(2::nat) ^ fls (x - 1) = 2 * 2 ^ (fls (x - 1) - 1)"
      using fls_bounds(1)[OF nz] by (cases "fls (x - 1)") auto
    moreover have "2 ^ (fls (x - 1) - 1) \<le> unat x - 1" using fls_bounds(3)[OF nz] x1 by simp
    ultimately show ?thesis using p ux by linarith
  qed
qed

lemma ffs_raw_loop_eq:
  assumes "ix \<le> 32 - ofs" "ofs \<le> 32"
  shows "ffs_raw_loop w (2 ^ (ofs + ix)) ofs ix (32 - ofs) =
    (let i = first_idx (bit w) (ofs + ix) 32 in if i < 32 then i + 1 else 0)"
  using assms(1)
proof (induction "32 - ofs - ix" arbitrary: ix)
  case 0
  then have "ofs + ix = 32" "\<not> ix < 32 - ofs" using assms(2) by simp_all
  then show ?case by (simp add: ffs_raw_loop.simps first_idx_def)
next
  case (Suc d)
  then have lt: "ofs + ix < 32" "ix < 32 - ofs" by simp_all
  have rec: "first_idx (bit w) (ofs + ix) 32 =
      (if bit w (ofs + ix) then ofs + ix else first_idx (bit w) (ofs + Suc ix) 32)"
    using lt by (subst first_idx_rec) simp
  have IH: "ffs_raw_loop w (2 ^ (ofs + Suc ix)) ofs (Suc ix) (32 - ofs) =
      (let i = first_idx (bit w) (ofs + Suc ix) 32 in if i < 32 then i + 1 else 0)"
    by (rule Suc.hyps(1)) (use Suc.hyps(2) in auto)
  show ?case
    by (subst ffs_raw_loop.simps) (use lt IH rec in \<open>simp add: Let_def mult.commute\<close>)
qed

lemma ffz_raw_loop_eq:
  assumes "ix \<le> 32 - ofs" "ofs \<le> 32"
  shows "ffz_raw_loop w (2 ^ (ofs + ix)) ofs ix (32 - ofs) =
    (let i = first_idx (\<lambda>i. \<not> bit w i) (ofs + ix) 32 in if i < 32 then i + 1 else 0)"
  using assms(1)
proof (induction "32 - ofs - ix" arbitrary: ix)
  case 0
  then have "ofs + ix = 32" "\<not> ix < 32 - ofs" using assms(2) by simp_all
  then show ?case by (simp add: ffz_raw_loop.simps first_idx_def)
next
  case (Suc d)
  then have lt: "ofs + ix < 32" "ix < 32 - ofs" by simp_all
  have rec: "first_idx (\<lambda>i. \<not> bit w i) (ofs + ix) 32 =
      (if \<not> bit w (ofs + ix) then ofs + ix else first_idx (\<lambda>i. \<not> bit w i) (ofs + Suc ix) 32)"
    using lt by (subst first_idx_rec) simp
  have IH: "ffz_raw_loop w (2 ^ (ofs + Suc ix)) ofs (Suc ix) (32 - ofs) =
      (let i = first_idx (\<lambda>i. \<not> bit w i) (ofs + Suc ix) 32 in if i < 32 then i + 1 else 0)"
    by (rule Suc.hyps(1)) (use Suc.hyps(2) in auto)
  show ?case
    by (subst ffz_raw_loop.simps) (use lt IH rec in \<open>simp add: Let_def mult.commute\<close>)
qed

lemma ffs_raw_eq:
  assumes "ofs \<le> 32"
  shows "ffs_raw w ofs = (let i = first_idx (bit w) ofs 32 in if i < 32 then i + 1 else 0)"
proof (cases "w = 0")
  case True
  then have "first_idx (bit w) ofs 32 = 32"
    using assms by (simp add: first_idx_none_iff)
  with True show ?thesis by (simp add: ffs_raw_def)
next
  case False
  then show ?thesis
    using ffs_raw_loop_eq[of 0 ofs w] assms by (simp add: ffs_raw_def)
qed

lemma ffz_raw_eq:
  assumes "ofs \<le> 32"
  shows "ffz_raw w ofs = (let i = first_idx (\<lambda>i. \<not> bit w i) ofs 32 in if i < 32 then i + 1 else 0)"
proof (cases "NOT w = 0")
  case True
  have "bit w j" if "j < 32" for j
  proof -
    have "\<not> bit (NOT w) j" using True by simp
    then show ?thesis using that by (simp add: bit_not_iff possible_bit_def)
  qed
  then have "first_idx (\<lambda>i. \<not> bit w i) ofs 32 = 32"
    using assms by (simp add: first_idx_none_iff)
  with True show ?thesis by (simp add: ffz_raw_def)
next
  case False
  then show ?thesis
    using ffz_raw_loop_eq[of 0 ofs w] assms by (simp add: ffz_raw_def)
qed

lemma bit_dword_byte [wofed_bits]:
  "bit (dword_byte w k) i \<longleftrightarrow> i < 8 \<and> bit w (8 * k + i)"
  by (auto simp: dword_byte_def bit_simps)

lemma bit_dword_short [wofed_bits]:
  "bit (dword_short w k) i \<longleftrightarrow> i < 16 \<and> bit w (8 * k + i)"
  by (auto simp: dword_short_def bit_simps)

lemma bit_of_nat_byte:
  assumes "b < 256"
  shows "bit (of_nat b :: u32) i \<longleftrightarrow> i < 8 \<and> bit b i"
  using assms
proof -
  have "\<not> bit b i" if "8 \<le> i"
  proof -
    have "b < 2 ^ i" using assms power_increasing[of 8 i "2::nat"] that by simp
    then show ?thesis by (simp add: bit_iff_odd)
  qed
  then have "bit b i \<Longrightarrow> i < 8" by (meson not_le)
  then show ?thesis by (auto simp: bit_of_nat_iff possible_bit_def)
qed

lemma g_set_bit_tbl_eq:
  "g_set_bit_tbl ! unat (b :: u8) = first_idx (bit b) 0 8"
proof -
  have ub: "unat b < 256" using unsigned_less[of b] by simp
  have ib: "first_idx (bit (of_nat (unat b) :: u32)) 0 8 = first_idx (bit b) 0 8"
    by (rule first_idx_cong) (simp add: bit_of_nat_byte[OF ub] bit_unsigned_iff)
  show ?thesis
  proof (cases "b = 0")
    case True
    then show ?thesis by (simp add: g_set_bit_tbl_def first_idx_none_iff[of 0 8, THEN iffD2])
  next
    case False
    then obtain i where i: "i < 8" "bit b i" by (auto simp: eq_0_iff_no_bit)
    then have lt: "first_idx (bit b) 0 8 < 8"
      using first_idx_bounds(2)[of 0 8 "bit b"] first_idx_none_iff[of 0 8 "bit b"] by fastforce
    have "first_idx (bit (of_nat (unat b) :: u32)) 0 32 = first_idx (bit b) 0 8"
      using first_idx_split[of 0 8 32 "bit (of_nat (unat b) :: u32)"] lt ib by simp
    then have "ffs_raw (of_nat (unat b)) 0 - 1 = first_idx (bit b) 0 8"
      using lt by (simp add: ffs_raw_eq Let_def)
    moreover have "unat b \<noteq> 0" using False by (simp add: unat_eq_zero)
    ultimately show ?thesis using ub by (simp add: g_set_bit_tbl_def)
  qed
qed

lemma g_clr_bit_tbl_eq:
  "g_clr_bit_tbl ! unat (b :: u8) = first_idx (\<lambda>i. \<not> bit b i) 0 8"
proof -
  have ub: "unat b < 256" using unsigned_less[of b] by simp
  have ib: "first_idx (\<lambda>i. \<not> bit (of_nat (unat b) :: u32) i) 0 8 = first_idx (\<lambda>i. \<not> bit b i) 0 8"
    by (rule first_idx_cong) (simp add: bit_of_nat_byte[OF ub] bit_unsigned_iff)
  show ?thesis
  proof (cases "NOT b = 0")
    case True
    then have "NOT (NOT b) = NOT 0" by (rule arg_cong)
    then have "b = 255" by simp
    moreover have "first_idx (\<lambda>i. \<not> bit b i) 0 8 = 8"
      using True by (simp add: not_eq_0_iff_all_bit first_idx_none_iff)
    ultimately show ?thesis by (simp add: g_clr_bit_tbl_def)
  next
    case False
    then obtain i where i: "i < 8" "\<not> bit b i" by (auto simp: not_eq_0_iff_all_bit)
    then have lt: "first_idx (\<lambda>i. \<not> bit b i) 0 8 < 8"
      using first_idx_bounds(2)[of 0 8 "\<lambda>i. \<not> bit b i"] first_idx_none_iff[of 0 8 "\<lambda>i. \<not> bit b i"] by fastforce
    have "first_idx (\<lambda>i. \<not> bit (of_nat (unat b) :: u32) i) 0 32 = first_idx (\<lambda>i. \<not> bit b i) 0 8"
      using first_idx_split[of 0 8 32 "\<lambda>i. \<not> bit (of_nat (unat b) :: u32) i"] lt ib by simp
    then have "ffz_raw (of_nat (unat b)) 0 - 1 = first_idx (\<lambda>i. \<not> bit b i) 0 8"
      using lt by (simp add: ffz_raw_eq Let_def)
    moreover have "unat b \<noteq> 255"
    proof
      assume "unat b = 255"
      then have "b = 255" by (simp add: word_unat_eq_iff)
      with False show False by simp
    qed
    ultimately show ?thesis using ub by (simp add: g_clr_bit_tbl_def)
  qed
qed

lemma first_idx_byte:
  assumes "k < 4"
  shows "first_idx (bit w) (8 * k) (8 * k + 8) = 8 * k + first_idx (bit (dword_byte w k)) 0 8"
    and "first_idx (\<lambda>i. \<not> bit w i) (8 * k) (8 * k + 8) = 8 * k + first_idx (\<lambda>i. \<not> bit (dword_byte w k) i) 0 8"
  using first_idx_shift[of 0 8 "bit w" "8 * k"]
    first_idx_cong[of 0 8 "\<lambda>i. bit w (8 * k + i)" "bit (dword_byte w k)"]
    first_idx_shift[of 0 8 "\<lambda>i. \<not> bit w i" "8 * k"]
    first_idx_cong[of 0 8 "\<lambda>i. \<not> bit w (8 * k + i)" "\<lambda>i. \<not> bit (dword_byte w k) i"]
  by (simp_all add: wofed_bits)

text \<open>The narrowing to the first interesting byte is a search that skips the others.\<close>

lemma byte_hit:
  assumes "Q = (\<lambda>i. bit w i) \<and> dword_byte w q \<noteq> 0 \<or> Q = (\<lambda>i. \<not> bit w i) \<and> NOT (dword_byte w q) \<noteq> 0"
    and "q < 4" "\<And>i. i < 8 * q \<Longrightarrow> \<not> Q i"
  shows "first_idx Q 0 32 = first_idx Q (8 * q) (8 * q + 8)" "first_idx Q 0 32 < 32"
proof -
  obtain i where i: "i < 8" "Q (8 * q + i)"
    using assms(1) by (auto simp: eq_0_iff_no_bit wofed_bits bit_not_iff possible_bit_def)
  have "first_idx Q 0 32 = first_idx Q (8 * q) 32"
    by (rule first_idx_skip) (use assms in auto)
  also have "\<dots> = first_idx Q (8 * q) (8 * q + 8)"
    by (rule first_idx_stop(1)[of _ "8 * q + i"]) (use i assms(2) in auto)
  finally show "first_idx Q 0 32 = first_idx Q (8 * q) (8 * q + 8)" .
  moreover have "first_idx Q (8 * q) (8 * q + 8) < 8 * q + 8"
    by (rule first_idx_stop(2)[of _ "8 * q + i" _ "8 * q + 8"]) (use i in auto)
  ultimately show "first_idx Q 0 32 < 32" using assms(2) by simp
qed

lemma set_bit_in_dword_eq:
  assumes "w \<noteq> 0"
  shows "set_bit_in_dword w = first_idx (bit w) 0 32" and "set_bit_in_dword w < 32"
proof -
  define p where "p = (if dword_short w 0 = 0 then 2 else (0::nat))"
  define q where "q = (if dword_byte w p = 0 then p + 1 else p)"
  have p: "p = 0 \<or> p = 2" by (simp add: p_def)
  have low: "\<not> bit w i" if "i < 8 * p" for i
    using that by (auto simp: p_def eq_0_iff_no_bit wofed_bits split: if_splits)
  have low2: "\<not> bit w i" if "i < 8 * q" for i
  proof (cases "i < 8 * p")
    case False
    then show ?thesis
      using that spec[of "\<lambda>j. j < 8 \<longrightarrow> \<not> bit w (8 * p + j)" "i - 8 * p"]
      by (auto simp: q_def eq_0_iff_no_bit wofed_bits split: if_splits)
  qed (rule low)
  have nz: "dword_byte w q \<noteq> 0"
  proof
    assume z: "dword_byte w q = 0"
    then have q: "q = p + 1" by (auto simp: q_def split: if_splits)
    have hi: "\<not> bit w i" if "i < 8 * p + 16" for i
    proof (cases "i < 8 * q")
      case False
      then show ?thesis
        using that z q spec[of "\<lambda>j. j < 8 \<longrightarrow> \<not> bit w (8 * q + j)" "i - 8 * q"]
        by (auto simp: eq_0_iff_no_bit wofed_bits)
    qed (rule low2)
    show False
    proof (cases "p = 0")
      case True
      then have "dword_short w 0 = 0" using hi by (simp add: eq_0_iff_no_bit wofed_bits)
      with True show False by (simp add: p_def)
    next
      case False
      then have "w = 0" using hi p by (simp add: eq_0_iff_no_bit)
      with assms show False ..
    qed
  qed
  have q4: "q < 4" using p by (auto simp: q_def)
  have hit: "first_idx (bit w) 0 32 = first_idx (bit w) (8 * q) (8 * q + 8)" "first_idx (bit w) 0 32 < 32"
    using byte_hit[of "bit w" w q] nz q4 low2 by auto
  have "set_bit_in_dword w = 8 * q + first_idx (bit (dword_byte w q)) 0 8"
    by (simp add: set_bit_in_dword_def Let_def g_set_bit_tbl_eq p_def q_def)
  then show "set_bit_in_dword w = first_idx (bit w) 0 32" "set_bit_in_dword w < 32"
    using hit first_idx_byte(1)[OF q4, of w] by simp_all
qed

lemma clr_bit_in_dword_eq:
  assumes "NOT w \<noteq> 0"
  shows "clr_bit_in_dword w = first_idx (\<lambda>i. \<not> bit w i) 0 32" and "clr_bit_in_dword w < 32"
proof -
  define p where "p = (if NOT (dword_short w 0) = 0 then 2 else (0::nat))"
  define q where "q = (if NOT (dword_byte w p) = 0 then p + 1 else p)"
  have p: "p = 0 \<or> p = 2" by (simp add: p_def)
  have low: "bit w i" if "i < 8 * p" for i
    using that by (auto simp: p_def not_eq_0_iff_all_bit wofed_bits split: if_splits)
  have low2: "bit w i" if "i < 8 * q" for i
  proof (cases "i < 8 * p")
    case False
    then show ?thesis
      using that spec[of "\<lambda>j. j < 8 \<longrightarrow> bit w (8 * p + j)" "i - 8 * p"]
      by (auto simp: q_def not_eq_0_iff_all_bit wofed_bits split: if_splits)
  qed (rule low)
  have nz: "NOT (dword_byte w q) \<noteq> 0"
  proof
    assume z: "NOT (dword_byte w q) = 0"
    then have q: "q = p + 1" by (auto simp: q_def split: if_splits)
    have hi: "bit w i" if "i < 8 * p + 16" for i
    proof (cases "i < 8 * q")
      case False
      then show ?thesis
        using that z q spec[of "\<lambda>j. j < 8 \<longrightarrow> bit w (8 * q + j)" "i - 8 * q"]
        by (auto simp: not_eq_0_iff_all_bit wofed_bits)
    qed (rule low2)
    show False
    proof (cases "p = 0")
      case True
      then have "NOT (dword_short w 0) = 0" using hi by (simp add: not_eq_0_iff_all_bit wofed_bits)
      with True show False by (simp add: p_def)
    next
      case False
      then have "NOT w = 0" using hi p by (simp add: not_eq_0_iff_all_bit)
      with assms show False ..
    qed
  qed
  have q4: "q < 4" using p by (auto simp: q_def)
  have hit: "first_idx (\<lambda>i. \<not> bit w i) 0 32 = first_idx (\<lambda>i. \<not> bit w i) (8 * q) (8 * q + 8)"
    "first_idx (\<lambda>i. \<not> bit w i) 0 32 < 32"
    using byte_hit[of "\<lambda>i. \<not> bit w i" w q] nz q4 low2 by auto
  have "clr_bit_in_dword w = 8 * q + first_idx (\<lambda>i. \<not> bit (dword_byte w q) i) 0 8"
    by (simp add: clr_bit_in_dword_def Let_def g_clr_bit_tbl_eq p_def q_def)
  then show "clr_bit_in_dword w = first_idx (\<lambda>i. \<not> bit w i) 0 32" "clr_bit_in_dword w < 32"
    using hit first_idx_byte(2)[OF q4, of w] by simp_all
qed

section \<open>Bitmaps: correctness\<close>

lemma ffs_eq: "ffs w = (if w = 0 then 0 else first_idx (bit w) 0 32 + 1)"
  by (simp add: ffs_def set_bit_in_dword_eq)

lemma ffz_eq: "ffz w = (if NOT w = 0 then 0 else first_idx (\<lambda>i. \<not> bit w i) 0 32 + 1)"
  by (simp add: ffz_def clr_bit_in_dword_eq)

text \<open>The searches evaluate by their specification instead of the 256-entry tables.\<close>

lemma set_bit_in_dword_code [code]: "set_bit_in_dword w = first_idx (bit w) 0 32"
proof (cases "w = 0")
  case True
  have "g_set_bit_tbl ! 0 = 8" by (simp add: g_set_bit_tbl_def)
  then have "set_bit_in_dword 0 = 32"
    by (simp add: set_bit_in_dword_def dword_short_def dword_byte_def)
  moreover have "first_idx (bit (0 :: u32)) 0 32 = 32" by code_simp
  ultimately show ?thesis using True by simp
qed (rule set_bit_in_dword_eq)

lemma clr_bit_in_dword_code [code]: "clr_bit_in_dword w = first_idx (\<lambda>i. \<not> bit w i) 0 32"
proof (cases "NOT w = 0")
  case True
  then have "NOT (NOT w) = NOT 0" by (simp only:)
  then have w: "w = -1" by simp
  have "NOT (dword_short (-1) 0) = 0" "NOT (dword_byte (-1) 2) = 0" "unat (dword_byte (-1) 3) = 255"
    by code_simp+
  moreover have "g_clr_bit_tbl ! 255 = 8" by (simp add: g_clr_bit_tbl_def)
  ultimately have "clr_bit_in_dword (-1) = 32" by (simp add: clr_bit_in_dword_def Let_def)
  moreover have "first_idx (\<lambda>i. \<not> bit (-1 :: u32) i) 0 32 = 32" by code_simp
  ultimately show ?thesis using w by simp
qed (rule clr_bit_in_dword_eq)

lemma l2w_test_bit_iff [wofed_bits]:
  "l2w_test_bit nr addr \<longleftrightarrow> bit (addr ! (nr div 32)) (nr mod 32)"
  by (simp add: l2w_test_bit_def)

lemma length_l2w_set_bit [simp]: "length (l2w_set_bit nr addr) = length addr"
  by (simp add: l2w_set_bit_def Let_def)

lemma length_l2w_clear_bit [simp]: "length (l2w_clear_bit nr addr) = length addr"
  by (simp add: l2w_clear_bit_def Let_def)

lemma test_bit_set_bit:
  assumes "nr < 32 * length addr"
  shows "l2w_test_bit i (l2w_set_bit nr addr) \<longleftrightarrow> i = nr \<or> l2w_test_bit i addr"
proof (cases "i div 32 = nr div 32")
  case True
  then have "i = nr \<longleftrightarrow> i mod 32 = nr mod 32" by (metis mult_div_mod_eq)
  then show ?thesis
    using assms True by (auto simp: l2w_test_bit_iff l2w_set_bit_def Let_def bit_or_iff bit_exp_iff)
next
  case False
  then show ?thesis by (auto simp: l2w_test_bit_iff l2w_set_bit_def Let_def)
qed

lemma test_bit_clear_bit:
  assumes "nr < 32 * length addr"
  shows "l2w_test_bit i (l2w_clear_bit nr addr) \<longleftrightarrow> i \<noteq> nr \<and> l2w_test_bit i addr"
proof (cases "i div 32 = nr div 32")
  case True
  then have "i = nr \<longleftrightarrow> i mod 32 = nr mod 32" by (metis mult_div_mod_eq)
  then show ?thesis
    using assms True
    by (auto simp: l2w_test_bit_iff l2w_clear_bit_def Let_def bit_and_iff bit_not_iff bit_exp_iff possible_bit_def)
next
  case False
  then show ?thesis by (auto simp: l2w_test_bit_iff l2w_clear_bit_def Let_def)
qed

lemma first_idx_word:
  "first_idx (\<lambda>i. l2w_test_bit i addr) (32 * k) (32 * k + 32) =
     32 * k + first_idx (bit (addr ! k)) 0 32"
  "first_idx (\<lambda>i. \<not> l2w_test_bit i addr) (32 * k) (32 * k + 32) =
     32 * k + first_idx (\<lambda>i. \<not> bit (addr ! k) i) 0 32"
  using first_idx_shift[of 0 32 "\<lambda>i. l2w_test_bit i addr" "32 * k"]
    first_idx_cong[of 0 32 "\<lambda>i. l2w_test_bit (32 * k + i) addr" "bit (addr ! k)"]
    first_idx_shift[of 0 32 "\<lambda>i. \<not> l2w_test_bit i addr" "32 * k"]
    first_idx_cong[of 0 32 "\<lambda>i. \<not> l2w_test_bit (32 * k + i) addr" "\<lambda>i. \<not> bit (addr ! k) i"]
  by (simp_all add: l2w_test_bit_iff)

lemma find_first_bit_loop_eq:
  assumes "k \<le> n" "32 * n < 2 ^ 32"
  shows "unat (find_first_bit_loop addr k n b) =
    (let i = first_idx (\<lambda>i. l2w_test_bit i addr) (32 * k) (32 * n) in if i < 32 * n then i else unat b)"
  using assms(1)
proof (induction "n - k" arbitrary: k)
  case 0
  then show ?case by (subst find_first_bit_loop.simps) (simp add: first_idx_def)
next
  case (Suc d)
  then have kn: "k < n" by simp
  let ?P = "\<lambda>i. l2w_test_bit i addr"
  have sp: "first_idx ?P (32 * k) (32 * n) =
      (if first_idx ?P (32 * k) (32 * k + 32) < 32 * k + 32 then first_idx ?P (32 * k) (32 * k + 32)
       else first_idx ?P (32 * Suc k) (32 * n))"
    using first_idx_split[of "32 * k" "32 * k + 32" "32 * n" ?P] kn by (simp add: add.commute)
  show ?case
  proof (cases "addr ! k = 0")
    case True
    then have "first_idx (bit (addr ! k)) 0 32 = 32" by (simp add: first_idx_none_iff)
    then have "first_idx ?P (32 * k) (32 * n) = first_idx ?P (32 * Suc k) (32 * n)"
      using sp first_idx_word(1)[of addr k] by simp
    then show ?thesis
      using True kn Suc.hyps(1)[of "Suc k"] Suc.hyps(2) by (subst find_first_bit_loop.simps) simp
  next
    case False
    note e = set_bit_in_dword_eq[OF False]
    have "first_idx ?P (32 * k) (32 * n) = 32 * k + set_bit_in_dword (addr ! k)"
      using sp first_idx_word(1)[of addr k] e by simp
    moreover have lt: "32 * k + set_bit_in_dword (addr ! k) < 32 * n" using kn e(2) by simp
    moreover have "unat (of_nat (32 * k + set_bit_in_dword (addr ! k)) :: u32) = 32 * k + set_bit_in_dword (addr ! k)"
      by (rule unat_of_nat_less) (use lt assms(2) in simp)
    ultimately show ?thesis using False kn by (subst find_first_bit_loop.simps) simp
  qed
qed

lemma find_first_zero_bit_loop_eq:
  assumes "k \<le> n" "32 * n < 2 ^ 32"
  shows "unat (find_first_zero_bit_loop addr k n b) =
    (let i = first_idx (\<lambda>i. \<not> l2w_test_bit i addr) (32 * k) (32 * n) in if i < 32 * n then i else unat b)"
  using assms(1)
proof (induction "n - k" arbitrary: k)
  case 0
  then show ?case by (subst find_first_zero_bit_loop.simps) (simp add: first_idx_def)
next
  case (Suc d)
  then have kn: "k < n" by simp
  let ?P = "\<lambda>i. \<not> l2w_test_bit i addr"
  have sp: "first_idx ?P (32 * k) (32 * n) =
      (if first_idx ?P (32 * k) (32 * k + 32) < 32 * k + 32 then first_idx ?P (32 * k) (32 * k + 32)
       else first_idx ?P (32 * Suc k) (32 * n))"
    using first_idx_split[of "32 * k" "32 * k + 32" "32 * n" ?P] kn by (simp add: add.commute)
  show ?case
  proof (cases "NOT (addr ! k) = 0")
    case True
    then have "first_idx (\<lambda>i. \<not> bit (addr ! k) i) 0 32 = 32"
      by (simp add: first_idx_none_iff not_eq_0_iff_all_bit)
    then have "first_idx ?P (32 * k) (32 * n) = first_idx ?P (32 * Suc k) (32 * n)"
      using sp first_idx_word(2)[of addr k] by simp
    then show ?thesis
      using True kn Suc.hyps(1)[of "Suc k"] Suc.hyps(2) by (subst find_first_zero_bit_loop.simps) simp
  next
    case False
    note e = clr_bit_in_dword_eq[OF False]
    have "first_idx ?P (32 * k) (32 * n) = 32 * k + clr_bit_in_dword (addr ! k)"
      using sp first_idx_word(2)[of addr k] e by simp
    moreover have lt: "32 * k + clr_bit_in_dword (addr ! k) < 32 * n" using kn e(2) by simp
    moreover have "unat (of_nat (32 * k + clr_bit_in_dword (addr ! k)) :: u32) = 32 * k + clr_bit_in_dword (addr ! k)"
      by (rule unat_of_nat_less) (use lt assms(2) in simp)
    ultimately show ?thesis using False kn by (subst find_first_zero_bit_loop.simps) simp
  qed
qed

lemma unat_bits_to_longs:
  assumes "unat n \<le> 2 ^ 32 - 32"
  shows "unat (bits_to_longs n) = (unat n + 31) div 32"
proof -
  have "unat (n + 31) = unat n + 31"
    by (subst unat_plus_simple[THEN iffD1]) (use assms in \<open>auto simp: no_olen_add_nat\<close>)
  moreover have "bits_to_longs n = (n + 31) div 32" by (simp add: bits_to_longs_def add.commute)
  moreover have "unat (32 :: u32) = 32" by simp
  ultimately show ?thesis by (simp only: unat_div)
qed

lemma find_first_bit_eq:
  assumes "unat n \<le> 2 ^ 32 - 64"
  shows "unat (find_first_bit addr n) =
    (let hi = 32 * ((unat n + 31) div 32); i = first_idx (\<lambda>i. l2w_test_bit i addr) 0 hi
     in if i < hi then i else unat n)"
  using find_first_bit_loop_eq[of 0 "(unat n + 31) div 32" addr n] assms
  by (simp add: find_first_bit_def unat_bits_to_longs Let_def)

lemma find_first_zero_bit_eq:
  assumes "unat n \<le> 2 ^ 32 - 64"
  shows "unat (find_first_zero_bit addr n) =
    (let hi = 32 * ((unat n + 31) div 32); i = first_idx (\<lambda>i. \<not> l2w_test_bit i addr) 0 hi
     in if i < hi then i else unat n)"
  using find_first_zero_bit_loop_eq[of 0 "(unat n + 31) div 32" addr n] assms
  by (simp add: find_first_zero_bit_def unat_bits_to_longs Let_def)

lemma longs_bound: "(n::nat) \<le> 32 * ((n + 31) div 32)" "32 * ((n + 31) div 32) \<le> n + 31"
  by linarith+

lemma min_first_idx_longs:
  assumes "r = (let hi = 32 * ((n + 31) div 32); i = first_idx P 0 hi in if i < hi then i else n)"
  shows "min r n = first_idx P 0 n"
proof -
  let ?hi = "32 * ((n + 31) div 32)"
  have "min (first_idx P 0 ?hi) n = first_idx P 0 n"
    by (rule first_idx_min) (use longs_bound[of n] in auto)
  moreover have "r = first_idx P 0 ?hi \<or> r = n \<and> first_idx P 0 ?hi = ?hi"
    using assms first_idx_bounds(2)[of 0 ?hi P] by (auto simp: Let_def split: if_splits)
  ultimately show ?thesis using longs_bound(1)[of n] by (auto simp: min_def split: if_splits)
qed

lemma find_first_bit_min:
  assumes "unat n \<le> 2 ^ 32 - 64"
  shows "min (unat (find_first_bit addr n)) (unat n) = first_idx (\<lambda>i. l2w_test_bit i addr) 0 (unat n)"
  by (rule min_first_idx_longs) (rule find_first_bit_eq[OF assms])

lemma find_first_zero_bit_min:
  assumes "unat n \<le> 2 ^ 32 - 64"
  shows "min (unat (find_first_zero_bit addr n)) (unat n) = first_idx (\<lambda>i. \<not> l2w_test_bit i addr) 0 (unat n)"
  by (rule min_first_idx_longs) (rule find_first_zero_bit_eq[OF assms])

lemma test_bit_drop:
  "p \<le> length addr \<Longrightarrow> l2w_test_bit i (drop p addr) = l2w_test_bit (32 * p + i) addr"
  by (simp add: l2w_test_bit_iff)

text \<open>The tail of \<open>find_next_zero_bit\<close>: a search from word \<open>p\<close> on, where \<open>p\<close> may lie one
  word past the last one, so that the remaining size wraps below zero.\<close>

lemma find_next_rest:
  fixes n b :: u32
  assumes n: "unat n \<le> 2 ^ 31" and len: "unat n \<le> 32 * length addr"
    and p: "32 * p < unat n + 32" and b: "unat b = 32 * p"
  shows "min (unat (find_first_zero_bit (drop p addr) (n - 32 * of_nat p) + b)) (unat n) =
    (if 32 * p \<le> unat n then first_idx (\<lambda>i. \<not> l2w_test_bit i addr) (32 * p) (unat n) else unat n)"
proof -
  have bw: "b = 32 * of_nat p"
  proof -
    have "of_nat (unat b) = (of_nat (32 * p) :: u32)" by (simp only: b)
    then show ?thesis by simp
  qed
  let ?m = "n - 32 * of_nat p"
  show ?thesis
  proof (cases "32 * p \<le> unat n")
    case True
    then have um: "unat ?m = unat n - 32 * p"
      using b bw unat_sub[of b n] by (simp add: word_le_nat_alt)
    then have um_b: "unat ?m \<le> 2 ^ 32 - 64" using n by simp
    let ?P = "\<lambda>i. \<not> l2w_test_bit i addr"
    let ?hi = "32 * ((unat ?m + 31) div 32)"
    let ?r = "unat (find_first_zero_bit (drop p addr) ?m)"
    have pl: "p \<le> length addr" using True len by simp
    have r: "min ?r (unat ?m) = first_idx (\<lambda>i. ?P (32 * p + i)) 0 (unat ?m)"
      using find_first_zero_bit_min[OF um_b, of "drop p addr"] pl by (simp add: test_bit_drop)
    have rle: "?r \<le> unat ?m + 31"
      using find_first_zero_bit_eq[OF um_b, of "drop p addr"] longs_bound(2)[of "unat ?m"]
        first_idx_bounds(2)[of 0 ?hi "\<lambda>i. \<not> l2w_test_bit i (drop p addr)"]
      by (auto simp: Let_def split: if_splits)
    have "unat (find_first_zero_bit (drop p addr) ?m + b) = ?r + 32 * p"
      using rle um n True b
      by (subst unat_plus_simple[THEN iffD1]) (auto simp: no_olen_add_nat)
    moreover have "min (?r + 32 * p) (unat n) = min ?r (unat ?m) + 32 * p"
      using um True by (auto simp: min_def)
    moreover have "first_idx ?P (32 * p) (unat n) = 32 * p + first_idx (\<lambda>i. ?P (32 * p + i)) 0 (unat ?m)"
      using first_idx_shift[of 0 "unat ?m" ?P "32 * p"] um True by simp
    ultimately show ?thesis using r True by simp
  next
    case False
    have m31: "unat (?m + 31) = unat n + 31 - 32 * p"
    proof -
      have e: "?m + 31 = (n + 31) - b" by (simp add: bw)
      have n31: "unat (n + 31) = unat n + 31"
        by (subst unat_plus_simple[THEN iffD1]) (use n in \<open>auto simp: no_olen_add_nat\<close>)
      moreover have "unat ((n + 31) - b) = unat (n + 31) - unat b"
        by (rule unat_sub) (use n31 p b in \<open>simp add: word_le_nat_alt\<close>)
      ultimately show ?thesis unfolding e using b n31 by simp
    qed
    moreover have "bits_to_longs ?m = (?m + 31) div 32" by (simp add: bits_to_longs_def algebra_simps)
    moreover have "unat (32 :: u32) = 32" by simp
    ultimately have "unat (bits_to_longs ?m) = (unat n + 31 - 32 * p) div 32" by (simp only: unat_div)
    then have "unat (bits_to_longs ?m) = 0" using False by simp
    then have "find_first_zero_bit (drop p addr) ?m = ?m"
      by (simp add: find_first_zero_bit_def find_first_zero_bit_loop.simps)
    then show ?thesis using False bw by simp
  qed
qed

lemma unat_and_31: "unat (x AND 31 :: u32) = unat x mod 32"
proof -
  have "x AND 31 = take_bit 5 x" by (simp add: take_bit_eq_mask mask_eq_exp_minus_1)
  then have "unat (x AND 31) = take_bit 5 (unat x)" by (simp only: unsigned_take_bit_eq)
  then show ?thesis by (simp add: take_bit_eq_mod)
qed

lemma and_not_add_and: "(x AND NOT m) + (x AND m) = (x :: 'a::len word)"
proof -
  have "(x AND NOT m) + (x AND m) = (x AND NOT m) OR (x AND m)"
    by (rule disjunctive_add) (auto simp: bit_and_iff bit_not_iff)
  also have "\<dots> = x" by (rule bit_word_eqI) (auto simp: bit_and_iff bit_or_iff bit_not_iff possible_bit_def)
  finally show ?thesis .
qed

lemma unat_and_not_31: "unat (x AND NOT 31 :: u32) = 32 * (unat x div 32)"
proof -
  have "x AND NOT 31 = x - (x AND 31)" using and_not_add_and[of x 31] by (simp add: algebra_simps)
  moreover have "unat (x - (x AND 31)) = unat x - unat (x AND 31)"
    by (rule unat_sub) (rule word_and_le2)
  ultimately show ?thesis by (simp add: unat_and_31 minus_mod_eq_mult_div)
qed

lemma find_next_zero_bit_min:
  assumes n: "unat n \<le> 2 ^ 31" and len: "unat n \<le> 32 * length addr" and ofs: "unat ofs \<le> unat n"
  shows "min (unat (find_next_zero_bit addr n ofs)) (unat n) =
    first_idx (\<lambda>i. \<not> l2w_test_bit i addr) (unat ofs) (unat n)"
proof -
  let ?P = "\<lambda>i. \<not> l2w_test_bit i addr"
  define base where "base = ofs AND NOT 31"
  define p where "p = unat (drop_bit 5 base)"
  define ix where "ix = unat ofs mod 32"
  have ub: "unat base = 32 * (unat ofs div 32)" by (simp only: base_def unat_and_not_31)
  have "p = unat base div 32"
    by (simp only: p_def drop_bit_eq_div unat_div) simp
  then have p: "p = unat ofs div 32" by (simp add: ub)
  have bp: "unat base = 32 * p" using ub p by simp
  have po: "32 * p + ix = unat ofs" by (simp add: p ix_def)
  have ixl: "ix < 32" by (simp add: ix_def)
  have ix0: "ofs AND 31 \<noteq> 0 \<longleftrightarrow> ix \<noteq> 0"
    by (metis ix_def unat_and_31 unat_eq_zero)
  show ?thesis
  proof (cases "ix = 0")
    case True
    have "find_next_zero_bit addr n ofs = find_first_zero_bit (drop p addr) (n - 32 * of_nat p) + base"
      using True ix0 by (simp add: find_next_zero_bit_def Let_def p_def base_def)
    then show ?thesis
      using find_next_rest[OF n len _ bp] True po ofs by simp
  next
    case False
    let ?i = "first_idx (\<lambda>i. \<not> bit (addr ! p) i) ix 32"
    have res: "ffz_raw (addr ! p) (unat (ofs AND 31)) = (if ?i < 32 then ?i + 1 else 0)"
      using ixl by (simp add: ffz_raw_eq Let_def unat_and_31 ix_def)
    have ile: "?i \<le> 32" using first_idx_bounds(2)[of ix 32] ixl by simp
    have win: "first_idx ?P (unat ofs) (32 * p + 32) = 32 * p + ?i"
      using first_idx_shift[of ix 32 ?P "32 * p"] ixl po
        first_idx_cong[of ix 32 "\<lambda>i. ?P (32 * p + i)" "\<lambda>i. \<not> bit (addr ! p) i"]
      by (simp add: l2w_test_bit_iff)
    show ?thesis
    proof (cases "?i < 32")
      case True
      have "find_next_zero_bit addr n ofs = base + of_nat ?i"
        using False ix0 res True by (simp add: find_next_zero_bit_def Let_def p_def base_def)
      moreover have "unat (base + of_nat ?i) = 32 * p + ?i"
      proof -
        have u: "unat (of_nat ?i :: u32) = ?i" by (rule unat_of_nat_less) (use True in simp)
        show ?thesis
          using u bp True po ofs n
          by (subst unat_plus_simple[THEN iffD1]) (auto simp: no_olen_add_nat)
      qed
      ultimately have "unat (find_next_zero_bit addr n ofs) = first_idx ?P (unat ofs) (32 * p + 32)"
        by (simp add: win)
      moreover have "min (first_idx ?P (unat ofs) (32 * p + 32)) (unat n) = first_idx ?P (unat ofs) (unat n)"
        by (rule first_idx_min) (use ofs win True po ixl in auto)
      ultimately show ?thesis by simp
    next
      case i32: False
      have b32: "unat (base + 32) = 32 * (p + 1)"
        using bp po ofs n
        by (subst unat_plus_simple[THEN iffD1]) (auto simp: no_olen_add_nat)
      have "find_next_zero_bit addr n ofs =
          find_first_zero_bit (drop (p + 1) addr) (n - 32 * of_nat (p + 1)) + (base + 32)"
        using False ix0 res i32 by (simp add: find_next_zero_bit_def Let_def p_def base_def)
      moreover have "32 * (p + 1) < unat n + 32" using po ofs False by simp
      ultimately have r: "min (unat (find_next_zero_bit addr n ofs)) (unat n) =
          (if 32 * (p + 1) \<le> unat n then first_idx ?P (32 * (p + 1)) (unat n) else unat n)"
        using find_next_rest[OF n len _ b32] by simp
      have none: "\<And>j. unat ofs \<le> j \<Longrightarrow> j < 32 * p + 32 \<Longrightarrow> \<not> ?P j"
        using first_idx_none_iff[of "unat ofs" "32 * p + 32" ?P] win ile i32 po ixl by simp
      show ?thesis
      proof (cases "32 * (p + 1) \<le> unat n")
        case True
        have "first_idx ?P (unat ofs) (unat n) = first_idx ?P (32 * (p + 1)) (unat n)"
          by (rule first_idx_skip) (use True none po ixl in auto)
        with r True show ?thesis by simp
      next
        case False
        then have "first_idx ?P (unat ofs) (unat n) = unat n"
          using none ofs by (subst first_idx_none_iff) auto
        with r False show ?thesis by simp
      qed
    qed
  qed
qed

lemma bit_bitmap_last_word_mask [wofed_bits]:
  "bit (bitmap_last_word_mask n) i \<longleftrightarrow> i < 32 \<and> (n mod 32 = 0 \<or> i < n mod 32)"
proof (cases "n mod 32 = 0")
  case True
  then show ?thesis by (simp add: bitmap_last_word_mask_def)
next
  case False
  then have "bitmap_last_word_mask n = mask (n mod 32)"
    by (simp add: bitmap_last_word_mask_def mask_eq_exp_minus_1)
  with False show ?thesis by (auto simp: bit_mask_iff possible_bit_def)
qed

lemma and_eq_0_iff_bits:
  fixes a b :: "'a::len word"
  shows "a AND b = 0 \<longleftrightarrow> (\<forall>i < LENGTH('a). bit b i \<longrightarrow> \<not> bit a i)"
  by (auto simp: eq_0_iff_no_bit bit_and_iff)

lemma all_words_iff:
  "(\<forall>i < (n::nat). P (i div 32) (i mod 32)) \<longleftrightarrow>
     (\<forall>k < n div 32. \<forall>i < 32. P k i) \<and> (\<forall>i < n mod 32. P (n div 32) i)"
  (is "?L \<longleftrightarrow> ?R")
proof
  assume L: ?L
  show ?R
  proof (intro conjI allI impI)
    fix k i assume "k < n div 32" "i < (32::nat)"
    then have "32 * k + i < n" by linarith
    then show "P k i" using L[rule_format, of "32 * k + i"] \<open>i < 32\<close> by simp
  next
    fix i assume i: "i < n mod 32"
    moreover have "32 * (n div 32) + n mod 32 = n" by simp
    ultimately have "32 * (n div 32) + i < n" by linarith
    then show "P (n div 32) i"
      using L[rule_format, of "32 * (n div 32) + i"] i by (simp add: less_trans[of _ "n mod 32" 32])
  qed
next
  assume R: ?R
  show ?L
  proof (intro allI impI)
    fix i assume i: "i < n"
    show "P (i div 32) (i mod 32)"
    proof (cases "i div 32 < n div 32")
      case True
      with R show ?thesis by simp
    next
      case False
      with i have "i div 32 = n div 32" using div_le_mono[of i n 32] by simp
      moreover from this i have "i mod 32 < n mod 32"
        using mult_div_mod_eq[of 32 i] mult_div_mod_eq[of 32 n] by linarith
      ultimately show ?thesis using R by simp
    qed
  qed
qed

lemma last_word_all_iff:
  assumes "0 < (n::nat)"
  shows "(\<forall>i < 32. (n mod 32 = 0 \<or> i < n mod 32) \<longrightarrow> Q i) \<longleftrightarrow>
    (if n mod 32 = 0 then \<forall>i < 32. Q i else \<forall>i < n mod 32. Q i)"
  by (auto dest: order.strict_trans[of _ "n mod 32" 32])

lemma bitmap_full_iff:
  assumes "0 < n"
  shows "bitmap_full src n \<longleftrightarrow> (\<forall>i < n. l2w_test_bit i src)"
proof -
  have w: "NOT w AND bitmap_last_word_mask n = 0 \<longleftrightarrow>
      (if n mod 32 = 0 then \<forall>i < 32. bit w i else \<forall>i < n mod 32. bit w i)" for w :: u32
    using last_word_all_iff[OF assms, of "bit w"]
    by (auto simp: and_eq_0_iff_bits bit_not_iff possible_bit_def wofed_bits)
  have all: "(\<forall>i < n. l2w_test_bit i src) \<longleftrightarrow>
      (\<forall>k < n div 32. \<forall>i < 32. bit (src ! k) i) \<and> (\<forall>i < n mod 32. bit (src ! (n div 32)) i)"
    using all_words_iff[of n "\<lambda>k i. bit (src ! k) i"] by (simp add: l2w_test_bit_iff)
  show ?thesis
  proof (cases "n \<le> 32")
    case True
    then have "n = 32 \<or> n div 32 = 0 \<and> n mod 32 = n" by auto
    then show ?thesis using True w assms by (auto simp: bitmap_full_def l2w_test_bit_iff)
  next
    case False
    then show ?thesis
      using w by (auto simp: bitmap_full_def bitmap_full_long_def Let_def list_all_iff all not_eq_0_iff_all_bit)
  qed
qed

lemma bitmap_empty_iff:
  assumes "0 < n"
  shows "bitmap_empty src n \<longleftrightarrow> (\<forall>i < n. \<not> l2w_test_bit i src)"
proof -
  have w: "w AND bitmap_last_word_mask n = 0 \<longleftrightarrow>
      (if n mod 32 = 0 then \<forall>i < 32. \<not> bit w i else \<forall>i < n mod 32. \<not> bit w i)" for w :: u32
    using last_word_all_iff[OF assms, of "\<lambda>i. \<not> bit w i"]
    by (auto simp: and_eq_0_iff_bits wofed_bits)
  have all: "(\<forall>i < n. \<not> l2w_test_bit i src) \<longleftrightarrow>
      (\<forall>k < n div 32. \<forall>i < 32. \<not> bit (src ! k) i) \<and> (\<forall>i < n mod 32. \<not> bit (src ! (n div 32)) i)"
    using all_words_iff[of n "\<lambda>k i. \<not> bit (src ! k) i"] by (simp add: l2w_test_bit_iff)
  show ?thesis
  proof (cases "n \<le> 32")
    case True
    then have "n = 32 \<or> n div 32 = 0 \<and> n mod 32 = n" by auto
    then show ?thesis using True w assms by (auto simp: bitmap_empty_def l2w_test_bit_iff)
  next
    case False
    then show ?thesis
      using w by (auto simp: bitmap_empty_def bitmap_empty_long_def Let_def list_all_iff all eq_0_iff_no_bit)
  qed
qed

lemma test_bit_replicate: "i < 32 * n \<Longrightarrow> l2w_test_bit i (replicate n 0) = False"
  by (simp add: l2w_test_bit_iff less_mult_imp_div_less mult.commute)

lemma length_bitmap_zero [simp]:
  "n \<le> 32 * length dst \<Longrightarrow> length (bitmap_zero dst n) = length dst"
  by (auto simp: bitmap_zero_def)

lemma test_bit_bitmap_zero:
  assumes "n \<le> 32 * length dst" "i < n"
  shows "\<not> l2w_test_bit i (bitmap_zero dst n)"
proof -
  have "dst \<noteq> []" using assms by auto
  with assms show ?thesis
    by (cases dst) (auto simp: bitmap_zero_def l2w_test_bit_iff nth_append)
qed

lemma length_bitmap_fill [simp]:
  "n \<le> 32 * length dst \<Longrightarrow> length (bitmap_fill dst n) = length dst"
  by (auto simp: bitmap_fill_def Let_def)

lemma test_bit_bitmap_fill:
  assumes "0 < n" "n \<le> 32 * length dst" "i < 32 * ((n + 31) div 32)"
  shows "l2w_test_bit i (bitmap_fill dst n) \<longleftrightarrow> i < n"
proof -
  let ?L = "(n + 31) div 32"
  have L: "0 < ?L" "?L \<le> length dst" using assms by linarith+
  have dst: "dst \<noteq> []" using L by auto
  have ik: "i div 32 < ?L" using assms(3) by (simp add: less_mult_imp_div_less mult.commute)
  show ?thesis
  proof (cases "i div 32 = ?L - 1")
    case True
    then have "l2w_test_bit i (bitmap_fill dst n) = bit (bitmap_last_word_mask n) (i mod 32)"
      using L dst by (cases dst) (auto simp: bitmap_fill_def Let_def l2w_test_bit_iff)
    also have "\<dots> \<longleftrightarrow> i < n"
    proof -
      have i: "i = 32 * (?L - 1) + i mod 32" using True mult_div_mod_eq[of 32 i] by simp
      have n1: "n = 32 * ?L" if m0: "n mod 32 = 0"
      proof -
        obtain q where "n = 32 * q" using m0 mult_div_mod_eq[of 32 n] by (metis add_0_right)
        then show ?thesis by simp
      qed
      have n2: "n = 32 * (?L - 1) + n mod 32" if "n mod 32 \<noteq> 0"
      proof -
        have "?L = n div 32 + 1" using that mult_div_mod_eq[of 32 n] by linarith
        then show ?thesis by simp
      qed
      show ?thesis
        using i n1 n2 L(1) by (cases "n mod 32 = 0") (auto simp: wofed_bits)
    qed
    finally show ?thesis .
  next
    case False
    with ik have lt: "i div 32 < ?L - 1" by simp
    then have "i < n" using longs_bound(2)[of n] by linarith
    moreover have "l2w_test_bit i (bitmap_fill dst n)"
      using lt L by (auto simp: bitmap_fill_def Let_def l2w_test_bit_iff nth_append)
    ultimately show ?thesis by simp
  qed
qed

section \<open>Properties\<close>

lemma find_next_zero_bit_correct_parts:
  assumes "unat n \<le> 2 ^ 31" "unat n \<le> 32 * length addr" "unat ofs \<le> unat n"
  shows "unat (find_next_zero_bit addr n ofs) < unat n \<longleftrightarrow>
      (\<exists>j. unat ofs \<le> j \<and> j < unat n \<and> \<not> l2w_test_bit j addr)"
    and "unat (find_next_zero_bit addr n ofs) < unat n \<Longrightarrow>
      unat ofs \<le> unat (find_next_zero_bit addr n ofs) \<and>
      \<not> l2w_test_bit (unat (find_next_zero_bit addr n ofs)) addr \<and>
      (\<forall>j. unat ofs \<le> j \<and> j < unat (find_next_zero_bit addr n ofs) \<longrightarrow> l2w_test_bit j addr)"
proof -
  let ?r = "find_next_zero_bit addr n ofs" and ?P = "\<lambda>i. \<not> l2w_test_bit i addr"
  let ?k = "first_idx ?P (unat ofs) (unat n)"
  have m: "min (unat ?r) (unat n) = ?k" by (rule find_next_zero_bit_min[OF assms])
  then have lt: "unat ?r < unat n \<longleftrightarrow> ?k < unat n" by auto
  have "?k < unat n \<longleftrightarrow> (\<exists>j. unat ofs \<le> j \<and> j < unat n \<and> ?P j)"
    using first_idx_none_iff[OF assms(3), of ?P] first_idx_bounds(2)[OF assms(3), of ?P] by auto
  with lt show "unat ?r < unat n \<longleftrightarrow> (\<exists>j. unat ofs \<le> j \<and> j < unat n \<and> ?P j)" by simp
  assume r: "unat ?r < unat n"
  then have e: "unat ?r = ?k" using m by simp
  show "unat ofs \<le> unat ?r \<and> ?P (unat ?r) \<and> (\<forall>j. unat ofs \<le> j \<and> j < unat ?r \<longrightarrow> l2w_test_bit j addr)"
    unfolding e using first_idx_bounds(1)[OF assms(3), of ?P] first_idx_hit[of ?P] first_idx_below[of "unat ofs" _ ?P] r e
    by auto
qed

text \<open>C26. \<open>find_next_zero_bit\<close> searches from \<open>ofs\<close>: when some bit from \<open>ofs\<close> on and below the size is
  clear it returns the least such position, and otherwise a value not below the size.  The offset
  may point into the middle of a word or at the end of the table.\<close>

theorem find_next_zero_bit_correct:
  assumes "unat n \<le> 2 ^ 31" "unat n \<le> 32 * length addr" "unat ofs \<le> unat n"
  defines "r \<equiv> unat (find_next_zero_bit addr n ofs)"
  shows "(r < unat n \<longleftrightarrow> (\<exists>j. unat ofs \<le> j \<and> j < unat n \<and> \<not> l2w_test_bit j addr)) \<and>
    (r < unat n \<longrightarrow> unat ofs \<le> r \<and> \<not> l2w_test_bit r addr \<and>
      (\<forall>j. unat ofs \<le> j \<and> j < r \<longrightarrow> l2w_test_bit j addr))"
  unfolding r_def using find_next_zero_bit_correct_parts[OF assms(1-3)] by blast

theorem find_next_zero_bit_correct_witness:
  "unat (find_next_zero_bit [0xFFFFFFFF, 0x0000000F] 64 20) < unat (64 :: u32) \<and>
   \<not> l2w_test_bit (unat (find_next_zero_bit [0xFFFFFFFF, 0x0000000F] 64 20)) [0xFFFFFFFF, 0x0000000F]"
proof -
  have h: "unat (64 :: u32) \<le> 2 ^ 31" "unat (64 :: u32) \<le> 32 * length [0xFFFFFFFF, 0x0000000F :: u32]"
    "unat (20 :: u32) \<le> unat (64 :: u32)" by simp_all
  note H = find_next_zero_bit_correct[OF h]
  have "\<not> l2w_test_bit 36 [0xFFFFFFFF, 0x0000000F]" by code_simp
  moreover have "unat (20 :: u32) \<le> 36" "36 < unat (64 :: u32)" by simp_all
  ultimately show ?thesis using H by blast
qed

text \<open>C34. The byte-table searches agree with the bit-by-bit ones for every word: \<open>ffs\<close> and
  \<open>ffz\<close>, which look the first interesting byte up in 256-entry tables, return what
  \<open>ffs_raw\<close> and \<open>ffz_raw\<close> return from offset 0.\<close>

theorem dword_tables_correct: "ffs w = ffs_raw w 0 \<and> ffz w = ffz_raw w 0"
proof (rule conjI)
  have "first_idx (bit w) 0 32 < 32 \<longleftrightarrow> w \<noteq> 0"
    using first_idx_none_iff[of 0 32 "bit w"] first_idx_bounds(2)[of 0 32 "bit w"]
    by (auto simp: eq_0_iff_no_bit)
  then show "ffs w = ffs_raw w 0" by (auto simp: ffs_eq ffs_raw_eq Let_def)
  have "first_idx (\<lambda>i. \<not> bit w i) 0 32 < 32 \<longleftrightarrow> NOT w \<noteq> 0"
    using first_idx_none_iff[of 0 32 "\<lambda>i. \<not> bit w i"] first_idx_bounds(2)[of 0 32 "\<lambda>i. \<not> bit w i"]
    by (auto simp: not_eq_0_iff_all_bit)
  then show "ffz w = ffz_raw w 0" by (auto simp: ffz_eq ffz_raw_eq Let_def)
qed

text \<open>C35. \<open>roundup_pow_of_two\<close> returns the least power of two that is not below its argument,
  for every argument from 1 to \<open>2^31\<close>.\<close>

theorem roundup_pow_of_two_correct:
  assumes "0 < x" "unat x \<le> 2 ^ 31"
  shows "\<exists>k \<le> 31. unat (roundup_pow_of_two x) = 2 ^ k \<and> unat x \<le> 2 ^ k \<and> (\<forall>j. unat x \<le> 2 ^ j \<longrightarrow> k \<le> j)"
proof -
  note R = roundup_pow_of_two_props[OF assms]
  let ?k = "fls (x - 1)"
  have "?k \<le> j" if j: "unat x \<le> 2 ^ j" for j
  proof (cases "x = 1")
    case True
    then show ?thesis by (simp add: fls_def)
  next
    case False
    then have "(2::nat) ^ ?k < 2 * 2 ^ j" using R(1,4) j by simp
    then have "(2::nat) ^ ?k < 2 ^ Suc j" by simp
    then have "?k < Suc j" by (rule power_less_imp_less_exp[rotated]) simp
    then show ?thesis by simp
  qed
  then show ?thesis using R by (intro exI[of _ ?k]) simp
qed

theorem roundup_pow_of_two_correct_witness:
  "\<exists>k \<le> 31. unat (roundup_pow_of_two 100) = 2 ^ k \<and> unat (100 :: u32) \<le> 2 ^ k \<and> (\<forall>j. unat (100 :: u32) \<le> 2 ^ j \<longrightarrow> k \<le> j)"
  by (rule roundup_pow_of_two_correct) simp_all

end
