(* ===== verification/Buddy_Spec.thy ===== *)
theory Buddy_Spec
  imports OFED_Prelude
begin

text \<open>
  The abstract buddy system behind the translation-table (MTT) and doorbell allocators of
  both drivers.  A block \<open>(k, i)\<close> of order \<open>k\<close> covers the units
  \<open>i * 2^k, ..., (i+1) * 2^k - 1\<close>.  The free and the live blocks together tile the
  managed range: every unit lies in exactly one of them.  Splitting a block and merging two
  buddies keep the tiling; the concrete bit tables are related to it in the driver theories.
\<close>

type_synonym block = "nat \<times> nat"

definition tiles :: "nat \<Rightarrow> block set \<Rightarrow> bool" where
  "tiles U S \<longleftrightarrow> (\<forall>k i. (k, i) \<in> S \<longrightarrow> (i + 1) * 2 ^ k \<le> U) \<and> (\<forall>u < U. \<exists>!k. (k, u div 2 ^ k) \<in> S)"

definition units :: "block \<Rightarrow> nat set" where
  "units b = {snd b * 2 ^ fst b..<(snd b + 1) * 2 ^ fst b}"

definition buddy :: "nat \<Rightarrow> nat" where
  "buddy i = (if even i then i + 1 else i - 1)"

lemma buddy_div [simp]: "buddy i div 2 = i div 2"
  by (auto simp: buddy_def elim!: oddE)

lemma buddy_neq [simp]: "buddy i \<noteq> i"
  by (auto simp: buddy_def elim!: oddE)

lemma buddy_buddy [simp]: "buddy (buddy i) = i"
  by (auto simp: buddy_def elim!: oddE)

lemma buddy_double [simp]: "buddy (2 * i) = 2 * i + 1"
  by (simp add: buddy_def)

lemma buddy_bound: "i < 2 * n \<Longrightarrow> buddy i < 2 * n"
  by (auto simp: buddy_def elim!: evenE oddE)

lemma buddy_pair: "{i, buddy i} = {2 * (i div 2), 2 * (i div 2) + 1}"
  by (auto simp: buddy_def elim!: evenE oddE)

lemma mem_units: "u \<in> units (k, i) \<longleftrightarrow> u div 2 ^ k = i"
proof -
  have "u div 2 ^ k = i \<longleftrightarrow> i * 2 ^ k \<le> u \<and> u < (i + 1) * 2 ^ k"
  proof
    assume i: "u div 2 ^ k = i"
    have "u = (u div 2 ^ k) * 2 ^ k + u mod 2 ^ k" "u mod 2 ^ k < 2 ^ k"
      by (rule div_mult_mod_eq[symmetric], rule mod_less_divisor) simp
    then show "i * 2 ^ k \<le> u \<and> u < (i + 1) * 2 ^ k" unfolding i distrib_right mult_1 by linarith
  next
    assume "i * 2 ^ k \<le> u \<and> u < (i + 1) * 2 ^ k"
    then show "u div 2 ^ k = i" by (intro div_nat_eqI) (auto simp: mult.commute)
  qed
  then show ?thesis by (auto simp: units_def)
qed

lemma units_below:
  assumes "u \<in> units (k, i)" "(i + 1) * 2 ^ k \<le> U"
  shows "u < U"
proof -
  have "u < (i + 1) * 2 ^ k" using assms(1) by (simp add: units_def)
  then show ?thesis using assms(2) by (rule order_less_le_trans)
qed

lemma tiles_bound: "tiles U S \<Longrightarrow> (k, i) \<in> S \<Longrightarrow> (i + 1) * 2 ^ k \<le> U"
  by (auto simp: tiles_def)

lemma tiles_unique:
  assumes "tiles U S" "(k, u div 2 ^ k) \<in> S" "(k', u div 2 ^ k') \<in> S" "u < U"
  shows "k = k'"
  using assms unfolding tiles_def by blast

lemma tiles_covers:
  assumes "tiles U S" "u < U"
  obtains k where "(k, u div 2 ^ k) \<in> S"
  using assms unfolding tiles_def by blast

lemma tiles_disjoint:
  assumes "tiles U S" "b \<in> S" "b' \<in> S" "b \<noteq> b'"
  shows "units b \<inter> units b' = {}"
proof (rule ccontr)
  assume "units b \<inter> units b' \<noteq> {}"
  then obtain u where u: "u \<in> units b" "u \<in> units b'" by blast
  obtain k i k' i' where b: "b = (k, i)" "b' = (k', i')" by (cases b, cases b')
  have e: "u div 2 ^ k = i" "u div 2 ^ k' = i'" using u by (simp_all add: b mem_units)
  have "u < (i + 1) * 2 ^ k" using u(1) by (simp add: b units_def)
  then have "u < U" using tiles_bound[OF assms(1), of k i] assms(2) b by simp
  then have "k = k'" using tiles_unique[OF assms(1)] assms(2,3) e b by blast
  then show False using e b assms(4) by simp
qed

lemma tiles_Union: "tiles U S \<Longrightarrow> \<Union> (units ` S) = {..<U}"
proof (intro equalityI subsetI)
  fix u assume t: "tiles U S" and "u \<in> \<Union> (units ` S)"
  then obtain k i where b: "(k, i) \<in> S" "u < (i + 1) * 2 ^ k" by (auto simp: units_def)
  then show "u \<in> {..<U}" using tiles_bound[OF t b(1)] by simp
next
  fix u assume t: "tiles U S" and "u \<in> {..<U}"
  then obtain k where "(k, u div 2 ^ k) \<in> S" by (auto elim: tiles_covers)
  moreover have "u \<in> units (k, u div 2 ^ k)" by (simp add: mem_units)
  ultimately show "u \<in> \<Union> (units ` S)" by blast
qed

lemma div_pow_Suc: "(u::nat) div 2 ^ Suc k = u div 2 ^ k div 2" "(u::nat) div (2 * 2 ^ k) = u div 2 ^ k div 2"
  using div_mult2_eq[of u "2 ^ k" 2] by (simp_all add: mult.commute)

lemma half_cases: "(j::nat) div 2 = i \<longleftrightarrow> j = 2 * i \<or> j = 2 * i + 1"
  by auto

lemma tiles_split:
  assumes t: "tiles U S" and b: "(Suc k, i) \<in> S"
  shows "tiles U (S - {(Suc k, i)} \<union> {(k, 2 * i), (k, 2 * i + 1)})"
proof -
  let ?T = "S - {(Suc k, i)} \<union> {(k, 2 * i), (k, 2 * i + 1)}"
  have mem: "(k', u div 2 ^ k') \<in> ?T \<longleftrightarrow>
      (if u div 2 ^ Suc k = i then k' = k \<or> (k', u div 2 ^ k') \<in> S \<and> k' \<noteq> Suc k
       else (k', u div 2 ^ k') \<in> S)" for u k'
    using half_cases[of "u div 2 ^ k" i] by (auto simp: div_pow_Suc)
  have "\<exists>!k'. (k', u div 2 ^ k') \<in> ?T" if u: "u < U" for u
  proof (cases "u div 2 ^ Suc k = i")
    case True
    have "k' = Suc k" if "(k', u div 2 ^ k') \<in> S" for k'
      using tiles_unique[OF t that _ u, of "Suc k"] True b by simp
    then show ?thesis using True unfolding mem by auto
  next
    case False
    then show ?thesis using t u unfolding mem by (simp add: tiles_def)
  qed
  moreover have "(j + 1) * 2 ^ k' \<le> U" if "(k', j) \<in> ?T" for k' j
    using that tiles_bound[OF t, of k' j] tiles_bound[OF t b] by (auto simp: distrib_right)
  ultimately show ?thesis unfolding tiles_def by fast
qed

lemma tiles_merge:
  assumes t: "tiles U S" and b: "(k, 2 * i) \<in> S" "(k, 2 * i + 1) \<in> S"
  shows "tiles U (S - {(k, 2 * i), (k, 2 * i + 1)} \<union> {(Suc k, i)})"
proof -
  let ?T = "S - {(k, 2 * i), (k, 2 * i + 1)} \<union> {(Suc k, i)}"
  have half: "u div 2 ^ Suc k = i \<longleftrightarrow> u div 2 ^ k = 2 * i \<or> u div 2 ^ k = 2 * i + 1" for u
    using half_cases[of "u div 2 ^ k" i] by (simp add: div_pow_Suc)
  have "\<exists>!k'. (k', u div 2 ^ k') \<in> ?T" if u: "u < U" for u
  proof (cases "u div 2 ^ Suc k = i")
    case True
    then have "u div 2 ^ k = 2 * i \<or> u div 2 ^ k = 2 * i + 1" by (simp only: half)
    then have "(k, u div 2 ^ k) \<in> S" using b by (elim disjE) simp_all
    then have kk: "k' = k" if "(k', u div 2 ^ k') \<in> S" for k'
      using tiles_unique[OF t that _ u] by blast
    have nT: "(k, u div 2 ^ k) \<notin> ?T"
      using \<open>u div 2 ^ k = 2 * i \<or> u div 2 ^ k = 2 * i + 1\<close> by (elim disjE) simp_all
    show ?thesis
    proof (rule ex1I[of _ "Suc k"])
      show "(Suc k, u div 2 ^ Suc k) \<in> ?T" by (simp only: True) simp
      fix k' assume k': "(k', u div 2 ^ k') \<in> ?T"
      then consider "k' = Suc k" | "(k', u div 2 ^ k') \<in> S" by blast
      then show "k' = Suc k" using kk nT k' by cases blast+
    qed
  next
    case False
    then have "(k', u div 2 ^ k') \<in> ?T \<longleftrightarrow> (k', u div 2 ^ k') \<in> S" for k'
      using half[of u] by blast
    then show ?thesis using t u unfolding tiles_def by simp
  qed
  moreover have "(j + 1) * 2 ^ k' \<le> U" if j: "(k', j) \<in> ?T" for k' j
  proof (cases "(k', j) \<in> S")
    case False
    then have e: "k' = Suc k" "j = i" using j by auto
    have "(i + 1) * 2 ^ Suc k = (2 * i + 1 + 1) * 2 ^ k" by simp
    then show ?thesis using tiles_bound[OF t b(2)] unfolding e by simp
  qed (rule tiles_bound[OF t])
  ultimately show ?thesis unfolding tiles_def by fast
qed

section \<open>Free and live blocks\<close>

text \<open>\<open>M\<close> is the largest order: no two buddies below it are both free.\<close>

definition binv :: "nat \<Rightarrow> nat \<Rightarrow> block set \<Rightarrow> block set \<Rightarrow> bool" where
  "binv M U F L \<longleftrightarrow> tiles U (F \<union> L) \<and> F \<inter> L = {} \<and> (\<forall>k i. (k, i) \<in> F \<union> L \<longrightarrow> k \<le> M) \<and>
     (\<forall>k i. (k, i) \<in> F \<longrightarrow> k < M \<longrightarrow> (k, buddy i) \<notin> F)"

lemma binv_live_disjoint:
  assumes "binv M U F L" "b \<in> L" "b' \<in> L" "b \<noteq> b'"
  shows "units b \<inter> units b' = {}"
  using assms tiles_disjoint[of U "F \<union> L" b b'] by (auto simp: binv_def)

lemma binv_take:
  assumes "binv M U F L" "b \<in> F"
  shows "binv M U (F - {b}) (insert b L)"
proof -
  have "(F - {b}) \<union> insert b L = F \<union> L" using assms(2) by auto
  then show ?thesis using assms by (auto simp: binv_def)
qed

text \<open>Splitting a block in hand (a live one): the odd half becomes free.\<close>

lemma binv_split:
  assumes I: "binv M U F L" and b: "(Suc k, i) \<in> L"
  shows "binv M U (insert (k, 2 * i + 1) F) (insert (k, 2 * i) (L - {(Suc k, i)}))"
proof -
  let ?S = "F \<union> L"
  have t: "tiles U ?S" "(Suc k, i) \<in> ?S" "(Suc k, i) \<notin> F" using I b by (auto simp: binv_def)
  have new: "(k, 2 * i) \<notin> ?S \<and> (k, 2 * i + 1) \<notin> ?S"
  proof -
    have "(k, j) \<notin> ?S" if "j div 2 = i" for j
    proof
      assume "(k, j) \<in> ?S"
      moreover have "units (k, j) \<subseteq> units (Suc k, i)" using that by (auto simp: mem_units div_pow_Suc)
      moreover have "j * 2 ^ k \<in> units (k, j)" by (simp add: mem_units)
      ultimately show False using tiles_disjoint[OF t(1) _ t(2), of "(k, j)"] by auto
    qed
    then show ?thesis by simp
  qed
  have S: "insert (k, 2 * i + 1) F \<union> insert (k, 2 * i) (L - {(Suc k, i)}) =
      ?S - {(Suc k, i)} \<union> {(k, 2 * i), (k, 2 * i + 1)}" using t(3) by auto
  have kM: "k \<le> M" using I b unfolding binv_def by (meson Suc_leD UnI2)
  have nb: "(k, buddy (2 * i + 1)) \<notin> F" using new by (simp add: buddy_def)
  have nb': "buddy j \<noteq> 2 * i + 1" if "(k, j) \<in> F" for j
  proof
    assume "buddy j = 2 * i + 1"
    then have "buddy (buddy j) = 2 * i" by (simp add: buddy_def)
    then show False using that new by simp
  qed
  have "tiles U (insert (k, 2 * i + 1) F \<union> insert (k, 2 * i) (L - {(Suc k, i)}))"
    unfolding S by (rule tiles_split[OF t(1,2)])
  then show ?thesis
    using I kM nb nb' new by (auto simp: binv_def)
qed

text \<open>Merging a block in hand with its free buddy.\<close>

lemma binv_merge:
  assumes I: "binv M U F L" and b: "(k, i) \<in> L" "(k, buddy i) \<in> F" "k < M"
  shows "binv M U (F - {(k, buddy i)}) (insert (Suc k, i div 2) (L - {(k, i)}))"
proof -
  let ?S = "F \<union> L" and ?j = "i div 2"
  have t: "tiles U ?S" "(k, i) \<notin> F" "(k, buddy i) \<notin> L" using I b by (auto simp: binv_def)
  have two: "{(k, i), (k, buddy i)} = {(k, 2 * ?j), (k, 2 * ?j + 1)}" using buddy_pair[of i] by auto
  moreover have "{(k, i), (k, buddy i)} \<subseteq> ?S" using b by auto
  ultimately have in2: "(k, 2 * ?j) \<in> ?S" "(k, 2 * ?j + 1) \<in> ?S" by blast+
  have new: "(Suc k, ?j) \<notin> ?S"
  proof
    assume "(Suc k, ?j) \<in> ?S"
    moreover have "(k, i) \<in> ?S" using b by simp
    moreover have "i * 2 ^ k \<in> units (k, i)" by (simp add: mem_units)
    moreover have "i * 2 ^ k \<in> units (Suc k, ?j)" by (simp add: mem_units div_pow_Suc)
    ultimately show False using tiles_disjoint[OF t(1), of "(Suc k, ?j)" "(k, i)"] by auto
  qed
  have S: "F - {(k, buddy i)} \<union> insert (Suc k, ?j) (L - {(k, i)}) =
      ?S - {(k, 2 * ?j), (k, 2 * ?j + 1)} \<union> {(Suc k, ?j)}" unfolding two[symmetric] using t b by auto
  have "tiles U (F - {(k, buddy i)} \<union> insert (Suc k, ?j) (L - {(k, i)}))"
    unfolding S by (rule tiles_merge[OF t(1) in2])
  then show ?thesis using I b new by (auto simp: binv_def)
qed

lemma binv_release:
  assumes I: "binv M U F L" and b: "(k, i) \<in> L" "k < M \<Longrightarrow> (k, buddy i) \<notin> F"
  shows "binv M U (insert (k, i) F) (L - {(k, i)})"
proof -
  have "insert (k, i) F \<union> (L - {(k, i)}) = F \<union> L" using b by auto
  moreover have "(k, buddy j) \<noteq> (k, i)" if "(k, j) \<in> F" "k < M" for j
  proof
    assume "(k, buddy j) = (k, i)"
    then have "buddy i = j" by auto
    then show False using that b(2) by simp
  qed
  ultimately show ?thesis using I b by (auto simp: binv_def)
qed

lemma div_pow_add: "(u::nat) div 2 ^ (k + d) = u div 2 ^ k div 2 ^ d"
  by (simp add: power_add div_mult2_eq)

lemma binv_unique:
  assumes "binv M U F L" "(k, u div 2 ^ k) \<in> F \<union> L" "(k', u div 2 ^ k') \<in> F \<union> L" "u < U"
  shows "k = k'"
  using assms tiles_unique[of U "F \<union> L"] by (auto simp: binv_def)

text \<open>Coalescing is complete: an aligned block with no live unit lies inside one free block.
  A smallest free block strictly inside it would have a buddy inside it too, and the block
  around the buddy would have to be the buddy itself.\<close>

lemma binv_no_small:
  assumes I: "binv M U F L" and k: "k \<le> M" "(i + 1) * 2 ^ k \<le> U"
    and nl: "\<And>b. b \<in> L \<Longrightarrow> units b \<inter> units (k, i) = {}"
    and u: "u div 2 ^ k = i" and m: "(m, u div 2 ^ m) \<in> F" "m < k"
    and least: "\<And>k' v. v div 2 ^ k = i \<Longrightarrow> (k', v div 2 ^ k') \<in> F \<Longrightarrow> m \<le> k'"
  shows False
proof -
  let ?j = "u div 2 ^ m" let ?v = "buddy ?j * 2 ^ m"
  have up: "?v div 2 ^ k' = u div 2 ^ k'" if "Suc m \<le> k'" for k'
  proof -
    obtain d where "k' = Suc m + d" using \<open>Suc m \<le> k'\<close> by (metis le_iff_add)
    then show ?thesis by (simp only: div_pow_add div_pow_Suc) simp
  qed
  have v: "?v div 2 ^ k = i" using up[of k] u m(2) by simp
  then have "?v \<in> units (k, i)" by (simp add: mem_units)
  then have vU: "?v < U" using k(2) by (rule units_below)
  have t: "tiles U (F \<union> L)" using I by (simp add: binv_def)
  obtain k' where k': "(k', ?v div 2 ^ k') \<in> F \<union> L" by (rule tiles_covers[OF t vU])
  have "?v \<in> units (k', ?v div 2 ^ k')" by (simp add: mem_units)
  then have "(k', ?v div 2 ^ k') \<notin> L" using nl \<open>?v \<in> units (k, i)\<close> by blast
  then have f: "(k', ?v div 2 ^ k') \<in> F" using k' by simp
  have "k' \<noteq> m" using f I m k(1) by (auto simp: binv_def)
  then have "Suc m \<le> k'" using least[OF v f] by simp
  then have "(k', u div 2 ^ k') \<in> F" using f up by simp
  moreover have "u < U"
  proof -
    have "u \<in> units (k, i)" using u by (simp add: mem_units)
    then show ?thesis using k(2) by (rule units_below)
  qed
  ultimately have "k' = m" using binv_unique[OF I, of k' u m] m(1) by simp
  with \<open>k' \<noteq> m\<close> show False ..
qed

lemma binv_coalesced:
  assumes I: "binv M U F L" and k: "k \<le> M" "(i + 1) * 2 ^ k \<le> U"
    and nl: "\<And>b. b \<in> L \<Longrightarrow> units b \<inter> units (k, i) = {}"
  shows "\<exists>k' \<ge> k. (k', (i * 2 ^ k) div 2 ^ k') \<in> F"
proof -
  let ?P = "\<lambda>m. \<exists>u. u div 2 ^ k = i \<and> (m, u div 2 ^ m) \<in> F"
  let ?u = "i * 2 ^ k"
  have u: "?u div 2 ^ k = i" by simp
  have "?u \<in> units (k, i)" by (simp add: mem_units)
  then have uU: "?u < U" using k(2) by (rule units_below)
  have t: "tiles U (F \<union> L)" using I by (simp add: binv_def)
  obtain k' where k': "(k', ?u div 2 ^ k') \<in> F \<union> L" by (rule tiles_covers[OF t uU])
  have "?u \<in> units (k', ?u div 2 ^ k')" by (simp add: mem_units)
  then have "(k', ?u div 2 ^ k') \<notin> L" using nl \<open>?u \<in> units (k, i)\<close> by blast
  then have f: "(k', ?u div 2 ^ k') \<in> F" using k' by simp
  then have P: "?P k'" using u by blast
  define m where "m = (LEAST m. ?P m)"
  have m: "?P m" unfolding m_def by (rule LeastI[of ?P, OF P])
  have least: "m \<le> k''" if "v div 2 ^ k = i" "(k'', v div 2 ^ k'') \<in> F" for k'' v
    unfolding m_def by (rule Least_le) (use that in blast)
  obtain w where w: "w div 2 ^ k = i" "(m, w div 2 ^ m) \<in> F" using m by blast
  have "\<not> m < k"
  proof
    assume "m < k"
    show False by (rule binv_no_small[of M U F L k i w m]) (fact I k nl w least \<open>m < k\<close>)+
  qed
  then have "k \<le> k'" using least[OF u f] by simp
  with f show ?thesis by blast
qed

text \<open>With nothing live, everything has coalesced into the top-order blocks.\<close>

lemma binv_all_free:
  assumes I: "binv M U F {}" and b: "(k, i) \<in> F" and top: "2 ^ M dvd U"
  shows "k = M"
proof -
  have t: "tiles U (F \<union> {})" "k \<le> M" using I b by (auto simp: binv_def)
  obtain q where q: "U = 2 ^ M * q" using top by (auto simp: dvd_def)
  let ?u = "i * 2 ^ k" let ?i = "?u div 2 ^ M"
  have "?u < (i + 1) * 2 ^ k" by simp
  also have "\<dots> \<le> U" using tiles_bound[OF t(1)] b by simp
  finally have u: "?u < U" .
  then have "?i < q" unfolding q by (simp add: less_mult_imp_div_less mult.commute)
  then have "(?i + 1) * 2 ^ M \<le> U" unfolding q by (simp only: mult.commute[of "2 ^ M" q] mult_le_cancel2) simp
  from binv_coalesced[OF I order_refl this] obtain k' where
    k': "M \<le> k'" "(k', (?i * 2 ^ M) div 2 ^ k') \<in> F" by auto
  then have "k' = M" using I by (fastforce simp: binv_def)
  then have "(M, ?u div 2 ^ M) \<in> F" using k'(2) by simp
  moreover have "(k, ?u div 2 ^ k) \<in> F" using b by simp
  ultimately show ?thesis using binv_unique[OF I, of k ?u M] u by simp
qed

lemma binv_initial: "binv M (2 ^ M) {(M, 0)} {}"
  by (auto simp: binv_def tiles_def)


section \<open>The contract of a segment allocator\<close>

text \<open>What the callers of both buddies rely on: \<open>al s k\<close> returns the first segment of a run of
  \<open>2^k\<close> segments or \<open>-1\<close>, \<open>fr s seg k\<close> gives the run back (\<open>None\<close> stands for an access
  outside the tables).  \<open>seg_trace\<close> is a client history with the runs held.\<close>

inductive seg_trace ::
  "('s \<Rightarrow> nat \<Rightarrow> u32 \<times> 's) \<Rightarrow> ('s \<Rightarrow> u32 \<Rightarrow> nat \<Rightarrow> 's option) \<Rightarrow> 's \<Rightarrow> 's \<Rightarrow> (nat \<times> u32) list \<Rightarrow> bool"
  for al :: "'s \<Rightarrow> nat \<Rightarrow> u32 \<times> 's" and fr :: "'s \<Rightarrow> u32 \<Rightarrow> nat \<Rightarrow> 's option" and s0 :: 's where
  seg_start: "seg_trace al fr s0 s0 []"
| seg_alloc: "seg_trace al fr s0 s hs \<Longrightarrow> al s k = (seg, s') \<Longrightarrow> seg \<noteq> -1 \<Longrightarrow>
    seg_trace al fr s0 s' ((k, seg) # hs)"
| seg_fail: "seg_trace al fr s0 s hs \<Longrightarrow> al s k = (-1, s') \<Longrightarrow> seg_trace al fr s0 s' hs"
| seg_free: "seg_trace al fr s0 s hs \<Longrightarrow> (k, seg) \<in> set hs \<Longrightarrow> fr s seg k = Some s' \<Longrightarrow>
    seg_trace al fr s0 s' (remove1 (k, seg) hs)"

definition seg_block :: "nat \<times> u32 \<Rightarrow> block" where
  "seg_block h = (fst h, unat (snd h) div 2 ^ fst h)"

definition seg_run :: "nat \<times> u32 \<Rightarrow> nat set" where
  "seg_run h = {unat (snd h)..<unat (snd h) + 2 ^ fst h}"

definition seg_aligned :: "nat \<times> u32 \<Rightarrow> bool" where
  "seg_aligned h \<longleftrightarrow> unat (snd h) = (unat (snd h) div 2 ^ fst h) * 2 ^ fst h"

lemma seg_run_units: "seg_aligned h \<Longrightarrow> seg_run h = units (seg_block h)"
  by (simp add: seg_run_def units_def seg_block_def seg_aligned_def distrib_right add.commute)

text \<open>Held runs are pairwise disjoint and inside the managed range.\<close>

definition runs_ok :: "nat \<Rightarrow> (nat \<times> u32) list \<Rightarrow> bool" where
  "runs_ok M hs \<longleftrightarrow> distinct hs \<and> (\<forall>h\<in>set hs. seg_run h \<subseteq> {..<2 ^ M}) \<and>
     (\<forall>h\<in>set hs. \<forall>h'\<in>set hs. h \<noteq> h' \<longrightarrow> seg_run h \<inter> seg_run h' = {})"

text \<open>No aligned run of \<open>2^k\<close> segments is untouched by the held runs.\<close>

definition no_run_left :: "nat \<Rightarrow> nat \<Rightarrow> (nat \<times> u32) list \<Rightarrow> bool" where
  "no_run_left M k hs \<longleftrightarrow>
     (\<forall>i < 2 ^ (M - k). \<exists>h\<in>set hs. seg_run h \<inter> {i * 2 ^ k..<(i + 1) * 2 ^ k} \<noteq> {})"

locale seg_allocator =
  fixes inv :: "'s \<Rightarrow> block set \<Rightarrow> bool"
    and mo :: "'s \<Rightarrow> nat"
    and free :: "'s \<Rightarrow> block set"
    and al :: "'s \<Rightarrow> nat \<Rightarrow> u32 \<times> 's"
    and fr :: "'s \<Rightarrow> u32 \<Rightarrow> nat \<Rightarrow> 's option"
  assumes inv_binv: "inv s L \<Longrightarrow> binv (mo s) (2 ^ mo s) (free s) L"
    and al_fail: "inv s L \<Longrightarrow> al s k = (-1, s') \<Longrightarrow> s' = s \<and> (\<forall>k' i. k \<le> k' \<longrightarrow> (k', i) \<notin> free s)"
    and al_ok: "inv s L \<Longrightarrow> al s k = (seg, s') \<Longrightarrow> seg \<noteq> -1 \<Longrightarrow>
      mo s' = mo s \<and> (\<exists>i. unat seg = i * 2 ^ k \<and> (k, i) \<notin> L \<and> inv s' (insert (k, i) L))"
    and fr_ok: "inv s L \<Longrightarrow> (k, i) \<in> L \<Longrightarrow> unat seg = i * 2 ^ k \<Longrightarrow>
      \<exists>s'. fr s seg k = Some s' \<and> mo s' = mo s \<and> inv s' (L - {(k, i)})"
begin

lemma trace_inv:
  assumes "seg_trace al fr s0 s hs" "inv s0 {}"
  shows "inv s (seg_block ` set hs) \<and> mo s = mo s0 \<and> distinct (map seg_block hs) \<and> (\<forall>h \<in> set hs. seg_aligned h)"
  using assms
proof (induction rule: seg_trace.induct)
  case seg_start
  then show ?case by simp
next
  case (seg_alloc s hs k seg s')
  then have I: "inv s (seg_block ` set hs)" by blast
  from al_ok[OF this seg_alloc.hyps(2,3)] obtain i where
    i: "mo s' = mo s" "unat seg = i * 2 ^ k" "(k, i) \<notin> seg_block ` set hs" "inv s' (insert (k, i) (seg_block ` set hs))"
    by blast
  have "seg_block (k, seg) = (k, i)" "seg_aligned (k, seg)" using i(2) by (simp_all add: seg_block_def seg_aligned_def)
  then show ?case using i seg_alloc by simp
next
  case (seg_fail s hs k s')
  then show ?case using al_fail[of s "seg_block ` set hs" k s'] by auto
next
  case (seg_free s hs k seg s')
  then have I: "inv s (seg_block ` set hs)" "distinct (map seg_block hs)" "\<forall>h\<in>set hs. seg_aligned h" by blast+
  have b: "seg_block (k, seg) \<in> seg_block ` set hs" using seg_free.hyps(2) by blast
  have "unat seg = (unat seg div 2 ^ k) * 2 ^ k" using I(3) seg_free.hyps(2) by (auto simp: seg_aligned_def)
  with fr_ok[OF I(1), of k "unat seg div 2 ^ k" seg] b seg_free.hyps(3)
  have f: "mo s' = mo s" "inv s' (seg_block ` set hs - {seg_block (k, seg)})" by (auto simp: seg_block_def)
  have d: "distinct hs" "inj_on seg_block (set hs)" using I(2) by (simp_all add: distinct_map)
  have "seg_block ` set (remove1 (k, seg) hs) = seg_block ` set hs - {seg_block (k, seg)}"
    using inj_on_image_set_diff[OF d(2), of "set hs" "{(k, seg)}"] d(1) seg_free.hyps(2) by simp
  moreover have "distinct (map seg_block (remove1 (k, seg) hs))"
    using d by (auto simp: distinct_map inj_on_def distinct_remove1 dest: notin_set_remove1)
  moreover have "\<forall>h\<in>set (remove1 (k, seg) hs). seg_aligned h" using I(3) by (auto dest: notin_set_remove1)
  ultimately show ?case using f seg_free by simp
qed

lemma trace_runs:
  assumes tr: "seg_trace al fr s0 s hs" "inv s0 {}" and h: "h \<in> set hs"
  shows "seg_run h \<subseteq> {..<2 ^ mo s0}" and "h' \<in> set hs \<Longrightarrow> h \<noteq> h' \<Longrightarrow> seg_run h \<inter> seg_run h' = {}"
proof -
  note T = trace_inv[OF tr]
  have I: "binv (mo s0) (2 ^ mo s0) (free s) (seg_block ` set hs)" using T inv_binv by metis
  have b: "seg_block h \<in> seg_block ` set hs" using h by blast
  have "units (seg_block h) \<subseteq> {..<2 ^ mo s0}"
    using tiles_Union[of "2 ^ mo s0" "free s \<union> seg_block ` set hs"] I b unfolding binv_def by blast
  then show "seg_run h \<subseteq> {..<2 ^ mo s0}" using T h by (simp add: seg_run_units)
  assume h': "h' \<in> set hs" "h \<noteq> h'"
  have "seg_block h \<noteq> seg_block h'" using T h h' by (auto simp: distinct_map inj_on_def)
  then show "seg_run h \<inter> seg_run h' = {}"
    using binv_live_disjoint[OF I b] h' T h by (simp add: seg_run_units)
qed

lemma trace_runs_ok:
  assumes "seg_trace al fr s0 s hs" "inv s0 {}"
  shows "runs_ok (mo s0) hs"
  using trace_inv[OF assms] trace_runs[OF assms] by (auto simp: runs_ok_def distinct_map)

text \<open>Releasing a held run is always within the tables.\<close>

lemma trace_free_defined:
  assumes tr: "seg_trace al fr s0 s hs" "inv s0 {}" and h: "(k, seg) \<in> set hs"
  shows "\<exists>s'. fr s seg k = Some s'"
proof -
  note T = trace_inv[OF tr]
  have "(k, unat seg div 2 ^ k) \<in> seg_block ` set hs" using h by (force simp: seg_block_def)
  moreover have "unat seg = (unat seg div 2 ^ k) * 2 ^ k" using T h by (auto simp: seg_aligned_def)
  ultimately show ?thesis using fr_ok[of s "seg_block ` set hs" k "unat seg div 2 ^ k" seg] T by blast
qed

text \<open>Allocation fails only when every aligned run of that size meets a held run.\<close>

lemma trace_fail_iff:
  assumes tr: "seg_trace al fr s0 s hs" "inv s0 {}" and a: "al s k = (seg, s')" and k: "k \<le> mo s0"
  shows "seg = -1 \<longleftrightarrow> no_run_left (mo s0) k hs"
  unfolding no_run_left_def
proof -
  note T = trace_inv[OF tr]
  let ?L = "seg_block ` set hs"
  have I: "binv (mo s0) (2 ^ mo s0) (free s) ?L" using T inv_binv by metis
  have e: "(2::nat) ^ (mo s0 - k) * 2 ^ k = 2 ^ mo s0" using k by (simp flip: power_add)
  show "seg = -1 \<longleftrightarrow>
    (\<forall>i < 2 ^ (mo s0 - k). \<exists>h \<in> set hs. seg_run h \<inter> {i * 2 ^ k..<(i + 1) * 2 ^ k} \<noteq> {})"
  proof
    assume seg: "seg = -1"
    have nf: "(k', j) \<notin> free s" if "k \<le> k'" for k' j
      using al_fail[of s ?L k s'] T a seg that by blast
    show "\<forall>i < 2 ^ (mo s0 - k). \<exists>h \<in> set hs. seg_run h \<inter> {i * 2 ^ k..<(i + 1) * 2 ^ k} \<noteq> {}"
    proof (intro allI impI, rule ccontr)
      fix i :: nat assume i: "i < 2 ^ (mo s0 - k)"
        and no: "\<not> (\<exists>h \<in> set hs. seg_run h \<inter> {i * 2 ^ k..<(i + 1) * 2 ^ k} \<noteq> {})"
      have "(i + 1) * 2 ^ k \<le> 2 ^ (mo s0 - k) * 2 ^ k" using i by (simp only: mult_le_cancel2) simp
      then have le: "(i + 1) * 2 ^ k \<le> 2 ^ mo s0" by (simp only: e)
      have "units b \<inter> units (k, i) = {}" if b: "b \<in> ?L" for b
      proof -
        obtain h where h: "h \<in> set hs" "b = seg_block h" using b by blast
        then have "units b = seg_run h" using T by (simp add: seg_run_units)
        moreover have "units (k, i) = {i * 2 ^ k..<(i + 1) * 2 ^ k}" by (simp add: units_def)
        ultimately show ?thesis using no h(1) by auto
      qed
      from binv_coalesced[OF I k le this] nf show False by blast
    qed
  next
    assume all: "\<forall>i < 2 ^ (mo s0 - k). \<exists>h \<in> set hs. seg_run h \<inter> {i * 2 ^ k..<(i + 1) * 2 ^ k} \<noteq> {}"
    show "seg = -1"
    proof (rule ccontr)
      assume "seg \<noteq> -1"
      from al_ok[OF _ a this] T obtain i where
        i: "(k, i) \<notin> ?L" "inv s' (insert (k, i) ?L)" "mo s' = mo s0" by metis
      have I': "binv (mo s0) (2 ^ mo s0) (free s') (insert (k, i) ?L)" using inv_binv i(2,3) by metis
      then have "(i + 1) * 2 ^ k \<le> 2 ^ (mo s0 - k) * 2 ^ k"
        unfolding e using tiles_bound by (auto simp: binv_def)
      then have "i < 2 ^ (mo s0 - k)" by (simp only: mult_le_cancel2) simp
      moreover have "units (k, i) = {i * 2 ^ k..<(i + 1) * 2 ^ k}" by (simp add: units_def)
      ultimately obtain h where h: "h \<in> set hs" "seg_run h \<inter> units (k, i) \<noteq> {}"
        using all by metis
      then have "units (seg_block h) \<inter> units (k, i) \<noteq> {}" using T by (simp add: seg_run_units)
      moreover have "seg_block h \<noteq> (k, i)" using h(1) i(1) by (metis imageI)
      ultimately show False
        using binv_live_disjoint[OF I', of "seg_block h" "(k, i)"] h(1) by blast
    qed
  qed
qed

lemma trace_all_returned:
  assumes "seg_trace al fr s0 s []" "inv s0 {}"
  shows "free s = {(mo s0, 0)}"
proof -
  have I: "binv (mo s0) (2 ^ mo s0) (free s) {}" using trace_inv[OF assms] inv_binv by fastforce
  have t: "tiles (2 ^ mo s0) (free s)" using I by (simp add: binv_def)
  have sub: "b = (mo s0, 0)" if b: "b \<in> free s" for b
  proof -
    obtain k i where ki: "b = (k, i)" by fastforce
    then have "k = mo s0" using binv_all_free[OF I, of k i] b by simp
    moreover have "(i + 1) * 2 ^ k \<le> 2 ^ mo s0" using tiles_bound[OF t] b ki by blast
    ultimately show ?thesis using ki by simp
  qed
  obtain k where "(k, 0 div 2 ^ k) \<in> free s" by (rule tiles_covers[OF t, of 0]) simp_all
  then show ?thesis using sub by auto
qed

end

end
