(* ===== verification/Mtt_Buddy.thy ===== *)
theory Mtt_Buddy
  imports L2w_Bit Buddy_Spec
begin

text \<open>
  The buddy allocators of translation-table segments: \<open>mthca_buddy_*\<close>
  (\<open>hw/mthca/kernel/mthca_mr.c\<close>) and \<open>mlx4_buddy_*\<close> (\<open>hw/mlx4/kernel/bus/net/mr.c\<close>).
  One bit table per order; the second driver also keeps a free count per order.  Orders
  are non-negative \<open>int\<close>s in the code and \<open>nat\<close> here; segment numbers stay 32-bit words.
\<close>

section \<open>The mthca buddy\<close>

record mthca_buddy =
  bd_bits :: "u32 list list"
  bd_max_order :: nat

text \<open>The \<open>for\<close> loop of the allocation: the first order from \<open>k\<close> on with a free block.\<close>

function mthca_buddy_search :: "mthca_buddy \<Rightarrow> nat \<Rightarrow> (nat \<times> u32) option" where
  "mthca_buddy_search b k =
     (if k \<le> bd_max_order b
      then let m = push_bit (bd_max_order b - k) 1;
               seg = find_first_bit (bd_bits b ! k) m
           in if seg < m then Some (k, seg) else mthca_buddy_search b (Suc k)
      else None)"
  by pat_completeness auto
termination
  by (relation "measure (\<lambda>(b, k). Suc (bd_max_order b) - k)") auto

declare mthca_buddy_search.simps [simp del]

text \<open>The \<open>while\<close> loop that splits a block of order \<open>k\<close> down to \<open>order\<close>.\<close>

fun mthca_buddy_split :: "u32 list list \<Rightarrow> nat \<Rightarrow> nat \<Rightarrow> u32 \<Rightarrow> u32 list list \<times> u32" where
  "mthca_buddy_split bits 0 order seg = (bits, seg)"
| "mthca_buddy_split bits (Suc k) order seg =
     (if order < Suc k
      then let seg = push_bit 1 seg
           in mthca_buddy_split (bits[k := l2w_set_bit (unat (seg XOR 1)) (bits ! k)]) k order seg
      else (bits, seg))"

definition mthca_buddy_alloc :: "mthca_buddy \<Rightarrow> nat \<Rightarrow> u32 \<times> mthca_buddy" where
  "mthca_buddy_alloc b order =
     (case mthca_buddy_search b order of
        None \<Rightarrow> (-1, b)
      | Some (k, seg) \<Rightarrow>
          let bits = (bd_bits b)[k := l2w_clear_bit (unat seg) (bd_bits b ! k)];
              (bits, seg) = mthca_buddy_split bits k order seg
          in (push_bit order seg, b\<lparr>bd_bits := bits\<rparr>))"

text \<open>The \<open>while\<close> loop that merges with free buddies.  The code indexes \<open>bits[order]\<close> and
  its words without a bound; an access outside them is the value \<open>None\<close>.\<close>

function mthca_buddy_merge :: "u32 list list \<Rightarrow> u32 \<Rightarrow> nat \<Rightarrow> (u32 list list \<times> u32 \<times> nat) option" where
  "mthca_buddy_merge bits seg k =
     (if k < length bits \<and> unat (seg XOR 1) < 32 * length (bits ! k)
      then if l2w_test_bit (unat (seg XOR 1)) (bits ! k)
           then mthca_buddy_merge (bits[k := l2w_clear_bit (unat (seg XOR 1)) (bits ! k)])
                  (drop_bit 1 seg) (Suc k)
           else Some (bits, seg, k)
      else None)"
  by pat_completeness auto
termination
  by (relation "measure (\<lambda>(bits, seg, k). length bits - k)") auto

declare mthca_buddy_merge.simps [simp del]

definition mthca_buddy_free :: "mthca_buddy \<Rightarrow> u32 \<Rightarrow> nat \<Rightarrow> mthca_buddy option" where
  "mthca_buddy_free b seg order =
     (case mthca_buddy_merge (bd_bits b) (drop_bit order seg) order of
        None \<Rightarrow> None
      | Some (bits, seg, k) \<Rightarrow>
          Some (b\<lparr>bd_bits := bits[k := l2w_set_bit (unat seg) (bits ! k)]\<rparr>))"

text \<open>Initialisation: \<open>mem\<close> is the outcome of the outer allocation, \<open>kmalloc i s\<close> the fresh
  words of table \<open>i\<close> (with whatever they hold), or \<open>None\<close>.\<close>

fun buddy_tables :: "(nat \<Rightarrow> nat \<Rightarrow> u32 list option) \<Rightarrow> nat \<Rightarrow> nat list \<Rightarrow> u32 list list option" where
  "buddy_tables kmalloc max_order [] = Some []"
| "buddy_tables kmalloc max_order (i # is) =
     (case kmalloc i (unat (bits_to_longs (push_bit (max_order - i) 1))) of
        None \<Rightarrow> None
      | Some tbl \<Rightarrow>
          (case buddy_tables kmalloc max_order is of
             None \<Rightarrow> None
           | Some tbls \<Rightarrow> Some (bitmap_zero tbl (2 ^ (max_order - i)) # tbls)))"

definition mthca_buddy_init ::
  "bool \<Rightarrow> (nat \<Rightarrow> nat \<Rightarrow> u32 list option) \<Rightarrow> nat \<Rightarrow> mthca_buddy option" where
  "mthca_buddy_init mem kmalloc max_order =
     (if \<not> mem then None
      else case buddy_tables kmalloc max_order [0..<Suc max_order] of
             None \<Rightarrow> None
           | Some bits \<Rightarrow>
               Some \<lparr>bd_bits = bits[max_order := l2w_set_bit 0 (bits ! max_order)],
                     bd_max_order = max_order\<rparr>)"

section \<open>The mlx4 buddy\<close>

record mlx4_buddy =
  mb_bits :: "u32 list list"
  mb_num_free :: "u32 list"
  mb_max_order :: nat

function mlx4_buddy_search :: "mlx4_buddy \<Rightarrow> nat \<Rightarrow> (nat \<times> u32) option" where
  "mlx4_buddy_search b k =
     (if k \<le> mb_max_order b
      then if mb_num_free b ! k \<noteq> 0
           then let m = push_bit (mb_max_order b - k) 1;
                    seg = find_first_bit (mb_bits b ! k) m
                in if seg < m then Some (k, seg) else mlx4_buddy_search b (Suc k)
           else mlx4_buddy_search b (Suc k)
      else None)"
  by pat_completeness auto
termination
  by (relation "measure (\<lambda>(b, k). Suc (mb_max_order b) - k)") auto

declare mlx4_buddy_search.simps [simp del]

fun mlx4_buddy_split ::
  "u32 list list \<Rightarrow> u32 list \<Rightarrow> nat \<Rightarrow> nat \<Rightarrow> u32 \<Rightarrow> u32 list list \<times> u32 list \<times> u32" where
  "mlx4_buddy_split bits num_free 0 order seg = (bits, num_free, seg)"
| "mlx4_buddy_split bits num_free (Suc k) order seg =
     (if order < Suc k
      then let seg = push_bit 1 seg
           in mlx4_buddy_split (bits[k := l2w_set_bit (unat (seg XOR 1)) (bits ! k)])
                (num_free[k := num_free ! k + 1]) k order seg
      else (bits, num_free, seg))"

definition mlx4_buddy_alloc :: "mlx4_buddy \<Rightarrow> nat \<Rightarrow> u32 \<times> mlx4_buddy" where
  "mlx4_buddy_alloc b order =
     (case mlx4_buddy_search b order of
        None \<Rightarrow> (-1, b)
      | Some (k, seg) \<Rightarrow>
          let bits = (mb_bits b)[k := l2w_clear_bit (unat seg) (mb_bits b ! k)];
              num_free = (mb_num_free b)[k := mb_num_free b ! k - 1];
              (bits, num_free, seg) = mlx4_buddy_split bits num_free k order seg
          in (push_bit order seg, b\<lparr>mb_bits := bits, mb_num_free := num_free\<rparr>))"

function mlx4_buddy_merge ::
  "u32 list list \<Rightarrow> u32 list \<Rightarrow> u32 \<Rightarrow> nat \<Rightarrow> (u32 list list \<times> u32 list \<times> u32 \<times> nat) option" where
  "mlx4_buddy_merge bits num_free seg k =
     (if k < length bits \<and> unat (seg XOR 1) < 32 * length (bits ! k)
      then if l2w_test_bit (unat (seg XOR 1)) (bits ! k)
           then mlx4_buddy_merge (bits[k := l2w_clear_bit (unat (seg XOR 1)) (bits ! k)])
                  (num_free[k := num_free ! k - 1]) (drop_bit 1 seg) (Suc k)
           else Some (bits, num_free, seg, k)
      else None)"
  by pat_completeness auto
termination
  by (relation "measure (\<lambda>(bits, num_free, seg, k). length bits - k)") auto

declare mlx4_buddy_merge.simps [simp del]

definition mlx4_buddy_free :: "mlx4_buddy \<Rightarrow> u32 \<Rightarrow> nat \<Rightarrow> mlx4_buddy option" where
  "mlx4_buddy_free b seg order =
     (case mlx4_buddy_merge (mb_bits b) (mb_num_free b) (drop_bit order seg) order of
        None \<Rightarrow> None
      | Some (bits, num_free, seg, k) \<Rightarrow>
          Some (b\<lparr>mb_bits := bits[k := l2w_set_bit (unat seg) (bits ! k)],
                 mb_num_free := num_free[k := num_free ! k + 1]\<rparr>))"

definition mlx4_buddy_init ::
  "bool \<Rightarrow> bool \<Rightarrow> (nat \<Rightarrow> nat \<Rightarrow> u32 list option) \<Rightarrow> nat \<Rightarrow> mlx4_buddy option" where
  "mlx4_buddy_init mem_bits mem_num kmalloc max_order =
     (if \<not> mem_bits \<or> \<not> mem_num then None
      else case buddy_tables kmalloc max_order [0..<Suc max_order] of
             None \<Rightarrow> None
           | Some bits \<Rightarrow>
               Some \<lparr>mb_bits = bits[max_order := l2w_set_bit 0 (bits ! max_order)],
                     mb_num_free = (replicate (Suc max_order) 0)[max_order := 1],
                     mb_max_order = max_order\<rparr>)"

section \<open>Segment arithmetic\<close>

lemma unat_xor_1: "unat (x XOR 1 :: u32) = buddy (unat x)"
proof -
  have "unat (x XOR 1) = unat x XOR 1" by (simp add: unsigned_xor_eq)
  also have "\<dots> = buddy (unat x)" by (simp add: xor_Suc_0_eq buddy_def)
  finally show ?thesis .
qed

lemma unat_shl_1: "unat (x :: u32) < 2 ^ 31 \<Longrightarrow> unat (push_bit 1 x) = 2 * unat x"
  by (simp add: unat_mult_lem[THEN iffD1] push_bit_eq_mult)

lemma unat_drop_bit: "unat (drop_bit k (x :: u32)) = unat x div 2 ^ k"
proof -
  have "unat (drop_bit k x) = drop_bit k (take_bit 32 (unat x))" by (simp add: unsigned_drop_bit_eq)
  also have "take_bit 32 (unat x) = unat x"
  proof (rule take_bit_nat_eq_self)
    have "unat x < 2 ^ LENGTH(32)" by (rule unsigned_less)
    then show "unat x < 2 ^ 32" by simp
  qed
  finally show ?thesis by (simp only: drop_bit_eq_div)
qed

lemma unat_push_bit_small:
  assumes "unat (x :: u32) * 2 ^ k < 2 ^ 32"
  shows "unat (push_bit k x) = unat x * 2 ^ k"
proof -
  have "unat (push_bit k x) = take_bit 32 (push_bit k (unat x))"
    by (simp add: unsigned_push_bit_eq)
  also have "\<dots> = unat x * 2 ^ k"
    using assms by (simp add: push_bit_eq_mult take_bit_nat_eq_self)
  finally show ?thesis .
qed

section \<open>The tables as sets of free blocks\<close>

definition bfree :: "nat \<Rightarrow> u32 list list \<Rightarrow> block set" where
  "bfree M bits = {(k, i). k \<le> M \<and> i < 2 ^ (M - k) \<and> l2w_test_bit i (bits ! k)}"

definition bits_ok :: "nat \<Rightarrow> u32 list list \<Rightarrow> bool" where
  "bits_ok M bits \<longleftrightarrow> M \<le> 30 \<and> length bits = Suc M \<and>
     (\<forall>k \<le> M. 2 ^ (M - k) \<le> 32 * length (bits ! k) \<and>
        (\<forall>i. 2 ^ (M - k) \<le> i \<and> i < 32 * length (bits ! k) \<longrightarrow> \<not> l2w_test_bit i (bits ! k)))"

lemma bits_ok_len: "bits_ok M bits \<Longrightarrow> k \<le> M \<Longrightarrow> i < 2 ^ (M - k) \<Longrightarrow> i < 32 * length (bits ! k)"
  by (auto simp: bits_ok_def intro: order_less_le_trans)

lemma bits_set:
  assumes "bits_ok M bits" "k \<le> M" "i < 2 ^ (M - k)"
  shows "bits_ok M (bits[k := l2w_set_bit i (bits ! k)])"
    and "bfree M (bits[k := l2w_set_bit i (bits ! k)]) = insert (k, i) (bfree M bits)"
proof -
  note il = bits_ok_len[OF assms]
  have l: "k < length bits" using assms by (simp add: bits_ok_def)
  have nth: "bits[k := l2w_set_bit i (bits ! k)] ! k' = (if k' = k then l2w_set_bit i (bits ! k) else bits ! k')" for k'
    using l by (simp add: nth_list_update)
  show "bits_ok M (bits[k := l2w_set_bit i (bits ! k)])"
    using assms il by (auto simp: bits_ok_def nth test_bit_set_bit)
  show "bfree M (bits[k := l2w_set_bit i (bits ! k)]) = insert (k, i) (bfree M bits)"
    using assms il by (auto simp: bfree_def nth test_bit_set_bit split: if_splits)
qed

lemma bits_clear:
  assumes "bits_ok M bits" "k \<le> M" "i < 2 ^ (M - k)"
  shows "bits_ok M (bits[k := l2w_clear_bit i (bits ! k)])"
    and "bfree M (bits[k := l2w_clear_bit i (bits ! k)]) = bfree M bits - {(k, i)}"
proof -
  note il = bits_ok_len[OF assms]
  have l: "k < length bits" using assms by (simp add: bits_ok_def)
  have nth: "bits[k := l2w_clear_bit i (bits ! k)] ! k' = (if k' = k then l2w_clear_bit i (bits ! k) else bits ! k')" for k'
    using l by (simp add: nth_list_update)
  show "bits_ok M (bits[k := l2w_clear_bit i (bits ! k)])"
    using assms il by (auto simp: bits_ok_def nth test_bit_clear_bit)
  show "bfree M (bits[k := l2w_clear_bit i (bits ! k)]) = bfree M bits - {(k, i)}"
    using assms il by (auto simp: bfree_def nth test_bit_clear_bit split: if_splits)
qed

definition bwf :: "nat \<Rightarrow> u32 list list \<Rightarrow> block set \<Rightarrow> bool" where
  "bwf M bits L \<longleftrightarrow> bits_ok M bits \<and> binv M (2 ^ M) (bfree M bits) L"

lemma bwf_bound:
  assumes "bwf M bits L" "(k, i) \<in> bfree M bits \<union> L"
  shows "k \<le> M" "i < 2 ^ (M - k)"
proof -
  have I: "binv M (2 ^ M) (bfree M bits) L" using assms(1) by (simp add: bwf_def)
  show k: "k \<le> M" using I assms(2) unfolding binv_def by blast
  have "(i + 1) * 2 ^ k \<le> 2 ^ M" using I assms(2) tiles_bound unfolding binv_def by blast
  also have "(2::nat) ^ M = 2 ^ (M - k) * 2 ^ k" using k by (simp flip: power_add)
  finally have "i + 1 \<le> 2 ^ (M - k)" by (simp only: mult_le_cancel2) simp
  then show "i < 2 ^ (M - k)" by simp
qed

lemma table_hit:
  assumes "bits_ok M bits" "k \<le> M"
  defines "m \<equiv> push_bit (M - k) 1 :: u32" and "seg \<equiv> find_first_bit (bits ! k) (push_bit (M - k) 1)"
  shows "seg < m \<Longrightarrow> (k, unat seg) \<in> bfree M bits" and "\<not> seg < m \<Longrightarrow> (k, i) \<notin> bfree M bits"
proof -
  let ?P = "\<lambda>i. l2w_test_bit i (bits ! k)" and ?n = "2 ^ (M - k) :: nat"
  have "M - k < 32" using assms(1) by (auto simp: bits_ok_def)
  then have m: "unat m = ?n" by (simp add: m_def)
  have "?n \<le> 2 ^ 30" using assms(1) by (intro power_increasing) (auto simp: bits_ok_def)
  then have mn: "min (unat seg) ?n = first_idx ?P 0 ?n"
    using find_first_bit_min[of m "bits ! k"] m by (simp add: seg_def m_def)
  show "(k, unat seg) \<in> bfree M bits" if "seg < m"
  proof -
    have "unat seg < ?n" using that m by (simp add: word_less_nat_alt)
    then show ?thesis using mn first_idx_hit[of ?P 0 ?n] assms(2) by (simp add: bfree_def)
  qed
  show "(k, i) \<notin> bfree M bits" if "\<not> seg < m"
  proof -
    have "first_idx ?P 0 ?n = ?n" using that m mn by (simp add: word_less_nat_alt)
    then show ?thesis by (auto simp: bfree_def first_idx_none_iff)
  qed
qed

lemma mthca_buddy_search_some:
  assumes "mthca_buddy_search b k = Some (k', seg)" "bits_ok (bd_max_order b) (bd_bits b)"
  shows "k \<le> k' \<and> (k', unat seg) \<in> bfree (bd_max_order b) (bd_bits b)"
  using assms
proof (induction b k rule: mthca_buddy_search.induct)
  case (1 b k)
  note step = "1.prems"(1)[unfolded mthca_buddy_search.simps[of b k] Let_def]
  have k: "k \<le> bd_max_order b" using step by (simp split: if_splits)
  show ?case
  proof (cases "find_first_bit (bd_bits b ! k) (push_bit (bd_max_order b - k) 1) < push_bit (bd_max_order b - k) 1")
    case True
    then have "k' = k" "seg = find_first_bit (bd_bits b ! k) (push_bit (bd_max_order b - k) 1)"
      using step k by auto
    then show ?thesis using table_hit(1)[OF "1.prems"(2) k True] by simp
  next
    case False
    then have "mthca_buddy_search b (Suc k) = Some (k', seg)" using step k by simp
    from "1.IH"[OF k refl refl False this "1.prems"(2)] show ?thesis by simp
  qed
qed

lemma mthca_buddy_search_none:
  assumes "mthca_buddy_search b k = None" "bits_ok (bd_max_order b) (bd_bits b)" "k \<le> k'"
  shows "(k', i) \<notin> bfree (bd_max_order b) (bd_bits b)"
  using assms
proof (induction b k rule: mthca_buddy_search.induct)
  case (1 b k)
  note step = "1.prems"(1)[unfolded mthca_buddy_search.simps[of b k] Let_def]
  show ?case
  proof (cases "k \<le> bd_max_order b")
    case True
    then have nf: "\<not> find_first_bit (bd_bits b ! k) (push_bit (bd_max_order b - k) 1) < push_bit (bd_max_order b - k) 1"
      and rest: "mthca_buddy_search b (Suc k) = None" using step by (auto split: if_splits)
    show ?thesis
    proof (cases "k' = k")
      case True
      then show ?thesis using table_hit(2)[OF "1.prems"(2) \<open>k \<le> bd_max_order b\<close> nf] by simp
    next
      case False
      then show ?thesis using "1.IH"[OF True refl refl nf rest "1.prems"(2)] "1.prems"(3) by simp
    qed
  next
    case False
    then show ?thesis using "1.prems"(3) by (auto simp: bfree_def)
  qed
qed

lemma shl_in_table:
  assumes "M \<le> 30" "Suc k \<le> M" "unat seg < 2 ^ (M - Suc k)"
  shows "unat (push_bit 1 seg :: u32) = 2 * unat seg" "2 * unat seg + 1 < 2 ^ (M - k)"
    "unat (push_bit 1 seg XOR 1) = 2 * unat seg + 1"
proof -
  have e: "M - k = Suc (M - Suc k)" using assms(2) by simp
  show "2 * unat seg + 1 < 2 ^ (M - k)" using assms(3) unfolding e by simp
  have "(2::nat) ^ (M - Suc k) \<le> 2 ^ 30" using assms(1) by (intro power_increasing) auto
  then show u: "unat (push_bit 1 seg) = 2 * unat seg" using assms(3) by (intro unat_shl_1) simp
  show "unat (push_bit 1 seg XOR 1) = 2 * unat seg + 1" unfolding unat_xor_1 u by simp
qed

text \<open>One turn of the splitting loop.\<close>

lemma split_step:
  fixes seg :: u32
  assumes bw: "bwf M bits L" and b: "(Suc k, unat seg) \<in> L"
  defines "bits1 \<equiv> bits[k := l2w_set_bit (unat (push_bit 1 seg XOR 1)) (bits ! k)]"
    and "L1 \<equiv> insert (k, unat (push_bit 1 seg)) (L - {(Suc k, unat seg)})"
  shows "bwf M bits1 L1" and "L1 - {(k, unat (push_bit 1 seg))} = L - {(Suc k, unat seg)}"
    and "k \<le> M" and "unat (push_bit 1 seg XOR 1) < 2 ^ (M - k)"
    and "(k, unat (push_bit 1 seg XOR 1)) \<notin> bfree M bits"
proof -
  let ?i = "unat seg"
  have ok: "bits_ok M bits" and I: "binv M (2 ^ M) (bfree M bits) L" using bw by (auto simp: bwf_def)
  have kM: "Suc k \<le> M" "?i < 2 ^ (M - Suc k)" using bwf_bound[OF bw] b by blast+
  note a = shl_in_table[OF _ kM] and M = ok[unfolded bits_ok_def]
  have us: "unat (push_bit 1 seg) = 2 * ?i" "unat (push_bit 1 seg XOR 1) = 2 * ?i + 1"
    and new: "2 * ?i + 1 < 2 ^ (M - k)" using a M by blast+
  show "k \<le> M" using kM by simp
  show "unat (push_bit 1 seg XOR 1) < 2 ^ (M - k)" unfolding us by (rule new)
  show "bwf M bits1 L1"
    using binv_split[OF I b] bits_set[OF ok _ new] kM(1) unfolding bwf_def bits1_def L1_def us by simp
  have sub: "units (k, j) \<inter> units (Suc k, ?i) \<noteq> {}" if "j div 2 = ?i" for j
  proof -
    have "j * 2 ^ k \<in> units (k, j) \<inter> units (Suc k, ?i)" using that by (simp add: mem_units div_pow_Suc)
    then show ?thesis by blast
  qed
  have "(k, j) \<notin> bfree M bits \<union> L" if "j div 2 = ?i" for j
    using tiles_disjoint[of "2 ^ M" "bfree M bits \<union> L" "(k, j)" "(Suc k, ?i)"] I b sub[OF that]
    by (auto simp: binv_def)
  then show "L1 - {(k, unat (push_bit 1 seg))} = L - {(Suc k, unat seg)}"
    "(k, unat (push_bit 1 seg XOR 1)) \<notin> bfree M bits" unfolding L1_def us by auto
qed

lemma mthca_buddy_split_bwf:
  assumes "bwf M bits L" "(k, unat seg) \<in> L" "order \<le> k" "mthca_buddy_split bits k order seg = (bits', seg')"
  shows "bwf M bits' (insert (order, unat seg') (L - {(k, unat seg)})) \<and> (order, unat seg') \<notin> L - {(k, unat seg)}"
  using assms
proof (induction bits k order seg arbitrary: L rule: mthca_buddy_split.induct)
  case (1 bits order seg)
  then show ?case by (auto simp: insert_absorb)
next
  case (2 bits k order seg)
  show ?case
  proof (cases "order < Suc k")
    case False
    then show ?thesis using "2.prems" by (auto simp: insert_absorb)
  next
    case True
    note st = split_step[OF "2.prems"(1,2)]
    have "mthca_buddy_split (bits[k := l2w_set_bit (unat (push_bit 1 seg XOR 1)) (bits ! k)]) k order
        (push_bit 1 seg) = (bits', seg')"
      using "2.prems"(4) True by (simp only: mthca_buddy_split.simps if_True Let_def)
    from "2.IH"[OF True refl st(1) insertI1 _ this] True show ?thesis unfolding st(2) by simp
  qed
qed

text \<open>Allocation, at the level of free and live blocks.\<close>

lemma seg_of_block:
  assumes "bwf M bits L" "(k, unat s) \<in> L"
  shows "unat (push_bit k s :: u32) = unat s * 2 ^ k" "push_bit k s \<noteq> -1" "drop_bit k (push_bit k s) = s"
proof -
  have M: "M \<le> 30" using assms(1) by (simp add: bwf_def bits_ok_def)
  have "unat s < 2 ^ (M - k)" "k \<le> M" using bwf_bound[OF assms(1)] assms(2) by blast+
  then have "unat s * 2 ^ k < 2 ^ (M - k) * 2 ^ k" by simp
  also have "(2::nat) ^ (M - k) * 2 ^ k = 2 ^ M" using \<open>k \<le> M\<close> by (simp flip: power_add)
  also have "\<dots> \<le> 2 ^ 30" using M by (intro power_increasing) auto
  finally have lt: "unat s * 2 ^ k < 2 ^ 30" .
  then show u: "unat (push_bit k s) = unat s * 2 ^ k" by (intro unat_push_bit_small) simp
  show "push_bit k s \<noteq> -1"
  proof
    assume "push_bit k s = -1"
    then have "unat (-1 :: u32) < unat (1073741824 :: u32)" using u lt by simp
    then have "(-1 :: u32) < 1073741824" by (simp only: word_less_nat_alt)
    moreover have "\<not> (-1 :: u32) < 1073741824" by code_simp
    ultimately show False by contradiction
  qed
  show "drop_bit k (push_bit k s) = s" by (simp add: word_unat_eq_iff unat_drop_bit u)
qed

lemma mthca_buddy_alloc_cases:
  assumes "bwf (bd_max_order b) (bd_bits b) L" "mthca_buddy_alloc b order = (seg, b')"
  shows "seg = -1 \<and> b' = b \<and> (\<forall>k i. order \<le> k \<longrightarrow> (k, i) \<notin> bfree (bd_max_order b) (bd_bits b)) \<or>
    seg \<noteq> -1 \<and> bd_max_order b' = bd_max_order b \<and>
    (\<exists>i. unat seg = i * 2 ^ order \<and> (order, i) \<notin> L \<and> bwf (bd_max_order b) (bd_bits b') (insert (order, i) L))"
proof (cases "mthca_buddy_search b order")
  case None
  then have "seg = -1" "b' = b" using assms(2) by (simp_all add: mthca_buddy_alloc_def)
  then show ?thesis using mthca_buddy_search_none[OF None] assms(1) by (auto simp: bwf_def)
next
  case (Some r)
  obtain k s where r: "r = (k, s)" by fastforce
  let ?M = "bd_max_order b" and ?bits = "(bd_bits b)[k := l2w_clear_bit (unat s) (bd_bits b ! k)]"
  have ok: "bits_ok ?M (bd_bits b)" and I: "binv ?M (2 ^ ?M) (bfree ?M (bd_bits b)) L"
    using assms(1) by (auto simp: bwf_def)
  have f: "order \<le> k" "(k, unat s) \<in> bfree ?M (bd_bits b)"
    using mthca_buddy_search_some[of b order k s] Some r ok by auto
  then have nl: "(k, unat s) \<notin> L" "k \<le> ?M" "unat s < 2 ^ (?M - k)" using I by (auto simp: binv_def bfree_def)
  have bw: "bwf ?M ?bits (insert (k, unat s) L)"
    using binv_take[OF I f(2)] bits_clear[OF ok nl(2,3)] by (simp add: bwf_def)
  obtain bits' s' where sp: "mthca_buddy_split ?bits k order s = (bits', s')" by fastforce
  have L: "insert (k, unat s) L - {(k, unat s)} = L" using nl(1) by auto
  from mthca_buddy_split_bwf[OF bw _ f(1) sp]
  have bw': "bwf ?M bits' (insert (order, unat s') L)" "(order, unat s') \<notin> L" by (simp_all add: L)
  have "seg = push_bit order s'" "b' = b\<lparr>bd_bits := bits'\<rparr>"
    using assms(2) Some r sp by (simp_all add: mthca_buddy_alloc_def)
  then show ?thesis using bw' seg_of_block[OF bw'(1), of order s'] by auto
qed

lemma merge_guard:
  fixes seg :: u32
  assumes "bwf M bits L" "(k, unat seg) \<in> L"
  shows "k < length bits" "unat (seg XOR 1) < 32 * length (bits ! k)"
    "l2w_test_bit (unat (seg XOR 1)) (bits ! k) \<longleftrightarrow> k < M \<and> (k, buddy (unat seg)) \<in> bfree M bits"
proof -
  have ok: "bits_ok M bits" using assms(1) by (simp add: bwf_def)
  have k: "k \<le> M" "unat seg < 2 ^ (M - k)" using bwf_bound[OF assms(1)] assms(2) by blast+
  show "k < length bits" using ok k by (simp add: bits_ok_def)
  have "buddy (unat seg) < 32 * length (bits ! k) \<and>
    (l2w_test_bit (buddy (unat seg)) (bits ! k) \<longleftrightarrow> k < M \<and> (k, buddy (unat seg)) \<in> bfree M bits)"
  proof (cases "k < M")
    case True
    then have "M - k = Suc (M - Suc k)" by simp
    then have "buddy (unat seg) < 2 ^ (M - k)" using buddy_bound[of "unat seg" "2 ^ (M - Suc k)"] k(2) by simp
    then show ?thesis using True bits_ok_len[OF ok k(1)] by (auto simp: bfree_def)
  next
    case False
    then have "k = M" "unat seg = 0" using k by auto
    moreover have "bits ! M \<noteq> []" using bits_ok_len[OF ok, of M 0] by auto
    then have len: "1 < 32 * length (bits ! M)" by (cases "bits ! M") simp_all
    moreover have "\<not> l2w_test_bit 1 (bits ! M)" using ok len by (auto simp: bits_ok_def)
    ultimately show ?thesis by (auto simp: buddy_def)
  qed
  then show "unat (seg XOR 1) < 32 * length (bits ! k)"
    "l2w_test_bit (unat (seg XOR 1)) (bits ! k) \<longleftrightarrow> k < M \<and> (k, buddy (unat seg)) \<in> bfree M bits"
    unfolding unat_xor_1 by blast+
qed

text \<open>One turn of the merging loop.\<close>

lemma merge_step:
  fixes seg :: u32
  assumes bw: "bwf M bits L" and b: "(k, unat seg) \<in> L" and t: "l2w_test_bit (unat (seg XOR 1)) (bits ! k)"
  defines "bits1 \<equiv> bits[k := l2w_clear_bit (unat (seg XOR 1)) (bits ! k)]"
    and "L1 \<equiv> insert (Suc k, unat (drop_bit 1 seg)) (L - {(k, unat seg)})"
  shows "bwf M bits1 L1" and "L1 - {(Suc k, unat (drop_bit 1 seg))} = L - {(k, unat seg)}"
    and "k < M" and "unat (seg XOR 1) < 2 ^ (M - k)"
proof -
  let ?i = "unat seg"
  have kM: "k < M" "(k, buddy ?i) \<in> bfree M bits" using merge_guard(3)[OF bw b] t by auto
  have ok: "bits_ok M bits" and I: "binv M (2 ^ M) (bfree M bits) L" using bw by (auto simp: bwf_def)
  have us: "unat (drop_bit 1 seg) = ?i div 2" by (simp only: unat_drop_bit) simp
  show "k < M" by (rule kM)
  show "unat (seg XOR 1) < 2 ^ (M - k)" using kM(2) by (simp add: bfree_def unat_xor_1)
  show "bwf M bits1 L1"
    using binv_merge[OF I b kM(2,1)] bits_clear[OF ok, of k "buddy ?i"] kM
    unfolding bwf_def bits1_def L1_def us unat_xor_1 by (simp add: bfree_def)
  have "(Suc k, ?i div 2) \<notin> L"
  proof
    assume "(Suc k, ?i div 2) \<in> L"
    then have "units (k, ?i) \<inter> units (Suc k, ?i div 2) = {}"
      using binv_live_disjoint[OF I b] by auto
    moreover have "?i * 2 ^ k \<in> units (k, ?i) \<inter> units (Suc k, ?i div 2)"
      by (simp add: mem_units div_pow_Suc)
    ultimately show False by blast
  qed
  then show "L1 - {(Suc k, unat (drop_bit 1 seg))} = L - {(k, ?i)}" unfolding L1_def us by auto
qed

lemma mthca_buddy_merge_bwf:
  assumes "bwf M bits L" "(k, unat seg) \<in> L"
  shows "\<exists>bits' seg' k'. mthca_buddy_merge bits seg k = Some (bits', seg', k') \<and>
    bwf M bits' (insert (k', unat seg') (L - {(k, unat seg)})) \<and>
    (k', unat seg') \<notin> L - {(k, unat seg)} \<and>
    (k' < M \<longrightarrow> (k', buddy (unat seg')) \<notin> bfree M bits')"
  using assms
proof (induction bits seg k arbitrary: L rule: mthca_buddy_merge.induct)
  case (1 bits seg k)
  note g = merge_guard[OF "1.prems"]
  show ?case
  proof (cases "l2w_test_bit (unat (seg XOR 1)) (bits ! k)")
    case False
    then have "mthca_buddy_merge bits seg k = Some (bits, seg, k)"
      using g(1,2) by (subst mthca_buddy_merge.simps) simp
    moreover have "insert (k, unat seg) (L - {(k, unat seg)}) = L" using "1.prems"(2) by auto
    ultimately show ?thesis using "1.prems"(1) False g(3) by auto
  next
    case True
    note st = merge_step[OF "1.prems" True]
    have run: "mthca_buddy_merge bits seg k =
        mthca_buddy_merge (bits[k := l2w_clear_bit (unat (seg XOR 1)) (bits ! k)]) (drop_bit 1 seg) (Suc k)"
      using g(1,2) True by (subst mthca_buddy_merge.simps) simp
    from "1.IH"[OF conjI[OF g(1,2)] True st(1) insertI1] show ?thesis unfolding run st(2) .
  qed
qed

lemma mthca_buddy_free_bwf:
  assumes "bwf (bd_max_order b) (bd_bits b) L" "(order, i) \<in> L" "unat seg = i * 2 ^ order"
  shows "\<exists>b'. mthca_buddy_free b seg order = Some b' \<and> bd_max_order b' = bd_max_order b \<and>
    bwf (bd_max_order b) (bd_bits b') (L - {(order, i)})"
proof -
  let ?M = "bd_max_order b"
  have d: "unat (drop_bit order seg) = i" by (simp add: unat_drop_bit assms(3))
  have "(order, unat (drop_bit order seg)) \<in> L" using assms(2) d by simp
  from mthca_buddy_merge_bwf[OF assms(1) this] obtain bits' s k where
    m: "mthca_buddy_merge (bd_bits b) (drop_bit order seg) order = Some (bits', s, k)"
      "bwf ?M bits' (insert (k, unat s) (L - {(order, i)}))" "(k, unat s) \<notin> L - {(order, i)}"
      "k < ?M \<longrightarrow> (k, buddy (unat s)) \<notin> bfree ?M bits'"
    unfolding d by blast
  have kb: "k \<le> ?M" "unat s < 2 ^ (?M - k)" using bwf_bound[OF m(2)] by blast+
  let ?bits = "bits'[k := l2w_set_bit (unat s) (bits' ! k)]"
  have "binv ?M (2 ^ ?M) (insert (k, unat s) (bfree ?M bits')) (insert (k, unat s) (L - {(order, i)}) - {(k, unat s)})"
    using m(2,4) by (intro binv_release) (auto simp: bwf_def)
  moreover have "insert (k, unat s) (L - {(order, i)}) - {(k, unat s)} = L - {(order, i)}" using m(3) by auto
  ultimately have "bwf ?M ?bits (L - {(order, i)})"
    using bits_set[of ?M bits' k "unat s"] kb m(2) by (simp add: bwf_def)
  then show ?thesis using m(1) by (simp add: mthca_buddy_free_def)
qed


lemma bitmap_zero_fresh:
  assumes "0 < n" "length t = (n + 31) div 32"
  shows "bitmap_zero t n = replicate (length t) 0"
proof (cases "n \<le> 32")
  case True
  then have "length t = 1" using assms by linarith
  then obtain x where "t = [x]" by (auto simp: length_Suc_conv)
  with True show ?thesis by (simp add: bitmap_zero_def)
qed (use assms in \<open>simp add: bitmap_zero_def\<close>)

lemma buddy_tables_fresh:
  assumes "buddy_tables kmalloc M is = Some bits" "\<And>i s t. kmalloc i s = Some t \<Longrightarrow> length t = s" "M \<le> 30"
  shows "bits = map (\<lambda>i. replicate ((2 ^ (M - i) + 31) div 32) 0) is"
  using assms(1)
proof (induction "is" arbitrary: bits)
  case (Cons i "is")
  obtain t tbls where t: "kmalloc i (unat (bits_to_longs (push_bit (M - i) 1))) = Some t"
    "buddy_tables kmalloc M is = Some tbls" "bits = bitmap_zero t (2 ^ (M - i)) # tbls"
    using Cons.prems by (auto split: option.splits)
  have "M - i < 32" using assms(3) by simp
  then have u: "unat (push_bit (M - i) 1 :: u32) = 2 ^ (M - i)" by simp
  have "(2::nat) ^ (M - i) \<le> 2 ^ 30" using assms(3) by (intro power_increasing) auto
  then have "length t = (2 ^ (M - i) + 31) div 32"
    using assms(2)[OF t(1)] unat_bits_to_longs[of "push_bit (M - i) 1", unfolded u] by simp
  then show ?case using t(3) Cons.IH[OF t(2)] bitmap_zero_fresh[of "2 ^ (M - i)" t] by simp
qed simp

lemma fresh_tables_bwf:
  assumes "buddy_tables kmalloc M [0..<Suc M] = Some bits" "\<And>i s t. kmalloc i s = Some t \<Longrightarrow> length t = s"
    "M \<le> 30"
  shows "bwf M (bits[M := l2w_set_bit 0 (bits ! M)]) {}"
proof -
  have b: "bits = map (\<lambda>i. replicate ((2 ^ (M - i) + 31) div 32) 0) [0..<Suc M]"
    by (rule buddy_tables_fresh[OF assms])
  have nth: "bits ! k = replicate ((2 ^ (M - k) + 31) div 32) 0" if "k \<le> M" for k
    using that unfolding b by (subst nth_map) (simp_all del: upt_Suc)
  have ok: "bits_ok M bits"
    using assms(3) longs_bound(1) by (auto simp: bits_ok_def nth test_bit_replicate) (simp add: b)
  have "bfree M bits = {}"
  proof -
    have "\<not> l2w_test_bit i (bits ! k)" if "k \<le> M" "i < 2 ^ (M - k)" for k i
      using that longs_bound(1)[of "2 ^ (M - k)"] by (simp add: nth test_bit_replicate)
    then show ?thesis by (auto simp: bfree_def)
  qed
  then show ?thesis using bits_set[OF ok order_refl, of 0] binv_initial by (simp add: bwf_def)
qed

section \<open>The free counters of the mlx4 buddy\<close>

definition num_ok :: "nat \<Rightarrow> u32 list list \<Rightarrow> u32 list \<Rightarrow> bool" where
  "num_ok M bits nf \<longleftrightarrow> length nf = Suc M \<and>
     (\<forall>k \<le> M. unat (nf ! k) = count_upto (\<lambda>i. l2w_test_bit i (bits ! k)) (2 ^ (M - k)))"

lemma num_set:
  assumes "num_ok M bits nf" "bits_ok M bits" "k \<le> M" "i < 2 ^ (M - k)" "(k, i) \<notin> bfree M bits"
  shows "num_ok M (bits[k := l2w_set_bit i (bits ! k)]) (nf[k := nf ! k + 1])"
proof -
  let ?n = "2 ^ (M - k) :: nat"
  note il = bits_ok_len[OF assms(2-4)]
  have l: "k < length bits" "k < length nf" using assms by (auto simp: bits_ok_def num_ok_def)
  have "count_upto (\<lambda>j. l2w_test_bit j (l2w_set_bit i (bits ! k))) ?n =
      Suc (count_upto (\<lambda>j. l2w_test_bit j (bits ! k)) ?n)"
    using assms il by (intro count_upto_insert[of i]) (auto simp: test_bit_set_bit bfree_def)
  moreover have "unat (nf ! k) = count_upto (\<lambda>j. l2w_test_bit j (bits ! k)) ?n"
    using assms by (simp add: num_ok_def)
  moreover have "?n \<le> 2 ^ 30" using assms(2) by (intro power_increasing) (auto simp: bits_ok_def)
  moreover have "count_upto (\<lambda>j. l2w_test_bit j (bits ! k)) ?n \<le> ?n" by (rule count_upto_le)
  ultimately have "unat (nf ! k + 1) = count_upto (\<lambda>j. l2w_test_bit j (l2w_set_bit i (bits ! k))) ?n"
    by (subst unat_add_less) simp_all
  then show ?thesis using assms(1) l by (auto simp: num_ok_def nth_list_update)
qed

lemma num_clear:
  assumes "num_ok M bits nf" "bits_ok M bits" "k \<le> M" "i < 2 ^ (M - k)" "(k, i) \<in> bfree M bits"
  shows "num_ok M (bits[k := l2w_clear_bit i (bits ! k)]) (nf[k := nf ! k - 1])"
proof -
  let ?n = "2 ^ (M - k) :: nat"
  note il = bits_ok_len[OF assms(2-4)]
  have l: "k < length bits" "k < length nf" using assms by (auto simp: bits_ok_def num_ok_def)
  have "count_upto (\<lambda>j. l2w_test_bit j (bits ! k)) ?n =
      Suc (count_upto (\<lambda>j. l2w_test_bit j (l2w_clear_bit i (bits ! k))) ?n)"
    using assms il by (intro count_upto_insert[of i]) (auto simp: test_bit_clear_bit bfree_def)
  moreover have "unat (nf ! k) = count_upto (\<lambda>j. l2w_test_bit j (bits ! k)) ?n"
    using assms by (simp add: num_ok_def)
  ultimately have "unat (nf ! k - 1) = count_upto (\<lambda>j. l2w_test_bit j (l2w_clear_bit i (bits ! k))) ?n"
    by (subst unat_sub_le) simp_all
  then show ?thesis using assms(1) l by (auto simp: num_ok_def nth_list_update)
qed

text \<open>Forgetting the counters maps the mlx4 buddy to the mthca one; the counters only skip
  tables without a free block.\<close>

definition forget_counts :: "mlx4_buddy \<Rightarrow> mthca_buddy" where
  "forget_counts b = \<lparr>bd_bits = mb_bits b, bd_max_order = mb_max_order b\<rparr>"

definition mlx4_wf :: "mlx4_buddy \<Rightarrow> block set \<Rightarrow> bool" where
  "mlx4_wf b L \<longleftrightarrow> bwf (mb_max_order b) (mb_bits b) L \<and> num_ok (mb_max_order b) (mb_bits b) (mb_num_free b)"

lemma mlx4_buddy_search_eq:
  assumes "bits_ok (mb_max_order b) (mb_bits b)" "num_ok (mb_max_order b) (mb_bits b) (mb_num_free b)"
  shows "mlx4_buddy_search b k = mthca_buddy_search (forget_counts b) k"
  using assms
proof (induction b k rule: mlx4_buddy_search.induct)
  case (1 b k)
  let ?M = "mb_max_order b" let ?m = "push_bit (?M - k) 1 :: u32"
  let ?seg = "find_first_bit (mb_bits b ! k) ?m"
  note u = mlx4_buddy_search.simps[of b k] mthca_buddy_search.simps[of "forget_counts b" k]
  show ?case
  proof (cases "k \<le> ?M \<and> mb_num_free b ! k = 0")
    case True
    then have "count_upto (\<lambda>i. l2w_test_bit i (mb_bits b ! k)) (2 ^ (?M - k)) = 0"
      using "1.prems"(2) by (auto simp: num_ok_def)
    then have "(k, i) \<notin> bfree ?M (mb_bits b)" for i
      by (auto simp: count_upto_card bfree_def)
    then have "\<not> ?seg < ?m" using table_hit(1)[OF "1.prems"(1)] True by blast
    then show ?thesis using True "1.IH"(2)[OF _ _ "1.prems"] unfolding u by (simp add: forget_counts_def)
  next
    case False
    show ?thesis
    proof (cases "k \<le> ?M")
      case True
      with False have nz: "mb_num_free b ! k \<noteq> 0" by simp
      show ?thesis
        using True nz "1.IH"(1)[OF True nz refl refl _ "1.prems"] unfolding u
        by (simp add: forget_counts_def Let_def)
    qed (unfold u, simp add: forget_counts_def)
  qed
qed

lemma mlx4_buddy_split_eq:
  assumes "bwf M bits L" "num_ok M bits nf" "(k, unat seg) \<in> L" "mlx4_buddy_split bits nf k order seg = (bits', nf', seg')"
  shows "mthca_buddy_split bits k order seg = (bits', seg') \<and> num_ok M bits' nf'"
  using assms
proof (induction bits nf k order seg arbitrary: L rule: mlx4_buddy_split.induct)
  case (2 bits nf k order seg)
  show ?case
  proof (cases "order < Suc k")
    case True
    note st = split_step[OF "2.prems"(1,3)]
    have ok: "bits_ok M bits" using "2.prems"(1) by (simp add: bwf_def)
    from "2.IH"[OF True refl st(1) num_set[OF "2.prems"(2) ok st(3-5)] insertI1] "2.prems"(4) True
    show ?thesis by (simp only: mlx4_buddy_split.simps mthca_buddy_split.simps Let_def if_True)
  qed (use "2.prems" in simp)
qed simp

lemma mlx4_buddy_merge_eq:
  assumes "bwf M bits L" "num_ok M bits nf" "(k, unat seg) \<in> L"
    "mthca_buddy_merge bits seg k = Some (bits', seg', k')"
  shows "\<exists>nf'. mlx4_buddy_merge bits nf seg k = Some (bits', nf', seg', k') \<and> num_ok M bits' nf'"
  using assms
proof (induction bits nf seg k arbitrary: L rule: mlx4_buddy_merge.induct)
  case (1 bits nf seg k)
  note g = merge_guard[OF "1.prems"(1,3)]
  note u = mlx4_buddy_merge.simps[of bits nf seg k] mthca_buddy_merge.simps[of bits seg k]
  show ?case
  proof (cases "l2w_test_bit (unat (seg XOR 1)) (bits ! k)")
    case True
    note st = merge_step[OF "1.prems"(1,3) True]
    have ok: "bits_ok M bits" using "1.prems"(1) by (simp add: bwf_def)
    have f: "(k, unat (seg XOR 1)) \<in> bfree M bits" using st(3,4) True by (simp add: bfree_def)
    have nk: "num_ok M (bits[k := l2w_clear_bit (unat (seg XOR 1)) (bits ! k)]) (nf[k := nf ! k - 1])"
      by (rule num_clear[OF "1.prems"(2) ok less_imp_le[OF st(3)] st(4) f])
    have "mthca_buddy_merge (bits[k := l2w_clear_bit (unat (seg XOR 1)) (bits ! k)]) (drop_bit 1 seg) (Suc k)
        = Some (bits', seg', k')" using "1.prems"(4) g(1,2) True unfolding u by simp
    from "1.IH"[OF conjI[OF g(1,2)] True st(1) nk insertI1 this] show ?thesis
      unfolding u using g(1,2) True by simp
  next
    case False
    then show ?thesis using "1.prems"(2,4) g(1,2) unfolding u by simp
  qed
qed


lemma mlx4_buddy_alloc_eq:
  assumes "mlx4_wf b L" "mlx4_buddy_alloc b order = (seg, b')"
  shows "mthca_buddy_alloc (forget_counts b) order = (seg, forget_counts b')"
    and "num_ok (mb_max_order b') (mb_bits b') (mb_num_free b')"
proof -
  let ?M = "mb_max_order b" and ?bits = "mb_bits b" and ?nf = "mb_num_free b"
  have bw: "bwf ?M ?bits L" and ok: "bits_ok ?M ?bits" and nk: "num_ok ?M ?bits ?nf"
    and I: "binv ?M (2 ^ ?M) (bfree ?M ?bits) L"
    using assms(1) by (auto simp: mlx4_wf_def bwf_def)
  note se = mlx4_buddy_search_eq[OF ok nk, of order]
  have "mthca_buddy_alloc (forget_counts b) order = (seg, forget_counts b') \<and>
    num_ok (mb_max_order b') (mb_bits b') (mb_num_free b')"
  proof (cases "mlx4_buddy_search b order")
    case None
    then show ?thesis using assms(2) se nk by (auto simp: mlx4_buddy_alloc_def mthca_buddy_alloc_def)
  next
    case (Some r)
    obtain k s where r: "r = (k, s)" by fastforce
    have f: "(k, unat s) \<in> bfree ?M ?bits" "k \<le> ?M" "unat s < 2 ^ (?M - k)"
      using mthca_buddy_search_some[of "forget_counts b" order k s] Some r ok se
      by (auto simp: forget_counts_def bfree_def)
    let ?bits1 = "?bits[k := l2w_clear_bit (unat s) (?bits ! k)]" and ?nf1 = "?nf[k := ?nf ! k - 1]"
    have bw1: "bwf ?M ?bits1 (insert (k, unat s) L)"
      using binv_take[OF I f(1)] bits_clear[OF ok f(2,3)] by (simp add: bwf_def)
    have nk1: "num_ok ?M ?bits1 ?nf1" by (rule num_clear[OF nk ok f(2,3,1)])
    obtain bits' nf' s' where sp: "mlx4_buddy_split ?bits1 ?nf1 k order s = (bits', nf', s')" by (metis prod_cases3)
    from mlx4_buddy_split_eq[OF bw1 nk1 insertI1 sp] Some r sp assms(2) se show ?thesis
      by (auto simp: mlx4_buddy_alloc_def mthca_buddy_alloc_def forget_counts_def Let_def)
  qed
  then show "mthca_buddy_alloc (forget_counts b) order = (seg, forget_counts b')"
    "num_ok (mb_max_order b') (mb_bits b') (mb_num_free b')" by auto
qed

lemma mlx4_buddy_free_eq:
  assumes "mlx4_wf b L" "(order, i) \<in> L" "unat seg = i * 2 ^ order"
  shows "\<exists>b'. mlx4_buddy_free b seg order = Some b' \<and>
    mthca_buddy_free (forget_counts b) seg order = Some (forget_counts b') \<and>
    mb_max_order b' = mb_max_order b \<and> mlx4_wf b' (L - {(order, i)})"
proof -
  let ?M = "mb_max_order b" and ?bits = "mb_bits b"
  have bw: "bwf ?M ?bits L" and nk: "num_ok ?M ?bits (mb_num_free b)" using assms(1) by (auto simp: mlx4_wf_def)
  have d: "unat (drop_bit order seg) = i" by (simp add: unat_drop_bit assms(3))
  have dl: "(order, unat (drop_bit order seg)) \<in> L" using assms(2) d by simp
  from mthca_buddy_merge_bwf[OF bw dl] obtain bits' s k where
    m: "mthca_buddy_merge ?bits (drop_bit order seg) order = Some (bits', s, k)"
      "bwf ?M bits' (insert (k, unat s) (L - {(order, i)}))"
    unfolding d by blast
  from mlx4_buddy_merge_eq[OF bw nk dl m(1)] obtain nf' where
    m': "mlx4_buddy_merge ?bits (mb_num_free b) (drop_bit order seg) order = Some (bits', nf', s, k)"
      "num_ok ?M bits' nf'" by blast
  have kb: "k \<le> ?M" "unat s < 2 ^ (?M - k)" using bwf_bound[OF m(2)] by blast+
  have ok: "bits_ok ?M bits'" and nf: "(k, unat s) \<notin> bfree ?M bits'" using m(2) by (auto simp: bwf_def binv_def)
  define b' where "b' = b\<lparr>mb_bits := bits'[k := l2w_set_bit (unat s) (bits' ! k)],
                 mb_num_free := nf'[k := nf' ! k + 1]\<rparr>"
  have f4: "mlx4_buddy_free b seg order = Some b'" using m' by (simp add: mlx4_buddy_free_def b'_def)
  have fm: "mthca_buddy_free (forget_counts b) seg order = Some (forget_counts b')"
    using m(1) by (simp add: mthca_buddy_free_def forget_counts_def b'_def)
  have "num_ok ?M (mb_bits b') (mb_num_free b')"
    using num_set[OF m'(2) ok kb nf] by (simp add: b'_def)
  moreover have "bwf ?M (mb_bits b') (L - {(order, i)})"
    using mthca_buddy_free_bwf[of "forget_counts b" L order i seg] assms bw fm
    by (auto simp: forget_counts_def)
  ultimately show ?thesis using f4 fm by (simp add: mlx4_wf_def b'_def)
qed

section \<open>Both buddies meet the contract\<close>

interpretation mthca_segs: seg_allocator
  "\<lambda>b L. bwf (bd_max_order b) (bd_bits b) L" bd_max_order "\<lambda>b. bfree (bd_max_order b) (bd_bits b)"
  mthca_buddy_alloc mthca_buddy_free
proof
  fix b b' :: mthca_buddy and L k seg i
  assume w: "bwf (bd_max_order b) (bd_bits b) L"
  show "binv (bd_max_order b) (2 ^ bd_max_order b) (bfree (bd_max_order b) (bd_bits b)) L"
    using w by (simp add: bwf_def)
  show "b' = b \<and> (\<forall>k' i. k \<le> k' \<longrightarrow> (k', i) \<notin> bfree (bd_max_order b) (bd_bits b))"
    if "mthca_buddy_alloc b k = (-1, b')"
    using mthca_buddy_alloc_cases[OF w that] by simp
  show "bd_max_order b' = bd_max_order b \<and>
      (\<exists>i. unat seg = i * 2 ^ k \<and> (k, i) \<notin> L \<and> bwf (bd_max_order b') (bd_bits b') (insert (k, i) L))"
    if "mthca_buddy_alloc b k = (seg, b')" "seg \<noteq> -1"
    using mthca_buddy_alloc_cases[OF w that(1)] that(2) by auto
  show "\<exists>b'. mthca_buddy_free b seg k = Some b' \<and> bd_max_order b' = bd_max_order b \<and>
      bwf (bd_max_order b') (bd_bits b') (L - {(k, i)})"
    if "(k, i) \<in> L" "unat seg = i * 2 ^ k"
    using mthca_buddy_free_bwf[OF w that] by auto
qed

interpretation mlx4_segs: seg_allocator
  mlx4_wf mb_max_order "\<lambda>b. bfree (mb_max_order b) (mb_bits b)" mlx4_buddy_alloc mlx4_buddy_free
proof
  fix b b' :: mlx4_buddy and L k seg i
  assume w: "mlx4_wf b L"
  then have bw: "bwf (bd_max_order (forget_counts b)) (bd_bits (forget_counts b)) L"
    by (simp add: mlx4_wf_def forget_counts_def)
  show "binv (mb_max_order b) (2 ^ mb_max_order b) (bfree (mb_max_order b) (mb_bits b)) L"
    using w by (simp add: mlx4_wf_def bwf_def)
  show "b' = b \<and> (\<forall>k' i. k \<le> k' \<longrightarrow> (k', i) \<notin> bfree (mb_max_order b) (mb_bits b))"
    if a: "mlx4_buddy_alloc b k = (-1, b')"
  proof -
    have "mlx4_buddy_search b k = None"
    proof (rule ccontr)
      assume "mlx4_buddy_search b k \<noteq> None"
      then obtain j s where "mthca_buddy_search (forget_counts b) k = Some (j, s)"
        using mlx4_buddy_search_eq[of b k] w by (auto simp: mlx4_wf_def bwf_def)
      from mthca_buddy_search_some[OF this] bw have "k \<le> j" "(j, unat s) \<in> bfree (mb_max_order b) (mb_bits b)"
        by (auto simp: bwf_def forget_counts_def)
      then show False
        using mthca_buddy_alloc_cases[OF bw mlx4_buddy_alloc_eq(1)[OF w a]] by (auto simp: forget_counts_def)
    qed
    then have "b' = b" using a by (simp add: mlx4_buddy_alloc_def)
    then show ?thesis
      using mthca_buddy_alloc_cases[OF bw mlx4_buddy_alloc_eq(1)[OF w a]] by (auto simp: forget_counts_def)
  qed
  show "mb_max_order b' = mb_max_order b \<and>
      (\<exists>i. unat seg = i * 2 ^ k \<and> (k, i) \<notin> L \<and> mlx4_wf b' (insert (k, i) L))"
    if a: "mlx4_buddy_alloc b k = (seg, b')" "seg \<noteq> -1"
    using mthca_buddy_alloc_cases[OF bw mlx4_buddy_alloc_eq(1)[OF w a(1)]] a(2) mlx4_buddy_alloc_eq(2)[OF w a(1)]
    by (auto simp: mlx4_wf_def forget_counts_def)
  show "\<exists>b'. mlx4_buddy_free b seg k = Some b' \<and> mb_max_order b' = mb_max_order b \<and> mlx4_wf b' (L - {(k, i)})"
    if "(k, i) \<in> L" "unat seg = i * 2 ^ k"
    using mlx4_buddy_free_eq[OF w that] by auto
qed


section \<open>Properties\<close>

text \<open>\<open>kmalloc\<close> returns a block of the requested number of words.\<close>

definition kmalloc_ok :: "(nat \<Rightarrow> nat \<Rightarrow> u32 list option) \<Rightarrow> bool" where
  "kmalloc_ok kmalloc \<longleftrightarrow> (\<forall>i s t. kmalloc i s = Some t \<longrightarrow> length t = s)"

lemma mthca_buddy_init_wf:
  assumes "mthca_buddy_init mem kmalloc M = Some b" "kmalloc_ok kmalloc" "M \<le> 30"
  shows "bwf (bd_max_order b) (bd_bits b) {}" "bd_max_order b = M"
  using assms fresh_tables_bwf[of kmalloc M] by (auto simp: kmalloc_ok_def mthca_buddy_init_def split: if_splits option.splits)

lemma mlx4_buddy_init_wf:
  assumes "mlx4_buddy_init m1 m2 kmalloc M = Some b" "kmalloc_ok kmalloc" "M \<le> 30"
  shows "mlx4_wf b {}" "mb_max_order b = M"
proof -
  obtain bits where b: "buddy_tables kmalloc M [0..<Suc M] = Some bits"
    "b = \<lparr>mb_bits = bits[M := l2w_set_bit 0 (bits ! M)],
          mb_num_free = (replicate (Suc M) 0)[M := 1], mb_max_order = M\<rparr>"
    using assms(1) by (auto simp: mlx4_buddy_init_def split: if_splits option.splits)
  show mo: "mb_max_order b = M" by (simp add: b(2))
  have bw: "bwf M (mb_bits b) {}" using fresh_tables_bwf[OF b(1) _ assms(3)] assms(2) by (simp add: b(2) kmalloc_ok_def)
  have fr: "bfree M (mb_bits b) = {(M, 0)}"
    by (rule mthca_segs.trace_all_returned[OF seg_start,
        of "\<lparr>bd_bits = mb_bits b, bd_max_order = M\<rparr>", simplified, OF bw])
  have "count_upto (\<lambda>i. l2w_test_bit i (mb_bits b ! k)) (2 ^ (M - k)) = (if k = M then 1 else 0)" if "k \<le> M" for k
  proof -
    have "{i. i < 2 ^ (M - k) \<and> l2w_test_bit i (mb_bits b ! k)} = {i. (k, i) \<in> bfree M (mb_bits b)}"
      using that by (auto simp: bfree_def)
    also have "\<dots> = (if k = M then {0} else {})" unfolding fr by auto
    finally show ?thesis by (simp add: count_upto_card)
  qed
  then have "num_ok M (mb_bits b) (mb_num_free b)" by (auto simp: num_ok_def b(2) nth_list_update simp del: replicate_Suc)
  then show "mlx4_wf b {}" using bw mo by (simp add: mlx4_wf_def)
qed

lemma mlx4_buddy_history_parts:
  assumes "mlx4_buddy_init m1 m2 kmalloc M = Some b0" "kmalloc_ok kmalloc" "M \<le> 30"
    and tr: "seg_trace mlx4_buddy_alloc mlx4_buddy_free b0 b hs"
  shows "runs_ok M hs"
    and "(k, seg) \<in> set hs \<Longrightarrow> mlx4_buddy_free b seg k \<noteq> None"
    and "k \<le> M \<Longrightarrow> fst (mlx4_buddy_alloc b k) = -1 \<longleftrightarrow> no_run_left M k hs"
proof -
  note w = mlx4_buddy_init_wf[OF assms(1-3)]
  show "runs_ok M hs" using mlx4_segs.trace_runs_ok[OF tr w(1)] w(2) by simp
  show "mlx4_buddy_free b seg k \<noteq> None" if "(k, seg) \<in> set hs"
    using mlx4_segs.trace_free_defined[OF tr w(1) that] by blast
  show "fst (mlx4_buddy_alloc b k) = -1 \<longleftrightarrow> no_run_left M k hs" if "k \<le> M"
  proof -
    obtain sg b' where a: "mlx4_buddy_alloc b k = (sg, b')" by fastforce
    show ?thesis using mlx4_segs.trace_fail_iff[OF tr w(1) a] w(2) that by (simp only: a fst_conv)
  qed
qed

text \<open>C2. From a successful \<open>mlx4_buddy_init\<close>, after any sequence of allocations (of any order)
  and frees of held runs: the held runs of segments are pairwise disjoint and inside the
  \<open>2^max_order\<close> segments, freeing any of them stays inside the tables, and an
  allocation fails exactly when every aligned run of that order meets a held run --- so
  free buddies are always merged as far as possible.\<close>

theorem mlx4_buddy_history:
  assumes "mlx4_buddy_init m1 m2 kmalloc M = Some b0" "kmalloc_ok kmalloc" "M \<le> 30"
    and "seg_trace mlx4_buddy_alloc mlx4_buddy_free b0 b hs"
  shows "runs_ok M hs \<and> (\<forall>k seg. (k, seg) \<in> set hs \<longrightarrow> mlx4_buddy_free b seg k \<noteq> None) \<and>
    (\<forall>k \<le> M. fst (mlx4_buddy_alloc b k) = -1 \<longleftrightarrow> no_run_left M k hs)"
  using mlx4_buddy_history_parts[OF assms] by blast

definition ex_kmalloc :: "nat \<Rightarrow> nat \<Rightarrow> u32 list option" where
  "ex_kmalloc i s = Some (replicate s 7)"

definition ex_mlx4_buddy :: mlx4_buddy where
  "ex_mlx4_buddy = \<lparr>mb_bits = [[0], [0], [1]], mb_num_free = [0, 0, 1], mb_max_order = 2\<rparr>"

definition ex_mthca_buddy :: mthca_buddy where
  "ex_mthca_buddy = \<lparr>bd_bits = [[0], [0], [1]], bd_max_order = 2\<rparr>"

theorem mlx4_buddy_history_witness:
  "\<exists>b. seg_trace mlx4_buddy_alloc mlx4_buddy_free ex_mlx4_buddy b [(1, 2), (0, 0)] \<and>
     runs_ok 2 [(1, 2), (0, 0)] \<and> mlx4_buddy_free b 2 1 \<noteq> None \<and>
     (fst (mlx4_buddy_alloc b 1) = -1 \<longleftrightarrow> no_run_left 2 1 [(1, 2), (0, 0)])"
proof -
  have i: "mlx4_buddy_init True True ex_kmalloc 2 = Some ex_mlx4_buddy" by code_simp
  define b1 where "b1 = \<lparr>mb_bits = [[2], [2], [0]], mb_num_free = [1, 1, 0], mb_max_order = 2\<rparr>"
  define b2 where "b2 = \<lparr>mb_bits = [[2], [0], [0]], mb_num_free = [1, 0, 0], mb_max_order = 2\<rparr>"
  have a1: "mlx4_buddy_alloc ex_mlx4_buddy 0 = (0, b1)" unfolding b1_def by code_simp
  have a2: "mlx4_buddy_alloc b1 1 = (2, b2)" unfolding b1_def b2_def by code_simp
  have "seg_trace mlx4_buddy_alloc mlx4_buddy_free ex_mlx4_buddy b1 [(0, 0)]"
    by (rule seg_alloc, rule seg_start, rule a1) simp
  then have t: "seg_trace mlx4_buddy_alloc mlx4_buddy_free ex_mlx4_buddy b2 [(1, 2), (0, 0)]"
    by (rule seg_alloc) (rule a2, simp)
  have k: "kmalloc_ok ex_kmalloc" by (auto simp: ex_kmalloc_def kmalloc_ok_def)
  have "(2::nat) \<le> 30" by simp
  note H = mlx4_buddy_history[OF i k this t]
  have "mlx4_buddy_free b2 2 1 \<noteq> None"
    by (rule H[THEN conjunct2, THEN conjunct1, rule_format]) simp
  moreover have "fst (mlx4_buddy_alloc b2 1) = -1 \<longleftrightarrow> no_run_left 2 1 [(1, 2), (0, 0)]"
    by (rule H[THEN conjunct2, THEN conjunct2, rule_format]) simp
  ultimately show ?thesis using t H[THEN conjunct1] by (intro exI[of _ b2] conjI)
qed

lemma mthca_buddy_history_parts:
  assumes "mthca_buddy_init mem kmalloc M = Some b0" "kmalloc_ok kmalloc" "M \<le> 30"
    and tr: "seg_trace mthca_buddy_alloc mthca_buddy_free b0 b hs"
  shows "runs_ok M hs"
    and "(k, seg) \<in> set hs \<Longrightarrow> mthca_buddy_free b seg k \<noteq> None"
    and "k \<le> M \<Longrightarrow> fst (mthca_buddy_alloc b k) = -1 \<longleftrightarrow> no_run_left M k hs"
    and "hs = [] \<Longrightarrow> bfree M (bd_bits b) = {(M, 0)}"
proof -
  note w = mthca_buddy_init_wf[OF assms(1-3)]
  show "runs_ok M hs" using mthca_segs.trace_runs_ok[OF tr w(1)] w(2) by simp
  show "mthca_buddy_free b seg k \<noteq> None" if "(k, seg) \<in> set hs"
    using mthca_segs.trace_free_defined[OF tr w(1) that] by blast
  show "fst (mthca_buddy_alloc b k) = -1 \<longleftrightarrow> no_run_left M k hs" if "k \<le> M"
  proof -
    obtain sg b' where a: "mthca_buddy_alloc b k = (sg, b')" by fastforce
    show ?thesis using mthca_segs.trace_fail_iff[OF tr w(1) a] w(2) that by (simp only: a fst_conv)
  qed
  show "bfree M (bd_bits b) = {(M, 0)}" if "hs = []"
    using mthca_segs.trace_all_returned[of b0 b] mthca_segs.trace_inv[OF tr w(1)] tr w that by simp
qed

text \<open>C8. The same for the buddy of the mthca driver, and once every run has been returned the
  tables hold a single free block of the maximal order: nothing stays fragmented.\<close>

theorem mthca_buddy_history:
  assumes "mthca_buddy_init mem kmalloc M = Some b0" "kmalloc_ok kmalloc" "M \<le> 30"
    and "seg_trace mthca_buddy_alloc mthca_buddy_free b0 b hs"
  shows "runs_ok M hs \<and> (\<forall>k seg. (k, seg) \<in> set hs \<longrightarrow> mthca_buddy_free b seg k \<noteq> None) \<and>
    (\<forall>k \<le> M. fst (mthca_buddy_alloc b k) = -1 \<longleftrightarrow> no_run_left M k hs) \<and>
    (hs = [] \<longrightarrow> bfree M (bd_bits b) = {(M, 0)})"
  using mthca_buddy_history_parts[OF assms] by blast

theorem mthca_buddy_history_witness:
  "\<exists>b b'. seg_trace mthca_buddy_alloc mthca_buddy_free ex_mthca_buddy b [(0, 0)] \<and> runs_ok 2 [(0, 0)] \<and>
     mthca_buddy_free b 0 0 = Some b' \<and> seg_trace mthca_buddy_alloc mthca_buddy_free ex_mthca_buddy b' [] \<and>
     bfree 2 (bd_bits b') = {(2, 0)}"
proof -
  have i: "mthca_buddy_init True ex_kmalloc 2 = Some ex_mthca_buddy" by code_simp
  define b1 where "b1 = \<lparr>bd_bits = [[2], [2], [0]], bd_max_order = 2\<rparr>"
  have a1: "mthca_buddy_alloc ex_mthca_buddy 0 = (0, b1)" unfolding b1_def by code_simp
  have f1: "mthca_buddy_free b1 0 0 = Some ex_mthca_buddy" unfolding b1_def by code_simp
  have t: "seg_trace mthca_buddy_alloc mthca_buddy_free ex_mthca_buddy b1 [(0, 0)]"
    by (rule seg_alloc, rule seg_start, rule a1) simp
  from seg_free[OF t _ f1] have t': "seg_trace mthca_buddy_alloc mthca_buddy_free ex_mthca_buddy ex_mthca_buddy []"
    by simp
  have k: "kmalloc_ok ex_kmalloc" by (auto simp: ex_kmalloc_def kmalloc_ok_def)
  have "(2::nat) \<le> 30" by simp
  note H = mthca_buddy_history[OF i k this t] mthca_buddy_history[OF i k this t']
  have "bfree 2 (bd_bits ex_mthca_buddy) = {(2, 0)}"
    by (rule H(2)[THEN conjunct2, THEN conjunct2, THEN conjunct2, rule_format]) simp
  with H(1)[THEN conjunct1] t t' f1 show ?thesis
    by (intro exI[of _ b1] exI[of _ ex_mthca_buddy] conjI)
qed

lemma mlx4_buddy_refines_mthca_parts:
  assumes "mlx4_buddy_init m1 m2 kmalloc M = Some b0" "kmalloc_ok kmalloc" "M \<le> 30"
    and tr: "seg_trace mlx4_buddy_alloc mlx4_buddy_free b0 b hs"
  shows "mthca_buddy_alloc (forget_counts b) k = map_prod id forget_counts (mlx4_buddy_alloc b k)"
    and "(k, seg) \<in> set hs \<Longrightarrow>
      mthca_buddy_free (forget_counts b) seg k = map_option forget_counts (mlx4_buddy_free b seg k)"
    and "num_ok M (mb_bits b) (mb_num_free b)"
proof -
  note w = mlx4_buddy_init_wf[OF assms(1-3)]
  note T = mlx4_segs.trace_inv[OF tr w(1)]
  then have wb: "mlx4_wf b (seg_block ` set hs)" "mb_max_order b = M" using w(2) by auto
  show "num_ok M (mb_bits b) (mb_num_free b)" using wb by (simp add: mlx4_wf_def)
  obtain sg b' where a: "mlx4_buddy_alloc b k = (sg, b')" by fastforce
  show "mthca_buddy_alloc (forget_counts b) k = map_prod id forget_counts (mlx4_buddy_alloc b k)"
    using mlx4_buddy_alloc_eq(1)[OF wb(1) a] by (simp add: a)
  show "mthca_buddy_free (forget_counts b) seg k = map_option forget_counts (mlx4_buddy_free b seg k)"
    if h: "(k, seg) \<in> set hs"
  proof -
    have "(k, unat seg div 2 ^ k) \<in> seg_block ` set hs" using h by (force simp: seg_block_def)
    moreover have "unat seg = (unat seg div 2 ^ k) * 2 ^ k" using T h by (auto simp: seg_aligned_def)
    ultimately show ?thesis using mlx4_buddy_free_eq[OF wb(1)] by fastforce
  qed
qed

text \<open>C10. The free counters of the mlx4 buddy never change what it does: on every state reached
  from \<open>mlx4_buddy_init\<close>, allocation and free return what the mthca buddy returns on the
  same tables, and each counter equals the number of free blocks of its order.\<close>

theorem mlx4_buddy_refines_mthca:
  assumes "mlx4_buddy_init m1 m2 kmalloc M = Some b0" "kmalloc_ok kmalloc" "M \<le> 30"
    and "seg_trace mlx4_buddy_alloc mlx4_buddy_free b0 b hs"
  shows "(\<forall>k. mthca_buddy_alloc (forget_counts b) k = map_prod id forget_counts (mlx4_buddy_alloc b k)) \<and>
    (\<forall>k seg. (k, seg) \<in> set hs \<longrightarrow>
      mthca_buddy_free (forget_counts b) seg k = map_option forget_counts (mlx4_buddy_free b seg k)) \<and>
    num_ok M (mb_bits b) (mb_num_free b)"
  using mlx4_buddy_refines_mthca_parts[OF assms] by blast

theorem mlx4_buddy_refines_mthca_witness:
  "mthca_buddy_alloc (forget_counts ex_mlx4_buddy) 1 = map_prod id forget_counts (mlx4_buddy_alloc ex_mlx4_buddy 1) \<and>
   num_ok 2 (mb_bits ex_mlx4_buddy) (mb_num_free ex_mlx4_buddy)"
proof -
  have i: "mlx4_buddy_init True True ex_kmalloc 2 = Some ex_mlx4_buddy" by code_simp
  have k: "kmalloc_ok ex_kmalloc" by (auto simp: ex_kmalloc_def kmalloc_ok_def)
  have "(2::nat) \<le> 30" by simp
  note H = mlx4_buddy_refines_mthca[OF i k this seg_start]
  show ?thesis using H[THEN conjunct1, rule_format, of 1] H[THEN conjunct2, THEN conjunct2] by (rule conjI)
qed

end
