(* ===== verification/Id_Alloc.thy ===== *)
theory Id_Alloc
  imports OFED_Prelude
begin

text \<open>
  The contract of the drivers' numeric-identifier allocators (queue pair, CQ, MPT,
  multicast-group numbers): what a client of \<open>alloc\<close>/\<open>free\<close> relies on.  An
  allocator hands out 32-bit handles, \<open>-1\<close> meaning exhaustion; a handle names a slot
  \<open>idx\<close> below \<open>cap\<close>.  The client-side facts about whole sequences of calls are
  proved once in the locale and reach the two implementations by interpretation.
\<close>

text \<open>A client's history: the handles it holds after a sequence of calls.\<close>

inductive id_trace ::
  "('s \<Rightarrow> u32 \<times> 's) \<Rightarrow> ('s \<Rightarrow> u32 \<Rightarrow> 's) \<Rightarrow> 's \<Rightarrow> 's \<Rightarrow> u32 list \<Rightarrow> bool"
  for al :: "'s \<Rightarrow> u32 \<times> 's" and fr :: "'s \<Rightarrow> u32 \<Rightarrow> 's" and s0 :: 's where
  id_start: "id_trace al fr s0 s0 []"
| id_alloc: "id_trace al fr s0 s hs \<Longrightarrow> al s = (h, s') \<Longrightarrow> h \<noteq> -1 \<Longrightarrow> id_trace al fr s0 s' (h # hs)"
| id_full: "id_trace al fr s0 s hs \<Longrightarrow> al s = (-1, s') \<Longrightarrow> id_trace al fr s0 s' hs"
| id_free: "id_trace al fr s0 s hs \<Longrightarrow> h \<in> set hs \<Longrightarrow> id_trace al fr s0 (fr s h) (remove1 h hs)"

text \<open>The weak contract: a call that reports exhaustion may have taken one of the slots of \<open>leaks\<close>
  for itself, which no client then holds.\<close>

locale leaky_allocator =
  fixes inv :: "'s \<Rightarrow> bool"
    and used :: "'s \<Rightarrow> nat set"
    and cap :: "'s \<Rightarrow> nat"
    and idx :: "'s \<Rightarrow> u32 \<Rightarrow> nat"
    and leaks :: "'s \<Rightarrow> nat set"
    and al :: "'s \<Rightarrow> u32 \<times> 's"
    and fr :: "'s \<Rightarrow> u32 \<Rightarrow> 's"
  assumes used_below: "inv s \<Longrightarrow> used s \<subseteq> {..<cap s}"
    and al_inv: "inv s \<Longrightarrow> al s = (h, s') \<Longrightarrow> inv s'"
    and al_frame: "inv s \<Longrightarrow> al s = (h, s') \<Longrightarrow> cap s' = cap s \<and> idx s' = idx s \<and> leaks s' = leaks s"
    and al_fresh: "inv s \<Longrightarrow> al s = (h, s') \<Longrightarrow> h \<noteq> -1 \<Longrightarrow>
      idx s h \<in> {..<cap s} - used s \<and> used s' = insert (idx s h) (used s)"
    and al_fail: "inv s \<Longrightarrow> al s = (-1, s') \<Longrightarrow>
      (used s = {..<cap s} \<and> used s' = used s) \<or> (\<exists>i \<in> leaks s - used s. used s' = insert i (used s))"
    and fr_inv: "inv s \<Longrightarrow> idx s h \<in> used s \<Longrightarrow> inv (fr s h)"
    and fr_frame: "inv s \<Longrightarrow> idx s h \<in> used s \<Longrightarrow> cap (fr s h) = cap s \<and> idx (fr s h) = idx s \<and> leaks (fr s h) = leaks s"
    and fr_used: "inv s \<Longrightarrow> idx s h \<in> used s \<Longrightarrow> used (fr s h) = used s - {idx s h}"
begin

definition trace_ok :: "'s \<Rightarrow> 's \<Rightarrow> u32 list \<Rightarrow> nat set \<Rightarrow> bool" where
  "trace_ok s0 s hs lost \<longleftrightarrow> inv s \<and> cap s = cap s0 \<and> idx s = idx s0 \<and> leaks s = leaks s0 \<and> distinct (map (idx s0) hs) \<and>
     used s0 \<inter> idx s0 ` set hs = {} \<and> lost \<subseteq> leaks s0 \<and> lost \<inter> (used s0 \<union> idx s0 ` set hs) = {} \<and>
     used s = used s0 \<union> idx s0 ` set hs \<union> lost"

lemma trace_ok_free:
  assumes "trace_ok s0 s hs lost" "h \<in> set hs"
  shows "trace_ok s0 (fr s h) (remove1 h hs) lost"
proof -
  have IH: "inv s" "cap s = cap s0" "idx s = idx s0" "leaks s = leaks s0" "distinct (map (idx s0) hs)"
    "used s0 \<inter> idx s0 ` set hs = {}" "lost \<subseteq> leaks s0" "lost \<inter> (used s0 \<union> idx s0 ` set hs) = {}" "used s = used s0 \<union> idx s0 ` set hs \<union> lost"
    using assms(1) by (auto simp: trace_ok_def)
  have hu: "idx s h \<in> used s" using IH assms(2) by auto
  have dh: "distinct hs" using IH(5) by (simp add: distinct_map)
  have img: "idx s0 ` set (remove1 h hs) = idx s0 ` set hs - {idx s0 h}"
    using IH(5) assms(2) dh by (auto simp: distinct_map inj_on_def)
  have "distinct (map (idx s0) (remove1 h hs))"
    using IH(5) dh by (auto simp: distinct_map distinct_remove1 inj_on_def dest: notin_set_remove1)
  moreover have "idx s0 h \<notin> used s0" "idx s0 h \<notin> lost" using IH(6,8) assms(2) by auto
  moreover have "used (fr s h) = used s - {idx s0 h}" using fr_used[OF IH(1) hu] IH(3) by simp
  ultimately show ?thesis
    unfolding trace_ok_def using IH img fr_inv[OF IH(1) hu] fr_frame[OF IH(1) hu] by auto
qed

lemma weak_trace:
  assumes "id_trace al fr s0 s hs" "inv s0"
  shows "\<exists>lost. trace_ok s0 s hs lost"
  using assms
proof (induction rule: id_trace.induct)
  case id_start
  then show ?case by (auto simp: trace_ok_def)
next
  case (id_alloc s hs h s')
  then obtain lost where IH: "trace_ok s0 s hs lost" by blast
  then have i: "inv s" by (simp add: trace_ok_def)
  have "idx s h \<notin> used s" "used s' = insert (idx s h) (used s)" using al_fresh[OF i id_alloc.hyps(2,3)] by auto
  then have "trace_ok s0 s' (h # hs) lost"
    using IH al_inv[OF i id_alloc.hyps(2)] al_frame[OF i id_alloc.hyps(2)] by (auto simp: trace_ok_def)
  then show ?case by blast
next
  case (id_full s hs s')
  then obtain lost where IH: "trace_ok s0 s hs lost" by blast
  then have i: "inv s" by (simp add: trace_ok_def)
  note f = al_inv[OF i id_full.hyps(2)] al_frame[OF i id_full.hyps(2)]
  from al_fail[OF i id_full.hyps(2)] show ?case
  proof
    assume "used s = {..<cap s} \<and> used s' = used s"
    then have "used s' = used s" by simp
    then have "trace_ok s0 s' hs lost" using IH f by (simp add: trace_ok_def)
    then show ?case by blast
  next
    assume "\<exists>i \<in> leaks s - used s. used s' = insert i (used s)"
    then obtain j where "j \<in> leaks s - used s" "used s' = insert j (used s)" by blast
    then have "trace_ok s0 s' hs (insert j lost)" using IH f by (auto simp: trace_ok_def)
    then show ?case by blast
  qed
next
  case (id_free s hs h)
  then show ?case using trace_ok_free by blast
qed

lemma weak_count:
  assumes "trace_ok s0 s hs lost" "inv s0"
  shows "card (used s) = card (used s0) + length hs + card lost" and "card (used s0) + length hs + card lost \<le> cap s0"
    and "used s = {..<cap s0} \<longleftrightarrow> card (used s0) + length hs + card lost = cap s0"
proof -
  note I = assms(1)[unfolded trace_ok_def]
  have sub: "used s \<subseteq> {..<cap s0}" using I used_below[of s] by auto
  then have fin: "finite (used s)" using finite_subset by blast
  have c: "card (idx s0 ` set hs) = length hs" using I by (metis distinct_card length_map list.set_map)
  have "card (used s) = card (used s0 \<union> idx s0 ` set hs) + card lost"
    using I fin by (metis (no_types) card_Un_disjoint finite_Un inf_commute)
  also have "card (used s0 \<union> idx s0 ` set hs) = card (used s0) + length hs" using I fin c by (metis card_Un_disjoint finite_Un)
  finally show n: "card (used s) = card (used s0) + length hs + card lost" .
  show "card (used s0) + length hs + card lost \<le> cap s0" using card_mono[OF _ sub] n by simp
  show "used s = {..<cap s0} \<longleftrightarrow> card (used s0) + length hs + card lost = cap s0"
    using n sub card_subset_eq[of "{..<cap s0}" "used s"] by auto
qed

lemma weak_full:
  assumes "trace_ok s0 s hs lost" "inv s0" "al s = (h, s')"
  shows "used s = {..<cap s0} \<Longrightarrow> h = -1"
    and "h = -1 \<Longrightarrow> used s = {..<cap s0} \<or> (\<exists>i \<in> leaks s0 - used s. used s' = insert i (used s))"
proof -
  have i: "inv s" "cap s = cap s0" "leaks s = leaks s0" using assms(1) by (simp_all add: trace_ok_def)
  show "h = -1" if "used s = {..<cap s0}" using al_fresh[OF i(1) assms(3)] i(2) that by auto
  show "used s = {..<cap s0} \<or> (\<exists>i \<in> leaks s0 - used s. used s' = insert i (used s))" if "h = -1"
    using al_fail[OF i(1), of s'] assms(3) i(2,3) that by auto
qed

end

text \<open>The full contract loses nothing.\<close>

locale id_allocator =
  fixes inv :: "'s \<Rightarrow> bool"
    and used :: "'s \<Rightarrow> nat set"
    and cap :: "'s \<Rightarrow> nat"
    and idx :: "'s \<Rightarrow> u32 \<Rightarrow> nat"
    and al :: "'s \<Rightarrow> u32 \<times> 's"
    and fr :: "'s \<Rightarrow> u32 \<Rightarrow> 's"
  assumes used_below: "inv s \<Longrightarrow> used s \<subseteq> {..<cap s}"
    and al_inv: "inv s \<Longrightarrow> al s = (h, s') \<Longrightarrow> inv s'"
    and al_frame: "inv s \<Longrightarrow> al s = (h, s') \<Longrightarrow> cap s' = cap s \<and> idx s' = idx s"
    and al_fresh: "inv s \<Longrightarrow> al s = (h, s') \<Longrightarrow> h \<noteq> -1 \<Longrightarrow>
      idx s h \<in> {..<cap s} - used s \<and> used s' = insert (idx s h) (used s)"
    and al_full: "inv s \<Longrightarrow> al s = (-1, s') \<Longrightarrow> used s = {..<cap s} \<and> used s' = used s"
    and fr_inv: "inv s \<Longrightarrow> idx s h \<in> used s \<Longrightarrow> inv (fr s h)"
    and fr_frame: "inv s \<Longrightarrow> idx s h \<in> used s \<Longrightarrow> cap (fr s h) = cap s \<and> idx (fr s h) = idx s"
    and fr_used: "inv s \<Longrightarrow> idx s h \<in> used s \<Longrightarrow> used (fr s h) = used s - {idx s h}"
begin

lemma al_succeeds_iff:
  assumes "inv s" "al s = (h, s')"
  shows "h \<noteq> -1 \<longleftrightarrow> used s \<noteq> {..<cap s}"
  using al_fresh[OF assms] al_full[of s s'] assms by auto

lemma al_fr_used:
  assumes "inv s" "al s = (h, s')" "h \<noteq> -1"
  shows "used (fr s' h) = used s"
  using al_fresh[OF assms] al_inv[OF assms(1,2)] al_frame[OF assms(1,2)] fr_used[of s' h] by auto

end

sublocale id_allocator \<subseteq> weak: leaky_allocator inv used cap idx "\<lambda>_. {}" al fr
proof
  fix s s' h
  assume i: "inv s"
  show "used s \<subseteq> {..<cap s}" by (rule used_below[OF i])
  show "inv s'" if "al s = (h, s')" by (rule al_inv[OF i that])
  show "cap s' = cap s \<and> idx s' = idx s \<and> {} = ({} :: nat set)" if "al s = (h, s')" using al_frame[OF i that] by simp
  show "idx s h \<in> {..<cap s} - used s \<and> used s' = insert (idx s h) (used s)" if "al s = (h, s')" "h \<noteq> -1"
    by (rule al_fresh[OF i that])
  show "(used s = {..<cap s} \<and> used s' = used s) \<or> (\<exists>i \<in> {} - used s. used s' = insert i (used s))" if "al s = (-1, s')"
    using al_full[OF i that] by simp
  assume u: "idx s h \<in> used s"
  show "inv (fr s h)" "used (fr s h) = used s - {idx s h}" by (rule fr_inv[OF i u], rule fr_used[OF i u])
  show "cap (fr s h) = cap s \<and> idx (fr s h) = idx s \<and> {} = ({} :: nat set)" using fr_frame[OF i u] by simp
qed

context id_allocator
begin

lemma trace_inv:
  assumes "id_trace al fr s0 s hs" "inv s0"
  shows "inv s \<and> cap s = cap s0 \<and> idx s = idx s0 \<and> distinct (map (idx s0) hs) \<and>
    used s0 \<inter> idx s0 ` set hs = {} \<and> used s = used s0 \<union> idx s0 ` set hs"
  using weak.weak_trace[OF assms] by (auto simp: weak.trace_ok_def)

text \<open>The number of live handles is exactly the growth of the used set.\<close>

lemma trace_count:
  assumes "id_trace al fr s0 s hs" "inv s0"
  shows "card (used s) = card (used s0) + length hs" and "card (used s0) + length hs \<le> cap s0"
proof -
  note I = trace_inv[OF assms]
  have fin: "finite (used s0)" using used_below[OF assms(2)] finite_subset by blast
  have "card (idx s0 ` set hs) = length hs"
    using I by (metis distinct_card length_map list.set_map)
  then show c: "card (used s) = card (used s0) + length hs"
    using I fin by (simp add: card_Un_disjoint)
  have "used s \<subseteq> {..<cap s}" using I used_below by blast
  then have "card (used s) \<le> card {..<cap s}" by (intro card_mono) auto
  then show "card (used s0) + length hs \<le> cap s0" using c I by simp
qed

lemma trace_full_iff:
  assumes "id_trace al fr s0 s hs" "inv s0" "al s = (h, s')"
  shows "h = -1 \<longleftrightarrow> card (used s0) + length hs = cap s0"
proof -
  note I = trace_inv[OF assms(1,2)]
  have "h = -1 \<longleftrightarrow> used s = {..<cap s}" using al_succeeds_iff[OF _ assms(3)] I by auto
  also have "\<dots> \<longleftrightarrow> card (used s) = cap s"
    using used_below[of s] I card_subset_eq[of "{..<cap s}" "used s"] by auto
  finally show ?thesis using trace_count(1)[OF assms(1,2)] I by simp
qed

end

end
