(* ===== verification/Mlx4_Bitmap.thy ===== *)
theory Mlx4_Bitmap
  imports L2w_Bit Id_Alloc
begin

text \<open>
  The ConnectX driver's bitmap allocator (\<open>hw/mlx4/kernel/bus/net/alloc.c\<close>): single
  identifiers, aligned ranges, initialisation.  The struct is a record of 32-bit fields
  with the table of words behind it; the spin lock makes every operation atomic, so an
  operation is a function from the struct to its result and the struct it leaves.
\<close>

record mlx4_bitmap =
  bm_last :: u32
  bm_top :: u32
  bm_max :: u32
  bm_effective_max :: u32
  bm_mask :: u32
  bm_avail :: u32
  bm_table :: "u32 list"

definition mlx4_bitmap_alloc :: "mlx4_bitmap \<Rightarrow> u32 \<times> mlx4_bitmap" where
  "mlx4_bitmap_alloc b =
     (let obj = find_next_zero_bit (bm_table b) (bm_effective_max b) (bm_last b);
          (obj, b) =
            (if bm_effective_max b \<le> obj
             then (find_first_zero_bit (bm_table b) (bm_effective_max b),
                   b\<lparr>bm_top := (bm_top b + bm_max b) AND bm_mask b\<rparr>)
             else (obj, b));
          (obj, b) =
            (if obj < bm_effective_max b
             then let b = b\<lparr>bm_table := l2w_set_bit (unat obj) (bm_table b), bm_last := obj + 1\<rparr>;
                      b = (if bm_last b = bm_effective_max b then b\<lparr>bm_last := 0\<rparr> else b)
                  in (obj OR bm_top b, b)
             else (-1, b));
          b = (if obj \<noteq> -1 then b\<lparr>bm_avail := bm_avail b - 1\<rparr> else b)
      in (obj, b))"

definition mlx4_bitmap_free :: "mlx4_bitmap \<Rightarrow> u32 \<Rightarrow> mlx4_bitmap" where
  "mlx4_bitmap_free b obj =
     (let obj = obj AND (bm_max b - 1)
      in b\<lparr>bm_table := l2w_clear_bit (unat obj) (bm_table b),
           bm_last := min (bm_last b) obj,
           bm_top := (bm_top b + bm_max b) AND bm_mask b,
           bm_avail := bm_avail b + 1\<rparr>)"

definition l2w_align :: "u32 \<Rightarrow> u32 \<Rightarrow> u32" where
  "l2w_align x a = (x + a - 1) AND NOT (a - 1)"

text \<open>The \<open>while\<close> loop that steps over occupied aligned slots.  Unsigned arithmetic may
  wrap, so the loop is a partial function; \<open>None\<close> is non-termination.\<close>

partial_function (option) zstr_skip :: "u32 list \<Rightarrow> u32 \<Rightarrow> u32 \<Rightarrow> u32 \<Rightarrow> u32 option" where
  "zstr_skip bitmap start nbits align =
     (if start < nbits \<and> l2w_test_bit (unat start) bitmap
      then zstr_skip bitmap (start + align) nbits align
      else Some start)"

text \<open>The \<open>for\<close> loop over the candidate range: the first occupied position, if any.\<close>

function zstr_scan :: "u32 list \<Rightarrow> u32 \<Rightarrow> u32 \<Rightarrow> u32 option" where
  "zstr_scan bitmap i e =
     (if i < e
      then if l2w_test_bit (unat i) bitmap then Some i else zstr_scan bitmap (i + 1) e
      else None)"
  by pat_completeness auto
termination
proof (relation "measure (\<lambda>(bitmap, i, e). unat e - unat i)")
  fix bitmap :: "u32 list" and i e :: u32
  assume "i < e"
  then have "unat i < unat e" by (simp add: word_less_nat_alt)
  moreover have "unat (i + 1) = unat i + 1" using \<open>i < e\<close> by (rule unat_Suc_less)
  ultimately show "((bitmap, i + 1, e), bitmap, i, e) \<in> measure (\<lambda>(bitmap, i, e). unat e - unat i)"
    by simp
qed simp

declare zstr_scan.simps [simp del]

partial_function (option) find_next_zero_string_aligned ::
  "u32 list \<Rightarrow> u32 \<Rightarrow> u32 \<Rightarrow> u32 \<Rightarrow> u32 \<Rightarrow> u32 option" where
  "find_next_zero_string_aligned bitmap start nbits len align =
     (case zstr_skip bitmap (l2w_align start align) nbits align of
        None \<Rightarrow> None
      | Some start \<Rightarrow>
          if nbits \<le> start then Some (-1)
          else if nbits < start + len then Some (-1)
          else case zstr_scan bitmap (start + 1) (start + len) of
                 Some i \<Rightarrow> find_next_zero_string_aligned bitmap (i + 1) nbits len align
               | None \<Rightarrow> Some start)"

definition mlx4_bitmap_alloc_range :: "mlx4_bitmap \<Rightarrow> u32 \<Rightarrow> u32 \<Rightarrow> (u32 \<times> mlx4_bitmap) option" where
  "mlx4_bitmap_alloc_range b cnt align =
     (if cnt = 1 \<and> align = 1 then Some (mlx4_bitmap_alloc b)
      else
        (case find_next_zero_string_aligned (bm_table b) (bm_last b) (bm_effective_max b) cnt align of
           None \<Rightarrow> None
         | Some obj \<Rightarrow>
             (case (if bm_effective_max b \<le> obj
                    then find_next_zero_string_aligned (bm_table b) 0 (bm_effective_max b) cnt align
                    else Some obj) of
                None \<Rightarrow> None
              | Some obj \<Rightarrow>
                  let (obj, b) =
                        (if obj < bm_effective_max b
                         then let b = b\<lparr>bm_table := fold (\<lambda>i. l2w_set_bit (unat obj + i)) [0..<int_count cnt] (bm_table b)\<rparr>;
                                  b = (if obj = bm_last b
                                       then let b = b\<lparr>bm_last := obj + cnt\<rparr>
                                            in if bm_effective_max b \<le> bm_last b then b\<lparr>bm_last := 0\<rparr> else b
                                       else b)
                              in (obj OR bm_top b, b)
                         else (-1, b));
                      b = (if obj \<noteq> -1 then b\<lparr>bm_avail := bm_avail b - cnt\<rparr> else b)
                  in Some (obj, b))))"

definition mlx4_bitmap_free_range :: "mlx4_bitmap \<Rightarrow> u32 \<Rightarrow> u32 \<Rightarrow> mlx4_bitmap" where
  "mlx4_bitmap_free_range b obj cnt =
     (let obj = obj AND (bm_max b - 1)
      in b\<lparr>bm_table := fold (\<lambda>i. l2w_clear_bit (unat obj + i)) [0..<int_count cnt] (bm_table b),
           bm_last := min (bm_last b) obj,
           bm_avail := bm_avail b + cnt\<rparr>)"

definition mlx4_bitmap_avail :: "mlx4_bitmap \<Rightarrow> u32" where
  "mlx4_bitmap_avail b = bm_avail b"

text \<open>Initialisation; \<open>mem\<close> says whether the table allocation succeeds.\<close>

definition mlx4_bitmap_init_with_effective_max ::
  "bool \<Rightarrow> u32 \<Rightarrow> u32 \<Rightarrow> u32 \<Rightarrow> u32 \<Rightarrow> errno + mlx4_bitmap" where
  "mlx4_bitmap_init_with_effective_max mem num msk reserved effective_max =
     (if num \<noteq> roundup_pow_of_two num then Inl EINVAL
      else if \<not> mem then Inl ENOMEM
      else Inr \<lparr>bm_last = 0, bm_top = 0, bm_max = num, bm_effective_max = effective_max,
                bm_mask = msk, bm_avail = effective_max - reserved,
                bm_table = fold l2w_set_bit [0..<int_count reserved]
                             (replicate (unat (bits_to_longs num)) 0)\<rparr>)"

definition mlx4_bitmap_init :: "bool \<Rightarrow> u32 \<Rightarrow> u32 \<Rightarrow> u32 \<Rightarrow> errno + mlx4_bitmap" where
  "mlx4_bitmap_init mem num msk reserved =
     mlx4_bitmap_init_with_effective_max mem num msk reserved num"

definition mlx4_bitmap_init_no_mask :: "bool \<Rightarrow> u32 \<Rightarrow> u32 \<Rightarrow> u32 \<Rightarrow> errno + mlx4_bitmap" where
  "mlx4_bitmap_init_no_mask mem num reserved_bot reserved_top =
     (let num_rounded = roundup_pow_of_two num
      in mlx4_bitmap_init_with_effective_max mem num_rounded (num_rounded - 1)
           reserved_bot (num - reserved_top))"

section \<open>Powers of two and handles\<close>

lemma is_power_of_2_iff: "is_power_of_2 n \<longleftrightarrow> (\<exists>k < 32. n = 2 ^ k)"
proof
  assume h: "is_power_of_2 n"
  then have nz: "n \<noteq> 0" and z: "n AND (n - 1) = 0" by (auto simp: is_power_of_2_def)
  let ?k = "fls n - 1"
  have k: "?k < 32" and lo: "2 ^ ?k \<le> unat n" and hi: "unat n < 2 ^ Suc ?k"
    using fls_bounds[OF nz] by auto
  have bit_k: "bit w ?k" if "2 ^ ?k \<le> unat w" "unat w < 2 ^ Suc ?k" for w :: u32
  proof -
    have "unat w div 2 ^ ?k = 1" using that by (simp add: div_nat_eqI)
    then have "bit (unat w) ?k" by (simp add: bit_iff_odd)
    then show ?thesis by (simp add: bit_unsigned_iff)
  qed
  have "unat n = 2 ^ ?k"
  proof (rule ccontr)
    assume "unat n \<noteq> 2 ^ ?k"
    with lo have "2 ^ ?k \<le> unat n - 1" by simp
    moreover have "unat (n - 1) = unat n - 1" using nz by (rule unat_minus_one)
    ultimately have "bit (n - 1) ?k" "bit n ?k" using bit_k lo hi by simp_all
    then have "bit (n AND (n - 1)) ?k" by (simp add: bit_and_iff)
    with z show False by simp
  qed
  then have "n = 2 ^ ?k" using k by (simp add: word_unat_eq_iff)
  with k show "\<exists>k < 32. n = 2 ^ k" by blast
next
  assume "\<exists>k < 32. n = 2 ^ k"
  then obtain k where k: "k < 32" "n = 2 ^ k" by blast
  then have "n - 1 = mask k" by (simp add: mask_eq_exp_minus_1)
  moreover have "(2 ^ k :: u32) AND mask k = 0"
    by (rule bit_word_eqI) (auto simp: bit_and_iff bit_exp_iff bit_mask_iff)
  moreover have "n \<noteq> 0" using k by simp
  ultimately show "is_power_of_2 n" by (simp add: is_power_of_2_def k(2))
qed

lemma power_of_2_bound: "is_power_of_2 n \<Longrightarrow> unat n \<le> 2 ^ 31"
proof -
  assume "is_power_of_2 n"
  then obtain k where k: "k < 32" "n = 2 ^ k" by (auto simp: is_power_of_2_iff)
  then show ?thesis using power_increasing[of k 31 "2::nat"] by simp
qed

lemma and_pow2_minus_one:
  fixes x :: u32
  assumes "k < 32"
  shows "x AND (2 ^ k - 1) = take_bit k x"
  by (simp add: take_bit_eq_mask mask_eq_exp_minus_1)

lemma handle_idx:
  assumes "is_power_of_2 m" "obj < m" "tp AND (m - 1) = (0 :: u32)"
  shows "(obj OR tp) AND (m - 1) = obj"
proof -
  obtain k where k: "k < 32" "m = 2 ^ k" using assms(1) by (auto simp: is_power_of_2_iff)
  have "take_bit k obj = obj"
  proof -
    have "unat obj < 2 ^ k" using assms(2) k by (simp add: word_less_nat_alt)
    then have "take_bit k (unat obj) = unat obj" by (simp add: take_bit_nat_eq_self)
    then show ?thesis by (simp add: word_unat_eq_iff unsigned_take_bit_eq)
  qed
  moreover have "take_bit k tp = 0" using assms(3) k by (simp add: and_pow2_minus_one)
  ultimately show ?thesis using k by (simp add: and_pow2_minus_one take_bit_or)
qed

lemma bit_less_pow2:
  fixes w :: u32
  assumes "w < 2 ^ k" "k < 32" "bit w i"
  shows "i < k"
proof (rule ccontr)
  assume "\<not> i < k"
  moreover have "unat w < 2 ^ k" using assms(1,2) by (simp add: word_less_nat_alt)
  moreover have "(2::nat) ^ k \<le> 2 ^ i" using \<open>\<not> i < k\<close> by simp
  ultimately have "unat w < 2 ^ i" by linarith
  then have "\<not> bit (unat w) i" by (simp add: bit_iff_odd)
  with assms(3) bit_imp_le_length[OF assms(3)] show False by (simp add: bit_unsigned_iff)
qed

text \<open>The prefix bits of a handle never complete it to all ones: either the mask leaves one of the
  bits out, or the last index is never handed out.\<close>

definition prefix_ok :: "u32 \<Rightarrow> u32 \<Rightarrow> u32 \<Rightarrow> bool" where
  "prefix_ok msk num eff \<longleftrightarrow> msk OR (num - 1) \<noteq> -1 \<or> eff < num"

lemma handle_not_minus_one_mask:
  assumes "is_power_of_2 m" "obj < m" "tp AND NOT msk = 0" "msk OR (m - 1) \<noteq> (-1 :: u32)"
  shows "obj OR tp \<noteq> -1"
proof
  assume h: "obj OR tp = -1"
  obtain k where k: "k < 32" "m = 2 ^ k" using assms(1) by (auto simp: is_power_of_2_iff)
  have mm: "m - 1 = mask k" using k by (simp add: mask_eq_exp_minus_1)
  have "msk OR (m - 1) = -1"
  proof (rule bit_word_eqI)
    fix i assume i: "i < LENGTH(32)"
    then have "bit (obj OR tp) i" by (simp add: h)
    then have "bit obj i \<or> bit tp i" by (simp add: bit_or_iff)
    moreover have "\<not> bit (tp AND NOT msk) i" using assms(3) by simp
    ultimately have "i < k \<or> bit msk i"
      using bit_less_pow2[of obj k i] assms(2) k i by (auto simp: bit_and_iff bit_not_iff possible_bit_def)
    then show "bit (msk OR (m - 1)) i = bit (-1 :: u32) i"
      using i by (auto simp: mm bit_or_iff bit_mask_iff possible_bit_def)
  qed
  with assms(4) show False ..
qed

lemma handle_not_minus_one:
  assumes "is_power_of_2 m" "obj < eff" "eff \<le> m" "tp AND (m - 1) = 0" "tp AND NOT msk = 0" "prefix_ok msk m eff"
  shows "obj OR tp \<noteq> -1"
proof (cases "msk OR (m - 1) = -1")
  case False
  then show ?thesis using handle_not_minus_one_mask[of m obj tp msk] assms by (meson order_less_le_trans)
next
  case True
  then have em: "eff < m" using assms(6) by (simp add: prefix_ok_def)
  show ?thesis
  proof
    assume "obj OR tp = -1"
    moreover have "(obj OR tp) AND (m - 1) = obj" using handle_idx[of m obj tp] assms by (meson order_less_le_trans)
    ultimately have "obj = m - 1" by simp
    moreover have "unat (m - 1) = unat m - 1" using em by (intro unat_minus_one) auto
    moreover have "unat obj < unat eff" "unat eff < unat m" using assms(2) em by (simp_all add: word_less_nat_alt)
    ultimately show False by simp
  qed
qed

lemma top_advance:
  assumes "is_power_of_2 m" "tp AND (m - 1) = (0 :: u32)"
  shows "((tp + m) AND msk) AND (m - 1) = 0"
proof -
  obtain k where k: "k < 32" "m = 2 ^ k" using assms(1) by (auto simp: is_power_of_2_iff)
  have tb: "take_bit k x = 0 \<longleftrightarrow> 2 ^ k dvd unat x" for x :: u32
    by (simp add: word_unat_eq_iff unsigned_take_bit_eq dvd_eq_mod_eq_0) (simp only: take_bit_eq_mod)
  have "2 ^ k dvd unat tp" using assms(2) k by (simp add: and_pow2_minus_one tb)
  moreover have "2 ^ k dvd unat m" using k by simp
  moreover have "(2 :: nat) ^ k dvd 2 ^ 32" using k(1) by (intro le_imp_power_dvd) simp
  ultimately have "2 ^ k dvd unat (tp + m)" by (simp add: unat_word_ariths dvd_mod)
  then have "take_bit k (tp + m) = 0" by (simp only: tb)
  then show ?thesis using k by (simp add: and_pow2_minus_one)
qed

section \<open>Single identifiers\<close>

definition bm_used :: "mlx4_bitmap \<Rightarrow> nat set" where
  "bm_used b = {i. i < unat (bm_effective_max b) \<and> l2w_test_bit i (bm_table b)}"

definition bm_idx :: "mlx4_bitmap \<Rightarrow> u32 \<Rightarrow> nat" where
  "bm_idx b h = unat (h AND (bm_max b - 1))"

text \<open>The invariant: a power-of-two size, a table that covers it, a rotating prefix
  \<open>top\<close> above the index bits, and a free counter that counts the clear bits.\<close>

definition bm_shape :: "mlx4_bitmap \<Rightarrow> bool" where
  "bm_shape b \<longleftrightarrow> is_power_of_2 (bm_max b) \<and> bm_effective_max b \<le> bm_max b \<and>
     unat (bm_max b) \<le> 32 * length (bm_table b) \<and> bm_last b \<le> bm_effective_max b \<and>
     bm_top b AND (bm_max b - 1) = 0 \<and> bm_top b AND NOT (bm_mask b) = 0"

definition bm_wf :: "mlx4_bitmap \<Rightarrow> bool" where
  "bm_wf b \<longleftrightarrow> bm_shape b \<and> prefix_ok (bm_mask b) (bm_max b) (bm_effective_max b) \<and>
     unat (bm_avail b) = count_upto (\<lambda>i. \<not> l2w_test_bit i (bm_table b)) (unat (bm_effective_max b))"

text \<open>Without \<open>prefix_ok\<close> the last slot can be lost: under the last prefix its handle is \<open>-1\<close>.\<close>

definition bm_leaks :: "mlx4_bitmap \<Rightarrow> nat set" where
  "bm_leaks b = (if prefix_ok (bm_mask b) (bm_max b) (bm_effective_max b) then {} else {unat (bm_max b) - 1})"

lemma bm_wf_shape: "bm_wf b \<Longrightarrow> bm_shape b"
  by (simp add: bm_wf_def)

lemma bm_shape_sizes:
  assumes "bm_shape b"
  shows "unat (bm_effective_max b) \<le> unat (bm_max b)" "unat (bm_max b) \<le> 2 ^ 31"
    "unat (bm_effective_max b) \<le> 32 * length (bm_table b)"
    "unat (bm_last b) \<le> unat (bm_effective_max b)"
  using assms power_of_2_bound[of "bm_max b"] by (auto simp: bm_shape_def word_le_nat_alt)

lemmas bm_wf_sizes = bm_shape_sizes[OF bm_wf_shape]

text \<open>The two-stage search of \<open>mlx4_bitmap_alloc\<close>: from \<open>last\<close> on, then from the start.\<close>

definition bm_search :: "mlx4_bitmap \<Rightarrow> u32" where
  "bm_search b =
     (let obj = find_next_zero_bit (bm_table b) (bm_effective_max b) (bm_last b)
      in if bm_effective_max b \<le> obj then find_first_zero_bit (bm_table b) (bm_effective_max b) else obj)"

lemma bm_search_props:
  assumes "bm_shape b"
  shows "bm_search b < bm_effective_max b \<Longrightarrow> \<not> l2w_test_bit (unat (bm_search b)) (bm_table b)"
    and "\<not> bm_search b < bm_effective_max b \<Longrightarrow> bm_used b = {..<unat (bm_effective_max b)}"
proof -
  let ?n = "unat (bm_effective_max b)"
  let ?P = "\<lambda>i. \<not> l2w_test_bit i (bm_table b)"
  let ?o1 = "find_next_zero_bit (bm_table b) (bm_effective_max b) (bm_last b)"
  let ?o2 = "find_first_zero_bit (bm_table b) (bm_effective_max b)"
  note sz = bm_shape_sizes[OF assms]
  have o1: "min (unat ?o1) ?n = first_idx ?P (unat (bm_last b)) ?n"
    using sz by (intro find_next_zero_bit_min) auto
  have o2: "min (unat ?o2) ?n = first_idx ?P 0 ?n"
    using sz by (intro find_first_zero_bit_min) auto
  have hit: "?P (unat x)" if "min (unat x) ?n = first_idx ?P lo ?n" "x < bm_effective_max b" for x :: u32 and lo
  proof -
    have "unat x < ?n" using that(2) by (simp add: word_less_nat_alt)
    with that(1) have "unat x = first_idx ?P lo ?n" "first_idx ?P lo ?n < ?n" by simp_all
    then show ?thesis using first_idx_hit[of ?P lo ?n] by simp
  qed
  show "?P (unat (bm_search b))" if "bm_search b < bm_effective_max b"
    using that hit[OF o1] hit[OF o2] by (auto simp: bm_search_def Let_def not_le split: if_splits)
  show "bm_used b = {..<?n}" if "\<not> bm_search b < bm_effective_max b"
  proof -
    have "\<not> ?o2 < bm_effective_max b"
      using that by (auto simp: bm_search_def Let_def not_le split: if_splits)
    then have "first_idx ?P 0 ?n = ?n" using o2 by (simp add: word_less_nat_alt)
    then show ?thesis by (auto simp: first_idx_none_iff bm_used_def)
  qed
qed

text \<open>One call of \<open>mlx4_bitmap_alloc\<close>, by outcome.\<close>

lemma top_masked: "((tp + m) AND msk) AND NOT msk = (0 :: u32)"
  by (auto intro: bit_word_eqI simp: bit_and_iff bit_not_iff)

lemma mlx4_bitmap_alloc_hit:
  assumes "bm_shape b" "bm_search b < bm_effective_max b"
  obtains tp where
    "mlx4_bitmap_alloc b = (bm_search b OR tp,
       b\<lparr>bm_table := l2w_set_bit (unat (bm_search b)) (bm_table b),
         bm_last := (if bm_search b + 1 = bm_effective_max b then 0 else bm_search b + 1),
         bm_top := tp, bm_avail := (if bm_search b OR tp = -1 then bm_avail b else bm_avail b - 1)\<rparr>)"
    "tp AND (bm_max b - 1) = 0" "tp AND NOT (bm_mask b) = 0"
proof -
  let ?tp = "if bm_effective_max b \<le> find_next_zero_bit (bm_table b) (bm_effective_max b) (bm_last b)
             then (bm_top b + bm_max b) AND bm_mask b else bm_top b"
  have wf: "is_power_of_2 (bm_max b)" "bm_top b AND (bm_max b - 1) = 0" "bm_top b AND NOT (bm_mask b) = 0"
    using assms(1) by (auto simp: bm_shape_def)
  have t: "?tp AND (bm_max b - 1) = 0" "?tp AND NOT (bm_mask b) = 0"
    using top_advance[OF wf(1,2), of "bm_mask b"] wf(2,3) top_masked by auto
  have "mlx4_bitmap_alloc b = (bm_search b OR ?tp,
       b\<lparr>bm_table := l2w_set_bit (unat (bm_search b)) (bm_table b),
         bm_last := (if bm_search b + 1 = bm_effective_max b then 0 else bm_search b + 1),
         bm_top := ?tp, bm_avail := (if bm_search b OR ?tp = -1 then bm_avail b else bm_avail b - 1)\<rparr>)"
    using assms(2)
    by (cases "bm_effective_max b \<le> find_next_zero_bit (bm_table b) (bm_effective_max b) (bm_last b)")
      (simp_all add: mlx4_bitmap_alloc_def bm_search_def Let_def)
  with t that show thesis by blast
qed

lemma mlx4_bitmap_alloc_none:
  assumes "\<not> bm_search b < bm_effective_max b"
  shows "mlx4_bitmap_alloc b = (-1, b\<lparr>bm_top := (bm_top b + bm_max b) AND bm_mask b\<rparr>)"
  using assms
  by (cases "bm_effective_max b \<le> find_next_zero_bit (bm_table b) (bm_effective_max b) (bm_last b)")
    (simp_all add: mlx4_bitmap_alloc_def bm_search_def Let_def not_le)

lemma bm_used_below: "bm_used b \<subseteq> {..<unat (bm_effective_max b)}"
  by (auto simp: bm_used_def)

lemma bm_idx_frame: "bm_max b' = bm_max b \<Longrightarrow> bm_idx b' = bm_idx b"
  by (simp add: bm_idx_def fun_eq_iff)

text \<open>Either every slot is taken and nothing but the prefix changes, or a clear slot is taken; its handle
  is \<open>-1\<close> only for the slot that can be lost.\<close>

lemma mlx4_bitmap_alloc_step:
  assumes "bm_shape b" "mlx4_bitmap_alloc b = (h, b')"
  obtains (full) "h = -1" "bm_used b = {..<unat (bm_effective_max b)}" "b' = b\<lparr>bm_top := (bm_top b + bm_max b) AND bm_mask b\<rparr>" "bm_shape b'"
  | (hit) "bm_idx b h \<in> {..<unat (bm_effective_max b)} - bm_used b" "bm_used b' = insert (bm_idx b h) (bm_used b)" "bm_shape b'"
      "bm_max b' = bm_max b" "bm_effective_max b' = bm_effective_max b" "bm_mask b' = bm_mask b"
      "bm_avail b' = (if h = -1 then bm_avail b else bm_avail b - 1)" "h = -1 \<Longrightarrow> bm_idx b h \<in> bm_leaks b"
proof (cases "bm_search b < bm_effective_max b")
  case False
  have b': "h = -1" "b' = b\<lparr>bm_top := (bm_top b + bm_max b) AND bm_mask b\<rparr>" using mlx4_bitmap_alloc_none[OF False] assms(2) by simp_all
  have "bm_shape b'"
    using assms(1) top_advance[of "bm_max b" "bm_top b" "bm_mask b"] top_masked by (simp add: bm_shape_def b')
  then show thesis using full[OF b'(1) bm_search_props(2)[OF assms(1) False] b'(2)] by blast
next
  case lt: True
  let ?o = "bm_search b" and ?n = "unat (bm_effective_max b)"
  note sz = bm_shape_sizes[OF assms(1)]
  have ult: "unat ?o < ?n" using lt by (simp add: word_less_nat_alt)
  have fr: "\<not> l2w_test_bit (unat ?o) (bm_table b)" using bm_search_props(1)[OF assms(1) lt] .
  have pw: "is_power_of_2 (bm_max b)" "bm_effective_max b \<le> bm_max b" using assms(1) by (auto simp: bm_shape_def)
  obtain tp where
    a: "mlx4_bitmap_alloc b = (?o OR tp,
       b\<lparr>bm_table := l2w_set_bit (unat ?o) (bm_table b),
         bm_last := (if ?o + 1 = bm_effective_max b then 0 else ?o + 1),
         bm_top := tp, bm_avail := (if ?o OR tp = -1 then bm_avail b else bm_avail b - 1)\<rparr>)"
    and t: "tp AND (bm_max b - 1) = 0" "tp AND NOT (bm_mask b) = 0"
    by (rule mlx4_bitmap_alloc_hit[OF assms(1) lt])
  have h: "h = ?o OR tp" and b': "b' = b\<lparr>bm_table := l2w_set_bit (unat ?o) (bm_table b),
         bm_last := (if ?o + 1 = bm_effective_max b then 0 else ?o + 1),
         bm_top := tp, bm_avail := (if h = -1 then bm_avail b else bm_avail b - 1)\<rparr>"
    using a assms(2) by auto
  have om: "?o < bm_max b" using lt sz(1) by (simp add: word_less_nat_alt)
  then have hi: "h AND (bm_max b - 1) = ?o" using handle_idx[of "bm_max b" ?o tp] t pw by (simp add: h)
  then have ix: "bm_idx b h = unat ?o" by (simp add: bm_idx_def)
  have tb: "l2w_test_bit i (bm_table b') \<longleftrightarrow> i = unat ?o \<or> l2w_test_bit i (bm_table b)" for i
    using ult sz(3) by (simp add: b' test_bit_set_bit)
  have e: "bm_max b' = bm_max b" "bm_effective_max b' = bm_effective_max b" "bm_mask b' = bm_mask b"
    "bm_avail b' = (if h = -1 then bm_avail b else bm_avail b - 1)" by (simp_all add: b')
  have "unat (?o + 1) = unat ?o + 1" using lt by (rule unat_Suc_less)
  then have "bm_last b' \<le> bm_effective_max b" using ult by (simp add: b' word_le_nat_alt)
  then have "bm_shape b'" using assms(1) t e by (simp add: bm_shape_def) (simp add: b')
  moreover have "bm_used b' = insert (bm_idx b h) (bm_used b)" using ult by (auto simp: bm_used_def tb ix e)
  moreover have "bm_idx b h \<in> bm_leaks b" if m: "h = -1"
  proof -
    have "\<not> prefix_ok (bm_mask b) (bm_max b) (bm_effective_max b)" using handle_not_minus_one[OF pw(1) lt pw(2) t] h m by metis
    moreover have "?o = bm_max b - 1" using hi m by simp
    moreover have "unat (bm_max b - 1) = unat (bm_max b) - 1" using om by (intro unat_minus_one) auto
    ultimately show ?thesis by (simp add: bm_leaks_def ix)
  qed
  ultimately show thesis using hit ult fr e by (simp add: ix bm_used_def)
qed

lemma mlx4_bitmap_alloc_fresh:
  assumes "bm_wf b" "mlx4_bitmap_alloc b = (h, b')" "h \<noteq> -1"
  shows "bm_idx b h \<in> {..<unat (bm_effective_max b)} - bm_used b"
    and "bm_used b' = insert (bm_idx b h) (bm_used b)" and "bm_wf b'"
    and "bm_max b' = bm_max b" and "bm_effective_max b' = bm_effective_max b"
    and "unat (bm_avail b') = unat (bm_avail b) - 1" and "0 < unat (bm_avail b)"
proof -
  let ?n = "unat (bm_effective_max b)" and ?i = "bm_idx b h"
  have S: "?i \<in> {..<?n} - bm_used b" "bm_used b' = insert ?i (bm_used b)" "bm_shape b'" "bm_max b' = bm_max b"
    "bm_effective_max b' = bm_effective_max b" "bm_mask b' = bm_mask b" "bm_avail b' = bm_avail b - 1"
    by (rule mlx4_bitmap_alloc_step[OF bm_wf_shape[OF assms(1)] assms(2)]; use assms(3) in simp)+
  then show "?i \<in> {..<?n} - bm_used b" "bm_used b' = insert ?i (bm_used b)" "bm_max b' = bm_max b" "bm_effective_max b' = bm_effective_max b"
    by simp_all
  have tb: "l2w_test_bit j (bm_table b') \<longleftrightarrow> j = ?i \<or> l2w_test_bit j (bm_table b)" if "j < ?n" for j
    using S(2,5) that by (auto simp: bm_used_def set_eq_iff)
  have cnt: "count_upto (\<lambda>j. \<not> l2w_test_bit j (bm_table b)) ?n = Suc (count_upto (\<lambda>j. \<not> l2w_test_bit j (bm_table b')) ?n)"
    using S(1) by (intro count_upto_insert[of ?i]) (auto simp: tb bm_used_def)
  then show av0: "0 < unat (bm_avail b)" using assms(1) by (simp add: bm_wf_def)
  show av: "unat (bm_avail b') = unat (bm_avail b) - 1" using av0 by (simp add: S(7) unat_minus_one unat_gt_0)
  show "bm_wf b'" using assms(1) S(3-6) cnt av by (simp add: bm_wf_def)
qed

lemma mlx4_bitmap_alloc_full:
  assumes "bm_wf b" "mlx4_bitmap_alloc b = (-1, b')"
  shows "bm_used b = {..<unat (bm_effective_max b)}" and "b' = b\<lparr>bm_top := (bm_top b + bm_max b) AND bm_mask b\<rparr>"
    and "bm_wf b'"
proof -
  have nl: "bm_leaks b = {}" using assms(1) by (simp add: bm_wf_def bm_leaks_def)
  show "bm_used b = {..<unat (bm_effective_max b)}" "b' = b\<lparr>bm_top := (bm_top b + bm_max b) AND bm_mask b\<rparr>"
    by (rule mlx4_bitmap_alloc_step[OF bm_wf_shape[OF assms(1)] assms(2)]; use nl in simp)+
  moreover have "bm_shape b'" by (rule mlx4_bitmap_alloc_step[OF bm_wf_shape[OF assms(1)] assms(2)])
  ultimately show "bm_wf b'" using assms(1) by (simp add: bm_wf_def)
qed

lemma mlx4_bitmap_free_shape:
  assumes "bm_shape b" "bm_idx b h \<in> bm_used b"
  shows "bm_used (mlx4_bitmap_free b h) = bm_used b - {bm_idx b h}" and "bm_shape (mlx4_bitmap_free b h)"
    and "bm_max (mlx4_bitmap_free b h) = bm_max b" and "bm_effective_max (mlx4_bitmap_free b h) = bm_effective_max b"
    and "bm_mask (mlx4_bitmap_free b h) = bm_mask b" and "bm_avail (mlx4_bitmap_free b h) = bm_avail b + 1"
proof -
  let ?b = "mlx4_bitmap_free b h" and ?i = "bm_idx b h"
  note sz = bm_shape_sizes[OF assms(1)]
  have i: "?i < unat (bm_effective_max b)" using assms(2) by (auto simp: bm_used_def)
  show e: "bm_max ?b = bm_max b" "bm_effective_max ?b = bm_effective_max b" "bm_mask ?b = bm_mask b" "bm_avail ?b = bm_avail b + 1"
    by (simp_all add: mlx4_bitmap_free_def Let_def)
  have tab: "bm_table ?b = l2w_clear_bit ?i (bm_table b)" by (simp add: mlx4_bitmap_free_def Let_def bm_idx_def)
  have tb: "l2w_test_bit j (bm_table ?b) \<longleftrightarrow> j \<noteq> ?i \<and> l2w_test_bit j (bm_table b)" for j
    using i(1) sz(3) by (simp add: tab test_bit_clear_bit)
  show "bm_used ?b = bm_used b - {?i}" by (auto simp: bm_used_def tb e)
  have "bm_last ?b \<le> bm_effective_max b" "bm_top ?b = (bm_top b + bm_max b) AND bm_mask b"
    using assms(1) by (simp_all add: mlx4_bitmap_free_def Let_def bm_shape_def min.coboundedI1)
  then show "bm_shape ?b"
    using assms(1) top_advance[of "bm_max b" "bm_top b" "bm_mask b"] top_masked
    by (simp add: bm_shape_def e) (simp add: tab)
qed

lemma mlx4_bitmap_free_props:
  assumes "bm_wf b" "bm_idx b h \<in> bm_used b"
  shows "bm_used (mlx4_bitmap_free b h) = bm_used b - {bm_idx b h}" and "bm_wf (mlx4_bitmap_free b h)"
    and "bm_max (mlx4_bitmap_free b h) = bm_max b"
    and "bm_effective_max (mlx4_bitmap_free b h) = bm_effective_max b"
    and "unat (bm_avail (mlx4_bitmap_free b h)) = unat (bm_avail b) + 1"
proof -
  let ?b = "mlx4_bitmap_free b h" and ?n = "unat (bm_effective_max b)" and ?i = "bm_idx b h"
  note F = mlx4_bitmap_free_shape[OF bm_wf_shape[OF assms(1)] assms(2)]
  show "bm_used ?b = bm_used b - {?i}" "bm_max ?b = bm_max b" "bm_effective_max ?b = bm_effective_max b" by (rule F)+
  have tb: "l2w_test_bit j (bm_table ?b) \<longleftrightarrow> j \<noteq> ?i \<and> l2w_test_bit j (bm_table b)" if "j < ?n" for j
    using F(1,4) that by (auto simp: bm_used_def set_eq_iff)
  have cnt: "count_upto (\<lambda>j. \<not> l2w_test_bit j (bm_table ?b)) ?n = Suc (count_upto (\<lambda>j. \<not> l2w_test_bit j (bm_table b)) ?n)"
    using assms(2) by (intro count_upto_insert[of ?i]) (auto simp: tb bm_used_def)
  moreover have "count_upto (\<lambda>j. \<not> l2w_test_bit j (bm_table ?b)) ?n \<le> ?n" by (rule count_upto_le)
  ultimately have "unat (bm_avail b) + 1 \<le> 2 ^ 31" using assms(1) bm_wf_sizes[OF assms(1)] by (simp add: bm_wf_def)
  then show av: "unat (bm_avail ?b) = unat (bm_avail b) + 1" by (simp add: F(6) unat_add_less)
  show "bm_wf ?b" using assms(1) F(2-5) cnt av by (simp add: bm_wf_def)
qed

lemma mlx4_bitmap_alloc_frame:
  assumes "bm_wf b" "mlx4_bitmap_alloc b = (h, b')"
  shows "bm_wf b'" and "bm_max b' = bm_max b" and "bm_effective_max b' = bm_effective_max b"
proof -
  have "bm_wf b' \<and> bm_max b' = bm_max b \<and> bm_effective_max b' = bm_effective_max b"
  proof (cases "h = -1")
    case True
    then have "mlx4_bitmap_alloc b = (-1, b')" using assms(2) by simp
    from mlx4_bitmap_alloc_full(2,3)[OF assms(1) this] show ?thesis by simp
  next
    case False
    from mlx4_bitmap_alloc_fresh(3-5)[OF assms this] show ?thesis by simp
  qed
  then show "bm_wf b'" "bm_max b' = bm_max b" "bm_effective_max b' = bm_effective_max b" by simp_all
qed

interpretation mlx4_weak: leaky_allocator bm_shape bm_used "\<lambda>b. unat (bm_effective_max b)" bm_idx bm_leaks
  mlx4_bitmap_alloc mlx4_bitmap_free
proof
  fix s s' h
  assume i: "bm_shape s"
  show "bm_used s \<subseteq> {..<unat (bm_effective_max s)}" by (rule bm_used_below)
  show "bm_shape s'" if "mlx4_bitmap_alloc s = (h, s')" by (rule mlx4_bitmap_alloc_step[OF i that])
  show "unat (bm_effective_max s') = unat (bm_effective_max s) \<and> bm_idx s' = bm_idx s \<and> bm_leaks s' = bm_leaks s"
    if "mlx4_bitmap_alloc s = (h, s')"
    by (rule mlx4_bitmap_alloc_step[OF i that]) (use bm_idx_frame[of s' s] in \<open>simp_all add: bm_leaks_def\<close>)
  show "bm_idx s h \<in> {..<unat (bm_effective_max s)} - bm_used s \<and> bm_used s' = insert (bm_idx s h) (bm_used s)"
    if "mlx4_bitmap_alloc s = (h, s')" "h \<noteq> -1"
    by (rule mlx4_bitmap_alloc_step[OF i that(1)]) (use that(2) in simp_all)
  show "(bm_used s = {..<unat (bm_effective_max s)} \<and> bm_used s' = bm_used s) \<or>
      (\<exists>i \<in> bm_leaks s - bm_used s. bm_used s' = insert i (bm_used s))"
    if "mlx4_bitmap_alloc s = (-1, s')"
  proof (rule mlx4_bitmap_alloc_step[OF i that], goal_cases)
    case 1
    have "bm_used s' = bm_used s" unfolding 1(3) by (simp add: bm_used_def)
    then show ?case using 1(2) by blast
  next
    case 2
    then show ?case by blast
  qed
  assume u: "bm_idx s h \<in> bm_used s"
  note F = mlx4_bitmap_free_shape[OF i u]
  show "bm_shape (mlx4_bitmap_free s h)" "bm_used (mlx4_bitmap_free s h) = bm_used s - {bm_idx s h}" by (rule F)+
  show "unat (bm_effective_max (mlx4_bitmap_free s h)) = unat (bm_effective_max s) \<and>
      bm_idx (mlx4_bitmap_free s h) = bm_idx s \<and> bm_leaks (mlx4_bitmap_free s h) = bm_leaks s"
    using F(3-5) bm_idx_frame[OF F(3)] by (simp add: bm_leaks_def)
qed

interpretation mlx4_ids: id_allocator bm_wf bm_used "\<lambda>b. unat (bm_effective_max b)" bm_idx
  mlx4_bitmap_alloc mlx4_bitmap_free
proof
  fix s s' h
  assume wf: "bm_wf s"
  show "bm_used s \<subseteq> {..<unat (bm_effective_max s)}" by (rule bm_used_below)
  show "bm_wf s'" if "mlx4_bitmap_alloc s = (h, s')"
    using mlx4_bitmap_alloc_frame(1)[OF wf that] .
  show "unat (bm_effective_max s') = unat (bm_effective_max s) \<and> bm_idx s' = bm_idx s"
    if "mlx4_bitmap_alloc s = (h, s')"
    using mlx4_bitmap_alloc_frame(3)[OF wf that] bm_idx_frame[OF mlx4_bitmap_alloc_frame(2)[OF wf that]]
    by simp
  show "bm_idx s h \<in> {..<unat (bm_effective_max s)} - bm_used s \<and> bm_used s' = insert (bm_idx s h) (bm_used s)"
    if "mlx4_bitmap_alloc s = (h, s')" "h \<noteq> -1"
    using mlx4_bitmap_alloc_fresh(1,2)[OF wf that] by simp
  show "bm_used s = {..<unat (bm_effective_max s)} \<and> bm_used s' = bm_used s"
    if "mlx4_bitmap_alloc s = (-1, s')"
    using mlx4_bitmap_alloc_full(1,2)[OF wf that] by (simp add: bm_used_def)
  assume u: "bm_idx s h \<in> bm_used s"
  show "bm_wf (mlx4_bitmap_free s h)" by (rule mlx4_bitmap_free_props(2)[OF wf u])
  show "unat (bm_effective_max (mlx4_bitmap_free s h)) = unat (bm_effective_max s) \<and>
      bm_idx (mlx4_bitmap_free s h) = bm_idx s"
    using mlx4_bitmap_free_props(4)[OF wf u] bm_idx_frame[OF mlx4_bitmap_free_props(3)[OF wf u]]
    by simp
  show "bm_used (mlx4_bitmap_free s h) = bm_used s - {bm_idx s h}"
    by (rule mlx4_bitmap_free_props(1)[OF wf u])
qed

section \<open>Bit tables after a block of sets or clears\<close>

lemma fold_set_bit:
  assumes "\<forall>j\<in>set js. f j < 32 * length addr"
  shows "length (fold (\<lambda>j. l2w_set_bit (f j)) js addr) = length addr"
    and "l2w_test_bit i (fold (\<lambda>j. l2w_set_bit (f j)) js addr) \<longleftrightarrow> i \<in> f ` set js \<or> l2w_test_bit i addr"
  using assms by (induction js arbitrary: addr) (auto simp: test_bit_set_bit)

lemma fold_clear_bit:
  assumes "\<forall>j\<in>set js. f j < 32 * length addr"
  shows "length (fold (\<lambda>j. l2w_clear_bit (f j)) js addr) = length addr"
    and "l2w_test_bit i (fold (\<lambda>j. l2w_clear_bit (f j)) js addr) \<longleftrightarrow> i \<notin> f ` set js \<and> l2w_test_bit i addr"
  using assms by (induction js arbitrary: addr) (auto simp: test_bit_clear_bit)

lemma image_plus_upt: "(\<lambda>i. o' + i) ` set [0..<n] = {o'..<o' + (n::nat)}"
  by (simp add: add.commute)

lemma count_upto_Un:
  assumes "S \<subseteq> {..<n}" "\<forall>i\<in>S. \<not> P i" "\<And>i. i < n \<Longrightarrow> Q i \<longleftrightarrow> i \<in> S \<or> P i"
  shows "count_upto Q n = card S + count_upto P n"
proof -
  have "{i. i < n \<and> Q i} = S \<union> {i. i < n \<and> P i}" using assms by auto
  moreover have "finite S" using assms(1) finite_subset by blast
  moreover have "S \<inter> {i. i < n \<and> P i} = {}" using assms(2) by auto
  ultimately show ?thesis by (simp add: count_upto_card card_Un_disjoint)
qed

section \<open>Initialisation\<close>

lemma roundup_pow_of_two_fix:
  assumes "0 < num" "unat num \<le> 2 ^ 31"
  shows "num = roundup_pow_of_two num \<longleftrightarrow> is_power_of_2 num" and "is_power_of_2 (roundup_pow_of_two num)"
proof -
  let ?k = "fls (num - 1)" let ?r = "roundup_pow_of_two num"
  note R = roundup_pow_of_two_props[OF assms]
  have r: "?r = 2 ^ ?k" using R(1,2) by (simp add: word_unat_eq_iff)
  then show p: "is_power_of_2 ?r" using R(2) unfolding is_power_of_2_iff by (intro exI[of _ ?k]) simp
  show "num = ?r \<longleftrightarrow> is_power_of_2 num"
  proof
    assume "is_power_of_2 num"
    then obtain k where k: "k < 32" "num = 2 ^ k" by (auto simp: is_power_of_2_iff)
    have le: "(2::nat) ^ k \<le> 2 ^ ?k" using R(1,3) k by simp
    show "num = ?r"
    proof (cases "num = 1")
      case True
      have "(1::u32) = roundup_pow_of_two 1" by code_simp
      then show ?thesis using True by simp
    next
      case False
      then have "(2::nat) ^ ?k < 2 ^ Suc k" using R(1,4) k by simp
      then have "?k < Suc k" by (rule power_less_imp_less_exp[rotated]) simp
      moreover have "k \<le> ?k" by (rule power_le_imp_le_exp[OF _ le]) simp
      ultimately have "?k = k" by simp
      then show ?thesis using k(2) r by metis
    qed
  next
    assume "num = ?r" then show "is_power_of_2 num" using p by simp
  qed
qed

lemma mlx4_bitmap_init_shape:
  assumes "is_power_of_2 num" "eff \<le> num" "reserved \<le> eff" "unat reserved < 2 ^ 31"
  obtains b where "mlx4_bitmap_init_with_effective_max True num msk reserved eff = Inr b"
    "bm_shape b" "bm_used b = {..<unat reserved}" "bm_max b = num" "bm_effective_max b = eff" "bm_mask b = msk"
    "bm_avail b = eff - reserved" "unat (bm_avail b) = count_upto (\<lambda>i. \<not> l2w_test_bit i (bm_table b)) (unat eff)"
proof -
  let ?n = "unat (bits_to_longs num)" let ?z = "replicate ?n (0::u32)"
  have nz: "0 < num" using assms(1) by (simp add: is_power_of_2_def word_neq_0_conv)
  have n31: "unat num \<le> 2 ^ 31" by (rule power_of_2_bound[OF assms(1)])
  have eq: "num = roundup_pow_of_two num" using roundup_pow_of_two_fix(1)[OF nz n31] assms(1) by simp
  have ic: "int_count reserved = unat reserved" by (rule int_count_unat[OF assms(4)])
  have len: "unat num \<le> 32 * ?n"
    using n31 longs_bound(1)[of "unat num"] by (simp add: unat_bits_to_longs)
  have ord: "unat reserved \<le> unat eff" "unat eff \<le> unat num"
    using assms(2,3) by (simp_all add: word_le_nat_alt)
  let ?t = "fold l2w_set_bit [0..<unat reserved] ?z"
  let ?b = "\<lparr>bm_last = 0, bm_top = 0, bm_max = num, bm_effective_max = eff,
                bm_mask = msk, bm_avail = eff - reserved, bm_table = ?t\<rparr>"
  have lt: "length ?t = ?n"
    using fold_set_bit(1)[of "[0..<unat reserved]" "\<lambda>x. x" ?z] ord len by simp
  have tb: "l2w_test_bit i ?t \<longleftrightarrow> i < unat reserved" if "i < unat num" for i
    using fold_set_bit(2)[of "[0..<unat reserved]" "\<lambda>x. x" ?z i] ord len that
    by (simp add: test_bit_replicate)
  have cnt: "count_upto (\<lambda>i. l2w_test_bit i ?t) (unat eff) = unat reserved"
  proof -
    have "{i. i < unat eff \<and> l2w_test_bit i ?t} = {..<unat reserved}" using tb ord by auto
    then show ?thesis by (simp add: count_upto_card)
  qed
  have av: "unat (eff - reserved) = count_upto (\<lambda>i. \<not> l2w_test_bit i ?t) (unat eff)"
    using count_upto_not[of "\<lambda>i. l2w_test_bit i ?t" "unat eff"] cnt ord by (simp add: unat_sub_le)
  have "bm_shape ?b" using assms len lt by (simp add: bm_shape_def)
  moreover have "bm_used ?b = {..<unat reserved}" using tb ord by (auto simp: bm_used_def)
  moreover have "mlx4_bitmap_init_with_effective_max True num msk reserved eff = Inr ?b"
    using eq by (simp add: mlx4_bitmap_init_with_effective_max_def ic)
  ultimately show thesis using that[of ?b] av by simp
qed

lemma mlx4_bitmap_init_wf:
  assumes "is_power_of_2 num" "eff \<le> num" "reserved \<le> eff" "unat reserved < 2 ^ 31" "prefix_ok msk num eff"
  obtains b where "mlx4_bitmap_init_with_effective_max True num msk reserved eff = Inr b"
    "bm_wf b" "bm_used b = {..<unat reserved}" "bm_max b = num" "bm_effective_max b = eff"
  by (rule mlx4_bitmap_init_shape[OF assms(1-4), of msk], rule that) (simp_all add: bm_wf_def assms(5))

lemma mlx4_bitmap_init_errors:
  assumes "0 < num" "unat num \<le> 2 ^ 31"
  shows "mlx4_bitmap_init_with_effective_max mem num msk reserved eff =
    (if \<not> is_power_of_2 num then Inl EINVAL else if \<not> mem then Inl ENOMEM
     else mlx4_bitmap_init_with_effective_max True num msk reserved eff)"
  using roundup_pow_of_two_fix(1)[OF assms] by (simp add: mlx4_bitmap_init_with_effective_max_def)

section \<open>Aligned ranges\<close>

lemma unat_l2w_align:
  assumes "is_power_of_2 a" "unat x \<le> 2 ^ 31"
  shows "unat (l2w_align x a) = unat a * ((unat x + unat a - 1) div unat a)"
proof -
  obtain k where k: "k < 32" "a = 2 ^ k" using assms(1) by (auto simp: is_power_of_2_iff)
  have a: "unat a = 2 ^ k" "unat a \<le> 2 ^ 31" using k power_of_2_bound[OF assms(1)] by simp_all
  have "unat (a - 1) = unat a - 1" using a(1) by (subst unat_sub_le) simp_all
  then have y: "unat (x + (a - 1)) = unat x + unat a - 1"
    using a assms(2) by (subst unat_add_less) (simp_all del: unat_pow2)
  let ?y = "x + (a - 1)"
  have m: "unat (?y AND (a - 1)) = unat ?y mod 2 ^ k"
    using k by (simp add: and_pow2_minus_one unsigned_take_bit_eq) (simp only: take_bit_eq_mod)
  have "?y AND NOT (a - 1) = ?y - (?y AND (a - 1))"
    using and_not_add_and[of ?y "a - 1"] by (simp add: algebra_simps)
  moreover have "unat (?y - (?y AND (a - 1))) = unat ?y - unat (?y AND (a - 1))"
    by (rule unat_sub) (rule word_and_le2)
  moreover have "l2w_align x a = ?y AND NOT (a - 1)" by (simp add: l2w_align_def add_diff_eq)
  ultimately have "unat (l2w_align x a) = unat ?y - unat ?y mod 2 ^ k" by (simp only: m)
  then show ?thesis by (simp only: y a(1) minus_mod_eq_mult_div)
qed

lemma align_up_least:
  fixes a x s :: nat
  assumes "0 < a"
  shows "x \<le> a * ((x + a - 1) div a)" and "a * ((x + a - 1) div a) < x + a"
    and "a dvd s \<Longrightarrow> x \<le> s \<Longrightarrow> a * ((x + a - 1) div a) \<le> s"
proof -
  have e: "a * ((x + a - 1) div a) + (x + a - 1) mod a = x + a - 1" by simp
  have m: "(x + a - 1) mod a < a" using assms by simp
  show "x \<le> a * ((x + a - 1) div a)" "a * ((x + a - 1) div a) < x + a" using e m assms by linarith+
  show "a * ((x + a - 1) div a) \<le> s" if s: "a dvd s" "x \<le> s"
  proof -
    obtain q where q: "s = a * q" using s(1) by (auto simp: dvd_def)
    have "x + a - 1 < a * (q + 1)" using s(2) q assms by (simp add: distrib_left)
    then have "(x + a - 1) div a < q + 1" by (simp add: less_mult_imp_div_less mult.commute)
    then show ?thesis using q by simp
  qed
qed

text \<open>A window: an aligned, in-range, unused block of \<open>len\<close> bits at \<open>s\<close>.\<close>

definition zwin :: "u32 list \<Rightarrow> nat \<Rightarrow> nat \<Rightarrow> nat \<Rightarrow> nat \<Rightarrow> bool" where
  "zwin bitmap n len a s \<longleftrightarrow> a dvd s \<and> s + len \<le> n \<and> (\<forall>i \<in> {s..<s + len}. \<not> l2w_test_bit i bitmap)"

lemma zstr_skip_props:
  assumes "0 < unat a" "unat n + unat a \<le> 2 ^ 32" "unat a dvd unat st"
  shows "\<exists>r. zstr_skip bitmap st n a = Some r \<and> unat st \<le> unat r \<and> unat a dvd unat r \<and>
    (\<forall>s. unat a dvd s \<and> unat st \<le> s \<and> s < unat r \<longrightarrow> l2w_test_bit s bitmap) \<and>
    (unat r < unat n \<longrightarrow> \<not> l2w_test_bit (unat r) bitmap)"
  using assms(3)
proof (induction "unat n - unat st" arbitrary: st rule: less_induct)
  case less
  show ?case
  proof (cases "st < n \<and> l2w_test_bit (unat st) bitmap")
    case False
    then have "zstr_skip bitmap st n a = Some st" by (subst zstr_skip.simps) auto
    then show ?thesis using False less.prems by (auto simp: word_less_nat_alt)
  next
    case True
    then have lt: "unat st < unat n" by (simp add: word_less_nat_alt)
    then have u: "unat (st + a) = unat st + unat a" using assms(2) by (intro unat_add_less) simp
    have d: "unat a dvd unat (st + a)" using less.prems by (simp add: u)
    have "unat n - unat (st + a) < unat n - unat st" using lt assms(1) by (simp add: u)
    from less.hyps[OF this d] obtain r where
      r: "zstr_skip bitmap (st + a) n a = Some r" "unat st + unat a \<le> unat r" "unat a dvd unat r"
        "\<And>s. unat a dvd s \<Longrightarrow> unat st + unat a \<le> s \<Longrightarrow> s < unat r \<Longrightarrow> l2w_test_bit s bitmap"
        "unat r < unat n \<longrightarrow> \<not> l2w_test_bit (unat r) bitmap"
      by (auto simp: u)
    have "zstr_skip bitmap st n a = Some r" using r(1) True by (subst zstr_skip.simps) simp
    moreover have "l2w_test_bit s bitmap" if s: "unat a dvd s" "unat st \<le> s" "s < unat r" for s
    proof (cases "s = unat st")
      case False
      then have "0 < s - unat st" "unat a dvd s - unat st" using s less.prems by simp_all
      then have "unat a \<le> s - unat st" by (simp add: dvd_imp_le)
      then show ?thesis using r(4) s by simp
    qed (use True in simp)
    ultimately show ?thesis using r by auto
  qed
qed

lemma zstr_scan_eq:
  assumes "unat i \<le> unat e"
  shows "zstr_scan bitmap i e =
    (let k = first_idx (\<lambda>j. l2w_test_bit j bitmap) (unat i) (unat e)
     in if k < unat e then Some (of_nat k) else None)"
  using assms
proof (induction bitmap i e rule: zstr_scan.induct)
  case (1 bitmap i e)
  show ?case
  proof (cases "i < e")
    case True
    then have u: "unat (i + 1) = Suc (unat i)" by (simp add: unat_Suc_less)
    have l: "unat i < unat e" using True by (simp add: word_less_nat_alt)
    show ?thesis
      using 1 True l by (subst zstr_scan.simps, subst first_idx_rec) (simp add: u Let_def)
  next
    case False
    then have "unat i = unat e" using 1 by (simp add: word_less_nat_alt)
    then show ?thesis using False by (subst zstr_scan.simps, subst first_idx_rec) simp
  qed
qed


lemma zstr_skip_window:
  assumes a: "is_power_of_2 a" and n: "unat n \<le> 2 ^ 31" and len: "0 < len" and st: "unat st \<le> unat n"
  obtains r where "zstr_skip bitmap (l2w_align st a) n a = Some r" "unat st \<le> unat r" "unat a dvd unat r"
    "\<And>s. unat st \<le> s \<Longrightarrow> s < unat r \<Longrightarrow> \<not> zwin bitmap (unat n) len (unat a) s"
    "unat r < unat n \<Longrightarrow> \<not> l2w_test_bit (unat r) bitmap"
proof -
  have a0: "0 < unat a" using a by (simp add: is_power_of_2_def unat_gt_0)
  have a31: "unat a \<le> 2 ^ 31" by (rule power_of_2_bound[OF a])
  let ?s0 = "l2w_align st a"
  have s0: "unat ?s0 = unat a * ((unat st + unat a - 1) div unat a)"
    using a st n by (intro unat_l2w_align) auto
  obtain r where r: "zstr_skip bitmap ?s0 n a = Some r" "unat ?s0 \<le> unat r" "unat a dvd unat r"
      "\<And>s. unat a dvd s \<Longrightarrow> unat ?s0 \<le> s \<Longrightarrow> s < unat r \<Longrightarrow> l2w_test_bit s bitmap"
      "unat r < unat n \<Longrightarrow> \<not> l2w_test_bit (unat r) bitmap"
    using zstr_skip_props[of a n ?s0 bitmap] a0 a31 n s0 by auto
  have st_r: "unat st \<le> unat r" using align_up_least(1)[OF a0, of "unat st"] r(2) s0 by simp
  have "\<not> zwin bitmap (unat n) len (unat a) s" if s: "unat st \<le> s" "s < unat r" for s
  proof
    assume w: "zwin bitmap (unat n) len (unat a) s"
    then have "unat ?s0 \<le> s" using align_up_least(3)[OF a0 _ s(1)] s0 by (simp add: zwin_def)
    then have "l2w_test_bit s bitmap" using r(4) w s(2) by (simp add: zwin_def)
    then show False using w len by (auto simp: zwin_def)
  qed
  with r st_r that show thesis by blast
qed

text \<open>The search terminates and returns the least window at or above \<open>start\<close>.\<close>

definition zwin_result :: "u32 list \<Rightarrow> nat \<Rightarrow> nat \<Rightarrow> nat \<Rightarrow> nat \<Rightarrow> u32 \<Rightarrow> bool" where
  "zwin_result bitmap n len a lo r \<longleftrightarrow>
     r = -1 \<and> (\<forall>s \<ge> lo. \<not> zwin bitmap n len a s) \<or>
     lo \<le> unat r \<and> zwin bitmap n len a (unat r) \<and> (\<forall>s. lo \<le> s \<and> s < unat r \<longrightarrow> \<not> zwin bitmap n len a s)"

lemma zwin_result_skip:
  assumes "zwin_result bitmap n len a mid r" "lo \<le> mid"
    "\<And>s. lo \<le> s \<Longrightarrow> s < mid \<Longrightarrow> \<not> zwin bitmap n len a s"
  shows "zwin_result bitmap n len a lo r"
  using assms unfolding zwin_result_def by (meson le_trans not_less)

lemma find_next_zero_string_aligned_correct:
  assumes a: "is_power_of_2 a" and n: "unat n \<le> 2 ^ 31" and len: "0 < unat len" "unat len < 2 ^ 31"
    and st: "unat st \<le> unat n"
  shows "\<exists>r. find_next_zero_string_aligned bitmap st n len a = Some r \<and>
    zwin_result bitmap (unat n) (unat len) (unat a) (unat st) r"
  using st
proof (induction "unat n - unat st" arbitrary: st rule: less_induct)
  case less
  let ?W = "zwin bitmap (unat n) (unat len) (unat a)"
  obtain r where r: "zstr_skip bitmap (l2w_align st a) n a = Some r" "unat st \<le> unat r" "unat a dvd unat r"
      "unat r < unat n \<Longrightarrow> \<not> l2w_test_bit (unat r) bitmap"
    and below: "\<And>s. unat st \<le> s \<Longrightarrow> s < unat r \<Longrightarrow> \<not> ?W s"
    using zstr_skip_window[OF a n len(1) less.prems] by metis
  note unf = find_next_zero_string_aligned.simps[of bitmap st n len a]
  show ?case
  proof (cases "r < n \<and> \<not> n < r + len")
    case False
    then have res: "find_next_zero_string_aligned bitmap st n len a = Some (-1)"
      by (subst unf) (auto simp: r(1) not_less)
    have "unat n < unat r + unat len"
    proof (cases "r < n")
      case True
      then have "unat (r + len) = unat r + unat len"
        using n len by (intro unat_add_less) (auto simp: word_less_nat_alt)
      then show ?thesis using False True by (auto simp: word_less_nat_alt)
    qed (use len in \<open>auto simp: word_less_nat_alt\<close>)
    then have "\<not> ?W s" if "unat st \<le> s" for s
      using below[OF that] by (cases "s < unat r") (auto simp: zwin_def)
    then show ?thesis using res by (auto simp: zwin_result_def)
  next
    case True
    then have rn: "unat r < unat n" by (simp add: word_less_nat_alt)
    have e: "unat (r + len) = unat r + unat len" using n len rn by (intro unat_add_less) simp
    have r1: "unat (r + 1) = Suc (unat r)" using unat_Suc_less[of r n] True by simp
    have en: "unat r + unat len \<le> unat n" using True e by (simp add: word_less_nat_alt)
    let ?k = "first_idx (\<lambda>j. l2w_test_bit j bitmap) (Suc (unat r)) (unat r + unat len)"
    have sc: "zstr_scan bitmap (r + 1) (r + len) =
        (if ?k < unat r + unat len then Some (of_nat ?k) else None)"
      using zstr_scan_eq[of "r + 1" "r + len" bitmap] len by (simp add: r1 e)
    show ?thesis
    proof (cases "?k < unat r + unat len")
      case False
      then have res: "find_next_zero_string_aligned bitmap st n len a = Some r"
        using True by (subst unf) (auto simp: r(1) sc)
      have "\<not> l2w_test_bit i bitmap" if i: "unat r \<le> i" "i < unat r + unat len" for i
        using r(4)[OF rn] first_idx_below[of "Suc (unat r)" i "\<lambda>j. l2w_test_bit j bitmap" "unat r + unat len"]
          i False by (cases "i = unat r") auto
      then have "?W (unat r)" using r(3) en by (simp add: zwin_def)
      then show ?thesis using res r(2) below by (auto simp: zwin_result_def)
    next
      case tk: True
      let ?i = "of_nat ?k :: u32"
      have k: "Suc (unat r) \<le> ?k" "l2w_test_bit ?k bitmap"
        using first_idx_bounds(1)[of "Suc (unat r)" "unat r + unat len"] len first_idx_hit[OF tk] by auto
      have ui: "unat ?i = ?k" using tk en n by (intro unat_of_nat_less) simp
      have "?i < n" using ui tk en by (simp add: word_less_nat_alt)
      then have ui1: "unat (?i + 1) = Suc ?k" using unat_Suc_less[of ?i n] ui by simp
      have "unat (?i + 1) \<le> unat n" "unat n - unat (?i + 1) < unat n - unat st"
        using ui1 tk en k(1) r(2) by simp_all
      from less.hyps[OF this(2,1)] obtain r' where
        r': "find_next_zero_string_aligned bitmap (?i + 1) n len a = Some r'"
          "zwin_result bitmap (unat n) (unat len) (unat a) (Suc ?k) r'"
        unfolding ui1 by blast
      have res: "find_next_zero_string_aligned bitmap st n len a = Some r'"
        using True tk r'(1) by (subst unf) (auto simp: r(1) sc)
      have mid: "\<not> ?W s" if "unat st \<le> s" "s < Suc ?k" for s
        using below[of s] that k tk by (cases "s < unat r") (auto simp: zwin_def)
      show ?thesis using res zwin_result_skip[OF r'(2) _ mid] k(1) r(2) by auto
    qed
  qed
qed


lemma zwin_free_card:
  assumes "bm_wf b" "zwin (bm_table b) (unat (bm_effective_max b)) len a s"
  shows "{s..<s + len} \<inter> bm_used b = {}" "len \<le> unat (bm_avail b)"
proof -
  let ?n = "unat (bm_effective_max b)" and ?P = "\<lambda>i. \<not> l2w_test_bit i (bm_table b)"
  show "{s..<s + len} \<inter> bm_used b = {}" using assms(2) by (auto simp: zwin_def bm_used_def)
  have "{s..<s + len} \<subseteq> {i. i < ?n \<and> ?P i}" using assms(2) by (auto simp: zwin_def)
  then have "card {s..<s + len} \<le> card {i. i < ?n \<and> ?P i}" by (intro card_mono) auto
  then show "len \<le> unat (bm_avail b)" using assms(1) by (simp add: bm_wf_def bm_shape_def count_upto_card)
qed

text \<open>Marking a window as used keeps the invariant, whatever in-range hint is stored.\<close>

lemma bm_take_window:
  assumes wf: "bm_wf b" and w: "zwin (bm_table b) (unat (bm_effective_max b)) (unat cnt) a s"
    and l: "l \<le> bm_effective_max b"
    and b': "b' = b\<lparr>bm_table := fold (\<lambda>i. l2w_set_bit (s + i)) [0..<unat cnt] (bm_table b),
                   bm_last := l, bm_avail := bm_avail b - cnt\<rparr>"
  shows "bm_wf b'" "bm_used b' = bm_used b \<union> {s..<s + unat cnt}"
    "unat (bm_avail b) = unat (bm_avail b') + unat cnt"
proof -
  let ?n = "unat (bm_effective_max b)" and ?S = "{s..<s + unat cnt}"
  note sz = bm_wf_sizes[OF wf] and z = zwin_free_card[OF wf w]
  have rng: "\<forall>i\<in>set [0..<unat cnt]. s + i < 32 * length (bm_table b)"
    using w sz(3) by (auto simp: zwin_def)
  have tb: "l2w_test_bit i (bm_table b') \<longleftrightarrow> i \<in> ?S \<or> l2w_test_bit i (bm_table b)" for i
    using fold_set_bit(2)[OF rng, of i] by (simp only: image_plus_upt) (simp add: b')
  have len: "length (bm_table b') = length (bm_table b)" using fold_set_bit(1)[OF rng] by (simp add: b')
  have e: "bm_effective_max b' = bm_effective_max b" by (simp add: b')
  have sub: "?S \<subseteq> {..<?n}" using w by (auto simp: zwin_def)
  show "bm_used b' = bm_used b \<union> ?S" using sub by (auto simp: bm_used_def tb e)
  show av: "unat (bm_avail b) = unat (bm_avail b') + unat cnt"
    using z(2) by (simp add: b' unat_sub_le)
  have "count_upto (\<lambda>i. \<not> l2w_test_bit i (bm_table b)) ?n =
      card ?S + count_upto (\<lambda>i. \<not> l2w_test_bit i (bm_table b')) ?n"
    using sub w by (intro count_upto_Un) (auto simp: tb zwin_def)
  then show "bm_wf b'" using wf l av len e by (simp add: bm_wf_def bm_shape_def) (simp add: b')
qed

lemma alloc_range_search:
  assumes "bm_wf b" "is_power_of_2 a" "0 < unat cnt" "unat cnt < 2 ^ 31"
  defines "F \<equiv> \<lambda>st. find_next_zero_string_aligned (bm_table b) st (bm_effective_max b) cnt a"
    and "W \<equiv> zwin (bm_table b) (unat (bm_effective_max b)) (unat cnt) (unat a)"
  obtains o1 o2 where "F (bm_last b) = Some o1"
    "(if bm_effective_max b \<le> o1 then F 0 else Some o1) = Some o2"
    "o2 < bm_effective_max b \<and> W (unat o2) \<or> \<not> o2 < bm_effective_max b \<and> (\<forall>s. \<not> W s)"
proof -
  let ?n = "unat (bm_effective_max b)"
  note sz = bm_wf_sizes[OF assms(1)]
  have n: "?n \<le> 2 ^ 31" using sz by simp
  have F: "\<exists>r. F st = Some r \<and> zwin_result (bm_table b) ?n (unat cnt) (unat a) (unat st) r"
    if "unat st \<le> ?n" for st
    unfolding F_def by (rule find_next_zero_string_aligned_correct[OF assms(2) n assms(3,4) that])
  have hit: "r < bm_effective_max b \<longrightarrow> W (unat r)" "\<not> r < bm_effective_max b \<longrightarrow> r = -1 \<and> (\<forall>s \<ge> lo. \<not> W s)"
    if "zwin_result (bm_table b) ?n (unat cnt) (unat a) lo r" for r lo
  proof -
    have "\<not> (-1 :: u32) < bm_effective_max b" by (simp add: word_order.not_eq_extremum)
    moreover have "W (unat r) \<Longrightarrow> r < bm_effective_max b"
      using assms(3) by (simp add: W_def zwin_def word_less_nat_alt)
    ultimately show "r < bm_effective_max b \<longrightarrow> W (unat r)" "\<not> r < bm_effective_max b \<longrightarrow> r = -1 \<and> (\<forall>s \<ge> lo. \<not> W s)"
      using that by (auto simp: zwin_result_def W_def)
  qed
  obtain o1 where o1: "F (bm_last b) = Some o1"
      "zwin_result (bm_table b) ?n (unat cnt) (unat a) (unat (bm_last b)) o1"
    using F sz(4) by blast
  obtain o0 where o0: "F 0 = Some o0" "zwin_result (bm_table b) ?n (unat cnt) (unat a) 0 o0"
    using F[of 0] by auto
  show thesis
  proof (cases "o1 < bm_effective_max b")
    case True
    then have "\<not> bm_effective_max b \<le> o1" by simp
    with True show thesis using that[of o1 o1] o1(1) hit(1)[OF o1(2)] by simp
  next
    case False
    then have "bm_effective_max b \<le> o1" by simp
    then have "(if bm_effective_max b \<le> o1 then F 0 else Some o1) = Some o0" using o0(1) by simp
    then show thesis using that[of o1 o0] o1(1) hit[OF o0(2)] by blast
  qed
qed

lemma alloc_range_unfold:
  assumes "\<not> (cnt = 1 \<and> a = 1)" "unat cnt < 2 ^ 31"
    and "find_next_zero_string_aligned (bm_table b) (bm_last b) (bm_effective_max b) cnt a = Some o1"
    "(if bm_effective_max b \<le> o1
      then find_next_zero_string_aligned (bm_table b) 0 (bm_effective_max b) cnt a else Some o1) = Some o2"
  shows "\<not> o2 < bm_effective_max b \<Longrightarrow> mlx4_bitmap_alloc_range b cnt a = Some (-1, b)"
    and "o2 < bm_effective_max b \<Longrightarrow> o2 OR bm_top b \<noteq> -1 \<Longrightarrow>
      mlx4_bitmap_alloc_range b cnt a = Some (o2 OR bm_top b,
        b\<lparr>bm_table := fold (\<lambda>i. l2w_set_bit (unat o2 + i)) [0..<unat cnt] (bm_table b),
          bm_last := (if o2 = bm_last b then if bm_effective_max b \<le> o2 + cnt then 0 else o2 + cnt
                      else bm_last b), bm_avail := bm_avail b - cnt\<rparr>)"
  using assms by (auto simp: mlx4_bitmap_alloc_range_def int_count_unat Let_def)

text \<open>What a range allocation promises: on \<open>-1\<close> nothing changed hands and no window of that
  size and alignment exists; otherwise the handle's slot starts a window, now marked used.\<close>

definition range_outcome :: "mlx4_bitmap \<Rightarrow> u32 \<Rightarrow> u32 \<Rightarrow> u32 \<Rightarrow> mlx4_bitmap \<Rightarrow> bool" where
  "range_outcome b cnt a h b' \<longleftrightarrow>
     (let W = zwin (bm_table b) (unat (bm_effective_max b)) (unat cnt) (unat a)
      in if h = -1 then bm_used b' = bm_used b \<and> bm_avail b' = bm_avail b \<and> (\<forall>s. \<not> W s)
         else W (bm_idx b h) \<and> bm_used b' = bm_used b \<union> {bm_idx b h..<bm_idx b h + unat cnt} \<and>
              unat (bm_avail b) = unat (bm_avail b') + unat cnt)"

lemma mlx4_bitmap_alloc_outcome:
  assumes wf: "bm_wf b" and ab: "mlx4_bitmap_alloc b = (h, b')"
  shows "range_outcome b 1 1 h b'"
proof (cases "h = -1")
  case True
  note full = mlx4_bitmap_alloc_full(1,2)[OF wf ab[unfolded True]]
  have "\<not> zwin (bm_table b) (unat (bm_effective_max b)) 1 1 s" for s
  proof
    assume "zwin (bm_table b) (unat (bm_effective_max b)) 1 1 s"
    then have "s < unat (bm_effective_max b)" "s \<notin> bm_used b" by (auto simp: zwin_def bm_used_def)
    with full(1) show False by simp
  qed
  moreover have "bm_used b' = bm_used b" "bm_avail b' = bm_avail b" using full(2) by (simp_all add: bm_used_def)
  ultimately show ?thesis using True by (simp add: range_outcome_def)
next
  case False
  note F = mlx4_bitmap_alloc_fresh[OF wf ab False]
  have "zwin (bm_table b) (unat (bm_effective_max b)) 1 1 (bm_idx b h)"
    using F(1) by (auto simp: zwin_def bm_used_def)
  moreover have "{bm_idx b h..<bm_idx b h + unat (1::u32)} = {bm_idx b h}" by auto
  ultimately show ?thesis using False F(2,6,7) by (simp add: range_outcome_def)
qed

lemma mlx4_bitmap_alloc_range_spec:
  assumes wf: "bm_wf b" and a: "is_power_of_2 a" and cnt: "0 < unat cnt" "unat cnt < 2 ^ 31"
  shows "\<exists>h b'. mlx4_bitmap_alloc_range b cnt a = Some (h, b') \<and> bm_wf b' \<and> bm_max b' = bm_max b \<and>
    bm_effective_max b' = bm_effective_max b \<and> range_outcome b cnt a h b'"
proof (cases "cnt = 1 \<and> a = 1")
  case True
  obtain h b' where ab: "mlx4_bitmap_alloc b = (h, b')" by fastforce
  have "mlx4_bitmap_alloc_range b cnt a = Some (h, b')" using True ab by (simp add: mlx4_bitmap_alloc_range_def)
  moreover have "range_outcome b cnt a h b'" using mlx4_bitmap_alloc_outcome[OF wf ab] True by simp
  ultimately show ?thesis using mlx4_bitmap_alloc_frame[OF wf ab] by blast
next
  case False
  note wfs = wf[unfolded bm_wf_def bm_shape_def]
  let ?W = "zwin (bm_table b) (unat (bm_effective_max b)) (unat cnt) (unat a)"
  obtain o1 o2 where o: "find_next_zero_string_aligned (bm_table b) (bm_last b) (bm_effective_max b) cnt a = Some o1"
    "(if bm_effective_max b \<le> o1
      then find_next_zero_string_aligned (bm_table b) 0 (bm_effective_max b) cnt a else Some o1) = Some o2"
    "o2 < bm_effective_max b \<and> ?W (unat o2) \<or> \<not> o2 < bm_effective_max b \<and> (\<forall>s. \<not> ?W s)"
    using alloc_range_search[OF wf a cnt] by metis
  note U = alloc_range_unfold[OF False cnt(2) o(1,2)]
  show ?thesis
  proof (cases "o2 < bm_effective_max b")
    case True
    then have w: "?W (unat o2)" and lt: "o2 < bm_max b" using o(3) wfs by auto
    let ?l = "if o2 = bm_last b then if bm_effective_max b \<le> o2 + cnt then 0 else o2 + cnt else bm_last b"
    let ?h = "o2 OR bm_top b"
    have h: "?h \<noteq> -1" using handle_not_minus_one[OF _ True, of "bm_max b" "bm_top b" "bm_mask b"] wfs by blast
    have ix: "bm_idx b ?h = unat o2"
      using handle_idx[of "bm_max b" o2 "bm_top b"] wfs lt by (simp add: bm_idx_def)
    have l: "?l \<le> bm_effective_max b" using wfs by auto
    from bm_take_window[OF wf w l refl] show ?thesis
      using U(2)[OF True h] h w by (simp add: ix range_outcome_def)
  next
    case no: False
    then show ?thesis using U(1)[OF no] o(3) wf by (auto simp: range_outcome_def)
  qed
qed

lemma mlx4_bitmap_free_range_spec:
  assumes wf: "bm_wf b" and cnt: "unat cnt < 2 ^ 31"
    and used: "{bm_idx b h..<bm_idx b h + unat cnt} \<subseteq> bm_used b"
  shows "bm_wf (mlx4_bitmap_free_range b h cnt)"
    and "bm_used (mlx4_bitmap_free_range b h cnt) = bm_used b - {bm_idx b h..<bm_idx b h + unat cnt}"
    and "unat (bm_avail (mlx4_bitmap_free_range b h cnt)) = unat (bm_avail b) + unat cnt"
proof -
  let ?b = "mlx4_bitmap_free_range b h cnt" and ?n = "unat (bm_effective_max b)"
  let ?S = "{bm_idx b h..<bm_idx b h + unat cnt}"
  note sz = bm_wf_sizes[OF wf]
  have sub: "?S \<subseteq> {..<?n}" "\<forall>i\<in>?S. l2w_test_bit i (bm_table b)" using used by (auto simp: bm_used_def)
  have rng: "\<forall>i\<in>set [0..<unat cnt]. bm_idx b h + i < 32 * length (bm_table b)"
  proof
    fix i assume "i \<in> set [0..<unat cnt]"
    then have "bm_idx b h + i \<in> ?S" by simp
    then show "bm_idx b h + i < 32 * length (bm_table b)" using sub(1) sz(3) by fastforce
  qed
  have tab: "bm_table ?b = fold (\<lambda>i. l2w_clear_bit (bm_idx b h + i)) [0..<unat cnt] (bm_table b)"
    by (simp add: mlx4_bitmap_free_range_def Let_def bm_idx_def int_count_unat[OF cnt])
  have tb: "l2w_test_bit i (bm_table ?b) \<longleftrightarrow> i \<notin> ?S \<and> l2w_test_bit i (bm_table b)" for i
    using fold_clear_bit(2)[OF rng, of i] by (simp only: image_plus_upt tab)
  have len: "length (bm_table ?b) = length (bm_table b)" using fold_clear_bit(1)[OF rng] by (simp only: tab)
  have e: "bm_effective_max ?b = bm_effective_max b" "bm_max ?b = bm_max b" "bm_top ?b = bm_top b"
    "bm_mask ?b = bm_mask b" "bm_avail ?b = bm_avail b + cnt"
    by (simp_all add: mlx4_bitmap_free_range_def Let_def)
  show "bm_used ?b = bm_used b - ?S" by (auto simp: bm_used_def tb e)
  have c: "count_upto (\<lambda>i. \<not> l2w_test_bit i (bm_table ?b)) ?n =
      unat cnt + count_upto (\<lambda>i. \<not> l2w_test_bit i (bm_table b)) ?n"
    using sub count_upto_Un[of ?S ?n "\<lambda>i. \<not> l2w_test_bit i (bm_table b)"] by (simp add: tb)
  then have "unat (bm_avail b) + unat cnt \<le> 2 ^ 31"
    using count_upto_le[of "\<lambda>i. \<not> l2w_test_bit i (bm_table ?b)" ?n] sz wf by (simp add: bm_wf_def bm_shape_def)
  then show av: "unat (bm_avail ?b) = unat (bm_avail b) + unat cnt" by (simp add: e unat_add_less)
  have "bm_last ?b \<le> bm_effective_max b"
    using wf by (simp add: mlx4_bitmap_free_range_def Let_def bm_wf_def bm_shape_def min.coboundedI1)
  then show "bm_wf ?b" using wf c av len by (simp add: bm_wf_def bm_shape_def e)
qed

section \<open>Properties\<close>

lemma avail_used:
  assumes "bm_wf b"
  shows "unat (bm_avail b) + card (bm_used b) = unat (bm_effective_max b)"
  using count_upto_not[of "\<lambda>i. l2w_test_bit i (bm_table b)" "unat (bm_effective_max b)"] assms
  by (simp add: bm_wf_def bm_shape_def bm_used_def count_upto_card)

text \<open>The free counter follows the handles held, whatever slot was lost.\<close>

lemma avail_trace:
  assumes "id_trace mlx4_bitmap_alloc mlx4_bitmap_free b0 b hs" "bm_shape b0"
    "unat (bm_avail b0) + card (bm_used b0) = unat (bm_effective_max b0)"
  shows "unat (bm_avail b) + length hs = unat (bm_avail b0)"
  using assms(1)
proof (induction rule: id_trace.induct)
  case (id_alloc s hs h s')
  obtain lost where T: "mlx4_weak.trace_ok b0 s' (h # hs) lost"
    using mlx4_weak.weak_trace[OF id_trace.id_alloc[OF id_alloc.hyps] assms(2)] by blast
  obtain lost' where "mlx4_weak.trace_ok b0 s hs lost'" using mlx4_weak.weak_trace[OF id_alloc.hyps(1) assms(2)] by blast
  then have i: "bm_shape s" by (simp add: mlx4_weak.trace_ok_def)
  have "bm_avail s' = bm_avail s - 1" by (rule mlx4_bitmap_alloc_step[OF i id_alloc.hyps(2)]) (use id_alloc.hyps(3) in simp_all)
  moreover have "0 < unat (bm_avail s)" using mlx4_weak.weak_count(2)[OF T assms(2)] assms(3) id_alloc.IH by simp
  moreover have "unat (bm_avail s - 1) = unat (bm_avail s) - 1" using calculation(2) by (intro unat_minus_one) auto
  ultimately show ?case using id_alloc.IH by simp
next
  case (id_full s hs s')
  obtain lost where "mlx4_weak.trace_ok b0 s hs lost" using mlx4_weak.weak_trace[OF id_full.hyps(1) assms(2)] by blast
  then have i: "bm_shape s" by (simp add: mlx4_weak.trace_ok_def)
  have "bm_avail s' = bm_avail s" by (rule mlx4_bitmap_alloc_step[OF i id_full.hyps(2)]) simp_all
  then show ?case using id_full.IH by simp
next
  case (id_free s hs h)
  obtain lost where T: "mlx4_weak.trace_ok b0 s hs lost" using mlx4_weak.weak_trace[OF id_free.hyps(1) assms(2)] by blast
  then have i: "bm_shape s" "bm_idx s h \<in> bm_used s" using id_free.hyps(2) by (auto simp: mlx4_weak.trace_ok_def)
  have "unat (bm_avail s) + length hs \<le> 2 ^ 31" using assms(3) id_free.IH bm_shape_sizes[OF assms(2)] by linarith
  moreover have l: "0 < length hs" using id_free.hyps(2) by auto
  ultimately have "unat (bm_avail s + 1) = unat (bm_avail s) + 1" by (simp add: unat_add_less)
  moreover have "length (remove1 h hs) = length hs - 1" using id_free.hyps(2) by (simp add: length_remove1)
  ultimately show ?case using mlx4_bitmap_free_shape(6)[OF i] id_free.IH l by (simp only:)
qed simp

text \<open>What a client of the allocator relies on: \<open>lost\<close> is the slot given up, if any.\<close>

definition history_ok :: "u32 \<Rightarrow> u32 \<Rightarrow> u32 \<Rightarrow> nat set \<Rightarrow> u32 list \<Rightarrow> nat set \<Rightarrow> bool" where
  "history_ok num eff reserved used hs lost \<longleftrightarrow>
     (let slots = map (\<lambda>h. unat (h AND (num - 1))) hs
      in distinct slots \<and> set slots \<subseteq> {unat reserved..<unat eff} \<and> lost \<subseteq> {unat reserved..<unat eff} - set slots \<and>
         used = {..<unat reserved} \<union> set slots \<union> lost)"

lemma history_okI:
  fixes num :: u32 and hs :: "u32 list"
  defines "S \<equiv> (\<lambda>h. unat (h AND (num - 1))) ` set hs"
  assumes "distinct (map (\<lambda>h. unat (h AND (num - 1))) hs)" "{..<unat reserved} \<inter> S = {}" "lost \<inter> ({..<unat reserved} \<union> S) = {}"
    "used = {..<unat reserved} \<union> S \<union> lost" "used \<subseteq> {..<unat eff}"
  shows "history_ok num eff reserved used hs lost"
proof -
  have "S \<subseteq> {unat reserved..<unat eff}"
  proof
    fix i assume i: "i \<in> S"
    then have "i \<in> {..<unat eff}" "i \<notin> {..<unat reserved}" using assms(3,5,6) by blast+
    then show "i \<in> {unat reserved..<unat eff}" by simp
  qed
  moreover have "lost \<subseteq> {unat reserved..<unat eff} - S"
  proof
    fix i assume i: "i \<in> lost"
    then have "i \<in> {..<unat eff}" "i \<notin> {..<unat reserved}" "i \<notin> S" using assms(4,5,6) by blast+
    then show "i \<in> {unat reserved..<unat eff} - S" by simp
  qed
  ultimately show ?thesis using assms(2,5) unfolding history_ok_def Let_def set_map S_def[symmetric] by blast
qed

text \<open>C1. From a successful \<open>mlx4_bitmap_init_with_effective_max\<close>, with any mask, after any interleaving of
  \<open>mlx4_bitmap_alloc\<close> calls (successful or exhausted) and frees of held handles: the held handles
  name distinct slots, all at or above the reserved ones and below \<open>effective_max\<close>; the slots in use are these, the reserved ones and
  \<open>lost\<close>, which is empty when the mask leaves a prefix bit out or slots are kept back, and otherwise at most the last slot; the
  free counter plus the held handles is the initial supply.  The next allocation fails when every slot is in use, and then
  only, except that with the all-ones mask one failing call may take the last slot away.\<close>

theorem mlx4_bitmap_history:
  assumes "is_power_of_2 num" "eff \<le> num" "reserved \<le> eff" "unat reserved < 2 ^ 31"
    and "mlx4_bitmap_init_with_effective_max True num msk reserved eff = Inr b0"
    and "id_trace mlx4_bitmap_alloc mlx4_bitmap_free b0 b hs"
  shows "\<exists>lost. lost \<subseteq> (if prefix_ok msk num eff then {} else {unat num - 1}) \<and> history_ok num eff reserved (bm_used b) hs lost \<and>
    unat (mlx4_bitmap_avail b) + length hs = unat eff - unat reserved \<and>
    (length hs + card lost = unat eff - unat reserved \<longrightarrow> fst (mlx4_bitmap_alloc b) = -1) \<and>
    (fst (mlx4_bitmap_alloc b) = -1 \<longrightarrow> length hs + card lost = unat eff - unat reserved \<or>
       \<not> prefix_ok msk num eff \<and> unat num - 1 \<notin> bm_used b \<and> bm_used (snd (mlx4_bitmap_alloc b)) = insert (unat num - 1) (bm_used b))"

proof -
  from mlx4_bitmap_init_shape[OF assms(1-4), of msk] assms(5)
  have b0: "bm_shape b0" "bm_used b0 = {..<unat reserved}" "bm_max b0 = num" "bm_effective_max b0 = eff" "bm_mask b0 = msk" "bm_avail b0 = eff - reserved"
    by (metis sum.inject(2))+
  obtain lost where T: "mlx4_weak.trace_ok b0 b hs lost" using mlx4_weak.weak_trace[OF assms(6) b0(1)] by blast
  note I = T[unfolded mlx4_weak.trace_ok_def] and N = mlx4_weak.weak_count[OF T b0(1)]
  have ix: "bm_idx b0 = (\<lambda>h. unat (h AND (num - 1)))" by (simp add: bm_idx_def b0(3) fun_eq_iff)
  have lk: "bm_leaks b0 = (if prefix_ok msk num eff then {} else {unat num - 1})" by (simp add: bm_leaks_def b0)
  have ord: "unat reserved \<le> unat eff" using assms(3) by (simp add: word_le_nat_alt)
  have sub: "bm_used b \<subseteq> {..<unat eff}" using bm_used_below[of b] I b0(4) by simp
  have H: "history_ok num eff reserved (bm_used b) hs lost"
    by (rule history_okI[OF _ _ _ _ sub]) (use I in \<open>simp_all only: b0(2) ix\<close>)
  have L: "lost \<subseteq> (if prefix_ok msk num eff then {} else {unat num - 1})" using I lk by simp
  have "unat (bm_avail b0) = unat eff - unat reserved" using ord assms(3) by (simp add: b0(6) unat_sub_le)
  then have A: "unat (mlx4_bitmap_avail b) + length hs = unat eff - unat reserved"
    using avail_trace[OF assms(6) b0(1)] ord by (simp add: mlx4_bitmap_avail_def b0(2,4))
  obtain h b' where ab: "mlx4_bitmap_alloc b = (h, b')" by fastforce
  have fl: "bm_used b = {..<unat eff} \<longleftrightarrow> length hs + card lost = unat eff - unat reserved"
    using N(3) ord by (simp only: b0(2,4) card_lessThan) linarith
  note W = mlx4_weak.weak_full[OF T b0(1) ab, unfolded b0(4) fl lk]
  have F: "length hs + card lost = unat eff - unat reserved \<or>
      \<not> prefix_ok msk num eff \<and> unat num - 1 \<notin> bm_used b \<and> bm_used b' = insert (unat num - 1) (bm_used b)" if "h = -1"
    using W(2)[OF that] by (cases "prefix_ok msk num eff") auto
  show ?thesis unfolding ab fst_conv snd_conv by (rule exI[of _ lost], intro conjI, rule L, rule H, rule A, rule impI, erule W(1), rule impI, erule F)
qed

declare zstr_skip.simps [code] zstr_scan.simps [code] find_next_zero_string_aligned.simps [code]

definition ex_bitmap :: mlx4_bitmap where
  "ex_bitmap = \<lparr>bm_last = 0, bm_top = 0, bm_max = 8, bm_effective_max = 6, bm_mask = 0xF8,
     bm_avail = 4, bm_table = [3]\<rparr>"

theorem mlx4_bitmap_history_witness:
  "\<exists>b. id_trace mlx4_bitmap_alloc mlx4_bitmap_free ex_bitmap b [10] \<and>
     unat (mlx4_bitmap_avail b) + length [10 :: u32] = unat (6 :: u32) - unat (2 :: u32)"
proof -
  let ?b1 = "snd (mlx4_bitmap_alloc ex_bitmap)"
  let ?b2 = "snd (mlx4_bitmap_alloc (mlx4_bitmap_free ?b1 2))"
  have i: "mlx4_bitmap_init_with_effective_max True 8 0xF8 2 6 = Inr ex_bitmap" by code_simp
  have a1: "mlx4_bitmap_alloc ex_bitmap = (2, ?b1)" by code_simp
  have a2: "mlx4_bitmap_alloc (mlx4_bitmap_free ?b1 2) = (10, ?b2)" by code_simp
  have "id_trace mlx4_bitmap_alloc mlx4_bitmap_free ex_bitmap ?b1 [2]"
    by (rule id_alloc[where s = ex_bitmap], rule id_start, rule a1) simp
  from id_free[OF this, of 2]
  have "id_trace mlx4_bitmap_alloc mlx4_bitmap_free ex_bitmap (mlx4_bitmap_free ?b1 2) []" by simp
  then have t: "id_trace mlx4_bitmap_alloc mlx4_bitmap_free ex_bitmap ?b2 [10]"
    by (rule id_alloc) (rule a2, simp)
  have "is_power_of_2 8" "(6::u32) \<le> 8" "(2::u32) \<le> 6" "unat (2::u32) < 2 ^ 31" by (simp_all add: is_power_of_2_def)
  from mlx4_bitmap_history[OF this i t]
  have "unat (mlx4_bitmap_avail ?b2) + length [10 :: u32] = unat (6 :: u32) - unat (2 :: u32)" by (elim exE conjE)
  with t show ?thesis by blast
qed



text \<open>C23. Freeing a range that \<open>mlx4_bitmap_alloc_range\<close> handed out gives back exactly its slots:
  the used set and the free counter are those of before the allocation.\<close>

theorem mlx4_bitmap_range_roundtrip:
  assumes "bm_wf b" "is_power_of_2 align" "0 < unat cnt" "unat cnt < 2 ^ 31"
    and "mlx4_bitmap_alloc_range b cnt align = Some (h, b')" "h \<noteq> -1"
  defines "b'' \<equiv> mlx4_bitmap_free_range b' h cnt"
  shows "bm_wf b'' \<and> bm_used b'' = bm_used b \<and> mlx4_bitmap_avail b'' = mlx4_bitmap_avail b"
proof -
  have o: "bm_wf b'" "bm_max b' = bm_max b" "range_outcome b cnt align h b'"
    using mlx4_bitmap_alloc_range_spec[OF assms(1-4)] assms(5) by auto
  let ?S = "{bm_idx b h..<bm_idx b h + unat cnt}"
  from o(3) assms(6) have w: "zwin (bm_table b) (unat (bm_effective_max b)) (unat cnt) (unat align) (bm_idx b h)"
    and u: "bm_used b' = bm_used b \<union> ?S" and av: "unat (bm_avail b) = unat (bm_avail b') + unat cnt"
    by (simp_all add: range_outcome_def Let_def)
  have ix: "bm_idx b' h = bm_idx b h" using o(2) by (simp add: bm_idx_def)
  have "{bm_idx b' h..<bm_idx b' h + unat cnt} \<subseteq> bm_used b'" by (simp add: ix u)
  note F = mlx4_bitmap_free_range_spec[OF o(1) assms(4) this]
  have "unat (bm_avail b'') = unat (bm_avail b)" using F(3) av by (simp add: b''_def)
  moreover have "bm_used b'' = bm_used b"
    using F(2) u zwin_free_card(1)[OF assms(1) w] by (auto simp: b''_def ix)
  ultimately show ?thesis using F(1) by (simp add: b''_def mlx4_bitmap_avail_def word_unat_eq_iff)
qed

theorem mlx4_bitmap_range_roundtrip_witness:
  "\<exists>b'. mlx4_bitmap_alloc_range ex_bitmap 2 2 = Some (2, b') \<and>
     mlx4_bitmap_avail (mlx4_bitmap_free_range b' 2 2) = mlx4_bitmap_avail ex_bitmap"
proof -
  have W: "bm_wf ex_bitmap" by code_simp
  have H: "is_power_of_2 2" "0 < unat (2::u32)" "unat (2::u32) < 2 ^ 31"
    by (simp_all add: is_power_of_2_def)
  obtain h b' where r: "mlx4_bitmap_alloc_range ex_bitmap 2 2 = Some (h, b')"
    using mlx4_bitmap_alloc_range_spec[OF W H] by blast
  have "map_option fst (mlx4_bitmap_alloc_range ex_bitmap 2 2) = Some 2" by code_simp
  with r have h: "h = 2" by simp
  have "(2 :: u32) \<noteq> -1" by simp
  from mlx4_bitmap_range_roundtrip[OF W H r[unfolded h] this] r[unfolded h] show ?thesis by blast
qed

text \<open>C38. With an all-ones prefix mask and no slots kept back (\<open>effective_max = max\<close>), the last slot under
  the last prefix forms the handle \<open>-1\<close>: \<open>mlx4_bitmap_alloc\<close> marks the slot as used,
  leaves the free counter alone and returns what its callers take for exhaustion.\<close>

theorem mlx4_bitmap_all_ones_leak:
  assumes "is_power_of_2 (bm_max b)" "bm_effective_max b = bm_max b" "unat (bm_max b) \<le> 32 * length (bm_table b)"
    "bm_last b = bm_max b - 1" "bm_top b = - bm_max b" "\<not> l2w_test_bit (unat (bm_max b) - 1) (bm_table b)"
  shows "fst (mlx4_bitmap_alloc b) = -1 \<and>
    bm_table (snd (mlx4_bitmap_alloc b)) = l2w_set_bit (unat (bm_max b) - 1) (bm_table b) \<and>
    bm_avail (snd (mlx4_bitmap_alloc b)) = bm_avail b"
proof -
  let ?m = "bm_max b" and ?o = "find_next_zero_bit (bm_table b) (bm_max b) (bm_max b - 1)"
  have m31: "unat ?m \<le> 2 ^ 31" by (rule power_of_2_bound[OF assms(1)])
  have m0: "0 < unat ?m" using assms(1) by (simp add: is_power_of_2_def unat_gt_0)
  then have um: "unat (?m - 1) = unat ?m - 1" by (intro unat_minus_one) auto
  have ex: "\<exists>j. unat (?m - 1) \<le> j \<and> j < unat ?m \<and> \<not> l2w_test_bit j (bm_table b)"
    using assms(6) um m0 by (intro exI[of _ "unat ?m - 1"]) simp
  have le: "unat (?m - 1) \<le> unat ?m" using um by simp
  note f = find_next_zero_bit_correct_parts[OF m31 assms(3) le]
  have lt: "unat ?o < unat ?m" using f(1) ex by blast
  then have "unat ?o = unat (?m - 1)" using f(2) um by linarith
  then have o: "?o = ?m - 1" by (rule unsigned_word_eqI)
  have h: "(?m - 1) OR - ?m = -1" by (subst minus_eq_not_minus_1) (rule bit.disj_cancel_right)
  have nle: "\<not> ?m \<le> ?m - 1" using lt o by (simp add: word_le_nat_alt)
  have lt': "?m - 1 < ?m" using nle by simp
  show ?thesis
    using assms(2,4,5) o h um by (simp add: mlx4_bitmap_alloc_def Let_def nle lt')
qed

theorem mlx4_bitmap_all_ones_leak_witness:
  "fst (mlx4_bitmap_alloc \<lparr>bm_last = 7, bm_top = -8, bm_max = 8, bm_effective_max = 8, bm_mask = -1, bm_avail = 1, bm_table = [0x7F]\<rparr>) = -1"
proof -
  let ?b = "\<lparr>bm_last = 7, bm_top = -8, bm_max = 8, bm_effective_max = 8, bm_mask = -1, bm_avail = 1, bm_table = [0x7F]\<rparr>"
  have t: "\<not> l2w_test_bit 7 [0x7F]" by code_simp
  show ?thesis
    by (rule mlx4_bitmap_all_ones_leak[of ?b, THEN conjunct1]) (simp_all add: is_power_of_2_def t)
qed

end
