(* ===== verification/Icm_Table.thy ===== *)
theory Icm_Table
  imports Mlx4_Bitmap
begin

text \<open>
  Reference-counted device context memory (\<open>hw/mlx4/kernel/bus/net/icm.c\<close>):
  \<open>mlx4_table_get\<close>/\<open>put\<close> and their ranges.  A chunk is its reference count, \<open>None\<close> the
  null pointer.  The firmware commands issued are kept in a log, newest first, with the
  addresses the code computes.  \<open>env\<close> gives, per chunk, whether \<open>mlx4_alloc_icm\<close> for a number of pages
  and the \<open>MAP_ICM\<close> command succeed.  A result \<open>None\<close> of an operation is a
  null dereference or a loop that never ends.
\<close>

section \<open>Model\<close>

datatype icm_cmd = MAP_ICM u64 | UNMAP_ICM u64

record mlx4_icm_table =
  it_virt :: u64
  it_num_icm :: u32
  it_num_obj :: u32
  it_obj_size :: u32
  it_icm :: "u32 option list"
  it_log :: "icm_cmd list"

record icm_env =
  env_alloc :: "nat \<Rightarrow> u32 \<Rightarrow> bool"
  env_map :: "nat \<Rightarrow> bool"

definition MLX4_TABLE_CHUNK_SIZE :: u32 where
  "MLX4_TABLE_CHUNK_SIZE = 0x40000"

definition PAGE_SHIFT :: nat where
  "PAGE_SHIFT = 12"

definition NEXT_PAGE_ALIGN :: "u32 \<Rightarrow> u32" where
  "NEXT_PAGE_ALIGN addr = (addr + push_bit PAGE_SHIFT 1 - 1) AND NOT (push_bit PAGE_SHIFT 1 - 1)"

definition icm_index :: "mlx4_icm_table \<Rightarrow> u32 \<Rightarrow> nat" where
  "icm_index t obj =
     unat ((obj AND (it_num_obj t - 1)) div (MLX4_TABLE_CHUNK_SIZE div it_obj_size t))"

text \<open>The address mapped is computed in 64 bits, the address unmapped in \<open>int\<close>.\<close>

definition icm_map_addr :: "u64 \<Rightarrow> nat \<Rightarrow> u64" where
  "icm_map_addr virt i = virt + of_nat i * ucast MLX4_TABLE_CHUNK_SIZE"

definition icm_unmap_addr :: "u64 \<Rightarrow> nat \<Rightarrow> u64" where
  "icm_unmap_addr virt i = virt + scast (of_nat i * MLX4_TABLE_CHUNK_SIZE :: u32)"

definition mlx4_table_get :: "icm_env \<Rightarrow> mlx4_icm_table \<Rightarrow> u32 \<Rightarrow> errno option \<times> mlx4_icm_table" where
  "mlx4_table_get env t obj =
     (let i = icm_index t obj
      in case it_icm t ! i of
           Some c \<Rightarrow> (None, t\<lparr>it_icm := (it_icm t)[i := Some (c + 1)]\<rparr>)
         | None \<Rightarrow>
             if \<not> env_alloc env i (drop_bit PAGE_SHIFT MLX4_TABLE_CHUNK_SIZE) then (Some ENOMEM, t)
             else if \<not> env_map env i then (Some ENOMEM, t)
             else (None, t\<lparr>it_icm := (it_icm t)[i := Some 1],
                           it_log := MAP_ICM (icm_map_addr (it_virt t) i) # it_log t\<rparr>))"

definition mlx4_table_put :: "mlx4_icm_table \<Rightarrow> u32 \<Rightarrow> mlx4_icm_table option" where
  "mlx4_table_put t obj =
     (let i = icm_index t obj
      in case it_icm t ! i of
           None \<Rightarrow> None
         | Some c \<Rightarrow>
             if c - 1 = 0
             then Some (t\<lparr>it_icm := (it_icm t)[i := None],
                          it_log := UNMAP_ICM (icm_unmap_addr (it_virt t) i) # it_log t\<rparr>)
             else Some (t\<lparr>it_icm := (it_icm t)[i := Some (c - 1)]\<rparr>))"

text \<open>The two loops of \<open>mlx4_table_get_range\<close>: taking references, and the rollback.  The counters are unbounded; the
  \<open>int\<close> of the code would overflow only in a table of \<open>2^31\<close> objects of one byte.\<close>

partial_function (option) icm_get_loop ::
  "icm_env \<Rightarrow> mlx4_icm_table \<Rightarrow> nat \<Rightarrow> nat \<Rightarrow> nat \<Rightarrow> (errno option \<times> nat \<times> mlx4_icm_table) option" where
  "icm_get_loop env t inc i e =
     (if i \<le> e
      then case mlx4_table_get env t (of_nat i) of
             (None, t') \<Rightarrow> icm_get_loop env t' inc (i + inc) e
           | (Some err, t') \<Rightarrow> Some (Some err, i, t')
      else Some (None, i, t))"

partial_function (option) icm_undo_loop ::
  "mlx4_icm_table \<Rightarrow> nat \<Rightarrow> nat \<Rightarrow> nat \<Rightarrow> mlx4_icm_table option" where
  "icm_undo_loop t inc i start =
     (if start < i
      then case mlx4_table_put t (of_nat (i - inc)) of
             None \<Rightarrow> None
           | Some t' \<Rightarrow> icm_undo_loop t' inc (i - inc) start
      else Some t)"

definition mlx4_table_get_range ::
  "icm_env \<Rightarrow> mlx4_icm_table \<Rightarrow> nat \<Rightarrow> nat \<Rightarrow> (errno option \<times> mlx4_icm_table) option" where
  "mlx4_table_get_range env t start e =
     (let inc = unat (MLX4_TABLE_CHUNK_SIZE div it_obj_size t)
      in case icm_get_loop env t inc start e of
           None \<Rightarrow> None
         | Some (None, i, t) \<Rightarrow> Some (None, t)
         | Some (Some err, i, t) \<Rightarrow> map_option (Pair (Some err)) (icm_undo_loop t inc i start))"

partial_function (option) icm_put_loop ::
  "mlx4_icm_table \<Rightarrow> nat \<Rightarrow> nat \<Rightarrow> nat \<Rightarrow> mlx4_icm_table option" where
  "icm_put_loop t inc i e =
     (if i \<le> e
      then case mlx4_table_put t (of_nat i) of
             None \<Rightarrow> None
           | Some t' \<Rightarrow> icm_put_loop t' inc (i + inc) e
      else Some t)"

definition mlx4_table_put_range :: "mlx4_icm_table \<Rightarrow> nat \<Rightarrow> nat \<Rightarrow> mlx4_icm_table option" where
  "mlx4_table_put_range t start e =
     icm_put_loop t (unat (MLX4_TABLE_CHUNK_SIZE div it_obj_size t)) start e"

text \<open>Initialisation: the chunks that hold reserved objects are mapped and referenced once, so
  they are never released; on a failure every chunk mapped so far is unmapped.  The products of the loop are of
  type \<open>int\<close> and wrap around; a chunk index past the \<open>num_icm\<close> chunks is an access
  outside the array (\<open>None\<close>).  The last chunk is only as large as the table needs.\<close>

definition icm_chunk_size :: "u32 \<Rightarrow> u32 \<Rightarrow> nat \<Rightarrow> u32" where
  "icm_chunk_size nobj obj_size i =
     (if sint (nobj * obj_size) < sint (of_nat (i + 1) * MLX4_TABLE_CHUNK_SIZE)
      then NEXT_PAGE_ALIGN (nobj * obj_size - of_nat i * MLX4_TABLE_CHUNK_SIZE)
      else MLX4_TABLE_CHUNK_SIZE)"

definition icm_unmap_all :: "mlx4_icm_table \<Rightarrow> icm_cmd list" where
  "icm_unmap_all t =
     map (\<lambda>i. UNMAP_ICM (icm_unmap_addr (it_virt t) i))
       (filter (\<lambda>i. it_icm t ! i \<noteq> None) [0..<length (it_icm t)])"

partial_function (option) icm_reserve_loop ::
  "icm_env \<Rightarrow> mlx4_icm_table \<Rightarrow> nat \<Rightarrow> u32 \<Rightarrow> (errno option \<times> mlx4_icm_table) option" where
  "icm_reserve_loop env t i bytes =
     (if sint (of_nat i * MLX4_TABLE_CHUNK_SIZE) < sint bytes
      then if length (it_icm t) \<le> i then None
           else if \<not> env_alloc env i (drop_bit PAGE_SHIFT (icm_chunk_size (it_num_obj t) (it_obj_size t) i)) \<or> \<not> env_map env i
           then Some (Some ENOMEM, t\<lparr>it_log := rev (icm_unmap_all t) @ it_log t, it_icm := []\<rparr>)
           else icm_reserve_loop env
                  (t\<lparr>it_icm := (it_icm t)[i := Some 1],
                     it_log := MAP_ICM (it_virt t + scast (of_nat i * MLX4_TABLE_CHUNK_SIZE :: u32)) # it_log t\<rparr>)
                  (Suc i) bytes
      else Some (None, t))"

definition mlx4_init_icm_table ::
  "bool \<Rightarrow> icm_env \<Rightarrow> u64 \<Rightarrow> u32 \<Rightarrow> u32 \<Rightarrow> u32 \<Rightarrow> (errno option \<times> mlx4_icm_table) option" where
  "mlx4_init_icm_table mem env virt obj_size nobj reserved =
     (let obj_per_chunk = MLX4_TABLE_CHUNK_SIZE div obj_size;
          num_icm = (nobj + obj_per_chunk - 1) div obj_per_chunk;
          t = \<lparr>it_virt = virt, it_num_icm = num_icm, it_num_obj = nobj, it_obj_size = obj_size,
               it_icm = replicate (unat num_icm) None, it_log = []\<rparr>
      in if \<not> mem then Some (Some ENOMEM, t\<lparr>it_icm := []\<rparr>)
         else icm_reserve_loop env t 0 (reserved * obj_size))"

definition mlx4_cleanup_icm_table :: "mlx4_icm_table \<Rightarrow> mlx4_icm_table" where
  "mlx4_cleanup_icm_table t = t\<lparr>it_log := rev (icm_unmap_all t) @ it_log t, it_icm := []\<rparr>"

section \<open>Mapped addresses\<close>

text \<open>What the firmware holds mapped after a log of commands (newest first).\<close>

fun mapped :: "icm_cmd list \<Rightarrow> u64 set" where
  "mapped [] = {}"
| "mapped (MAP_ICM a # log) = insert a (mapped log)"
| "mapped (UNMAP_ICM a # log) = mapped log - {a}"

definition icm_inc :: "mlx4_icm_table \<Rightarrow> nat" where
  "icm_inc t = unat (MLX4_TABLE_CHUNK_SIZE div it_obj_size t)"

definition icm_addrs :: "mlx4_icm_table \<Rightarrow> u64 set" where
  "icm_addrs t = icm_map_addr (it_virt t) ` {i. i < length (it_icm t) \<and> it_icm t ! i \<noteq> None}"

text \<open>The shape that holds throughout, and the invariant: no zero counts, and the firmware has
  mapped exactly the chunks that are present.\<close>

definition icm_shape :: "mlx4_icm_table \<Rightarrow> bool" where
  "icm_shape t \<longleftrightarrow> is_power_of_2 (it_num_obj t) \<and> 0 < icm_inc t \<and>
     unat (it_num_obj t) \<le> length (it_icm t) * icm_inc t \<and> length (it_icm t) \<le> 8192"

definition icm_ok :: "mlx4_icm_table \<Rightarrow> bool" where
  "icm_ok t \<longleftrightarrow> icm_shape t \<and> (\<forall>i < length (it_icm t). it_icm t ! i \<noteq> Some 0) \<and>
     mapped (it_log t) = icm_addrs t"

lemma icm_addr_inj:
  assumes "i < 2 ^ 46" "j < 2 ^ 46"
  shows "icm_map_addr virt i = icm_map_addr virt j \<longleftrightarrow> i = j"
proof
  assume "icm_map_addr virt i = icm_map_addr virt j"
  then have "(of_nat (i * 2 ^ 18) :: u64) = of_nat (j * 2 ^ 18)"
    by (simp add: icm_map_addr_def MLX4_TABLE_CHUNK_SIZE_def)
  then have "unat (of_nat (i * 2 ^ 18) :: u64) = unat (of_nat (j * 2 ^ 18) :: u64)" by simp
  moreover have "i * 2 ^ 18 < 2 ^ LENGTH(64)" "j * 2 ^ 18 < 2 ^ LENGTH(64)" using assms by simp_all
  ultimately show "i = j" by (simp only: unat_of_nat_less) simp
qed simp

lemma icm_unmap_eq_map:
  assumes "i < 8192"
  shows "icm_unmap_addr virt i = icm_map_addr virt i"
proof -
  let ?w = "of_nat i * MLX4_TABLE_CHUNK_SIZE :: u32"
  have w: "?w = of_nat (i * 2 ^ 18)" by (simp add: MLX4_TABLE_CHUNK_SIZE_def)
  have u: "unat ?w = i * 2 ^ 18" unfolding w using assms by (intro unat_of_nat_less) simp
  have "sint ?w = int (i * 2 ^ 18)" using sint_small[of ?w] u assms by simp
  moreover have "(scast ?w :: u64) = of_int (sint ?w)" by (rule scast_eq)
  ultimately have "(scast ?w :: u64) = of_nat (i * 2 ^ 18)" by (simp only: of_int_of_nat_eq)
  then show ?thesis by (simp add: icm_unmap_addr_def icm_map_addr_def MLX4_TABLE_CHUNK_SIZE_def)
qed

lemma icm_index_eq:
  assumes "icm_shape t" "unat obj < unat (it_num_obj t)"
  shows "icm_index t obj = unat obj div icm_inc t" and "icm_index t obj < length (it_icm t)"
proof -
  have "obj AND (it_num_obj t - 1) = obj"
    using handle_idx[of "it_num_obj t" obj 0] assms by (simp add: icm_shape_def word_less_nat_alt)
  then show e: "icm_index t obj = unat obj div icm_inc t"
    by (simp only: icm_index_def icm_inc_def unat_div)
  have "unat obj < length (it_icm t) * icm_inc t" using assms by (auto simp: icm_shape_def)
  then show "icm_index t obj < length (it_icm t)" unfolding e by (simp add: less_mult_imp_div_less)
qed


section \<open>References taken and dropped\<close>

definition bump :: "u32 option \<Rightarrow> u32 option" where
  "bump x = Some (case x of None \<Rightarrow> 1 | Some c \<Rightarrow> c + 1)"

text \<open>\<open>u\<close> is \<open>t\<close> with one more reference on every chunk of \<open>S\<close>.\<close>

definition bumped :: "nat set \<Rightarrow> mlx4_icm_table \<Rightarrow> mlx4_icm_table \<Rightarrow> bool" where
  "bumped S t u \<longleftrightarrow> it_virt u = it_virt t \<and> it_num_icm u = it_num_icm t \<and> it_num_obj u = it_num_obj t \<and>
     it_obj_size u = it_obj_size t \<and> length (it_icm u) = length (it_icm t) \<and>
     (\<forall>j < length (it_icm t). it_icm u ! j = (if j \<in> S then bump (it_icm t ! j) else it_icm t ! j)) \<and>
     mapped (it_log u) = icm_addrs u"

lemma bumped_refl: "icm_ok t \<Longrightarrow> bumped {} t t"
  by (simp add: bumped_def icm_ok_def)

lemma bumped_shape: "bumped S t u \<Longrightarrow> icm_shape u = icm_shape t" "bumped S t u \<Longrightarrow> icm_inc u = icm_inc t"
  by (simp_all add: bumped_def icm_shape_def icm_inc_def)

lemma bumped_empty:
  assumes "bumped {} t u" "icm_ok t"
  shows "it_icm u = it_icm t" "icm_ok u"
proof -
  show "it_icm u = it_icm t" using assms(1) by (intro nth_equalityI) (auto simp: bumped_def)
  then show "icm_ok u" using assms bumped_shape(1)[OF assms(1)] by (simp add: icm_ok_def bumped_def)
qed

lemma bumped_index:
  assumes "icm_ok t" "bumped S t u" "unat obj < unat (it_num_obj t)"
  shows "icm_index u obj = unat obj div icm_inc t" "icm_index u obj < length (it_icm t)"
  using icm_index_eq[of u obj] bumped_shape[OF assms(2)] assms by (auto simp: icm_ok_def bumped_def)

lemma addrs_insert:
  assumes "j < length (it_icm u)"
  shows "icm_addrs (u\<lparr>it_icm := (it_icm u)[j := Some c], it_log := l\<rparr>) = insert (icm_map_addr (it_virt u) j) (icm_addrs u)"
  using assms by (auto simp: icm_addrs_def nth_list_update)

lemma addrs_remove:
  assumes "j < length (it_icm u)" "length (it_icm u) \<le> 8192"
  shows "icm_addrs (u\<lparr>it_icm := (it_icm u)[j := None], it_log := l\<rparr>) = icm_addrs u - {icm_map_addr (it_virt u) j}"
proof -
  have "icm_map_addr (it_virt u) i = icm_map_addr (it_virt u) j \<longleftrightarrow> i = j" if "i < length (it_icm u)" for i
    using assms that by (intro icm_addr_inj) auto
  then show ?thesis using assms by (auto simp: icm_addrs_def nth_list_update)
qed

lemma addrs_same:
  "icm_addrs (u\<lparr>it_icm := (it_icm u)[j := Some c]\<rparr>) = icm_addrs u" if "it_icm u ! j = Some d"
proof -
  have "(it_icm u)[j := Some c] ! i \<noteq> None \<longleftrightarrow> it_icm u ! i \<noteq> None" if "i < length (it_icm u)" for i
    using that \<open>it_icm u ! j = Some d\<close> by (cases "i = j") auto
  then have "{i. i < length (it_icm u) \<and> (it_icm u)[j := Some c] ! i \<noteq> None} =
      {i. i < length (it_icm u) \<and> it_icm u ! i \<noteq> None}" by blast
  then show ?thesis by (simp add: icm_addrs_def)
qed

lemma table_get_step:
  assumes ok: "icm_ok t" and b: "bumped S t u" and obj: "unat obj < unat (it_num_obj t)"
    and j: "unat obj div icm_inc t \<notin> S" and g: "mlx4_table_get env u obj = (r, u')"
  shows "r = None \<Longrightarrow> bumped (insert (unat obj div icm_inc t) S) t u'" and "r \<noteq> None \<Longrightarrow> u' = u"
proof -
  let ?j = "unat obj div icm_inc t"
  have ix: "icm_index u obj = ?j" "?j < length (it_icm t)" using bumped_index[OF ok b obj] by auto
  have l: "length (it_icm u) = length (it_icm t)" and uj: "it_icm u ! ?j = it_icm t ! ?j"
    and m: "mapped (it_log u) = icm_addrs u" using b ix(2) j by (auto simp: bumped_def)
  show "u' = u" if "r \<noteq> None"
    using that g by (auto simp: mlx4_table_get_def ix Let_def split: option.splits if_splits)
  show "bumped (insert ?j S) t u'" if "r = None"
  proof (cases "it_icm u ! ?j")
    case (Some c)
    then have u': "u' = u\<lparr>it_icm := (it_icm u)[?j := Some (c + 1)]\<rparr>"
      using g by (simp add: mlx4_table_get_def ix)
    have tj: "it_icm t ! ?j = Some c" using uj Some by simp
    show ?thesis
      using b ix(2) l m j addrs_same[OF Some] by (auto simp: u' bumped_def nth_list_update bump_def tj)
  next
    case None
    then have u': "u' = u\<lparr>it_icm := (it_icm u)[?j := Some 1], it_log := MAP_ICM (icm_map_addr (it_virt u) ?j) # it_log u\<rparr>"
      using g that by (simp add: mlx4_table_get_def ix Let_def split: if_splits)
    show ?thesis
      using b ix(2) l uj m None j addrs_insert[of ?j u] by (auto simp: u' bumped_def nth_list_update bump_def)
  qed
qed

lemma table_put_step:
  assumes ok: "icm_ok t" and b: "bumped (insert j S) t u" and obj: "unat obj < unat (it_num_obj t)"
    and j: "unat obj div icm_inc t = j" "j \<notin> S"
  shows "\<exists>u'. mlx4_table_put u obj = Some u' \<and> bumped S t u'"
proof -
  have ix: "icm_index u obj = j" "j < length (it_icm t)" using bumped_index[OF ok b obj] j by auto
  have l: "length (it_icm u) = length (it_icm t)" and uj: "it_icm u ! j = bump (it_icm t ! j)"
    and m: "mapped (it_log u) = icm_addrs u" using b ix(2) by (auto simp: bumped_def)
  have len: "length (it_icm u) \<le> 8192" using ok l by (simp add: icm_ok_def icm_shape_def)
  show ?thesis
  proof (cases "it_icm t ! j")
    case None
    let ?u = "u\<lparr>it_icm := (it_icm u)[j := None], it_log := UNMAP_ICM (icm_unmap_addr (it_virt u) j) # it_log u\<rparr>"
    have "mlx4_table_put u obj = Some ?u" using uj None by (simp add: mlx4_table_put_def ix bump_def)
    moreover have "icm_unmap_addr (it_virt u) j = icm_map_addr (it_virt u) j"
      using ix(2) l len by (intro icm_unmap_eq_map) simp
    then have "bumped S t ?u"
      using b ix(2) l m None j(2) addrs_remove[of j u, OF _ len] by (auto simp: bumped_def nth_list_update)
    ultimately show ?thesis by blast
  next
    case (Some c)
    have c: "c \<noteq> 0" using ok Some ix(2) by (auto simp: icm_ok_def)
    let ?u = "u\<lparr>it_icm := (it_icm u)[j := Some c]\<rparr>"
    have uj': "it_icm u ! j = Some (c + 1)" using uj Some by (simp add: bump_def)
    then have "mlx4_table_put u obj = Some ?u" using c by (simp add: mlx4_table_put_def ix)
    moreover have "bumped S t ?u"
      using b ix(2) l m Some j(2) addrs_same[OF uj'] by (auto simp: bumped_def nth_list_update)
    ultimately show ?thesis by blast
  qed
qed


section \<open>Ranges\<close>

text \<open>The chunks visited from \<open>start\<close> in steps of one chunk: \<open>m\<close> of them, the last at or
  below \<open>e\<close>.\<close>

definition visits :: "mlx4_icm_table \<Rightarrow> nat \<Rightarrow> nat \<Rightarrow> nat \<Rightarrow> bool" where
  "visits t start e m \<longleftrightarrow> (\<forall>k < m. start + k * icm_inc t \<le> e)"

lemma visit_chunk:
  assumes "icm_ok t" "e < unat (it_num_obj t)" "start + k * icm_inc t \<le> e"
  shows "unat (of_nat (start + k * icm_inc t) :: u32) = start + k * icm_inc t"
    and "(start + k * icm_inc t) div icm_inc t = start div icm_inc t + k"
proof -
  have "start + k * icm_inc t < 2 ^ 32"
    using assms power_of_2_bound[of "it_num_obj t"] by (auto simp: icm_ok_def icm_shape_def)
  then show "unat (of_nat (start + k * icm_inc t) :: u32) = start + k * icm_inc t"
    by (intro unat_of_nat_less) simp
  show "(start + k * icm_inc t) div icm_inc t = start div icm_inc t + k"
    using assms(1) by (simp add: icm_ok_def icm_shape_def)
qed

lemma get_loop_outcome:
  assumes ok: "icm_ok t" and e: "e < unat (it_num_obj t)"
    and b: "bumped {start div icm_inc t..<start div icm_inc t + m} t u" and v: "visits t start e m"
  shows "\<exists>r n u'. icm_get_loop env u (icm_inc t) (start + m * icm_inc t) e = Some (r, start + n * icm_inc t, u') \<and>
    bumped {start div icm_inc t..<start div icm_inc t + n} t u' \<and> visits t start e n \<and>
    (r = None \<longrightarrow> e < start + n * icm_inc t)"
  using b v
proof (induction "Suc e - (start + m * icm_inc t)" arbitrary: m u rule: less_induct)
  case less
  let ?q = "start div icm_inc t" and ?i = "start + m * icm_inc t"
  have inc: "0 < icm_inc t" using ok by (simp add: icm_ok_def icm_shape_def)
  note unf = icm_get_loop.simps[of env u "icm_inc t" ?i e]
  show ?case
  proof (cases "?i \<le> e")
    case False
    then have "icm_get_loop env u (icm_inc t) ?i e = Some (None, ?i, u)" by (subst unf) simp
    then show ?thesis using less.prems False by (intro exI[of _ None] exI[of _ m] exI[of _ u]) simp
  next
    case True
    note vc = visit_chunk[OF ok e True]
    obtain r u' where g: "mlx4_table_get env u (of_nat ?i) = (r, u')" by fastforce
    have nin: "unat (of_nat ?i :: u32) div icm_inc t \<notin> {?q..<?q + m}" unfolding vc by simp
    have lt: "unat (of_nat ?i :: u32) < unat (it_num_obj t)" unfolding vc(1) using True e by simp
    note st = table_get_step[OF ok less.prems(1) lt nin g]
    show ?thesis
    proof (cases r)
      case (Some err)
      then have "icm_get_loop env u (icm_inc t) ?i e = Some (Some err, ?i, u')" using True g by (subst unf) simp
      then show ?thesis using less.prems st(2) Some by (intro exI[of _ "Some err"] exI[of _ m] exI[of _ u]) simp
    next
      case None
      have "insert (unat (of_nat ?i :: u32) div icm_inc t) {?q..<?q + m} = {?q..<?q + Suc m}" unfolding vc by auto
      then have b': "bumped {?q..<?q + Suc m} t u'" using st(1)[OF None] by simp
      have v': "visits t start e (Suc m)" using less.prems(2) True by (auto simp: visits_def less_Suc_eq)
      have s: "start + Suc m * icm_inc t = ?i + icm_inc t" by simp
      have "Suc e - (start + Suc m * icm_inc t) < Suc e - ?i" using True inc unfolding s by linarith
      from less.hyps[OF this b' v'] show ?thesis
        unfolding s using True g None by (subst unf) simp
    qed
  qed
qed

lemma undo_loop_outcome:
  assumes ok: "icm_ok t" and e: "e < unat (it_num_obj t)"
    and b: "bumped {start div icm_inc t..<start div icm_inc t + m} t u" and v: "visits t start e m"
  shows "\<exists>u'. icm_undo_loop u (icm_inc t) (start + m * icm_inc t) start = Some u' \<and> bumped {} t u'"
  using b v
proof (induction m arbitrary: u)
  case 0
  then show ?case by (subst icm_undo_loop.simps) simp
next
  case (Suc m)
  let ?q = "start div icm_inc t" and ?i = "start + m * icm_inc t"
  have inc: "0 < icm_inc t" using ok by (simp add: icm_ok_def icm_shape_def)
  have le: "?i \<le> e" and v': "visits t start e m" using Suc.prems(2) by (auto simp: visits_def)
  note vc = visit_chunk[OF ok e le]
  have lt: "unat (of_nat ?i :: u32) < unat (it_num_obj t)" unfolding vc(1) using le e by simp
  have "{?q..<?q + Suc m} = insert (?q + m) {?q..<?q + m}" by auto
  then have b': "bumped (insert (?q + m) {?q..<?q + m}) t u" using Suc.prems(1) by simp
  from table_put_step[OF ok b' lt] obtain u' where
    u': "mlx4_table_put u (of_nat ?i) = Some u'" "bumped {?q..<?q + m} t u'"
    unfolding vc by auto
  have s: "start + Suc m * icm_inc t - icm_inc t = ?i" "start < start + Suc m * icm_inc t" using inc by simp_all
  have "icm_undo_loop u (icm_inc t) (start + Suc m * icm_inc t) start = icm_undo_loop u' (icm_inc t) ?i start"
    by (subst icm_undo_loop.simps) (simp only: s u'(1) if_True option.case)
  then show ?case using Suc.IH[OF u'(2) v'] by simp
qed

lemma put_loop_outcome:
  assumes ok: "icm_ok t" and e: "e < unat (it_num_obj t)" and km: "k \<le> m"
    and b: "bumped {start div icm_inc t + k..<start div icm_inc t + m} t u" and v: "visits t start e m"
    and last: "e < start + m * icm_inc t"
  shows "\<exists>u'. icm_put_loop u (icm_inc t) (start + k * icm_inc t) e = Some u' \<and> bumped {} t u'"
  using km b
proof (induction "m - k" arbitrary: k u)
  case 0
  then show ?case using last by (subst icm_put_loop.simps) simp
next
  case (Suc d)
  let ?q = "start div icm_inc t" and ?i = "start + k * icm_inc t"
  have k: "k < m" using Suc.hyps(2) by simp
  have le: "?i \<le> e" using v k by (auto simp: visits_def)
  note vc = visit_chunk[OF ok e le]
  have lt: "unat (of_nat ?i :: u32) < unat (it_num_obj t)" unfolding vc(1) using le e by simp
  have "{?q + k..<?q + m} = insert (?q + k) {?q + Suc k..<?q + m}" using k by auto
  then have b': "bumped (insert (?q + k) {?q + Suc k..<?q + m}) t u" using Suc.prems by simp
  from table_put_step[OF ok b' lt] obtain u' where
    u': "mlx4_table_put u (of_nat ?i) = Some u'" "bumped {?q + Suc k..<?q + m} t u'"
    unfolding vc by auto
  have s: "?i + icm_inc t = start + Suc k * icm_inc t" by simp
  have "icm_put_loop u (icm_inc t) ?i e = icm_put_loop u' (icm_inc t) (start + Suc k * icm_inc t) e"
    by (subst icm_put_loop.simps) (simp only: le u'(1) s if_True option.case)
  moreover have "d = m - Suc k" "Suc k \<le> m" using Suc.hyps(2) k by simp_all
  ultimately show ?case using Suc.hyps(1)[OF _ _ u'(2)] by simp
qed

text \<open>The chunks of a run of objects.\<close>

lemma get_range_outcome:
  assumes ok: "icm_ok t" and e: "e < unat (it_num_obj t)"
  obtains (fail) err t' where "mlx4_table_get_range env t start e = Some (Some err, t')" "bumped {} t t'"
  | (taken) n t' where "mlx4_table_get_range env t start e = Some (None, t')"
      "bumped {start div icm_inc t..<start div icm_inc t + n} t t'" "visits t start e n" "e < start + n * icm_inc t"
proof -
  have b0: "bumped {start div icm_inc t..<start div icm_inc t + 0} t t" using bumped_refl[OF ok] by simp
  have v0: "visits t start e 0" by (simp add: visits_def)
  from get_loop_outcome[OF ok e b0 v0, of env] obtain r n u where
    g: "icm_get_loop env t (icm_inc t) start e = Some (r, start + n * icm_inc t, u)"
      "bumped {start div icm_inc t..<start div icm_inc t + n} t u" "visits t start e n"
      "r = None \<longrightarrow> e < start + n * icm_inc t" by auto
  show thesis
  proof (cases r)
    case None
    then show thesis using taken[of u n] g by (simp add: mlx4_table_get_range_def icm_inc_def)
  next
    case (Some err)
    from undo_loop_outcome[OF ok e g(2,3)] obtain u' where
      "icm_undo_loop u (icm_inc t) (start + n * icm_inc t) start = Some u'" "bumped {} t u'" by blast
    then show thesis using fail[of err u'] g(1) Some by (simp add: mlx4_table_get_range_def icm_inc_def)
  qed
qed


section \<open>Initialisation and cleanup\<close>

lemma mapped_unmap_list:
  "mapped (rev (map UNMAP_ICM as) @ log) = mapped log - set as"
proof (induction as arbitrary: log)
  case (Cons a as)
  have "mapped (rev (map UNMAP_ICM (a # as)) @ log) = mapped (rev (map UNMAP_ICM as) @ UNMAP_ICM a # log)" by simp
  also have "\<dots> = mapped log - set (a # as)" by (subst Cons.IH) auto
  finally show ?case .
qed simp

lemma cleanup_unmaps_all:
  assumes "mapped (it_log t) = icm_addrs t" "length (it_icm t) \<le> 8192"
  shows "mapped (it_log (mlx4_cleanup_icm_table t)) = {}"
proof -
  let ?is = "filter (\<lambda>i. it_icm t ! i \<noteq> None) [0..<length (it_icm t)]"
  have "icm_unmap_all t = map UNMAP_ICM (map (icm_map_addr (it_virt t)) ?is)"
    using assms(2) by (auto simp: icm_unmap_all_def icm_unmap_eq_map)
  moreover have "set (map (icm_map_addr (it_virt t)) ?is) = icm_addrs t" by (auto simp: icm_addrs_def)
  moreover have "it_log (mlx4_cleanup_icm_table t) = rev (icm_unmap_all t) @ it_log t"
    by (simp add: mlx4_cleanup_icm_table_def)
  ultimately show ?thesis using assms(1) by (simp only: mapped_unmap_list Diff_cancel)
qed

text \<open>The reservation loop: chunks below \<open>i\<close> hold one reference, the others none.\<close>

definition reserved_to :: "nat \<Rightarrow> mlx4_icm_table \<Rightarrow> bool" where
  "reserved_to i t \<longleftrightarrow> mapped (it_log t) = icm_addrs t \<and>
     (\<forall>j < length (it_icm t). it_icm t ! j = (if j < i then Some 1 else None))"

lemma sint_chunk: "i < 8192 \<Longrightarrow> sint (of_nat i * MLX4_TABLE_CHUNK_SIZE :: u32) = int (i * 2 ^ 18)"
proof -
  assume i: "i < 8192"
  have w: "of_nat i * MLX4_TABLE_CHUNK_SIZE = (of_nat (i * 2 ^ 18) :: u32)" by (simp add: MLX4_TABLE_CHUNK_SIZE_def)
  have "unat (of_nat (i * 2 ^ 18) :: u32) = i * 2 ^ 18" using i by (intro unat_of_nat_less) simp
  then show ?thesis unfolding w using sint_small[of "of_nat (i * 2 ^ 18)"] i by simp
qed

lemma reserve_loop_outcome:
  assumes "reserved_to i t" "i \<le> length (it_icm t)" "unat bytes \<le> length (it_icm t) * 2 ^ 18"
    "length (it_icm t) \<le> 8192" "i \<le> 8191" "unat bytes \<le> 8191 * 2 ^ 18"
  shows "(\<exists>n t'. icm_reserve_loop env t i bytes = Some (None, t') \<and> reserved_to n t' \<and> unat bytes \<le> n * 2 ^ 18 \<and>
      length (it_icm t') = length (it_icm t) \<and> it_num_obj t' = it_num_obj t \<and> it_obj_size t' = it_obj_size t) \<or>
    (\<exists>t'. icm_reserve_loop env t i bytes = Some (Some ENOMEM, t') \<and> mapped (it_log t') = {} \<and> it_icm t' = [])"
  using assms
proof (induction "length (it_icm t) - i" arbitrary: i t rule: less_induct)
  case less
  have test: "sint (of_nat i * MLX4_TABLE_CHUNK_SIZE :: u32) < sint bytes \<longleftrightarrow> i * 2 ^ 18 < unat bytes"
  proof -
    have "i < 8192" "unat bytes < 2 ^ 31" using less.prems(5,6) by simp_all
    then show ?thesis by (simp only: sint_chunk sint_small of_nat_less_iff)
  qed
  note unf = icm_reserve_loop.simps[of env t i bytes]
  let ?ok = "env_alloc env i (drop_bit PAGE_SHIFT (icm_chunk_size (it_num_obj t) (it_obj_size t) i)) \<and> env_map env i"
  consider (stop) "\<not> i * 2 ^ 18 < unat bytes" | (err) "i * 2 ^ 18 < unat bytes" "\<not> ?ok" | (go) "i * 2 ^ 18 < unat bytes" "?ok" by blast
  then show ?case
  proof cases
    case stop
    then have "icm_reserve_loop env t i bytes = Some (None, t)" by (subst unf) (simp only: test if_False)
    then show ?thesis using less.prems stop by (intro disjI1 exI[of _ i] exI[of _ t]) simp
  next
    case err
    then have i: "\<not> length (it_icm t) \<le> i" using less.prems(3) by (auto simp: not_le)
    have "icm_reserve_loop env t i bytes = Some (Some ENOMEM, mlx4_cleanup_icm_table t)"
      using err i by (subst unf) (simp only: test if_True if_False mlx4_cleanup_icm_table_def de_Morgan_conj simp_thms)
    moreover have "mapped (it_log (mlx4_cleanup_icm_table t)) = {}"
      using less.prems by (intro cleanup_unmaps_all) (auto simp: reserved_to_def)
    ultimately show ?thesis by (intro disjI2 exI[of _ "mlx4_cleanup_icm_table t"]) (simp add: mlx4_cleanup_icm_table_def)
  next
    case go
    let ?t = "t\<lparr>it_icm := (it_icm t)[i := Some 1], it_log := MAP_ICM (icm_map_addr (it_virt t) i) # it_log t\<rparr>"
    have i: "i < length (it_icm t)" "i < 8191" using go(1) less.prems(3,6) by (auto simp: not_le intro: mult_less_cancel2[THEN iffD1])
    have "i < 8192" using i(2) by simp
    from icm_unmap_eq_map[OF this, of "it_virt t"]
    have run: "icm_reserve_loop env t i bytes = icm_reserve_loop env ?t (Suc i) bytes"
      using go i(1) by (subst unf) (simp add: test icm_unmap_addr_def)
    have "reserved_to (Suc i) ?t"
      using less.prems(1) i addrs_insert[OF i(1)] by (auto simp: reserved_to_def nth_list_update)
    from less.hyps[OF _ this] less.prems(3,4,6) i show ?thesis unfolding run by simp
  qed
qed

lemma unat_chunk_size: "unat MLX4_TABLE_CHUNK_SIZE = 2 ^ 18"
  by (simp add: MLX4_TABLE_CHUNK_SIZE_def)


text \<open>The tables of the driver: power-of-two objects of power-of-two size, at most 2 GB, with the reserved objects not
  reaching into the last chunk of a table of 2 GB.\<close>

definition icm_params :: "u32 \<Rightarrow> u32 \<Rightarrow> u32 \<Rightarrow> bool" where
  "icm_params obj_size nobj reserved \<longleftrightarrow> is_power_of_2 obj_size \<and> obj_size \<le> MLX4_TABLE_CHUNK_SIZE \<and>
     is_power_of_2 nobj \<and> unat nobj * unat obj_size \<le> 2 ^ 31 \<and> reserved \<le> nobj \<and>
     unat reserved * unat obj_size \<le> 8191 * 2 ^ 18"

lemma icm_params_sizes:
  assumes "icm_params obj_size nobj reserved"
  defines "inc \<equiv> unat (MLX4_TABLE_CHUNK_SIZE div obj_size)"
    and "n \<equiv> unat ((nobj + MLX4_TABLE_CHUNK_SIZE div obj_size - 1) div (MLX4_TABLE_CHUNK_SIZE div obj_size))"
  shows "0 < inc" "unat nobj \<le> n * inc" "n \<le> 8192" "unat (reserved * obj_size) = unat reserved * unat obj_size"
    "unat reserved * unat obj_size \<le> n * 2 ^ 18" "inc * unat obj_size = 2 ^ 18"
proof -
  obtain k where k: "obj_size = 2 ^ k" "k < 32" using assms(1) by (auto simp: icm_params_def is_power_of_2_iff)
  have "unat obj_size \<le> 2 ^ 18" using assms(1) unat_chunk_size by (simp add: icm_params_def word_le_nat_alt)
  then have "(2::nat) ^ k \<le> 2 ^ 18" using k by simp
  then have "k \<le> 18" by (rule power_le_imp_le_exp[rotated]) simp
  have "inc = 2 ^ 18 div 2 ^ k" unfolding inc_def unat_div unat_chunk_size using k by simp
  then have inc: "inc = 2 ^ (18 - k)" using \<open>k \<le> 18\<close> by (simp add: power_diff)
  then show i0: "0 < inc" by simp
  show io: "inc * unat obj_size = 2 ^ 18" using k \<open>k \<le> 18\<close> by (simp add: inc flip: power_add)
  have no: "unat nobj * unat obj_size \<le> 2 ^ 31" using assms(1) by (simp add: icm_params_def)
  also have "(2::nat) ^ 31 = 8192 * inc * unat obj_size" using io by simp
  finally have nb: "unat nobj \<le> 8192 * inc" using k by simp
  have "inc \<le> 2 ^ 18" unfolding inc by (intro power_increasing) auto
  have uw: "unat (MLX4_TABLE_CHUNK_SIZE div obj_size) = inc" by (simp add: inc_def)
  have "unat (nobj + MLX4_TABLE_CHUNK_SIZE div obj_size) = unat nobj + inc"
    using nb \<open>inc \<le> 2 ^ 18\<close> by (subst unat_add_less) (simp_all add: uw)
  then have "unat (nobj + MLX4_TABLE_CHUNK_SIZE div obj_size - 1) = unat nobj + inc - 1"
    using i0 by (subst unat_sub_le) simp_all
  then have n: "n = (unat nobj + inc - 1) div inc" unfolding n_def by (subst unat_div) (simp only: uw)
  have "n * inc + (unat nobj + inc - 1) mod inc = unat nobj + inc - 1" unfolding n by simp
  moreover have "(unat nobj + inc - 1) mod inc < inc" using i0 by simp
  ultimately show nl: "unat nobj \<le> n * inc" using i0 by linarith
  have "unat nobj + inc - 1 < (8192 + 1) * inc" using nb i0 by simp
  then have "n < 8192 + 1" unfolding n by (rule less_mult_imp_div_less)
  then show "n \<le> 8192" by simp
  have "unat reserved \<le> unat nobj" using assms(1) by (simp add: icm_params_def word_le_nat_alt)
  then have r: "unat reserved * unat obj_size \<le> unat nobj * unat obj_size" by simp
  then have "unat reserved * unat obj_size \<le> 2 ^ 31" using no by (rule order_trans)
  then have "unat reserved * unat obj_size < 2 ^ LENGTH(32)" by simp
  then show "unat (reserved * obj_size) = unat reserved * unat obj_size" by (simp only: unat_mult_lem)
  have "unat nobj * unat obj_size \<le> n * inc * unat obj_size" using nl by simp
  then have "unat nobj * unat obj_size \<le> n * 2 ^ 18" by (simp only: mult.assoc io)
  with r show "unat reserved * unat obj_size \<le> n * 2 ^ 18" by (rule order_trans)
qed

lemma init_icm_table_outcome:
  assumes p: "icm_params obj_size nobj reserved"
  shows "(\<exists>n t. mlx4_init_icm_table True env virt obj_size nobj reserved = Some (None, t) \<and> icm_ok t \<and>
      reserved_to n t \<and> unat reserved \<le> n * icm_inc t \<and> it_num_obj t = nobj \<and> it_obj_size t = obj_size) \<or>
    (\<exists>t. mlx4_init_icm_table True env virt obj_size nobj reserved = Some (Some ENOMEM, t) \<and>
      mapped (it_log t) = {} \<and> it_icm t = [])"
proof -
  note sz = icm_params_sizes[OF p]
  let ?inc = "MLX4_TABLE_CHUNK_SIZE div obj_size" let ?n = "(nobj + ?inc - 1) div ?inc"
  let ?t = "\<lparr>it_virt = virt, it_num_icm = ?n, it_num_obj = nobj, it_obj_size = obj_size,
               it_icm = replicate (unat ?n) None, it_log = []\<rparr>"
  have init: "mlx4_init_icm_table True env virt obj_size nobj reserved = icm_reserve_loop env ?t 0 (reserved * obj_size)"
    by (simp add: mlx4_init_icm_table_def Let_def)
  have rb: "unat (reserved * obj_size) \<le> 8191 * 2 ^ 18" unfolding sz(4) using p by (simp add: icm_params_def)
  have r0: "reserved_to 0 ?t" by (auto simp: reserved_to_def icm_addrs_def)
  from reserve_loop_outcome[OF r0, of "reserved * obj_size" env] sz(3-5) rb
  consider (ok) n t where "icm_reserve_loop env ?t 0 (reserved * obj_size) = Some (None, t)" "reserved_to n t"
      "unat reserved * unat obj_size \<le> n * 2 ^ 18" "length (it_icm t) = unat ?n" "it_num_obj t = nobj" "it_obj_size t = obj_size"
    | (err) t where "icm_reserve_loop env ?t 0 (reserved * obj_size) = Some (Some ENOMEM, t)"
      "mapped (it_log t) = {}" "it_icm t = []"
    by auto
  then show ?thesis
  proof cases
    case ok
    have inc: "icm_inc t = unat ?inc" by (simp add: icm_inc_def ok)
    have sh: "icm_shape t" using ok sz p by (simp add: icm_shape_def inc icm_params_def)
    have "icm_ok t" using sh ok(2) by (auto simp: icm_ok_def reserved_to_def)
    moreover have "unat reserved * unat obj_size \<le> n * unat ?inc * unat obj_size"
      using ok(3) sz(6) by (simp add: mult.assoc)
    moreover have "0 < unat obj_size" using p by (simp add: icm_params_def is_power_of_2_def unat_gt_0)
    ultimately have "unat reserved \<le> n * icm_inc t" by (simp add: inc)
    with \<open>icm_ok t\<close> show ?thesis unfolding init using ok by blast
  next
    case err
    then show ?thesis unfolding init by blast
  qed
qed

lemma unat_page_align:
  assumes "unat x \<le> 2 ^ 31"
  shows "unat (drop_bit PAGE_SHIFT (NEXT_PAGE_ALIGN x)) = (unat x + 4095) div 4096"
proof -
  have "NEXT_PAGE_ALIGN x = l2w_align x 0x1000" by (simp add: NEXT_PAGE_ALIGN_def l2w_align_def PAGE_SHIFT_def push_bit_of_1)
  moreover have "unat (l2w_align x 0x1000) = 4096 * ((unat x + 4095) div 4096)"
    using unat_l2w_align[of "0x1000" x] assms by (simp add: is_power_of_2_def)
  ultimately show ?thesis by (simp add: PAGE_SHIFT_def drop_bit_eq_div unat_div)
qed

text \<open>The pages asked for: 64 for a whole chunk, fewer for the end of the table.\<close>

lemma chunk_pages:
  assumes p: "icm_params obj_size nobj reserved" and s: "unat nobj * unat obj_size \<le> 2 ^ 30" and i: "i * 2 ^ 18 < unat nobj * unat obj_size"
  shows "unat (drop_bit PAGE_SHIFT (icm_chunk_size nobj obj_size i)) = min 64 ((unat nobj * unat obj_size - i * 2 ^ 18 + 4095) div 4096)"
proof -
  let ?N = "unat nobj * unat obj_size"
  have N: "unat (nobj * obj_size) = ?N" using s by (subst unat_mult_lem[symmetric]) simp
  have n: "sint (nobj * obj_size) = int ?N" using sint_small[of "nobj * obj_size"] s unfolding N by simp
  have i1: "i + 1 < 8192" "i < 8192" using i s by simp_all
  have c: "unat (of_nat i * MLX4_TABLE_CHUNK_SIZE :: u32) = i * 2 ^ 18"
  proof -
    have "of_nat i * MLX4_TABLE_CHUNK_SIZE = (of_nat (i * 2 ^ 18) :: u32)" by (simp add: MLX4_TABLE_CHUNK_SIZE_def)
    moreover have "unat (of_nat (i * 2 ^ 18) :: u32) = i * 2 ^ 18" using i1(2) by (intro unat_of_nat_less) simp
    ultimately show ?thesis by simp
  qed
  have d: "unat (nobj * obj_size - of_nat i * MLX4_TABLE_CHUNK_SIZE) = ?N - i * 2 ^ 18"
    using i by (subst unat_sub_le) (simp_all only: N c)
  show ?thesis
  proof (cases "?N < (i + 1) * 2 ^ 18")
    case True
    then have "icm_chunk_size nobj obj_size i = NEXT_PAGE_ALIGN (nobj * obj_size - of_nat i * MLX4_TABLE_CHUNK_SIZE)"
      unfolding icm_chunk_size_def n sint_chunk[OF i1(1)] of_nat_less_iff by simp
    moreover have "(?N - i * 2 ^ 18 + 4095) div 4096 \<le> 64" using True by simp
    ultimately show ?thesis using unat_page_align[of "nobj * obj_size - of_nat i * MLX4_TABLE_CHUNK_SIZE"] s by (simp add: d)
  next
    case False
    then have "icm_chunk_size nobj obj_size i = MLX4_TABLE_CHUNK_SIZE" unfolding icm_chunk_size_def n sint_chunk[OF i1(1)] of_nat_less_iff by simp
    moreover have "64 \<le> (?N - i * 2 ^ 18 + 4095) div 4096" using False by simp
    ultimately show ?thesis by (simp add: MLX4_TABLE_CHUNK_SIZE_def PAGE_SHIFT_def)
  qed
qed

section \<open>Properties\<close>

lemma get_put_range:
  assumes ok: "icm_ok t" and e: "e < unat (it_num_obj t)"
    and g: "mlx4_table_get_range env t start e = Some (None, t')"
  shows "\<exists>t''. mlx4_table_put_range t' start e = Some t'' \<and> it_icm t'' = it_icm t \<and> icm_ok t''"
proof (cases rule: get_range_outcome[OF ok e, of env start])
  case (1 err t2)
  then show ?thesis using g by simp
next
  case (2 n t2)
  then have t2: "t2 = t'" using g by simp
  have "bumped {start div icm_inc t + 0..<start div icm_inc t + n} t t'" using 2(2) t2 by simp
  from put_loop_outcome[OF ok e le0 this 2(3,4)] obtain u where
    u: "icm_put_loop t' (icm_inc t) start e = Some u" "bumped {} t u" by auto
  have "icm_inc t' = icm_inc t" using bumped_shape(2)[OF 2(2)] t2 by simp
  then have "mlx4_table_put_range t' start e = Some u" using u(1) by (simp add: mlx4_table_put_range_def icm_inc_def)
  then show ?thesis using bumped_empty[OF u(2) ok] by blast
qed


definition ex_icm_table :: mlx4_icm_table where
  "ex_icm_table = \<lparr>it_virt = 0, it_num_icm = 2, it_num_obj = 8, it_obj_size = 0x10000, it_icm = [Some 1, None], it_log = [MAP_ICM 0]\<rparr>"

lemma ex_icm_ok: "icm_ok ex_icm_table"
proof -
  have "{i. (i = 0 \<or> i = Suc 0) \<and> (\<exists>y :: u32. [Some 1, None] ! i = Some y)} = {0}" by auto
  then show ?thesis
    by (simp add: icm_ok_def icm_shape_def ex_icm_table_def is_power_of_2_def icm_inc_def MLX4_TABLE_CHUNK_SIZE_def
        icm_addrs_def icm_map_addr_def less_Suc_eq)
qed


text \<open>C22. For tables of at most 2 GB whose reserved objects take at most 2 GB less one chunk,
  \<open>mlx4_init_icm_table\<close> either succeeds, with one permanent reference on
  every chunk that holds a reserved object, or unmaps everything it mapped and reports the
  failure; \<open>mlx4_cleanup_icm_table\<close> leaves nothing mapped.  In a table of at most 1 GB a chunk is asked for with 64 pages, or with
  those the rest of the table needs.\<close>

theorem icm_init_correct:
  assumes "icm_params obj_size nobj reserved"
  shows "\<exists>r t. mlx4_init_icm_table True env virt obj_size nobj reserved = Some (r, t) \<and>
    (r = None \<longrightarrow> icm_ok t \<and> (\<forall>obj < unat reserved. it_icm t ! icm_index t (of_nat obj) = Some 1) \<and>
       mapped (it_log (mlx4_cleanup_icm_table t)) = {}) \<and>
    (r \<noteq> None \<longrightarrow> mapped (it_log t) = {}) \<and>
    (\<forall>i. unat nobj * unat obj_size \<le> 2 ^ 30 \<and> i * 2 ^ 18 < unat nobj * unat obj_size \<longrightarrow>
       unat (drop_bit PAGE_SHIFT (icm_chunk_size nobj obj_size i)) = min 64 ((unat nobj * unat obj_size - i * 2 ^ 18 + 4095) div 4096))"
  using init_icm_table_outcome[OF assms, of env virt]
proof (elim disjE exE conjE)
  fix n t
  assume i: "mlx4_init_icm_table True env virt obj_size nobj reserved = Some (None, t)" and ok: "icm_ok t"
    and r: "reserved_to n t" "unat reserved \<le> n * icm_inc t" "it_num_obj t = nobj"
  have "it_icm t ! icm_index t (of_nat obj) = Some 1" if "obj < unat reserved" for obj
  proof -
    have "unat reserved \<le> unat nobj" using assms by (simp add: icm_params_def word_le_nat_alt)
    then have o: "obj < unat (it_num_obj t)" using that r(3) by simp
    moreover have "unat nobj < 2 ^ LENGTH(32)" by (rule unsigned_less)
    ultimately have "obj < 2 ^ LENGTH(32)" using r(3) by simp
    then have u: "unat (of_nat obj :: u32) = obj" by (rule unat_of_nat_less)
    have ix: "icm_index t (of_nat obj) = obj div icm_inc t" "icm_index t (of_nat obj) < length (it_icm t)"
      using icm_index_eq[of t "of_nat obj"] ok o u by (auto simp: icm_ok_def)
    have "obj div icm_inc t < n" using that r(2) by (intro less_mult_imp_div_less) simp
    then show ?thesis using r(1) ix by (simp add: reserved_to_def)
  qed
  moreover have "mapped (it_log (mlx4_cleanup_icm_table t)) = {}"
    using ok by (intro cleanup_unmaps_all) (auto simp: icm_ok_def icm_shape_def)
  ultimately show ?thesis using i ok chunk_pages[OF assms] by (intro exI[of _ None] exI[of _ t]) simp
next
  fix t
  assume "mlx4_init_icm_table True env virt obj_size nobj reserved = Some (Some ENOMEM, t)" "mapped (it_log t) = {}"
  then show ?thesis using chunk_pages[OF assms] by (intro exI[of _ "Some ENOMEM"] exI[of _ t]) simp
qed

theorem icm_init_correct_witness:
  "\<exists>r t. mlx4_init_icm_table True \<lparr>env_alloc = (\<lambda>i n. True), env_map = (\<lambda>i. i = 0)\<rparr> 0 0x10000 8 5 = Some (r, t) \<and>
     (r \<noteq> None \<longrightarrow> mapped (it_log t) = {})"
proof -
  have "icm_params 0x10000 8 5" by (simp add: icm_params_def is_power_of_2_def MLX4_TABLE_CHUNK_SIZE_def)
  from icm_init_correct[OF this, of "\<lparr>env_alloc = (\<lambda>i n. True), env_map = (\<lambda>i. i = 0)\<rparr>" 0] show ?thesis by blast
qed

text \<open>At 2 GB the products overflow: with every object reserved the loop ends at once and nothing is pinned.\<close>

lemma icm_init_overflow:
  "map_option (\<lambda>(r, t). (r, it_log t)) (mlx4_init_icm_table True env virt 0x40000 0x2000 0x2000) = Some (None, [])"
  by (simp add: mlx4_init_icm_table_def MLX4_TABLE_CHUNK_SIZE_def icm_reserve_loop.simps[where i = 0])

lemma sint_wrap: "sint (of_nat n :: u32) = int n - 2 ^ 32 * int ((n + 2 ^ 31) div 2 ^ 32)"
proof -
  have "sint (of_nat n :: u32) = (int n + 2 ^ 31) mod 2 ^ 32 - 2 ^ 31"
    by (simp add: sint_uint unsigned_of_nat signed_take_bit_eq_take_bit_shift take_bit_eq_mod zmod_int mod_simps)
  also have "(int n + 2 ^ 31) mod 2 ^ 32 = int n + 2 ^ 31 - 2 ^ 32 * ((int n + 2 ^ 31) div 2 ^ 32)" by (rule minus_mult_div_eq_mod[symmetric])
  also have "(int n + 2 ^ 31) div 2 ^ 32 = int ((n + 2 ^ 31) div 2 ^ 32)" by (simp add: zdiv_int)
  finally show ?thesis by simp
qed

lemma icm_unmap_shift: "icm_unmap_addr virt i = icm_map_addr virt i - of_nat ((i + 8192) div 16384) * 2 ^ 32"
proof -
  have w: "of_nat i * MLX4_TABLE_CHUNK_SIZE = (of_nat (i * 2 ^ 18) :: u32)" by (simp add: MLX4_TABLE_CHUNK_SIZE_def)
  have "(i * 2 ^ 18 + 2 ^ 31) div 2 ^ 32 = (i + 8192) * 2 ^ 18 div (16384 * 2 ^ 18)" by simp
  also have "\<dots> = (i + 8192) div 16384" by (rule div_mult_mult2) simp
  finally have "sint (of_nat i * MLX4_TABLE_CHUNK_SIZE :: u32) = int (i * 2 ^ 18) - 2 ^ 32 * int ((i + 8192) div 16384)"
    unfolding w sint_wrap by simp
  moreover have "(scast (of_nat i * MLX4_TABLE_CHUNK_SIZE :: u32) :: u64) = of_int (sint (of_nat i * MLX4_TABLE_CHUNK_SIZE :: u32))"
    by (rule scast_eq)
  ultimately have "(scast (of_nat i * MLX4_TABLE_CHUNK_SIZE :: u32) :: u64) = of_nat (i * 2 ^ 18) - 2 ^ 32 * of_nat ((i + 8192) div 16384)"
    by (simp only: of_int_diff of_int_mult of_int_of_nat_eq of_int_power of_int_numeral)
  then show ?thesis by (simp add: icm_unmap_addr_def icm_map_addr_def MLX4_TABLE_CHUNK_SIZE_def mult.commute)
qed

text \<open>C37. \<open>mlx4_table_put\<close> multiplies the chunk index in \<open>int\<close>, where \<open>mlx4_table_get\<close> widens it first.  When it drops the last
  reference of a chunk at index 8192 or above (2 GB into the table) it frees the chunk but unmaps an address that lies a
  positive multiple of 4 GB below the one that was mapped (4 GB for the chunks up to 24575), so that the firmware keeps the chunk's own
  address mapped to memory that was freed.\<close>

theorem icm_unmap_truncated:
  assumes "icm_index t obj = i" "8192 \<le> i" "it_icm t ! i = Some 1" "icm_map_addr (it_virt t) i \<in> mapped (it_log t)"
  shows "\<exists>t'. mlx4_table_put t obj = Some t' \<and> it_icm t' = (it_icm t)[i := None] \<and>
    it_log t' = UNMAP_ICM (icm_map_addr (it_virt t) i - of_nat ((i + 8192) div 16384) * 2 ^ 32) # it_log t \<and>
    icm_map_addr (it_virt t) i \<in> mapped (it_log t')"
proof -
  let ?k = "(i + 8192) div 16384" let ?a = "icm_map_addr (it_virt t) i"
  have "i < 2 ^ LENGTH(32)" unfolding assms(1)[symmetric] icm_index_def by (rule unsigned_less)
  then have k: "0 < ?k" "?k * 2 ^ 32 < 2 ^ LENGTH(64)" using assms(2) by simp_all
  have "unat (of_nat (?k * 2 ^ 32) :: u64) = ?k * 2 ^ 32" by (rule unat_of_nat_less[OF k(2)])
  then have nz: "(of_nat ?k * 2 ^ 32 :: u64) \<noteq> 0" using k(1) by (metis (no_types) of_nat_mult of_nat_numeral of_nat_power unat_0 mult_eq_0_iff power_not_zero zero_neq_numeral less_irrefl)
  define t' where "t' = t\<lparr>it_icm := (it_icm t)[i := None], it_log := UNMAP_ICM (?a - of_nat ?k * 2 ^ 32) # it_log t\<rparr>"
  have "mlx4_table_put t obj = Some t'" using assms(1,3) by (simp add: mlx4_table_put_def t'_def icm_unmap_shift)
  moreover have "?a \<in> mapped (it_log t')" using assms(4) nz by (simp add: t'_def)
  ultimately show ?thesis by (intro exI[of _ t']) (simp add: t'_def)
qed

definition ex_big_table :: mlx4_icm_table where
  "ex_big_table = \<lparr>it_virt = 0, it_num_icm = 0x4000, it_num_obj = 0x4000, it_obj_size = 0x40000,
     it_icm = (replicate 0x4000 None)[8192 := Some 1], it_log = [MAP_ICM 0x80000000]\<rparr>"

theorem icm_unmap_truncated_witness:
  "\<exists>t'. mlx4_table_put ex_big_table 8192 = Some t' \<and> 0x80000000 \<in> mapped (it_log t')"
proof -
  have a: "icm_map_addr (it_virt ex_big_table) 8192 = 0x80000000" by (simp add: icm_map_addr_def ex_big_table_def MLX4_TABLE_CHUNK_SIZE_def)
  have "icm_index ex_big_table 8192 = 8192" by (simp add: icm_index_def ex_big_table_def MLX4_TABLE_CHUNK_SIZE_def)
  moreover have "it_icm ex_big_table ! 8192 = Some 1" by (simp add: ex_big_table_def nth_list_update)
  moreover have "icm_map_addr (it_virt ex_big_table) 8192 \<in> mapped (it_log ex_big_table)" unfolding a by (simp add: ex_big_table_def)
  ultimately show ?thesis using icm_unmap_truncated[of ex_big_table 8192 8192] a by auto
qed

end
