(* ===== verification/Mlx4_Mr.thy ===== *)
theory Mlx4_Mr
  imports Mtt_Buddy Icm_Table
begin

text \<open>
  Memory regions of the ConnectX driver (\<open>hw/mlx4/kernel/bus/net/mr.c\<close>): translation-table
  ranges, region objects and fast memory regions.  This is where the identifier bitmap, the
  buddy allocator and the context-memory tables meet.  \<open>mr_env\<close> gives the outcome of
  everything outside: whether the device is a slave or barred, the commands, the mailbox
  and the context-memory allocations.  Entries in device memory are kept in host byte order.
  \<open>None\<close> is a crash (null dereference, access outside a table) or a loop that never ends.
\<close>

section \<open>Data\<close>

record mlx4_mr_table =
  mpt_bitmap :: mlx4_bitmap
  mtt_buddy :: mlx4_buddy
  mtt_table :: mlx4_icm_table
  dmpt_table :: mlx4_icm_table

record mlx4_mtt =
  mtt_first_seg :: u32
  mtt_order :: int
  mtt_page_shift :: u32

record mlx4_mr =
  mr_mtt :: mlx4_mtt
  mr_iova :: u64
  mr_size :: u64
  mr_key :: u32
  mr_pd :: u32
  mr_access :: u32
  mr_enabled :: bool

record mlx4_mpt_entry =
  mpt_flags :: u32
  mpt_key :: u32
  mpt_pd_flags :: u32
  mpt_start :: u64
  mpt_length :: u64
  mpt_lkey :: u32
  mpt_flags2 :: u8
  mpt_mtt_seg :: u64
  mpt_mtt_sz :: u32
  mpt_entity_size :: u32
  mpt_first_byte_offset :: u32

record mlx4_fmr =
  fmr_mr :: mlx4_mr
  fmr_mpt :: mlx4_mpt_entry
  fmr_mtts :: "u64 list"
  fmr_max_pages :: u32
  fmr_max_maps :: u32
  fmr_maps :: u32
  fmr_page_shift :: nat

record mlx4_caps =
  cap_num_mpts :: u32
  cap_mtts_per_seg :: u32
  cap_mtt_entry_sz :: u32
  cap_num_mtt_segs :: u32
  cap_reserved_mtts :: u32
  cap_reserved_mrws :: u32
  cap_fexch_qps :: u32

datatype res_type = RES_MPT | RES_MTT
datatype res_op = ICM_RESERVE | ICM_ALLOC | ICM_RESERVE_AND_ALLOC

text \<open>\<open>mr_mem\<close> is the outcome of the memory allocations of the initialisation.\<close>

record mr_mem =
  mm_bitmap :: bool
  mm_bits :: bool
  mm_num_free :: bool
  mm_kmalloc :: "nat \<Rightarrow> nat \<Rightarrow> u32 list option"

record mr_env =
  me_slave :: bool
  me_barred :: bool
  me_alloc_res :: "res_type \<Rightarrow> res_op \<Rightarrow> u64 \<Rightarrow> errno option \<times> u64"
  me_mtt :: icm_env
  me_dmpt :: icm_env
  me_mailbox :: "errno option"
  me_sw2hw :: "errno option"

section \<open>Translation-table ranges\<close>

definition mlx4_alloc_mtt_range ::
  "mr_env \<Rightarrow> mlx4_mr_table \<Rightarrow> nat \<Rightarrow> (u32 \<times> mlx4_mr_table) option" where
  "mlx4_alloc_mtt_range env t order =
     (if me_slave env
      then case me_alloc_res env RES_MTT ICM_RESERVE_AND_ALLOC (of_nat order) of
             (Some err, out) \<Rightarrow> Some (-1, t)
           | (None, out) \<Rightarrow> Some (ucast out, t)
      else let (seg, b) = mlx4_buddy_alloc (mtt_buddy t) order; t = t\<lparr>mtt_buddy := b\<rparr>
           in if seg = -1 then Some (-1, t)
              else case mlx4_table_get_range (me_mtt env) (mtt_table t) (unat seg) (unat seg + 2 ^ order - 1) of
                     None \<Rightarrow> None
                   | Some (None, tab) \<Rightarrow> Some (seg, t\<lparr>mtt_table := tab\<rparr>)
                   | Some (Some err, tab) \<Rightarrow>
                       map_option (\<lambda>b. (-1, t\<lparr>mtt_table := tab, mtt_buddy := b\<rparr>))
                         (mlx4_buddy_free (mtt_buddy t) seg order))"

text \<open>The loop that finds the order: \<open>i\<close> and \<open>npages\<close> are signed and \<open>i\<close> may be shifted out.\<close>

partial_function (option) mtt_order_loop :: "u32 \<Rightarrow> u32 \<Rightarrow> nat \<Rightarrow> nat option" where
  "mtt_order_loop i npages order =
     (if sint i < sint npages then mtt_order_loop (push_bit 1 i) npages (Suc order) else Some order)"

definition MLX4_ICM_PAGE_SHIFT :: u32 where
  "MLX4_ICM_PAGE_SHIFT = 12"

definition mlx4_mtt_init ::
  "mlx4_caps \<Rightarrow> mr_env \<Rightarrow> mlx4_mr_table \<Rightarrow> u32 \<Rightarrow> u32 \<Rightarrow> mlx4_mtt \<Rightarrow>
   (errno option \<times> mlx4_mtt \<times> mlx4_mr_table) option" where
  "mlx4_mtt_init caps env t npages page_shift mtt =
     (if npages = 0
      then Some (None, mtt\<lparr>mtt_order := -1, mtt_page_shift := MLX4_ICM_PAGE_SHIFT\<rparr>, t)
      else case mtt_order_loop (cap_mtts_per_seg caps) npages 0 of
             None \<Rightarrow> None
           | Some order \<Rightarrow>
               (case mlx4_alloc_mtt_range env t order of
                  None \<Rightarrow> None
                | Some (seg, t) \<Rightarrow>
                    Some (if seg = -1 then Some ENOMEM else None,
                          mtt\<lparr>mtt_page_shift := page_shift, mtt_order := int order, mtt_first_seg := seg\<rparr>, t)))"

definition mlx4_free_mtt_range :: "mr_env \<Rightarrow> mlx4_mr_table \<Rightarrow> u32 \<Rightarrow> nat \<Rightarrow> mlx4_mr_table option" where
  "mlx4_free_mtt_range env t first_seg order =
     (if me_slave env then Some t
      else case mlx4_buddy_free (mtt_buddy t) first_seg order of
             None \<Rightarrow> None
           | Some b \<Rightarrow>
               map_option (\<lambda>tab. t\<lparr>mtt_buddy := b, mtt_table := tab\<rparr>)
                 (mlx4_table_put_range (mtt_table t) (unat first_seg) (unat first_seg + 2 ^ order - 1)))"

definition mlx4_mtt_cleanup :: "mr_env \<Rightarrow> mlx4_mr_table \<Rightarrow> mlx4_mtt \<Rightarrow> mlx4_mr_table option" where
  "mlx4_mtt_cleanup env t mtt =
     (if mtt_order mtt < 0 then Some t
      else mlx4_free_mtt_range env t (mtt_first_seg mtt) (nat (mtt_order mtt)))"

text \<open>The two context-memory tables are initialised before; on an error the bitmap and the
  buddy are freed.  The identifier mask is all ones.\<close>

definition mlx4_init_mr_table ::
  "mlx4_caps \<Rightarrow> mr_mem \<Rightarrow> mr_env \<Rightarrow> mlx4_mr_table \<Rightarrow> (errno option \<times> mlx4_mr_table) option" where
  "mlx4_init_mr_table caps mem env t =
     (if me_slave env then Some (None, t)
      else if \<not> is_power_of_2 (cap_num_mpts caps) then Some (Some EINVAL, t)
      else case mlx4_bitmap_init_with_effective_max (mm_bitmap mem) (cap_num_mpts caps) (-1)
                  (cap_reserved_mrws caps) (cap_num_mpts caps - 2 * cap_fexch_qps caps) of
             Inl err \<Rightarrow> Some (Some err, t)
           | Inr bm \<Rightarrow>
               (case mlx4_buddy_init (mm_bits mem) (mm_num_free mem) (mm_kmalloc mem)
                       (nat (ilog2 (cap_num_mtt_segs caps))) of
                  None \<Rightarrow> Some (Some ENOMEM, t)
                | Some bd \<Rightarrow>
                    let t = t\<lparr>mpt_bitmap := bm, mtt_buddy := bd\<rparr>
                    in if cap_reserved_mtts caps = 0 then Some (None, t)
                       else map_option (\<lambda>(seg, t). (if seg = -1 then Some ENOMEM else None, t))
                              (mlx4_alloc_mtt_range env t (fls (cap_reserved_mtts caps - 1)))))"

definition mlx4_mtt_addr :: "mlx4_caps \<Rightarrow> mlx4_mtt \<Rightarrow> u64" where
  "mlx4_mtt_addr caps mtt = ucast (mtt_first_seg mtt) * ucast (cap_mtt_entry_sz caps)"

definition hw_index_to_key :: "u32 \<Rightarrow> u32" where
  "hw_index_to_key ind = drop_bit 24 ind OR push_bit 8 ind"

definition key_to_hw_index :: "u32 \<Rightarrow> u32" where
  "key_to_hw_index key = push_bit 24 key OR drop_bit 8 key"

section \<open>Memory regions\<close>

definition mlx4_mr_reserve :: "mr_env \<Rightarrow> mlx4_mr_table \<Rightarrow> u32 \<times> mlx4_mr_table" where
  "mlx4_mr_reserve env t =
     (if me_slave env
      then case me_alloc_res env RES_MPT ICM_RESERVE 0 of
             (Some err, out) \<Rightarrow> (-1, t)
           | (None, out) \<Rightarrow> (ucast out, t)
      else let (index, b) = mlx4_bitmap_alloc (mpt_bitmap t) in (index, t\<lparr>mpt_bitmap := b\<rparr>))"

definition mlx4_mr_release :: "mr_env \<Rightarrow> mlx4_mr_table \<Rightarrow> u32 \<Rightarrow> mlx4_mr_table" where
  "mlx4_mr_release env t index =
     (if me_slave env then t else t\<lparr>mpt_bitmap := mlx4_bitmap_free (mpt_bitmap t) index\<rparr>)"

definition mlx4_mr_alloc_icm :: "mr_env \<Rightarrow> mlx4_mr_table \<Rightarrow> u32 \<Rightarrow> errno option \<times> mlx4_mr_table" where
  "mlx4_mr_alloc_icm env t index =
     (if me_slave env then (fst (me_alloc_res env RES_MPT ICM_ALLOC (ucast index)), t)
      else let (err, tab) = mlx4_table_get (me_dmpt env) (dmpt_table t) index in (err, t\<lparr>dmpt_table := tab\<rparr>))"

definition mlx4_mr_free_icm :: "mr_env \<Rightarrow> mlx4_mr_table \<Rightarrow> u32 \<Rightarrow> mlx4_mr_table option" where
  "mlx4_mr_free_icm env t index =
     (if me_slave env then Some t
      else map_option (\<lambda>tab. t\<lparr>dmpt_table := tab\<rparr>) (mlx4_table_put (dmpt_table t) index))"

definition mlx4_mr_alloc ::
  "mlx4_caps \<Rightarrow> mr_env \<Rightarrow> mlx4_mr_table \<Rightarrow> u32 \<Rightarrow> u64 \<Rightarrow> u64 \<Rightarrow> u32 \<Rightarrow> u32 \<Rightarrow> u32 \<Rightarrow> mlx4_mr \<Rightarrow>
   (errno option \<times> mlx4_mr \<times> mlx4_mr_table) option" where
  "mlx4_mr_alloc caps env t pd iova sz access npages page_shift mr =
     (if me_barred env then Some (Some EFAULT, mr, t)
      else let (index, t) = mlx4_mr_reserve env t
           in if index = -1 then Some (Some ENOMEM, mr, t)
              else case mlx4_mtt_init caps env t npages page_shift (mr_mtt mr) of
                     None \<Rightarrow> None
                   | Some (Some err, mtt, t) \<Rightarrow> Some (Some err, mr\<lparr>mr_mtt := mtt\<rparr>, mlx4_mr_release env t index)
                   | Some (None, mtt, t) \<Rightarrow>
                       Some (None, mr\<lparr>mr_mtt := mtt, mr_iova := iova, mr_size := sz, mr_pd := pd,
                                     mr_access := access, mr_enabled := False,
                                     mr_key := hw_index_to_key index\<rparr>, t))"

definition mlx4_mr_alloc_reserved ::
  "mlx4_caps \<Rightarrow> mr_env \<Rightarrow> mlx4_mr_table \<Rightarrow> u32 \<Rightarrow> u32 \<Rightarrow> u64 \<Rightarrow> u64 \<Rightarrow> u32 \<Rightarrow> u32 \<Rightarrow> u32 \<Rightarrow> mlx4_mr \<Rightarrow>
   (errno option \<times> mlx4_mr \<times> mlx4_mr_table) option" where
  "mlx4_mr_alloc_reserved caps env t mridx pd iova sz access npages page_shift mr =
     (let mr = mr\<lparr>mr_iova := iova, mr_size := sz, mr_pd := pd, mr_access := access,
                  mr_enabled := False, mr_key := hw_index_to_key mridx\<rparr>
      in map_option (\<lambda>(err, mtt, t). (err, mr\<lparr>mr_mtt := mtt\<rparr>, t))
           (mlx4_mtt_init caps env t npages page_shift (mr_mtt mr)))"

definition mlx4_mr_free :: "mr_env \<Rightarrow> mlx4_mr_table \<Rightarrow> mlx4_mr \<Rightarrow> mlx4_mr_table option" where
  "mlx4_mr_free env t mr =
     (case mlx4_mtt_cleanup env t (mr_mtt mr) of
        None \<Rightarrow> None
      | Some t \<Rightarrow>
          let t = mlx4_mr_release env t (key_to_hw_index (mr_key mr))
          in mlx4_mr_free_icm env t (key_to_hw_index (mr_key mr)))"

definition mlx4_mr_free_reserved :: "mr_env \<Rightarrow> mlx4_mr_table \<Rightarrow> mlx4_mr \<Rightarrow> mlx4_mr_table option" where
  "mlx4_mr_free_reserved env t mr = mlx4_mtt_cleanup env t (mr_mtt mr)"

definition mlx4_mr_reserve_range ::
  "mlx4_mr_table \<Rightarrow> u32 \<Rightarrow> u32 \<Rightarrow> ((errno + u32) \<times> mlx4_mr_table) option" where
  "mlx4_mr_reserve_range t cnt align =
     map_option (\<lambda>(mridx, b). (if mridx = -1 then Inl ENOMEM else Inr mridx, t\<lparr>mpt_bitmap := b\<rparr>))
       (mlx4_bitmap_alloc_range (mpt_bitmap t) cnt align)"

definition mlx4_mr_release_range :: "mlx4_mr_table \<Rightarrow> u32 \<Rightarrow> u32 \<Rightarrow> mlx4_mr_table" where
  "mlx4_mr_release_range t base_mridx cnt =
     t\<lparr>mpt_bitmap := mlx4_bitmap_free_range (mpt_bitmap t) base_mridx cnt\<rparr>"

text \<open>The MPT flag words.\<close>

definition MLX4_MPT_FLAG_SW_OWNS :: u32 where "MLX4_MPT_FLAG_SW_OWNS = 0xF0000000"
definition MLX4_MPT_FLAG_FREE :: u32 where "MLX4_MPT_FLAG_FREE = 0x30000000"
definition MLX4_MPT_FLAG_MIO :: u32 where "MLX4_MPT_FLAG_MIO = 0x20000"
definition MLX4_MPT_FLAG_PHYSICAL :: u32 where "MLX4_MPT_FLAG_PHYSICAL = 0x200"
definition MLX4_MPT_FLAG_REGION :: u32 where "MLX4_MPT_FLAG_REGION = 0x100"
definition MLX4_MPT_PD_FLAG_FAST_REG :: u32 where "MLX4_MPT_PD_FLAG_FAST_REG = 0x8000000"
definition MLX4_MPT_PD_FLAG_RAE :: u32 where "MLX4_MPT_PD_FLAG_RAE = 0x10000000"
definition MLX4_MPT_PD_FLAG_EN_INV :: u32 where "MLX4_MPT_PD_FLAG_EN_INV = 0x3000000"

definition mpt_of_mr :: "mlx4_caps \<Rightarrow> mlx4_mr \<Rightarrow> mlx4_mpt_entry" where
  "mpt_of_mr caps mr =
     (let phys = mtt_order (mr_mtt mr) < 0;
          fast = 0 \<le> mtt_order (mr_mtt mr) \<and> mtt_page_shift (mr_mtt mr) = 0
      in \<lparr>mpt_flags = MLX4_MPT_FLAG_MIO OR MLX4_MPT_FLAG_REGION OR mr_access mr
             OR (if phys then MLX4_MPT_FLAG_PHYSICAL else 0)
             OR (if fast then MLX4_MPT_FLAG_FREE else MLX4_MPT_FLAG_SW_OWNS),
          mpt_key = key_to_hw_index (mr_key mr),
          mpt_pd_flags = mr_pd mr OR MLX4_MPT_PD_FLAG_EN_INV
             OR (if fast then MLX4_MPT_PD_FLAG_FAST_REG OR MLX4_MPT_PD_FLAG_RAE else 0),
          mpt_start = mr_iova mr, mpt_length = mr_size mr, mpt_lkey = 0, mpt_flags2 = 0,
          mpt_mtt_seg = (if phys then 0 else mlx4_mtt_addr caps (mr_mtt mr)),
          mpt_mtt_sz = (if fast then push_bit (nat (mtt_order (mr_mtt mr))) 1 * cap_mtts_per_seg caps else 0),
          mpt_entity_size = mtt_page_shift (mr_mtt mr), mpt_first_byte_offset = 0\<rparr>)"

text \<open>The result carries the entry handed to the \<open>SW2HW_MPT\<close> command, if it got that far.\<close>

definition mlx4_mr_enable ::
  "mlx4_caps \<Rightarrow> mr_env \<Rightarrow> mlx4_mr_table \<Rightarrow> mlx4_mr \<Rightarrow>
   errno option \<times> mlx4_mpt_entry option \<times> mlx4_mr \<times> mlx4_mr_table" where
  "mlx4_mr_enable caps env t mr =
     (if me_barred env then (Some EFAULT, None, mr, t)
      else case mlx4_mr_alloc_icm env t (key_to_hw_index (mr_key mr)) of
             (Some err, t) \<Rightarrow> (Some err, None, mr, t)
           | (None, t) \<Rightarrow>
               (case me_mailbox env of
                  Some err \<Rightarrow> (Some err, None, mr, t)
                | None \<Rightarrow>
                    (case me_sw2hw env of
                       Some err \<Rightarrow> (Some err, Some (mpt_of_mr caps mr), mr, t)
                     | None \<Rightarrow> (None, Some (mpt_of_mr caps mr), mr\<lparr>mr_enabled := True\<rparr>, t))))"

section \<open>Fast memory regions\<close>

definition MLX4_MTT_FLAG_PRESENT :: u64 where "MLX4_MTT_FLAG_PRESENT = 1"

text \<open>The status is the first byte of the big-endian flags word: its most significant byte.\<close>

definition mpt_set_status :: "u8 \<Rightarrow> mlx4_mpt_entry \<Rightarrow> mlx4_mpt_entry" where
  "mpt_set_status s mpt = mpt\<lparr>mpt_flags := (mpt_flags mpt AND 0x00FFFFFF) OR push_bit 24 (ucast s)\<rparr>"

definition mlx4_check_fmr :: "mlx4_fmr \<Rightarrow> u32 \<Rightarrow> u64 \<Rightarrow> errno option" where
  "mlx4_check_fmr fmr npages iova =
     (if sint (fmr_max_pages fmr) < sint npages then Some EINVAL
      else if iova AND scast (push_bit (fmr_page_shift fmr) 1 - 1 :: u32) \<noteq> 0 then Some EINVAL
      else if sint (fmr_max_maps fmr) \<le> sint (fmr_maps fmr) then Some EINVAL
      else None)"

text \<open>The stores to the translation entries.\<close>

definition fmr_write_mtts :: "u64 list \<Rightarrow> u64 list \<Rightarrow> nat \<Rightarrow> u64 list" where
  "fmr_write_mtts mtts page_list n =
     fold (\<lambda>i m. m[i := page_list ! i OR MLX4_MTT_FLAG_PRESENT]) [0..<n] mtts"

definition mlx4_map_phys_fmr ::
  "mlx4_caps \<Rightarrow> mlx4_fmr \<Rightarrow> u64 list \<Rightarrow> u32 \<Rightarrow> u64 \<Rightarrow> errno + mlx4_fmr" where
  "mlx4_map_phys_fmr caps fmr page_list npages iova =
     (case mlx4_check_fmr fmr npages iova of
        Some err \<Rightarrow> Inl err
      | None \<Rightarrow>
          let key = key_to_hw_index (mr_key (fmr_mr fmr)) + cap_num_mpts caps;
              mpt = mpt_set_status 0xF0 (fmr_mpt fmr);
              mpt = mpt\<lparr>mpt_key := key, mpt_lkey := key,
                        mpt_length := scast npages * push_bit (fmr_page_shift fmr) 1, mpt_start := iova\<rparr>
          in Inr (fmr\<lparr>fmr_maps := fmr_maps fmr + 1,
                      fmr_mr := (fmr_mr fmr)\<lparr>mr_key := hw_index_to_key key\<rparr>,
                      fmr_mtts := fmr_write_mtts (fmr_mtts fmr) page_list (int_count npages),
                      fmr_mpt := mpt_set_status 0 mpt\<rparr>))"

definition mlx4_map_phys_fmr_fbo ::
  "mlx4_caps \<Rightarrow> mlx4_fmr \<Rightarrow> u64 list \<Rightarrow> u32 \<Rightarrow> u64 \<Rightarrow> u32 \<Rightarrow> u32 \<Rightarrow> bool \<Rightarrow> errno + mlx4_fmr" where
  "mlx4_map_phys_fmr_fbo caps fmr page_list npages iova fbo len same_key =
     (case mlx4_check_fmr fmr npages iova of
        Some err \<Rightarrow> Inl err
      | None \<Rightarrow>
          let key = key_to_hw_index (mr_key (fmr_mr fmr));
              key = (if \<not> same_key then key + cap_num_mpts caps else key);
              mpt = mpt_set_status 0xF0 (fmr_mpt fmr);
              mpt = mpt\<lparr>mpt_key := key, mpt_lkey := key, mpt_length := ucast len, mpt_start := iova,
                        mpt_first_byte_offset := fbo AND 0x001fffff,
                        mpt_flags2 := (if fbo \<noteq> 0 then 0x80 else 0)\<rparr>
          in Inr (fmr\<lparr>fmr_maps := fmr_maps fmr + 1,
                      fmr_mr := (fmr_mr fmr)\<lparr>mr_key := hw_index_to_key key\<rparr>,
                      fmr_mtts := fmr_write_mtts (fmr_mtts fmr) page_list (int_count npages),
                      fmr_mpt := mpt_set_status 0 mpt\<rparr>))"

definition mlx4_fmr_unmap :: "mlx4_caps \<Rightarrow> mlx4_fmr \<Rightarrow> mlx4_fmr" where
  "mlx4_fmr_unmap caps fmr =
     (if fmr_maps fmr = 0 then fmr
      else let key = key_to_hw_index (mr_key (fmr_mr fmr)) AND (cap_num_mpts caps - 1)
           in fmr\<lparr>fmr_mr := (fmr_mr fmr)\<lparr>mr_key := hw_index_to_key key\<rparr>, fmr_maps := 0,
                  fmr_mpt := mpt_set_status 0xF0 (fmr_mpt fmr)\<rparr>)"

definition mlx4_fmr_free :: "mr_env \<Rightarrow> mlx4_mr_table \<Rightarrow> mlx4_fmr \<Rightarrow> (errno + (mlx4_fmr \<times> mlx4_mr_table)) option" where
  "mlx4_fmr_free env t fmr =
     (if fmr_maps fmr \<noteq> 0 then Some (Inl EBUSY)
      else let mr = (fmr_mr fmr)\<lparr>mr_enabled := False\<rparr>
           in map_option (\<lambda>t. Inr (fmr\<lparr>fmr_mr := mr\<rparr>, t)) (mlx4_mr_free env t mr))"

definition mlx4_fmr_free_reserved ::
  "mr_env \<Rightarrow> mlx4_mr_table \<Rightarrow> mlx4_fmr \<Rightarrow> (errno + (mlx4_fmr \<times> mlx4_mr_table)) option" where
  "mlx4_fmr_free_reserved env t fmr =
     (if fmr_maps fmr \<noteq> 0 then Some (Inl EBUSY)
      else let mr = (fmr_mr fmr)\<lparr>mr_enabled := False\<rparr>
           in map_option (\<lambda>t. Inr (fmr\<lparr>fmr_mr := mr\<rparr>, t)) (mlx4_mr_free_reserved env t mr))"

section \<open>Chunks of a run\<close>

definition mtt_chunks :: "nat \<Rightarrow> block \<Rightarrow> nat set" where
  "mtt_chunks inc b = (\<lambda>u. u div inc) ` units b"

definition refs :: "nat \<Rightarrow> block set \<Rightarrow> nat \<Rightarrow> nat" where
  "refs inc L c = card {b \<in> L. c \<in> mtt_chunks inc b}"

definition icm_count :: "u32 option \<Rightarrow> nat" where
  "icm_count x = (case x of None \<Rightarrow> 0 | Some c \<Rightarrow> unat c)"

lemma run_chunks:
  assumes inc: "icm_inc t = 2 ^ j" and v: "visits t (i * 2 ^ k) (i * 2 ^ k + 2 ^ k - 1) n"
    and e: "i * 2 ^ k + 2 ^ k - 1 < i * 2 ^ k + n * icm_inc t"
  shows "{i * 2 ^ k div icm_inc t..<i * 2 ^ k div icm_inc t + n} = mtt_chunks (icm_inc t) (k, i)"
proof -
  let ?s = "i * 2 ^ k" and ?inc = "icm_inc t" let ?q = "?s div ?inc"
  have p: "0 < ?inc" "(0::nat) < 2 ^ k" by (simp_all add: inc)
  have U: "units (k, i) = {?s..<?s + 2 ^ k}" by (simp add: units_def distrib_right add.commute)
  have fwd: "u div ?inc \<in> {?q..<?q + n}" if u: "u \<in> units (k, i)" for u
  proof -
    have b: "?s \<le> u" "u < ?s + 2 ^ k" using u U by auto
    have lo: "?q \<le> u div ?inc" using b(1) by (rule div_le_mono)
    have "u div ?inc < ?q + n"
    proof (cases "j \<le> k")
      case True
      then have "?inc dvd ?s" by (simp add: inc le_imp_power_dvd)
      then have s: "?s = ?q * ?inc" by simp
      have "u < ?s + n * ?inc" using b(2) e by linarith
      then have "u < (?q + n) * ?inc" using s by (simp add: distrib_right)
      then show ?thesis by (rule less_mult_imp_div_less)
    next
      case False
      then obtain d where d: "j = k + d" by (metis le_iff_add nat_le_linear)
      have "u div 2 ^ k = i" using u by (simp add: mem_units)
      then have "u div ?inc = i div 2 ^ d" by (simp add: inc d div_pow_add)
      moreover have "?q = i div 2 ^ d" by (simp add: inc d div_pow_add)
      moreover have "0 < n"
      proof (rule ccontr)
        assume "\<not> 0 < n"
        then have "i * 2 ^ k + 2 ^ k - 1 < i * 2 ^ k" using e by simp
        then show False using p(2) by linarith
      qed
      ultimately show ?thesis by simp
    qed
    then show ?thesis using lo by simp
  qed
  have bwd: "c \<in> mtt_chunks ?inc (k, i)" if c: "c \<in> {?q..<?q + n}" for c
  proof -
    obtain m where m: "c = ?q + m" "m < n" using c by (metis atLeastLessThan_iff le_iff_add nat_add_left_cancel_less)
    have "?s + m * ?inc \<le> ?s + 2 ^ k - 1" using v m(2) by (simp add: visits_def)
    then have "?s + m * ?inc \<in> units (k, i)" unfolding U using p(2) by (simp only: atLeastLessThan_iff) linarith
    moreover have "(?s + m * ?inc) div ?inc = c" using p(1) m(1) by simp
    ultimately show ?thesis unfolding mtt_chunks_def by (metis imageI)
  qed
  show ?thesis using fwd bwd by (auto simp: mtt_chunks_def)
qed


lemma finite_live: "binv M U F L \<Longrightarrow> finite L" and card_live: "binv M U F L \<Longrightarrow> card L \<le> U"
proof -
  assume I: "binv M U F L"
  let ?f = "\<lambda>b :: block. snd b * 2 ^ fst b"
  have first: "?f b \<in> units b" for b :: block by (simp add: units_def)
  have "?f b < U" if b: "b \<in> L" for b
  proof -
    obtain k i where ki: "b = (k, i)" by fastforce
    then have "(i + 1) * 2 ^ k \<le> U" using I b tiles_bound[of U "F \<union> L" k i] by (auto simp: binv_def)
    then show ?thesis using units_below[of "?f b" k i U] first[of b] ki by simp
  qed
  then have sub: "?f ` L \<subseteq> {..<U}" by auto
  have inj: "inj_on ?f L"
  proof (rule inj_onI, rule ccontr)
    fix b b' assume "b \<in> L" "b' \<in> L" "?f b = ?f b'" "b \<noteq> b'"
    then show False using binv_live_disjoint[OF I, of b b'] first[of b] first[of b'] by auto
  qed
  show "finite L" using inj sub finite_imageD finite_subset by blast
  show "card L \<le> U" using card_mono[OF _ sub] card_image[OF inj] by simp
qed

lemma refs_insert:
  assumes "finite L" "b \<notin> L"
  shows "refs inc (insert b L) c = (if c \<in> mtt_chunks inc b then 1 else 0) + refs inc L c"
proof -
  have "{x \<in> insert b L. c \<in> mtt_chunks inc x} =
      (if c \<in> mtt_chunks inc b then insert b {x \<in> L. c \<in> mtt_chunks inc x} else {x \<in> L. c \<in> mtt_chunks inc x})"
    by auto
  then show ?thesis using assms by (simp add: refs_def)
qed

lemma refs_le: "finite L \<Longrightarrow> refs inc L c \<le> card L"
  unfolding refs_def by (rule card_mono) auto

section \<open>Buddy and context memory together\<close>

text \<open>Every chunk's count is its permanent references plus one for each live run that touches it.\<close>

definition mtt_inv :: "(nat \<Rightarrow> nat) \<Rightarrow> mlx4_mr_table \<Rightarrow> block set \<Rightarrow> bool" where
  "mtt_inv base t L \<longleftrightarrow> mlx4_wf (mtt_buddy t) L \<and> icm_ok (mtt_table t) \<and>
     unat (it_num_obj (mtt_table t)) = 2 ^ mb_max_order (mtt_buddy t) \<and> (\<exists>j. icm_inc (mtt_table t) = 2 ^ j) \<and>
     (\<forall>c. base c \<le> 1) \<and>
     (\<forall>c < length (it_icm (mtt_table t)).
        icm_count (it_icm (mtt_table t) ! c) = base c + refs (icm_inc (mtt_table t)) L c)"

lemma mtt_inv_live:
  assumes "mtt_inv base t L" "(k, i) \<in> L"
  defines "M \<equiv> mb_max_order (mtt_buddy t)"
  shows "i * 2 ^ k + 2 ^ k \<le> 2 ^ M" "i * 2 ^ k + 2 ^ k - 1 < unat (it_num_obj (mtt_table t))" "finite L" "card L \<le> 2 ^ 30"
proof -
  have I: "binv M (2 ^ M) (bfree M (mb_bits (mtt_buddy t))) L" and M: "M \<le> 30"
    using assms(1) by (auto simp: mtt_inv_def mlx4_wf_def bwf_def bits_ok_def M_def)
  have "(i + 1) * 2 ^ k \<le> 2 ^ M"
    using I assms(2) tiles_bound[of "2 ^ M" "bfree M (mb_bits (mtt_buddy t)) \<union> L" k i] by (auto simp: binv_def)
  then show b: "i * 2 ^ k + 2 ^ k \<le> 2 ^ M" by (simp add: distrib_right add.commute)
  have "(0::nat) < 2 ^ k" by simp
  then have "i * 2 ^ k + 2 ^ k - 1 < 2 ^ M" using b by linarith
  then show "i * 2 ^ k + 2 ^ k - 1 < unat (it_num_obj (mtt_table t))" using assms(1) by (simp add: mtt_inv_def M_def)
  show "finite L" by (rule finite_live[OF I])
  have "card L \<le> 2 ^ M" by (rule card_live[OF I])
  also have "(2::nat) ^ M \<le> 2 ^ 30" using M by (intro power_increasing) auto
  finally show "card L \<le> 2 ^ 30" .
qed

lemma bump_count:
  assumes "icm_count x < 2 ^ 31"
  shows "icm_count (bump x) = icm_count x + 1"
proof (cases x)
  case (Some c)
  then show ?thesis using assms by (simp add: icm_count_def bump_def unat_add_less)
qed (simp add: icm_count_def bump_def)

text \<open>Taking the references of a fresh live run.\<close>

lemma mtt_inv_take:
  assumes b: "mlx4_wf bd (insert (k, i) L)" "(k, i) \<notin> L" "mb_max_order bd = mb_max_order (mtt_buddy t)"
    and I: "mtt_inv base t L" and bp: "bumped (mtt_chunks (icm_inc (mtt_table t)) (k, i)) (mtt_table t) tab"
  shows "mtt_inv base (t\<lparr>mtt_buddy := bd, mtt_table := tab\<rparr>) (insert (k, i) L)"
proof -
  let ?tab = "mtt_table t" and ?inc = "icm_inc (mtt_table t)"
  have fin: "finite L" "card L \<le> 2 ^ 30"
  proof -
    have J: "binv (mb_max_order bd) (2 ^ mb_max_order bd) (bfree (mb_max_order bd) (mb_bits bd)) (insert (k, i) L)"
      and M: "mb_max_order bd \<le> 30" using b(1) by (auto simp: mlx4_wf_def bwf_def bits_ok_def)
    show "finite L" using finite_live[OF J] by simp
    have "card L \<le> card (insert (k, i) L)" using \<open>finite L\<close> by (intro card_mono) auto
    also have "\<dots> \<le> 2 ^ mb_max_order bd" by (rule card_live[OF J])
    also have "(2::nat) ^ mb_max_order bd \<le> 2 ^ 30" using M by (intro power_increasing) auto
    finally show "card L \<le> 2 ^ 30" .
  qed
  have cnt: "icm_count (it_icm tab ! c) = base c + refs ?inc (insert (k, i) L) c" if c: "c < length (it_icm ?tab)" for c
  proof -
    have old: "icm_count (it_icm ?tab ! c) = base c + refs ?inc L c" and b1: "base c \<le> 1"
      using I c by (auto simp: mtt_inv_def)
    have "icm_count (it_icm ?tab ! c) < 2 ^ 31" using old b1 refs_le[OF fin(1), of ?inc c] fin(2) by simp
    then have "icm_count (bump (it_icm ?tab ! c)) = icm_count (it_icm ?tab ! c) + 1" by (rule bump_count)
    then show ?thesis using bp c old refs_insert[OF fin(1) b(2), of ?inc c] by (auto simp: bumped_def)
  qed
  have "it_icm tab ! c \<noteq> Some 0" if c: "c < length (it_icm ?tab)" for c
  proof (cases "c \<in> mtt_chunks ?inc (k, i)")
    case True
    then have "icm_count (it_icm tab ! c) \<noteq> 0" using cnt[OF c] refs_insert[OF fin(1) b(2), of ?inc c] by simp
    then show ?thesis by (auto simp: icm_count_def)
  next
    case False
    then show ?thesis using bp c I by (auto simp: bumped_def mtt_inv_def icm_ok_def)
  qed
  then have ok: "icm_ok tab"
    using bp bumped_shape(1)[OF bp] I by (simp add: icm_ok_def mtt_inv_def bumped_def)
  show ?thesis
    using I b(1,3) ok cnt bumped_shape(2)[OF bp] bp by (auto simp: mtt_inv_def bumped_def)
qed


text \<open>Undoing a reference, to see a table that holds references as one to which they were added.\<close>

definition debump :: "u32 option \<Rightarrow> u32 option" where
  "debump x = (case x of None \<Rightarrow> None | Some c \<Rightarrow> if c = 1 then None else Some (c - 1))"

lemma bump_debump: "x \<noteq> None \<Longrightarrow> x \<noteq> Some 0 \<Longrightarrow> bump (debump x) = x"
  by (auto simp: bump_def debump_def)

lemma debump_nonzero: "debump x \<noteq> Some 0"
  by (auto simp: debump_def split: option.splits)

lemma debump_count: "x \<noteq> Some 0 \<Longrightarrow> icm_count (debump x) = icm_count x - 1"
proof (cases x)
  case (Some c)
  moreover assume "x \<noteq> Some 0"
  ultimately have "1 \<le> c" by (simp add: word_le_nat_alt Suc_le_eq unat_gt_0)
  then show ?thesis using Some by (auto simp: debump_def icm_count_def unat_sub word_le_nat_alt)
qed (simp add: debump_def icm_count_def)

lemma mapped_maps: "mapped (map MAP_ICM as) = set as"
  by (induction as) auto

lemma unbump:
  assumes ok: "icm_ok u" and S: "\<And>c. c \<in> S \<Longrightarrow> c < length (it_icm u) \<Longrightarrow> it_icm u ! c \<noteq> None"
  obtains t where "bumped S t u" "icm_ok t" "it_num_obj t = it_num_obj u" "icm_inc t = icm_inc u"
    "\<And>c. c < length (it_icm u) \<Longrightarrow> icm_count (it_icm t ! c) = icm_count (it_icm u ! c) - (if c \<in> S then 1 else 0)"
    "length (it_icm t) = length (it_icm u)"
proof -
  let ?n = "length (it_icm u)"
  define ic where "ic = map (\<lambda>c. if c \<in> S then debump (it_icm u ! c) else it_icm u ! c) [0..<?n]"
  define log where "log = map MAP_ICM (map (icm_map_addr (it_virt u)) (filter (\<lambda>i. ic ! i \<noteq> None) [0..<?n]))"
  define t where "t = u\<lparr>it_icm := ic, it_log := log\<rparr>"
  have ic: "length ic = ?n" "\<And>c. c < ?n \<Longrightarrow> ic ! c = (if c \<in> S then debump (it_icm u ! c) else it_icm u ! c)"
    by (simp_all add: ic_def)
  have nz: "it_icm u ! c \<noteq> Some 0" if "c < ?n" for c using ok that by (simp add: icm_ok_def)
  have b: "bumped S t u"
    using ok ic S nz bump_debump by (auto simp: bumped_def t_def icm_ok_def)
  have sh: "icm_shape t" using bumped_shape(1)[OF b] ok by (simp add: icm_ok_def)
  have "mapped log = icm_map_addr (it_virt u) ` {i. i < ?n \<and> ic ! i \<noteq> None}"
    unfolding log_def mapped_maps by auto
  then have "mapped (it_log t) = icm_addrs t" by (simp add: t_def icm_addrs_def ic(1))
  then have okt: "icm_ok t" using sh nz debump_nonzero by (auto simp: icm_ok_def t_def ic)
  have "icm_count (it_icm t ! c) = icm_count (it_icm u ! c) - (if c \<in> S then 1 else 0)" if "c < ?n" for c
    using ic(2)[OF that] nz[OF that] debump_count by (simp add: t_def)
  then show ?thesis using that[OF b okt] b ic(1) bumped_shape(2)[OF b] by (simp add: bumped_def t_def)
qed

lemma visit_count:
  assumes "0 < (inc::nat)"
  shows "\<exists>n. (\<forall>m < n. s + m * inc \<le> e) \<and> e < s + n * inc"
proof (cases "s \<le> e")
  case True
  let ?n = "Suc ((e - s) div inc)"
  have "s + m * inc \<le> e" if "m < ?n" for m
  proof -
    have "m * inc \<le> (e - s) div inc * inc" using that by simp
    also have "\<dots> \<le> e - s" by simp
    finally show ?thesis using True by linarith
  qed
  moreover have "e < s + ?n * inc"
  proof -
    have "e - s < ?n * inc" using assms by (simp add: dividend_less_div_times)
    then show ?thesis using True by linarith
  qed
  ultimately show ?thesis by blast
qed (auto intro: exI[of _ 0])

lemma put_run_outcome:
  assumes I: "mtt_inv base t L" and b: "(k, i) \<in> L"
  obtains tab where "mlx4_table_put_range (mtt_table t) (i * 2 ^ k) (i * 2 ^ k + 2 ^ k - 1) = Some tab" "icm_ok tab"
    "it_num_obj tab = it_num_obj (mtt_table t)" "icm_inc tab = icm_inc (mtt_table t)"
    "length (it_icm tab) = length (it_icm (mtt_table t))"
    "\<And>c. c < length (it_icm tab) \<Longrightarrow>
       icm_count (it_icm tab ! c) = base c + refs (icm_inc (mtt_table t)) (L - {(k, i)}) c"
proof -
  let ?u = "mtt_table t" let ?inc = "icm_inc ?u" let ?S = "mtt_chunks ?inc (k, i)"
  let ?s = "i * 2 ^ k" let ?e = "?s + 2 ^ k - 1"
  have ok: "icm_ok ?u" and cnt: "\<And>c. c < length (it_icm ?u) \<Longrightarrow> icm_count (it_icm ?u ! c) = base c + refs ?inc L c"
    using I by (auto simp: mtt_inv_def)
  note live = mtt_inv_live[OF I b]
  have L: "L = insert (k, i) (L - {(k, i)})" using b by blast
  have rf: "refs ?inc L c = (if c \<in> ?S then 1 else 0) + refs ?inc (L - {(k, i)}) c" for c
    using refs_insert[of "L - {(k, i)}" "(k, i)" ?inc c] L live(3) by (metis Diff_iff finite_Diff insertI1)
  have "it_icm ?u ! c \<noteq> None" if "c \<in> ?S" "c < length (it_icm ?u)" for c
    using cnt[OF that(2)] rf[of c] that(1) by (auto simp: icm_count_def split: option.splits)
  from unbump[OF ok this] obtain t0 where
    t0: "bumped ?S t0 ?u" "icm_ok t0" "it_num_obj t0 = it_num_obj ?u" "icm_inc t0 = ?inc" "length (it_icm t0) = length (it_icm ?u)"
      "\<And>c. c < length (it_icm ?u) \<Longrightarrow> icm_count (it_icm t0 ! c) = icm_count (it_icm ?u ! c) - (if c \<in> ?S then 1 else 0)"
    by metis
  have inc: "0 < ?inc" and e: "?e < unat (it_num_obj t0)" using ok live(2) t0(3) by (simp_all add: icm_ok_def icm_shape_def)
  obtain n where n: "\<forall>m < n. ?s + m * ?inc \<le> ?e" "?e < ?s + n * ?inc" using visit_count[OF inc] by blast
  have v: "visits t0 ?s ?e n" using n(1) t0(4) by (simp add: visits_def)
  obtain j where j: "?inc = 2 ^ j" using I by (auto simp: mtt_inv_def)
  have "{?s div ?inc..<?s div ?inc + n} = ?S"
    using run_chunks[of t0 j i k n] t0(4) j v n(2) by simp
  then have "bumped {?s div icm_inc t0 + 0..<?s div icm_inc t0 + n} t0 ?u" using t0(1,4) by simp
  from put_loop_outcome[OF t0(2) e le0 this v] n(2) t0(4) obtain tab where
    tab: "icm_put_loop ?u ?inc ?s ?e = Some tab" "bumped {} t0 tab" by auto
  note same = bumped_empty[OF tab(2) t0(2)]
  show thesis
  proof (rule that)
    show "mlx4_table_put_range ?u ?s ?e = Some tab" using tab(1) by (simp add: mlx4_table_put_range_def icm_inc_def)
    show "icm_ok tab" by (rule same(2))
    show "it_num_obj tab = it_num_obj ?u" "icm_inc tab = ?inc" "length (it_icm tab) = length (it_icm ?u)"
      using tab(2) t0(3,4,5) bumped_shape(2)[OF tab(2)] by (simp_all add: bumped_def)
    show "icm_count (it_icm tab ! c) = base c + refs ?inc (L - {(k, i)}) c" if "c < length (it_icm tab)" for c
    proof -
      have "c < length (it_icm ?u)" using that same(1) t0(5) by simp
      then show ?thesis using t0(6) cnt rf[of c] same(1) by simp
    qed
  qed
qed

definition same_geom :: "mlx4_icm_table \<Rightarrow> mlx4_icm_table \<Rightarrow> bool" where
  "same_geom a b \<longleftrightarrow> length (it_icm a) = length (it_icm b) \<and> icm_inc a = icm_inc b"

lemma free_mtt_outcome:
  assumes I: "mtt_inv base t L" and b: "(k, i) \<in> L" and seg: "unat seg = i * 2 ^ k" and env: "\<not> me_slave env"
  obtains t' where "mlx4_free_mtt_range env t seg k = Some t'" "mtt_inv base t' (L - {(k, i)})"
    "mb_max_order (mtt_buddy t') = mb_max_order (mtt_buddy t)" "mpt_bitmap t' = mpt_bitmap t" "dmpt_table t' = dmpt_table t"
    "same_geom (mtt_table t') (mtt_table t)"
proof -
  have w: "mlx4_wf (mtt_buddy t) L" using I by (simp add: mtt_inv_def)
  from mlx4_segs.fr_ok[OF w b seg] obtain bd where
    bd: "mlx4_buddy_free (mtt_buddy t) seg k = Some bd" "mb_max_order bd = mb_max_order (mtt_buddy t)" "mlx4_wf bd (L - {(k, i)})"
    by blast
  from put_run_outcome[OF I b] obtain tab where
    tab: "mlx4_table_put_range (mtt_table t) (i * 2 ^ k) (i * 2 ^ k + 2 ^ k - 1) = Some tab" "icm_ok tab"
      "it_num_obj tab = it_num_obj (mtt_table t)" "icm_inc tab = icm_inc (mtt_table t)"
      "length (it_icm tab) = length (it_icm (mtt_table t))"
      "\<And>c. c < length (it_icm tab) \<Longrightarrow> icm_count (it_icm tab ! c) = base c + refs (icm_inc (mtt_table t)) (L - {(k, i)}) c"
    by metis
  let ?t = "t\<lparr>mtt_buddy := bd, mtt_table := tab\<rparr>"
  have "mlx4_free_mtt_range env t seg k = Some ?t"
    using env bd(1) tab(1) seg by (simp add: mlx4_free_mtt_range_def)
  moreover have "mtt_inv base ?t (L - {(k, i)})" using I bd(2,3) tab by (simp add: mtt_inv_def)
  ultimately show thesis using that[of ?t] bd(2) tab(4,5) by (simp add: same_geom_def)
qed

lemma alloc_mtt_outcome:
  assumes I: "mtt_inv base t L" and env: "\<not> me_slave env"
  obtains (fail) t' where "mlx4_alloc_mtt_range env t k = Some (-1, t')" "mtt_inv base t' L"
      "mb_max_order (mtt_buddy t') = mb_max_order (mtt_buddy t)" "mpt_bitmap t' = mpt_bitmap t" "dmpt_table t' = dmpt_table t"
      "it_icm (mtt_table t') = it_icm (mtt_table t)" "same_geom (mtt_table t') (mtt_table t)"
  | (ok) i seg t' where "mlx4_alloc_mtt_range env t k = Some (seg, t')" "seg \<noteq> -1" "unat seg = i * 2 ^ k" "(k, i) \<notin> L"
      "mtt_inv base t' (insert (k, i) L)"
      "mb_max_order (mtt_buddy t') = mb_max_order (mtt_buddy t)" "mpt_bitmap t' = mpt_bitmap t" "dmpt_table t' = dmpt_table t"
      "same_geom (mtt_table t') (mtt_table t)"
proof -
  let ?tab = "mtt_table t" let ?inc = "icm_inc ?tab"
  have w: "mlx4_wf (mtt_buddy t) L" and okt: "icm_ok ?tab" using I by (simp_all add: mtt_inv_def)
  obtain seg bd where al: "mlx4_buddy_alloc (mtt_buddy t) k = (seg, bd)" by fastforce
  show thesis
  proof (cases "seg = -1")
    case True
    then have "bd = mtt_buddy t" using mlx4_segs.al_fail[OF w] al by blast
    then have "mlx4_alloc_mtt_range env t k = Some (-1, t)" using env al True by (simp add: mlx4_alloc_mtt_range_def)
    then show thesis using fail I by (simp add: same_geom_def)
  next
    case False
    from mlx4_segs.al_ok[OF w al False] obtain i where
      i: "mb_max_order bd = mb_max_order (mtt_buddy t)" "unat seg = i * 2 ^ k" "(k, i) \<notin> L" "mlx4_wf bd (insert (k, i) L)"
      by blast
    let ?s = "i * 2 ^ k" let ?e = "?s + 2 ^ k - 1"
    have e: "?e < unat (it_num_obj ?tab)"
    proof -
      have J: "binv (mb_max_order bd) (2 ^ mb_max_order bd) (bfree (mb_max_order bd) (mb_bits bd)) (insert (k, i) L)"
        using i(4) by (simp add: mlx4_wf_def bwf_def)
      have "(i + 1) * 2 ^ k \<le> 2 ^ mb_max_order bd"
        using J tiles_bound[of "2 ^ mb_max_order bd" _ k i] by (auto simp: binv_def)
      then have "?s + 2 ^ k \<le> unat (it_num_obj ?tab)" using I i(1) by (simp add: mtt_inv_def distrib_right add.commute)
      moreover have "(0::nat) < 2 ^ k" by simp
      ultimately show ?thesis by linarith
    qed
    have unf: "mlx4_alloc_mtt_range env t k = (case mlx4_table_get_range (me_mtt env) ?tab ?s ?e of
         None \<Rightarrow> None
       | Some (None, tab) \<Rightarrow> Some (seg, t\<lparr>mtt_buddy := bd, mtt_table := tab\<rparr>)
       | Some (Some err, tab) \<Rightarrow> map_option (\<lambda>b. (-1, t\<lparr>mtt_table := tab, mtt_buddy := b\<rparr>)) (mlx4_buddy_free bd seg k))"
      using env al False i(2) by (simp add: mlx4_alloc_mtt_range_def cong: option.case_cong)
    consider (none) err tab where "mlx4_table_get_range (me_mtt env) ?tab ?s ?e = Some (Some err, tab)" "bumped {} ?tab tab"
      | (taken) n tab where "mlx4_table_get_range (me_mtt env) ?tab ?s ?e = Some (None, tab)"
        "bumped {?s div ?inc..<?s div ?inc + n} ?tab tab" "visits ?tab ?s ?e n" "?e < ?s + n * ?inc"
      by (rule get_range_outcome[OF okt e, of "me_mtt env" ?s])
    then show thesis
    proof cases
      case fail: (none err tab)
      from mlx4_segs.fr_ok[OF i(4) insertI1 i(2)] obtain bd' where
        f: "mlx4_buddy_free bd seg k = Some bd'" "mb_max_order bd' = mb_max_order bd" "mlx4_wf bd' L" using i(3) by auto
      note same = bumped_empty[OF fail(2) okt]
      let ?t = "t\<lparr>mtt_table := tab, mtt_buddy := bd'\<rparr>"
      have "mlx4_alloc_mtt_range env t k = Some (-1, ?t)" unfolding unf fail(1) by (simp add: f(1))
      moreover have "mtt_inv base ?t L"
        using I f i(1) same bumped_shape(2)[OF fail(2)] fail(2) by (simp add: mtt_inv_def bumped_def)
      ultimately show thesis using that(1)[of ?t] f(2) i(1) same(1) bumped_shape(2)[OF fail(2)] by (simp add: same_geom_def)
    next
      case (taken n tab)
      obtain j where j: "?inc = 2 ^ j" using I by (auto simp: mtt_inv_def)
      have bp: "bumped (mtt_chunks ?inc (k, i)) ?tab tab" using taken(2) run_chunks[OF j taken(3,4)] by simp
      let ?t = "t\<lparr>mtt_buddy := bd, mtt_table := tab\<rparr>"
      have "mtt_inv base ?t (insert (k, i) L)" by (rule mtt_inv_take[OF i(4,3,1) I bp])
      moreover have "mlx4_alloc_mtt_range env t k = Some (seg, ?t)" unfolding unf taken(1) by simp
      ultimately show thesis using that(2)[of seg ?t i] False i bp bumped_shape(2)[OF bp] by (simp add: bumped_def same_geom_def)
    qed
  qed
qed

section \<open>Histories of translation-table ranges\<close>

inductive mtt_trace :: "mlx4_mr_table \<Rightarrow> mlx4_mr_table \<Rightarrow> (nat \<times> u32) list \<Rightarrow> bool" for t0 where
  mtt_start: "mtt_trace t0 t0 []"
| mtt_alloc: "mtt_trace t0 t hs \<Longrightarrow> \<not> me_slave env \<Longrightarrow> mlx4_alloc_mtt_range env t k = Some (seg, t') \<Longrightarrow> seg \<noteq> -1 \<Longrightarrow>
    mtt_trace t0 t' ((k, seg) # hs)"
| mtt_fail: "mtt_trace t0 t hs \<Longrightarrow> \<not> me_slave env \<Longrightarrow> mlx4_alloc_mtt_range env t k = Some (-1, t') \<Longrightarrow> mtt_trace t0 t' hs"
| mtt_free: "mtt_trace t0 t hs \<Longrightarrow> \<not> me_slave env \<Longrightarrow> (k, seg) \<in> set hs \<Longrightarrow> mlx4_free_mtt_range env t seg k = Some t' \<Longrightarrow>
    mtt_trace t0 t' (remove1 (k, seg) hs)"

text \<open>\<open>L\<close> are the runs taken before the history starts.\<close>

definition held :: "block set \<Rightarrow> (nat \<times> u32) list \<Rightarrow> bool" where
  "held L hs \<longleftrightarrow> distinct (map seg_block hs) \<and> (\<forall>h\<in>set hs. seg_aligned h \<and> seg_block h \<notin> L)"

lemma held_remove:
  assumes "held L hs" "h \<in> set hs"
  shows "held L (remove1 h hs)" "L \<union> seg_block ` set (remove1 h hs) = L \<union> seg_block ` set hs - {seg_block h}"
proof -
  have d: "distinct hs" "inj_on seg_block (set hs)" using assms(1) by (simp_all add: held_def distinct_map)
  show "held L (remove1 h hs)"
    using assms d by (auto simp: held_def distinct_map inj_on_def distinct_remove1 dest: notin_set_remove1)
  have "seg_block ` set (remove1 h hs) = seg_block ` set hs - {seg_block h}"
    using inj_on_image_set_diff[OF d(2), of "set hs" "{h}"] d(1) assms(2) by simp
  then show "L \<union> seg_block ` set (remove1 h hs) = L \<union> seg_block ` set hs - {seg_block h}"
    using assms by (auto simp: held_def)
qed

lemma seg_aligned_unat: "seg_aligned (k, seg) \<Longrightarrow> unat seg = snd (seg_block (k, seg)) * 2 ^ k"
  by (simp add: seg_aligned_def seg_block_def)

lemma mtt_trace_inv:
  assumes "mtt_trace t0 t hs" "mtt_inv base t0 L"
  shows "mtt_inv base t (L \<union> seg_block ` set hs) \<and> held L hs \<and>
    mb_max_order (mtt_buddy t) = mb_max_order (mtt_buddy t0) \<and> same_geom (mtt_table t) (mtt_table t0)"
  using assms
proof (induction rule: mtt_trace.induct)
  case mtt_start
  then show ?case by (simp add: held_def same_geom_def)
next
  case (mtt_alloc t hs env k seg t')
  then have I: "mtt_inv base t (L \<union> seg_block ` set hs)" and H: "held L hs" by blast+
  show ?case
  proof (cases rule: alloc_mtt_outcome[OF I mtt_alloc.hyps(2), of k])
    case (1 t2)
    then show ?thesis using mtt_alloc by simp
  next
    case (2 i seg2 t2)
    then have e: "seg2 = seg" "t2 = t'" using mtt_alloc.hyps(3) by simp_all
    have "seg_block (k, seg) = (k, i)" "seg_aligned (k, seg)" using 2(3) e by (simp_all add: seg_block_def seg_aligned_def)
    then show ?thesis using 2 e H mtt_alloc by (simp add: held_def same_geom_def)
  qed
next
  case (mtt_fail t hs env k t')
  then have I: "mtt_inv base t (L \<union> seg_block ` set hs)" by blast
  show ?case
  proof (cases rule: alloc_mtt_outcome[OF I mtt_fail.hyps(2), of k])
    case (1 t2)
    then show ?thesis using mtt_fail by (simp add: same_geom_def)
  next
    case (2 i seg2 t2)
    then show ?thesis using mtt_fail by simp
  qed
next
  case (mtt_free t hs env k seg t')
  then have I: "mtt_inv base t (L \<union> seg_block ` set hs)" and H: "held L hs" by blast+
  have al: "seg_aligned (k, seg)" using H mtt_free.hyps(3) by (auto simp: held_def)
  have b: "(k, snd (seg_block (k, seg))) \<in> L \<union> seg_block ` set hs" using mtt_free.hyps(3) by (force simp: seg_block_def)
  have k: "(k, snd (seg_block (k, seg))) = seg_block (k, seg)" by (simp add: seg_block_def)
  from free_mtt_outcome[OF I b seg_aligned_unat[OF al] mtt_free.hyps(2)] mtt_free.hyps(4)
  have "mtt_inv base t' (L \<union> seg_block ` set hs - {seg_block (k, seg)})"
    "mb_max_order (mtt_buddy t') = mb_max_order (mtt_buddy t)"
    "same_geom (mtt_table t') (mtt_table t)" unfolding k by (metis option.inject)+
  then show ?case using held_remove[OF H mtt_free.hyps(3)] mtt_free by (simp add: same_geom_def)
qed

text \<open>Every segment of a live run lies in a chunk that is present.\<close>

definition backed :: "mlx4_icm_table \<Rightarrow> nat \<Rightarrow> bool" where
  "backed t obj \<longleftrightarrow> it_icm t ! icm_index t (of_nat obj) \<noteq> None"

lemma live_backed:
  assumes I: "mtt_inv base t L" and b: "(k, i) \<in> L" and u: "u \<in> units (k, i)"
  shows "backed (mtt_table t) u"
proof -
  let ?tab = "mtt_table t" let ?inc = "icm_inc ?tab" let ?c = "u div ?inc"
  note live = mtt_inv_live[OF I b]
  have "u < i * 2 ^ k + 2 ^ k" using u by (simp add: units_def add.commute)
  then have un: "u < unat (it_num_obj ?tab)" using live(2) by linarith
  then have "u < 2 ^ LENGTH(32)" using unsigned_less[of "it_num_obj ?tab"] by (rule less_trans)
  then have uw: "unat (of_nat u :: u32) = u" by (rule unat_of_nat_less)
  have ok: "icm_ok ?tab" using I by (simp add: mtt_inv_def)
  have ix: "icm_index ?tab (of_nat u) = ?c" "?c < length (it_icm ?tab)"
    using icm_index_eq[of ?tab "of_nat u"] ok un uw by (auto simp: icm_ok_def)
  have "(k, i) \<in> {b \<in> L. ?c \<in> mtt_chunks ?inc b}" using b u by (auto simp: mtt_chunks_def)
  then have "0 < refs ?inc L ?c" unfolding refs_def using live(3) by (subst card_gt_0_iff) auto
  then have "icm_count (it_icm ?tab ! ?c) \<noteq> 0" using I ix(2) by (auto simp: mtt_inv_def)
  then show ?thesis unfolding backed_def ix(1) by (auto simp: icm_count_def split: option.splits)
qed

lemma no_runs_no_refs:
  assumes "mtt_inv base t L" "mtt_inv base t0 L" "same_geom (mtt_table t) (mtt_table t0)"
  shows "it_icm (mtt_table t) = it_icm (mtt_table t0)"
proof (rule nth_equalityI)
  show "length (it_icm (mtt_table t)) = length (it_icm (mtt_table t0))" using assms(3) by (simp add: same_geom_def)
  fix c assume c: "c < length (it_icm (mtt_table t))"
  let ?x = "it_icm (mtt_table t) ! c" and ?y = "it_icm (mtt_table t0) ! c"
  have "icm_count ?x = icm_count ?y" "?x \<noteq> Some 0" "?y \<noteq> Some 0"
    using assms c by (auto simp: mtt_inv_def icm_ok_def same_geom_def)
  then show "?x = ?y" by (auto simp: icm_count_def unat_eq_zero intro: unsigned_word_eqI split: option.splits)
qed

section \<open>The state after initialisation\<close>

lemma split_zero: "mlx4_buddy_split bits nf k order 0 = (bits', nf', seg') \<Longrightarrow> seg' = 0"
proof (induction bits nf k order "0 :: u32" rule: mlx4_buddy_split.induct)
  case (2 bits nf k order)
  then show ?case by (simp add: Let_def split: if_splits)
qed simp

lemma first_alloc_zero:
  assumes i: "mlx4_buddy_init m1 m2 kmalloc M = Some b" "kmalloc_ok kmalloc" "M \<le> 30"
    and a: "mlx4_buddy_alloc b order = (seg, b')" "seg \<noteq> -1"
  shows "seg = 0"
proof -
  note w = mlx4_buddy_init_wf[OF i]
  have fr: "bfree M (mb_bits b) = {(M, 0)}"
    using mlx4_segs.trace_all_returned[OF seg_start, of b] w by simp
  obtain k sg where s: "mlx4_buddy_search b order = Some (k, sg)"
    using a by (auto simp: mlx4_buddy_alloc_def split: option.splits)
  have bo: "bits_ok (mb_max_order b) (mb_bits b)" "num_ok (mb_max_order b) (mb_bits b) (mb_num_free b)"
    using w(1) by (simp_all add: mlx4_wf_def bwf_def)
  have "mthca_buddy_search (forget_counts b) order = Some (k, sg)" using s mlx4_buddy_search_eq[OF bo] by simp
  then have "(k, unat sg) \<in> bfree M (mb_bits b)"
    using mthca_buddy_search_some[of "forget_counts b" order k sg] bo(1) w(2) by (simp add: forget_counts_def)
  then have "sg = 0" using fr by (simp add: unat_eq_zero)
  then show ?thesis using a(1) s by (auto simp: mlx4_buddy_alloc_def Let_def dest!: split_zero split: prod.splits)
qed

lemma alloc_mtt_seg:
  assumes "mlx4_alloc_mtt_range env t k = Some (seg, t')" "\<not> me_slave env" "seg \<noteq> -1"
  shows "fst (mlx4_buddy_alloc (mtt_buddy t) k) = seg"
proof -
  obtain sg bd where a: "mlx4_buddy_alloc (mtt_buddy t) k = (sg, bd)" by fastforce
  show ?thesis
  proof (cases "mlx4_table_get_range (me_mtt env) (mtt_table t) (unat sg) (unat sg + 2 ^ k - 1)")
    case None
    then show ?thesis using assms a by (auto simp: mlx4_alloc_mtt_range_def Let_def split: if_splits)
  next
    case (Some r)
    obtain e tab where "r = (e, tab)" by fastforce
    then show ?thesis using assms a Some by (cases e) (auto simp: mlx4_alloc_mtt_range_def Let_def split: if_splits)
  qed
qed


lemma icm_params_inc:
  assumes "icm_params obj_size nobj reserved"
  shows "\<exists>j. unat (MLX4_TABLE_CHUNK_SIZE div obj_size) = 2 ^ j"
proof -
  obtain k where k: "obj_size = 2 ^ k" "k < 32" using assms by (auto simp: icm_params_def is_power_of_2_iff)
  have "unat obj_size \<le> 2 ^ 18" using assms unat_chunk_size by (simp add: icm_params_def word_le_nat_alt)
  then have "(2::nat) ^ k \<le> 2 ^ 18" using k by simp
  then have "k \<le> 18" by (rule power_le_imp_le_exp[rotated]) simp
  moreover have "unat (MLX4_TABLE_CHUNK_SIZE div obj_size) = 2 ^ 18 div 2 ^ k" unfolding unat_div unat_chunk_size using k by simp
  ultimately show ?thesis by (auto simp: power_diff intro!: exI[of _ "18 - k"])
qed

lemma ilog2_power:
  assumes "is_power_of_2 n"
  shows "2 ^ nat (ilog2 n) = unat n"
proof -
  obtain k where k: "n = 2 ^ k" "k < 32" using assms by (auto simp: is_power_of_2_iff)
  then have u: "unat n = 2 ^ k" and nz: "n \<noteq> 0" using assms by (auto simp: is_power_of_2_def)
  note b = fls_bounds[OF nz, unfolded u]
  have "fls n - 1 \<le> k" using b(3) by (rule power_le_imp_le_exp[rotated]) simp
  moreover have "k < fls n" using b(4) by (rule power_less_imp_less_exp[rotated]) simp
  ultimately have "fls n = Suc k" by linarith
  then show ?thesis by (simp add: ilog2_def u)
qed

text \<open>What the driver has when its initialisations succeeded: both context-memory tables
  (the order of \<open>mlx4_init_icm\<close>) and then \<open>mlx4_init_mr_table\<close>, on a device
  that reserves some identifiers for the exchange regions.\<close>

definition mpt_params :: "mlx4_caps \<Rightarrow> bool" where
  "mpt_params caps \<longleftrightarrow> cap_fexch_qps caps \<noteq> 0 \<and> 2 * unat (cap_fexch_qps caps) + unat (cap_reserved_mrws caps) \<le> unat (cap_num_mpts caps)"

definition mr_booted :: "mlx4_caps \<Rightarrow> mlx4_mr_table \<Rightarrow> bool" where
  "mr_booted caps t0 \<longleftrightarrow> mpt_params caps \<and>
     icm_params (cap_mtt_entry_sz caps) (cap_num_mtt_segs caps) (cap_reserved_mtts caps) \<and>
     unat (cap_num_mtt_segs caps) \<le> 2 ^ 30 \<and>
     (\<exists>ienv virt denv dvirt dsz env mem t.
        mlx4_init_icm_table True ienv virt (cap_mtt_entry_sz caps) (cap_num_mtt_segs caps)
          (cap_reserved_mtts caps) = Some (None, mtt_table t) \<and>
        icm_params dsz (cap_num_mpts caps) (cap_reserved_mrws caps) \<and>
        mlx4_init_icm_table True denv dvirt dsz (cap_num_mpts caps) (cap_reserved_mrws caps) = Some (None, dmpt_table t) \<and>
        \<not> me_slave env \<and> kmalloc_ok (mm_kmalloc mem) \<and> mlx4_init_mr_table caps mem env t = Some (None, t0))"

lemma mr_booted_inv:
  assumes "mr_booted caps t0"
  obtains base L where "mtt_inv base t0 L" "2 ^ mb_max_order (mtt_buddy t0) = unat (cap_num_mtt_segs caps)"
    "{..<unat (cap_reserved_mtts caps)} \<subseteq> \<Union> (units ` L)"
proof -
  from assms obtain ienv virt env mem t where
    p: "icm_params (cap_mtt_entry_sz caps) (cap_num_mtt_segs caps) (cap_reserved_mtts caps)"
      "unat (cap_num_mtt_segs caps) \<le> 2 ^ 30"
      "mlx4_init_icm_table True ienv virt (cap_mtt_entry_sz caps) (cap_num_mtt_segs caps) (cap_reserved_mtts caps) =
         Some (None, mtt_table t)"
    and env: "\<not> me_slave env" and km: "kmalloc_ok (mm_kmalloc mem)" and init: "mlx4_init_mr_table caps mem env t = Some (None, t0)"
    unfolding mr_booted_def by blast
  let ?M = "nat (ilog2 (cap_num_mtt_segs caps))" and ?r = "cap_reserved_mtts caps"
  from init_icm_table_outcome[OF p(1), of ienv virt] p(3) obtain n where
    tab: "icm_ok (mtt_table t)" "reserved_to n (mtt_table t)" "it_num_obj (mtt_table t) = cap_num_mtt_segs caps"
      "it_obj_size (mtt_table t) = cap_mtt_entry_sz caps" by auto
  have M: "2 ^ ?M = unat (cap_num_mtt_segs caps)" using p(1) by (intro ilog2_power) (simp add: icm_params_def)
  then have "(2::nat) ^ ?M \<le> 2 ^ 30" using p(2) by simp
  then have M30: "?M \<le> 30" by (rule power_le_imp_le_exp[rotated]) simp
  from init env obtain bm bd where
    bd: "mlx4_buddy_init (mm_bits mem) (mm_num_free mem) (mm_kmalloc mem) ?M = Some bd"
    and rest: "(if ?r = 0 then Some (None, t\<lparr>mpt_bitmap := bm, mtt_buddy := bd\<rparr>)
        else map_option (\<lambda>(seg, t). (if seg = -1 then Some ENOMEM else None, t))
          (mlx4_alloc_mtt_range env (t\<lparr>mpt_bitmap := bm, mtt_buddy := bd\<rparr>) (fls (?r - 1)))) = Some (None, t0)"
    by (auto simp: mlx4_init_mr_table_def Let_def split: if_splits sum.splits option.splits)
  note w = mlx4_buddy_init_wf[OF bd km M30]
  define base where "base c = (if c < n then 1 else 0 :: nat)" for c
  let ?t = "t\<lparr>mpt_bitmap := bm, mtt_buddy := bd\<rparr>"
  have I: "mtt_inv base ?t {}"
    using w tab M icm_params_inc[OF p(1)]
    by (auto simp: mtt_inv_def base_def refs_def reserved_to_def icm_count_def icm_inc_def)
  show thesis
  proof (cases "?r = 0")
    case True
    then have "t0 = ?t" using rest by simp
    then show thesis using that[of base "{}"] I w(2) M True by simp
  next
    case False
    let ?k = "fls (?r - 1)"
    from rest False obtain seg where a: "mlx4_alloc_mtt_range env ?t ?k = Some (seg, t0)" "seg \<noteq> -1"
      by (auto split: if_splits)
    obtain sg b' where ba: "mlx4_buddy_alloc bd ?k = (sg, b')" by fastforce
    have "sg = seg" using alloc_mtt_seg[OF a(1) env a(2)] ba by simp
    then have "seg = 0" using first_alloc_zero[OF bd km M30 ba] a(2) by simp
    show thesis
    proof (cases rule: alloc_mtt_outcome[OF I env, of ?k])
      case (1 t')
      then show thesis using a by simp
    next
      case (2 i seg' t')
      then have "seg' = seg" "t' = t0" using a(1) by simp_all
      then have "i = 0" using 2(3) \<open>seg = 0\<close> by simp
      have "unat ?r \<le> 2 ^ ?k"
      proof (cases "?r - 1 = 0")
        case True
        then have "?r = 1" by simp
        then show ?thesis by simp
      next
        case nz: False
        have "unat (?r - 1) = unat ?r - 1" using False by (subst unat_sub) (simp_all add: word_le_nat_alt Suc_le_eq unat_gt_0)
        then show ?thesis using fls_bounds(4)[OF nz] by linarith
      qed
      then have "{..<unat ?r} \<subseteq> units (?k, 0)" by (auto simp: units_def)
      then show thesis using that[of base "{(?k, 0)}"] 2 \<open>i = 0\<close> \<open>t' = t0\<close> w(2) M by simp
    qed
  qed
qed


lemma live_below:
  assumes I: "mtt_inv base t L" and b: "b \<in> L"
  shows "units b \<subseteq> {..<2 ^ mb_max_order (mtt_buddy t)}" "b' \<in> L \<Longrightarrow> b \<noteq> b' \<Longrightarrow> units b \<inter> units b' = {}"
proof -
  let ?M = "mb_max_order (mtt_buddy t)"
  have B: "binv ?M (2 ^ ?M) (bfree ?M (mb_bits (mtt_buddy t))) L" using I by (simp add: mtt_inv_def mlx4_wf_def bwf_def)
  show "units b \<subseteq> {..<2 ^ ?M}" using tiles_Union B b unfolding binv_def by blast
  show "units b \<inter> units b' = {}" if "b' \<in> L" "b \<noteq> b'" using binv_live_disjoint[OF B b that] .
qed

text \<open>What a user of the runs in \<open>hs\<close> relies on.\<close>

definition mtt_safe :: "mlx4_caps \<Rightarrow> mlx4_mr_table \<Rightarrow> (nat \<times> u32) list \<Rightarrow> bool" where
  "mtt_safe caps t hs \<longleftrightarrow> distinct hs \<and>
     (\<forall>h\<in>set hs. seg_run h \<subseteq> {unat (cap_reserved_mtts caps)..<unat (cap_num_mtt_segs caps)} \<and>
        (\<forall>h'\<in>set hs. h \<noteq> h' \<longrightarrow> seg_run h \<inter> seg_run h' = {}) \<and> (\<forall>u\<in>seg_run h. backed (mtt_table t) u)) \<and>
     mapped (it_log (mtt_table t)) = icm_addrs (mtt_table t)"

lemma mtt_history_parts:
  assumes b: "mr_booted caps t0" and tr: "mtt_trace t0 t hs"
  shows "mtt_safe caps t hs"
    and "\<not> me_slave env \<Longrightarrow> mlx4_alloc_mtt_range env t k \<noteq> None"
    and "\<not> me_slave env \<Longrightarrow> (k, seg) \<in> set hs \<Longrightarrow> mlx4_free_mtt_range env t seg k \<noteq> None"
    and "hs = [] \<Longrightarrow> it_icm (mtt_table t) = it_icm (mtt_table t0)"
proof -
  from mr_booted_inv[OF b] obtain base L where
    L: "mtt_inv base t0 L" "2 ^ mb_max_order (mtt_buddy t0) = unat (cap_num_mtt_segs caps)"
      "{..<unat (cap_reserved_mtts caps)} \<subseteq> \<Union> (units ` L)" by blast
  from mtt_trace_inv[OF tr L(1)] have I: "mtt_inv base t (L \<union> seg_block ` set hs)" and H: "held L hs"
    and mo: "mb_max_order (mtt_buddy t) = mb_max_order (mtt_buddy t0)"
    and len: "same_geom (mtt_table t) (mtt_table t0)" by auto
  have run: "seg_run h = units (seg_block h)" "seg_block h \<in> L \<union> seg_block ` set hs" "seg_block h \<notin> L" if "h \<in> set hs" for h
    using H that seg_run_units by (auto simp: held_def)
  have dj: "seg_run h \<inter> seg_run h' = {}" if "h \<in> set hs" "h' \<in> set hs" "h \<noteq> h'" for h h'
  proof -
    have "seg_block h \<noteq> seg_block h'" using H that by (auto simp: held_def distinct_map inj_on_def)
    then show ?thesis using live_below(2)[OF I] run that by simp
  qed
  have rng: "seg_run h \<subseteq> {unat (cap_reserved_mtts caps)..<unat (cap_num_mtt_segs caps)}" if h: "h \<in> set hs" for h
  proof -
    have "seg_run h \<inter> units b = {}" if "b \<in> L" for b
      using live_below(2)[OF I, of "seg_block h" b] run[OF h] that by auto
    then have "seg_run h \<inter> {..<unat (cap_reserved_mtts caps)} = {}" using L(3) by blast
    moreover have "seg_run h \<subseteq> {..<unat (cap_num_mtt_segs caps)}" using live_below(1)[OF I run(2)[OF h]] run(1)[OF h] mo L(2) by simp
    ultimately show ?thesis by (auto simp: disjoint_iff not_less)
  qed
  have bk: "backed (mtt_table t) u" if h: "h \<in> set hs" "u \<in> seg_run h" for h u
    using live_backed[OF I, of "fst (seg_block h)" "snd (seg_block h)" u] run[OF h(1)] h(2) by simp
  have "distinct hs" using H by (simp add: held_def distinct_map)
  moreover have "mapped (it_log (mtt_table t)) = icm_addrs (mtt_table t)" using I by (simp add: mtt_inv_def icm_ok_def)
  ultimately show "mtt_safe caps t hs" using rng dj bk unfolding mtt_safe_def by blast
  show "mlx4_alloc_mtt_range env t k \<noteq> None" if "\<not> me_slave env"
    by (cases rule: alloc_mtt_outcome[OF I that, of k]) simp_all
  show "mlx4_free_mtt_range env t seg k \<noteq> None" if e: "\<not> me_slave env" and h: "(k, seg) \<in> set hs"
  proof -
    have al: "seg_aligned (k, seg)" using H h by (auto simp: held_def)
    have "(k, snd (seg_block (k, seg))) \<in> L \<union> seg_block ` set hs" using h by (force simp: seg_block_def)
    from free_mtt_outcome[OF I this seg_aligned_unat[OF al] e] show ?thesis by (metis option.distinct(1))
  qed
  show "it_icm (mtt_table t) = it_icm (mtt_table t0)" if "hs = []"
    using no_runs_no_refs[OF _ L(1) len] I that by simp
qed

section \<open>Orders and keys\<close>

lemma order_loop_some:
  assumes "0 < unat i" "unat i < 2 ^ 31" "unat n \<le> 2 ^ 30"
  shows "\<exists>d. mtt_order_loop i n k = Some (k + d) \<and> unat n \<le> unat i * 2 ^ d \<and> (\<forall>d' < d. unat i * 2 ^ d' < unat n)"
  using assms(1,2)
proof (induction "unat n - unat i" arbitrary: i k rule: less_induct)
  case less
  have "unat n < 2 ^ 31" using assms(3) by simp
  then have "sint i = int (unat i)" "sint n = int (unat n)" using sint_small less.prems(2) by blast+
  then have s: "sint i < sint n \<longleftrightarrow> unat i < unat n" by linarith
  show ?case
  proof (cases "unat i < unat n")
    case False
    then have "mtt_order_loop i n k = Some (k + 0)" using s by (subst mtt_order_loop.simps) simp
    then show ?thesis using False by (intro exI[of _ 0]) simp
  next
    case True
    let ?j = "push_bit 1 i"
    have u: "unat ?j = 2 * unat i"
      using less.prems(2) by (rule unat_shl_1)
    moreover have "unat i < 2 ^ 30" using True assms(3) by (rule less_le_trans)
    ultimately have "unat n - unat ?j < unat n - unat i" "0 < unat ?j" "unat ?j < 2 ^ 31"
      using True less.prems by simp_all
    moreover note u
    ultimately obtain d where d: "mtt_order_loop ?j n (Suc k) = Some (Suc k + d)" "unat n \<le> 2 * unat i * 2 ^ d"
      "\<forall>d' < d. 2 * unat i * 2 ^ d' < unat n" using less.hyps by metis
    have "mtt_order_loop i n k = Some (k + Suc d)" using d(1) True s by (subst mtt_order_loop.simps) simp
    moreover have "unat i * 2 ^ d' < unat n" if "d' < Suc d" for d'
      using that True d(3) by (cases d') auto
    ultimately show ?thesis using d(2) by (intro exI[of _ "Suc d"]) (auto simp: ac_simps)
  qed
qed

lemma order_loop_zero: "0 < sint n \<Longrightarrow> mtt_order_loop 0 n k = None"
proof (rule ccontr)
  assume n: "0 < sint n" and "mtt_order_loop 0 n k \<noteq> None"
  then obtain y where "mtt_order_loop 0 n k = Some y" by blast
  moreover have "0 < sint m \<longrightarrow> i \<noteq> 0" if "mtt_order_loop i m k = Some y" for i m k y
    using _ that by (rule mtt_order_loop.raw_induct) (fastforce split: if_splits)
  ultimately show False using n by blast
qed

lemma hw_index_roundtrip: "key_to_hw_index (hw_index_to_key i) = i"
  unfolding key_to_hw_index_def hw_index_to_key_def
  by (rule bit_word_eqI) (auto simp: bit_simps)

lemma key_roundtrip: "hw_index_to_key (key_to_hw_index k) = k"
proof (rule bit_word_eqI)
  fix n assume "n < LENGTH(32)"
  then show "bit (hw_index_to_key (key_to_hw_index k)) n = bit k n"
    by (cases "n < 8") (auto simp: key_to_hw_index_def hw_index_to_key_def bit_simps)
qed


lemma order_loop_diverges:
  assumes "k \<le> 30" "2 ^ 30 < unat n" "unat n < 2 ^ 31"
  shows "mtt_order_loop (2 ^ k) n d = None"
  using assms(1)
proof (induction "30 - k" arbitrary: k d)
  case 0
  then have k: "k = 30" by simp
  have n: "sint n = int (unat n)" by (rule sint_small[OF assms(3)])
  have z: "mtt_order_loop 0 n (Suc (Suc d)) = None" using n assms(2) by (intro order_loop_zero) linarith
  have "sint (2 ^ 30 :: u32) = 2 ^ 30" "sint (2 ^ 31 :: u32) = - (2 ^ 31)" by simp_all
  moreover have "int (2 ^ 30) < int (unat n)" using assms(2) by (simp only: of_nat_less_iff)
  moreover have "- (2 ^ 31) < (0::int)" by simp
  ultimately have lt: "sint (2 ^ 30 :: u32) < sint n" "sint (2 ^ 31 :: u32) < sint n"
    unfolding n of_nat_power of_nat_numeral by linarith+
  have p: "push_bit 1 (2 ^ 30 :: u32) = 2 ^ 31" "push_bit 1 (2 ^ 31 :: u32) = 0" by code_simp+
  have "mtt_order_loop (2 ^ 31) n (Suc d) = None" using z by (subst mtt_order_loop.simps) (simp only: p lt if_True)
  then show ?case unfolding k by (subst mtt_order_loop.simps) (simp only: p lt if_True)
next
  case (Suc x)
  then have k: "k < 30" by simp
  have "unat (2 ^ k :: u32) = 2 ^ k" using k by simp
  moreover have "(2::nat) ^ k < 2 ^ 30" using k by (intro power_strict_increasing) auto
  ultimately have u: "unat (2 ^ k :: u32) < 2 ^ 30" by simp
  then have "sint (2 ^ k :: u32) = int (unat (2 ^ k :: u32))" by (intro sint_small) simp
  then have lt: "sint (2 ^ k :: u32) < sint n" using u sint_small[OF assms(3)] assms(2) by linarith
  have "mtt_order_loop (2 ^ Suc k) n (Suc d) = None" using Suc.hyps k by (intro Suc.hyps(1)) auto
  then show ?case using lt by (subst mtt_order_loop.simps) (simp add: push_bit_of_1 ac_simps flip: power_Suc)
qed

section \<open>Regions\<close>

definition mr_ok :: "(nat \<Rightarrow> nat) \<Rightarrow> mlx4_mr_table \<Rightarrow> block set \<Rightarrow> bool" where
  "mr_ok base t L \<longleftrightarrow> mtt_inv base t L \<and> bm_wf (mpt_bitmap t) \<and> icm_ok (dmpt_table t) \<and>
     it_num_obj (dmpt_table t) = bm_max (mpt_bitmap t)"

text \<open>What the operations must leave as it was: used identifiers, free counter, live runs (by
  \<open>L\<close>) and the reference counts of both tables.\<close>

definition mr_same :: "mlx4_mr_table \<Rightarrow> mlx4_mr_table \<Rightarrow> bool" where
  "mr_same t t' \<longleftrightarrow> bm_used (mpt_bitmap t') = bm_used (mpt_bitmap t) \<and> bm_avail (mpt_bitmap t') = bm_avail (mpt_bitmap t) \<and>
     it_icm (mtt_table t') = it_icm (mtt_table t) \<and> it_icm (dmpt_table t') = it_icm (dmpt_table t)"

definition pages_ok :: "mlx4_caps \<Rightarrow> u32 \<Rightarrow> bool" where
  "pages_ok caps npages \<longleftrightarrow> 0 < unat (cap_mtts_per_seg caps) \<and> unat (cap_mtts_per_seg caps) < 2 ^ 31 \<and> unat npages \<le> 2 ^ 30"

text \<open>The run that \<open>mtt\<close> names.\<close>

definition mtt_block :: "mlx4_mtt \<Rightarrow> block set" where
  "mtt_block mtt = (if mtt_order mtt < 0 then {} else {seg_block (nat (mtt_order mtt), mtt_first_seg mtt)})"

definition mtt_covers :: "mlx4_caps \<Rightarrow> u32 \<Rightarrow> mlx4_mtt \<Rightarrow> bool" where
  "mtt_covers caps npages mtt \<longleftrightarrow> npages \<noteq> 0 \<longrightarrow> 0 \<le> mtt_order mtt \<and> seg_aligned (nat (mtt_order mtt), mtt_first_seg mtt) \<and>
     unat npages \<le> unat (cap_mtts_per_seg caps) * 2 ^ nat (mtt_order mtt)"

lemma mtt_init_outcome:
  assumes I: "mtt_inv base t L" and env: "\<not> me_slave env" and p: "pages_ok caps npages"
  obtains (err) mtt' t' where "mlx4_mtt_init caps env t npages ps mtt = Some (Some ENOMEM, mtt', t')" "mtt_inv base t' L"
      "mpt_bitmap t' = mpt_bitmap t" "dmpt_table t' = dmpt_table t" "it_icm (mtt_table t') = it_icm (mtt_table t)"
  | (ok) mtt' t' where "mlx4_mtt_init caps env t npages ps mtt = Some (None, mtt', t')" "mtt_block mtt' \<inter> L = {}"
      "mtt_inv base t' (mtt_block mtt' \<union> L)" "mpt_bitmap t' = mpt_bitmap t" "dmpt_table t' = dmpt_table t"
      "mtt_covers caps npages mtt'" "same_geom (mtt_table t') (mtt_table t)"
      "mtt_order mtt' < 0 \<longleftrightarrow> npages = 0" "0 \<le> mtt_order mtt' \<Longrightarrow> seg_aligned (nat (mtt_order mtt'), mtt_first_seg mtt')"
proof (cases "npages = 0")
  case True
  let ?m = "mtt\<lparr>mtt_order := -1, mtt_page_shift := MLX4_ICM_PAGE_SHIFT\<rparr>"
  have "mlx4_mtt_init caps env t npages ps mtt = Some (None, ?m, t)" using True by (simp add: mlx4_mtt_init_def)
  then show thesis using ok[of ?m t] I True by (simp add: mtt_block_def mtt_covers_def same_geom_def)
next
  case False
  from order_loop_some[of "cap_mtts_per_seg caps" npages 0] p obtain d where
    d: "mtt_order_loop (cap_mtts_per_seg caps) npages 0 = Some d" "unat npages \<le> unat (cap_mtts_per_seg caps) * 2 ^ d"
    by (auto simp: pages_ok_def)
  show thesis
  proof (cases rule: alloc_mtt_outcome[OF I env, of d])
    case (1 t')
    then show thesis using err[of _ t'] False d(1) by (simp add: mlx4_mtt_init_def)
  next
    case (2 i seg t')
    let ?m = "mtt\<lparr>mtt_page_shift := ps, mtt_order := int d, mtt_first_seg := seg\<rparr>"
    have "mlx4_mtt_init caps env t npages ps mtt = Some (None, ?m, t')" using 2(1,2) False d(1) by (simp add: mlx4_mtt_init_def)
    moreover have "mtt_block ?m = {(d, i)}" using 2(3) by (simp add: mtt_block_def seg_block_def)
    moreover have "seg_aligned (d, seg)" using 2(3) by (simp add: seg_aligned_def)
    ultimately show thesis using ok[of ?m t'] 2 False d(2) by (simp add: mtt_covers_def)
  qed
qed

lemma mtt_cleanup_outcome:
  assumes I: "mtt_inv base t (mtt_block mtt \<union> L)" and dj: "mtt_block mtt \<inter> L = {}" and env: "\<not> me_slave env"
    and al: "0 \<le> mtt_order mtt \<Longrightarrow> seg_aligned (nat (mtt_order mtt), mtt_first_seg mtt)"
  obtains t' where "mlx4_mtt_cleanup env t mtt = Some t'" "mtt_inv base t' L" "mpt_bitmap t' = mpt_bitmap t"
    "dmpt_table t' = dmpt_table t" "same_geom (mtt_table t') (mtt_table t)"
proof (cases "mtt_order mtt < 0")
  case True
  then have "mlx4_mtt_cleanup env t mtt = Some t" by (simp add: mlx4_mtt_cleanup_def)
  moreover have "mtt_inv base t L" using I True by (simp add: mtt_block_def)
  ultimately show thesis using that[of t] by (simp add: same_geom_def)
next
  case False
  let ?k = "nat (mtt_order mtt)" let ?b = "seg_block (?k, mtt_first_seg mtt)"
  have mb: "mtt_block mtt = {?b}" using False by (simp add: mtt_block_def)
  have b: "(?k, snd ?b) \<in> mtt_block mtt \<union> L" "(?k, snd ?b) = ?b" by (simp_all add: mb seg_block_def)
  have "mtt_block mtt \<union> L - {?b} = L" using dj mb by auto
  then show thesis
    using free_mtt_outcome[OF I b(1) seg_aligned_unat[OF al] env] that False b(2)
    by (metis mlx4_mtt_cleanup_def not_less)
qed


lemma mr_alloc_outcome:
  assumes M: "mr_ok base t L" and env: "\<not> me_slave env" and p: "pages_ok caps npages"
  obtains (err) e mr' t' where "mlx4_mr_alloc caps env t pd iova sz access npages ps mr = Some (Some e, mr', t')"
      "mr_ok base t' L" "mr_same t t'"
  | (ok) mr' t' where "mlx4_mr_alloc caps env t pd iova sz access npages ps mr = Some (None, mr', t')"
      "mtt_block (mr_mtt mr') \<inter> L = {}" "mr_ok base t' (mtt_block (mr_mtt mr') \<union> L)"
      "mtt_covers caps npages (mr_mtt mr')" "mtt_order (mr_mtt mr') < 0 \<longleftrightarrow> npages = 0"
      "mlx4_bitmap_alloc (mpt_bitmap t) = (key_to_hw_index (mr_key mr'), mpt_bitmap t')" "key_to_hw_index (mr_key mr') \<noteq> -1"
      "dmpt_table t' = dmpt_table t" "same_geom (mtt_table t') (mtt_table t)"
      "0 \<le> mtt_order (mr_mtt mr') \<Longrightarrow> seg_aligned (nat (mtt_order (mr_mtt mr')), mtt_first_seg (mr_mtt mr'))"
proof -
  have I: "mtt_inv base t L" and wf: "bm_wf (mpt_bitmap t)" and dm: "icm_ok (dmpt_table t)"
    and mx: "it_num_obj (dmpt_table t) = bm_max (mpt_bitmap t)" using M by (simp_all add: mr_ok_def)
  obtain h bm where h: "mlx4_bitmap_alloc (mpt_bitmap t) = (h, bm)" by fastforce
  let ?t = "t\<lparr>mpt_bitmap := bm\<rparr>"
  note fr = mlx4_bitmap_alloc_frame[OF wf h]
  have I1: "mtt_inv base ?t L" using I by (simp add: mtt_inv_def)
  consider (barred) "me_barred env" | (full) "\<not> me_barred env" "h = -1" | (got) "\<not> me_barred env" "h \<noteq> -1" by blast
  then show thesis
  proof cases
    case barred
    then show thesis using err[of EFAULT mr t] M by (simp add: mlx4_mr_alloc_def mr_same_def)
  next
    case full
    note f = mlx4_bitmap_alloc_full[OF wf h[unfolded full(2)]]
    have "mlx4_mr_alloc caps env t pd iova sz access npages ps mr = Some (Some ENOMEM, mr, ?t)"
      using full h env by (simp add: mlx4_mr_alloc_def mlx4_mr_reserve_def)
    moreover have "mr_ok base ?t L" using M I1 fr by (simp add: mr_ok_def)
    moreover have "mr_same t ?t" using f(2) by (simp add: mr_same_def bm_used_def)
    ultimately show thesis by (rule err)
  next
    case got
    note g = mlx4_bitmap_alloc_fresh[OF wf h got(2)]
    show thesis
    proof (cases rule: mtt_init_outcome[OF I1 env p, of ps "mr_mtt mr"])
      case (1 mtt' t')
      have hu: "bm_idx bm h \<in> bm_used bm" using g(1,2,4) by (simp add: bm_idx_def)
      let ?t' = "t'\<lparr>mpt_bitmap := mlx4_bitmap_free bm h\<rparr>"
      note f = mlx4_bitmap_free_props[OF g(3) hu]
      have "mlx4_mr_alloc caps env t pd iova sz access npages ps mr = Some (Some ENOMEM, mr\<lparr>mr_mtt := mtt'\<rparr>, ?t')"
        using got h env 1(1,3) by (simp add: mlx4_mr_alloc_def mlx4_mr_reserve_def mlx4_mr_release_def)
      moreover have "mr_ok base ?t' L" using 1(2,4) f g dm mx by (simp add: mr_ok_def mtt_inv_def)
      moreover have "bm_avail (mlx4_bitmap_free bm h) = bm_avail (mpt_bitmap t)"
      proof -
        have "unat (bm_avail (mlx4_bitmap_free bm h)) = unat (bm_avail (mpt_bitmap t))" using f(5) g(6,7) by linarith
        then show ?thesis by (rule unsigned_word_eqI)
      qed
      then have "mr_same t ?t'" using f(1) g(1,2,4) 1(4,5) by (auto simp: mr_same_def bm_idx_def)
      ultimately show thesis by (rule err)
    next
      case (2 mtt' t')
      let ?mr = "mr\<lparr>mr_mtt := mtt', mr_iova := iova, mr_size := sz, mr_pd := pd, mr_access := access,
          mr_enabled := False, mr_key := hw_index_to_key h\<rparr>"
      have "mlx4_mr_alloc caps env t pd iova sz access npages ps mr = Some (None, ?mr, t')"
        using got h env 2(1) by (simp add: mlx4_mr_alloc_def mlx4_mr_reserve_def)
      moreover have "mr_ok base t' (mtt_block mtt' \<union> L)" using 2(3,4,5) g dm mx by (simp add: mr_ok_def)
      ultimately show thesis using ok[of ?mr t'] 2 h got(2) by (simp add: hw_index_roundtrip)
    qed
  qed
qed

lemma and_minus_one_less:
  assumes "m \<noteq> (0 :: u32)"
  shows "x AND (m - 1) < m"
proof -
  have "1 \<le> unat m" using assms by (simp add: Suc_le_eq unat_gt_0)
  then have "unat (m - 1) = unat m - 1" by (subst unat_sub) (simp_all add: word_le_nat_alt)
  moreover have "unat (x AND (m - 1)) \<le> unat (m - 1)" using word_and_le1[of x "m - 1"] by (simp add: word_le_nat_alt)
  ultimately show ?thesis using \<open>1 \<le> unat m\<close> by (simp add: word_less_nat_alt)
qed

lemma icm_index_mask: "icm_index t (obj AND (it_num_obj t - 1)) = icm_index t obj"
  by (simp add: icm_index_def and.assoc)

lemma table_mask:
  "mlx4_table_get env t (obj AND (it_num_obj t - 1)) = mlx4_table_get env t obj"
  "mlx4_table_put t (obj AND (it_num_obj t - 1)) = mlx4_table_put t obj"
  by (simp_all add: mlx4_table_get_def mlx4_table_put_def icm_index_mask)

lemma table_get_put:
  assumes ok: "icm_ok t" and g: "mlx4_table_get env t obj = (None, u)"
  obtains v where "mlx4_table_put u obj = Some v" "it_icm v = it_icm t" "icm_ok v" "it_num_obj v = it_num_obj t"
proof -
  let ?o = "obj AND (it_num_obj t - 1)"
  have o: "unat ?o < unat (it_num_obj t)"
    using ok by (auto simp: icm_ok_def icm_shape_def is_power_of_2_def word_less_nat_alt[symmetric] intro: and_minus_one_less)
  let ?j = "unat ?o div icm_inc t"
  have g': "mlx4_table_get env t ?o = (None, u)" using g by (simp add: table_mask)
  have b: "bumped (insert ?j {}) t u" using table_get_step(1)[OF ok bumped_refl[OF ok] o _ g'] by simp
  from table_put_step[OF ok b o refl] obtain v where v: "mlx4_table_put u ?o = Some v" "bumped {} t v" by auto
  have "it_num_obj u = it_num_obj t" using b by (simp add: bumped_def)
  then have "mlx4_table_put u obj = Some v" using v(1) table_mask(2)[of u obj] by simp
  then show thesis using that[of v] bumped_empty[OF v(2) ok] v(2) by (simp add: bumped_def)
qed

lemma mpt_bitmap_booted:
  assumes m: "mpt_params caps" "is_power_of_2 (cap_num_mpts caps)"
    and i: "mlx4_bitmap_init_with_effective_max mem (cap_num_mpts caps) (-1) (cap_reserved_mrws caps)
      (cap_num_mpts caps - 2 * cap_fexch_qps caps) = Inr bm"
  shows "bm_wf bm" "bm_max bm = cap_num_mpts caps"
proof -
  let ?n = "cap_num_mpts caps" and ?f = "cap_fexch_qps caps" and ?r = "cap_reserved_mrws caps"
  have n31: "unat ?n \<le> 2 ^ 31" by (rule power_of_2_bound[OF m(2)])
  have f: "0 < unat ?f" "2 * unat ?f + unat ?r \<le> unat ?n" using m(1) by (simp_all add: mpt_params_def unat_gt_0)
  have "2 * unat ?f < 2 ^ LENGTH(32)" using f n31 by simp
  then have u2: "unat (2 * ?f) = 2 * unat ?f" using unat_mult_lem[of 2 ?f] by simp
  then have e: "unat (?n - 2 * ?f) = unat ?n - 2 * unat ?f" using f by (subst unat_sub_le) simp_all
  have "?r \<le> ?n - 2 * ?f" "?n - 2 * ?f < ?n" using e f by (simp_all add: word_le_nat_alt word_less_nat_alt)
  moreover from this have "unat ?r < 2 ^ 31" using e f n31 by simp
  moreover have "prefix_ok (-1) ?n (?n - 2 * ?f)" using calculation by (simp add: prefix_ok_def)
  moreover have "mem" using i by (auto simp: mlx4_bitmap_init_with_effective_max_def split: if_splits)
  ultimately obtain b where "mlx4_bitmap_init_with_effective_max True ?n (-1) ?r (?n - 2 * ?f) = Inr b" "bm_wf b" "bm_max b = ?n"
    using mlx4_bitmap_init_wf[OF m(2), of "?n - 2 * ?f" ?r "-1"] by (metis less_imp_le)
  then show "bm_wf bm" "bm_max bm = ?n" using i \<open>mem\<close> by simp_all
qed

lemma alloc_mtt_frame:
  assumes "mlx4_alloc_mtt_range env t k = Some (seg, t')" "\<not> me_slave env"
  shows "mpt_bitmap t' = mpt_bitmap t \<and> dmpt_table t' = dmpt_table t"
proof -
  obtain sg bd where a: "mlx4_buddy_alloc (mtt_buddy t) k = (sg, bd)" by fastforce
  show ?thesis
  proof (cases "mlx4_table_get_range (me_mtt env) (mtt_table t) (unat sg) (unat sg + 2 ^ k - 1)")
    case None
    then show ?thesis using assms a by (auto simp: mlx4_alloc_mtt_range_def Let_def split: if_splits)
  next
    case (Some r)
    obtain e tab where "r = (e, tab)" by fastforce
    then show ?thesis using assms a Some by (cases e) (auto simp: mlx4_alloc_mtt_range_def Let_def split: if_splits)
  qed
qed

lemma mr_booted_ok:
  assumes b: "mr_booted caps t0"
  obtains base L where "mr_ok base t0 L" "2 ^ mb_max_order (mtt_buddy t0) = unat (cap_num_mtt_segs caps)"
    "{..<unat (cap_reserved_mtts caps)} \<subseteq> \<Union> (units ` L)"
proof -
  from mr_booted_inv[OF b] obtain base L where
    L: "mtt_inv base t0 L" "2 ^ mb_max_order (mtt_buddy t0) = unat (cap_num_mtt_segs caps)"
      "{..<unat (cap_reserved_mtts caps)} \<subseteq> \<Union> (units ` L)" by blast
  from b obtain denv dvirt dsz env mem t where
    p: "mpt_params caps" "icm_params dsz (cap_num_mpts caps) (cap_reserved_mrws caps)"
      "mlx4_init_icm_table True denv dvirt dsz (cap_num_mpts caps) (cap_reserved_mrws caps) = Some (None, dmpt_table t)"
    and env: "\<not> me_slave env" and init: "mlx4_init_mr_table caps mem env t = Some (None, t0)"
    unfolding mr_booted_def by blast
  have dm: "icm_ok (dmpt_table t)" "it_num_obj (dmpt_table t) = cap_num_mpts caps"
    using init_icm_table_outcome[OF p(2), of denv dvirt] p(3) by auto
  from init env obtain bm bd where pow: "is_power_of_2 (cap_num_mpts caps)"
    and bm: "mlx4_bitmap_init_with_effective_max (mm_bitmap mem) (cap_num_mpts caps) (-1) (cap_reserved_mrws caps)
      (cap_num_mpts caps - 2 * cap_fexch_qps caps) = Inr bm"
    and rest: "(if cap_reserved_mtts caps = 0 then Some (None, t\<lparr>mpt_bitmap := bm, mtt_buddy := bd\<rparr>)
        else map_option (\<lambda>(seg, t). (if seg = -1 then Some ENOMEM else None, t))
          (mlx4_alloc_mtt_range env (t\<lparr>mpt_bitmap := bm, mtt_buddy := bd\<rparr>) (fls (cap_reserved_mtts caps - 1)))) = Some (None, t0)"
    by (auto simp: mlx4_init_mr_table_def Let_def split: if_splits sum.splits option.splits)
  have "mpt_bitmap t0 = bm \<and> dmpt_table t0 = dmpt_table t"
  proof (cases "cap_reserved_mtts caps = 0")
    case True
    then have "t0 = t\<lparr>mpt_bitmap := bm, mtt_buddy := bd\<rparr>" using rest by simp
    then show ?thesis by simp
  next
    case False
    then obtain seg where "mlx4_alloc_mtt_range env (t\<lparr>mpt_bitmap := bm, mtt_buddy := bd\<rparr>) (fls (cap_reserved_mtts caps - 1)) = Some (seg, t0)"
      using rest by auto
    then show ?thesis using alloc_mtt_frame env by fastforce
  qed
  then have "mr_ok base t0 L" using L(1) dm mpt_bitmap_booted[OF p(1) pow bm] by (simp add: mr_ok_def)
  then show thesis using that L by blast
qed

lemma mr_release_ok:
  assumes wf: "bm_wf b" and h: "mlx4_bitmap_alloc b = (h, b1)" "h \<noteq> -1"
  shows "bm_wf (mlx4_bitmap_free b1 h)" "bm_used (mlx4_bitmap_free b1 h) = bm_used b"
    "bm_avail (mlx4_bitmap_free b1 h) = bm_avail b" "bm_max (mlx4_bitmap_free b1 h) = bm_max b"
proof -
  note g = mlx4_bitmap_alloc_fresh[OF wf h]
  have hu: "bm_idx b1 h \<in> bm_used b1" using g(1,2,4) by (simp add: bm_idx_def)
  note f = mlx4_bitmap_free_props[OF g(3) hu]
  show "bm_wf (mlx4_bitmap_free b1 h)" "bm_max (mlx4_bitmap_free b1 h) = bm_max b" using f(2,3) g(4) by simp_all
  show "bm_used (mlx4_bitmap_free b1 h) = bm_used b" using f(1) g(1,2,4) by (auto simp: bm_idx_def)
  have "unat (bm_avail (mlx4_bitmap_free b1 h)) = unat (bm_avail b)" using f(5) g(6,7) by linarith
  then show "bm_avail (mlx4_bitmap_free b1 h) = bm_avail b" by (rule unsigned_word_eqI)
qed

lemma mr_enable_ok:
  assumes "mlx4_mr_enable caps env t mr = (None, mpt, mr', t')" "\<not> me_slave env"
  shows "mr' = mr\<lparr>mr_enabled := True\<rparr>" "mpt = Some (mpt_of_mr caps mr)"
    "\<exists>tab. mlx4_table_get (me_dmpt env) (dmpt_table t) (key_to_hw_index (mr_key mr)) = (None, tab) \<and> t' = t\<lparr>dmpt_table := tab\<rparr>"
  using assms by (auto simp: mlx4_mr_enable_def mlx4_mr_alloc_icm_def split: if_splits option.splits prod.splits)

lemma mr_roundtrip_lemma:
  assumes M: "mr_ok base t L" and env: "\<not> me_slave env1" "\<not> me_slave env2" "\<not> me_slave env3" and p: "pages_ok caps npages"
    and a: "mlx4_mr_alloc caps env1 t pd iova sz access npages ps mr = Some (None, mr1, t1)"
    and e: "mlx4_mr_enable caps env2 t1 mr1 = (None, mpt, mr2, t2)"
  obtains t3 where "mlx4_mr_free env3 t2 mr2 = Some t3" "mr_ok base t3 L" "mr_same t t3"
proof (cases rule: mr_alloc_outcome[OF M env(1) p, of pd iova sz access ps mr])
  case (1 e mr' t')
  then show thesis using a by simp
next
  case (2 mr' t')
  then have eq: "mr' = mr1" "t' = t1" using a by simp_all
  let ?h = "key_to_hw_index (mr_key mr1)"
  from mr_enable_ok[OF e env(2)] obtain tab where
    en: "mr2 = mr1\<lparr>mr_enabled := True\<rparr>" "mlx4_table_get (me_dmpt env2) (dmpt_table t) ?h = (None, tab)"
      "t2 = t1\<lparr>dmpt_table := tab\<rparr>" using 2(8) eq by auto
  have dm: "icm_ok (dmpt_table t)" and wf: "bm_wf (mpt_bitmap t)" and mx: "it_num_obj (dmpt_table t) = bm_max (mpt_bitmap t)"
    and I0: "mtt_inv base t L" using M by (simp_all add: mr_ok_def)
  from table_get_put[OF dm en(2)] obtain v where
    v: "mlx4_table_put tab ?h = Some v" "it_icm v = it_icm (dmpt_table t)" "icm_ok v" "it_num_obj v = it_num_obj (dmpt_table t)" .
  have "mtt_inv base t2 (mtt_block (mr_mtt mr1) \<union> L)" using 2(3) eq en(3) by (simp add: mr_ok_def mtt_inv_def)
  from mtt_cleanup_outcome[OF this 2(2)[unfolded eq] env(3) 2(10)[unfolded eq]] obtain t4 where
    c: "mlx4_mtt_cleanup env3 t2 (mr_mtt mr1) = Some t4" "mtt_inv base t4 L" "mpt_bitmap t4 = mpt_bitmap t2"
      "dmpt_table t4 = dmpt_table t2" "same_geom (mtt_table t4) (mtt_table t2)" .
  note rel = mr_release_ok[OF wf 2(6,7)[unfolded eq]]
  let ?t3 = "t4\<lparr>mpt_bitmap := mlx4_bitmap_free (mpt_bitmap t1) ?h, dmpt_table := v\<rparr>"
  have "mlx4_mr_free env3 t2 mr2 = Some ?t3"
    using c env(3) en v(1) by (simp add: mlx4_mr_free_def mlx4_mr_release_def mlx4_mr_free_icm_def Let_def)
  moreover have "mr_ok base ?t3 L" using c(2) rel v(3,4) mx by (simp add: mr_ok_def mtt_inv_def)
  moreover have "same_geom (mtt_table t4) (mtt_table t)" using c(5) 2(9) eq en(3) by (simp add: same_geom_def)
  from no_runs_no_refs[OF c(2) I0 this] have "mr_same t ?t3" using rel v(2) by (simp add: mr_same_def)
  ultimately show thesis by (rule that)
qed

declare mtt_order_loop.simps [code] icm_get_loop.simps [code] icm_undo_loop.simps [code]
  icm_put_loop.simps [code] icm_reserve_loop.simps [code]

definition ex_icm_env :: icm_env where
  "ex_icm_env = \<lparr>env_alloc = (\<lambda>i n. True), env_map = (\<lambda>i. True)\<rparr>"

definition ex_mr_env :: mr_env where
  "ex_mr_env = \<lparr>me_slave = False, me_barred = False, me_alloc_res = (\<lambda>r p x. (None, 0)), me_mtt = ex_icm_env,
     me_dmpt = ex_icm_env, me_mailbox = None, me_sw2hw = None\<rparr>"

definition ex_caps :: mlx4_caps where
  "ex_caps = \<lparr>cap_num_mpts = 16, cap_mtts_per_seg = 1, cap_mtt_entry_sz = 0x10000, cap_num_mtt_segs = 8,
     cap_reserved_mtts = 1, cap_reserved_mrws = 1, cap_fexch_qps = 1\<rparr>"

definition ex_mr_mem :: mr_mem where
  "ex_mr_mem = \<lparr>mm_bitmap = True, mm_bits = True, mm_num_free = True, mm_kmalloc = ex_kmalloc\<rparr>"

definition ex_table :: "u32 \<Rightarrow> u32 option list \<Rightarrow> icm_cmd list \<Rightarrow> mlx4_icm_table" where
  "ex_table n icm log = \<lparr>it_virt = 0, it_num_icm = n div 4, it_num_obj = n, it_obj_size = 0x10000, it_icm = icm, it_log = log\<rparr>"

definition ex_mr_table :: mlx4_mr_table where
  "ex_mr_table =
     \<lparr>mpt_bitmap = \<lparr>bm_last = 0, bm_top = 0, bm_max = 16, bm_effective_max = 14, bm_mask = -1, bm_avail = 13, bm_table = [1]\<rparr>,
      mtt_buddy = \<lparr>mb_bits = [[2], [2], [2], [0]], mb_num_free = [1, 1, 1, 0], mb_max_order = 3\<rparr>,
      mtt_table = ex_table 8 [Some 2, None] [MAP_ICM 0], dmpt_table = ex_table 16 [Some 1, None, None, None] [MAP_ICM 0]\<rparr>"

definition ex_mr :: mlx4_mr where
  "ex_mr = \<lparr>mr_mtt = \<lparr>mtt_first_seg = 0, mtt_order = 0, mtt_page_shift = 0\<rparr>, mr_iova = 0, mr_size = 0, mr_key = 0,
     mr_pd = 0, mr_access = 0, mr_enabled = False\<rparr>"

definition ex_mr_table0 :: mlx4_mr_table where
  "ex_mr_table0 = \<lparr>mpt_bitmap = ex_bitmap, mtt_buddy = ex_mlx4_buddy, mtt_table = ex_table 8 [Some 1, None] [MAP_ICM 0],
      dmpt_table = ex_table 16 [Some 1, None, None, None] [MAP_ICM 0]\<rparr>"

lemma ex_booted: "mr_booted ex_caps ex_mr_table"
proof -
  have rep: "replicate 2 x = [x, x]" "replicate 4 x = [x, x, x, x]" for x :: "u32 option"
    by (simp_all add: numeral_2_eq_2 numeral_eq_Suc)
  have i: "mlx4_init_icm_table True ex_icm_env 0 0x10000 8 1 = Some (None, mtt_table ex_mr_table0)"
    "mlx4_init_icm_table True ex_icm_env 0 0x10000 16 1 = Some (None, dmpt_table ex_mr_table0)"
    by (simp_all add: mlx4_init_icm_table_def MLX4_TABLE_CHUNK_SIZE_def ex_icm_env_def ex_mr_table0_def ex_table_def rep
        icm_reserve_loop.simps[where i = 0] icm_reserve_loop.simps[where i = "Suc 0"])
  have m: "mlx4_init_mr_table ex_caps ex_mr_mem ex_mr_env ex_mr_table0 = Some (None, ex_mr_table)" by code_simp
  have p: "icm_params 0x10000 8 1" "icm_params 0x10000 16 1"
    by (simp_all add: icm_params_def is_power_of_2_def MLX4_TABLE_CHUNK_SIZE_def)
  have k: "kmalloc_ok (mm_kmalloc ex_mr_mem)" "\<not> me_slave ex_mr_env" "mpt_params ex_caps"
    by (simp_all add: kmalloc_ok_def ex_mr_mem_def ex_kmalloc_def ex_mr_env_def mpt_params_def ex_caps_def)
  have c: "cap_mtt_entry_sz ex_caps = 0x10000" "cap_num_mtt_segs ex_caps = 8" "cap_reserved_mtts ex_caps = 1"
    "cap_num_mpts ex_caps = 16" "cap_reserved_mrws ex_caps = 1" by (simp_all add: ex_caps_def)
  have "unat (8 :: u32) \<le> 2 ^ 30" by simp
  then show ?thesis unfolding mr_booted_def c using i m p k by blast
qed

section \<open>Properties\<close>






definition ex_mr1 :: mlx4_mr where
  "ex_mr1 = \<lparr>mr_mtt = \<lparr>mtt_first_seg = 2, mtt_order = 1, mtt_page_shift = 12\<rparr>, mr_iova = 0, mr_size = 0x2000, mr_key = 256,
     mr_pd = 5, mr_access = 0, mr_enabled = False\<rparr>"

definition ex_mr_table1 :: mlx4_mr_table where
  "ex_mr_table1 =
     \<lparr>mpt_bitmap = \<lparr>bm_last = 2, bm_top = 0, bm_max = 16, bm_effective_max = 14, bm_mask = -1, bm_avail = 12, bm_table = [3]\<rparr>,
      mtt_buddy = \<lparr>mb_bits = [[2], [0], [2], [0]], mb_num_free = [1, 0, 1, 0], mb_max_order = 3\<rparr>,
      mtt_table = ex_table 8 [Some 3, None] [MAP_ICM 0], dmpt_table = ex_table 16 [Some 1, None, None, None] [MAP_ICM 0]\<rparr>"


text \<open>C36. \<open>mlx4_mr_free\<close> gives up a reference on the protection table that only a successful
  \<open>mlx4_mr_enable\<close> takes: freeing a region that was allocated but never enabled
  dereferences a null chunk when no other region keeps that chunk present.\<close>

theorem mr_free_unenabled:
  assumes "mr_ok base t L" "\<not> me_slave env" "pages_ok caps npages"
    "mlx4_mr_alloc caps env t pd iova sz access npages ps mr = Some (None, mr1, t1)"
    "\<not> backed (dmpt_table t) (unat (key_to_hw_index (mr_key mr1)))"
  shows "mlx4_mr_free env t1 mr1 = None"
proof (cases rule: mr_alloc_outcome[OF assms(1-3), of pd iova sz access ps mr])
  case (1 e mr' t')
  then show ?thesis using assms(4) by simp
next
  case (2 mr' t')
  then have eq: "mr' = mr1" "t' = t1" using assms(4) by simp_all
  have "mtt_inv base t1 (mtt_block (mr_mtt mr1) \<union> L)" using 2(3) eq by (simp add: mr_ok_def)
  from mtt_cleanup_outcome[OF this 2(2)[unfolded eq] assms(2) 2(10)[unfolded eq]] obtain t4 where
    c: "mlx4_mtt_cleanup env t1 (mr_mtt mr1) = Some t4" "dmpt_table t4 = dmpt_table t1" by metis
  have "mlx4_table_put (dmpt_table t) (key_to_hw_index (mr_key mr1)) = None"
    using assms(5) by (simp add: mlx4_table_put_def backed_def Let_def)
  then show ?thesis using c 2(8) eq assms(2)
    by (simp add: mlx4_mr_free_def mlx4_mr_release_def mlx4_mr_free_icm_def Let_def)
qed

theorem mr_free_unenabled_witness:
  "\<exists>base t L mr1 t1. mr_ok base t L \<and> mlx4_mr_alloc ex_caps ex_mr_env t 5 0 0x2000 0 2 12 ex_mr = Some (None, mr1, t1) \<and>
     mlx4_mr_free ex_mr_env t1 mr1 = None"
proof -
  define t where "t = ex_mr_table\<lparr>mpt_bitmap := \<lparr>bm_last = 4, bm_top = 0, bm_max = 16, bm_effective_max = 14, bm_mask = -1,
      bm_avail = 10, bm_table = [0xF]\<rparr>\<rparr>"
  define t1 where "t1 = ex_mr_table1\<lparr>mpt_bitmap := \<lparr>bm_last = 5, bm_top = 0, bm_max = 16, bm_effective_max = 14, bm_mask = -1,
      bm_avail = 9, bm_table = [0x1F]\<rparr>\<rparr>"
  define mr1 where "mr1 = ex_mr1\<lparr>mr_key := 0x400\<rparr>"
  obtain base L where m0: "mr_ok base ex_mr_table L" using mr_booted_ok[OF ex_booted] by blast
  have "bm_wf (mpt_bitmap t)" unfolding t_def by (simp add: bm_wf_def bm_shape_def is_power_of_2_def prefix_ok_def) code_simp
  then have m: "mr_ok base t L" using m0 by (simp add: mr_ok_def mtt_inv_def t_def ex_mr_table_def)
  have e: "\<not> me_slave ex_mr_env" by (simp add: ex_mr_env_def)
  have p: "pages_ok ex_caps 2" by (simp add: pages_ok_def ex_caps_def)
  have a: "mlx4_mr_alloc ex_caps ex_mr_env t 5 0 0x2000 0 2 12 ex_mr = Some (None, mr1, t1)"
    unfolding t_def t1_def mr1_def by code_simp
  have "\<not> backed (dmpt_table t) (unat (key_to_hw_index (mr_key mr1)))" unfolding t_def mr1_def by code_simp
  from mr_free_unenabled[OF m e p a this] m a show ?thesis by blast
qed

text \<open>C29. For a power-of-two number of entries per segment the loop of \<open>mlx4_mtt_init\<close> that finds
  the order ends exactly when at most \<open>2^30\<close> pages are asked for (beyond, the counter is
  shifted out of the \<open>int\<close> and the loop never ends), and then its result is the least
  order with room for the pages.\<close>

theorem mtt_order_terminates:
  assumes "k \<le> 30" "0 < unat npages" "unat npages < 2 ^ 31"
  shows "(mtt_order_loop (2 ^ k) npages 0 \<noteq> None \<longleftrightarrow> unat npages \<le> 2 ^ 30) \<and>
    (\<forall>order. mtt_order_loop (2 ^ k) npages 0 = Some order \<longrightarrow>
       unat npages \<le> 2 ^ (k + order) \<and> (\<forall>o' < order. 2 ^ (k + o') < unat npages))"
proof (cases "unat npages \<le> 2 ^ 30")
  case True
  have u: "unat (2 ^ k :: u32) = 2 ^ k" using assms(1) by simp
  have "(2::nat) ^ k < 2 ^ 31" using assms(1) by (intro power_strict_increasing) auto
  then obtain d where "mtt_order_loop (2 ^ k) npages 0 = Some d" "unat npages \<le> 2 ^ k * 2 ^ d" "\<forall>d' < d. 2 ^ k * 2 ^ d' < unat npages"
    using order_loop_some[of "2 ^ k" npages 0] u True by auto
  then show ?thesis using True by (simp add: power_add)
next
  case False
  then have "mtt_order_loop (2 ^ k) npages 0 = None" using order_loop_diverges[OF assms(1)] assms(3) by simp
  then show ?thesis using False by simp
qed

theorem mtt_order_terminates_witness:
  "mtt_order_loop (2 ^ 3) 100 0 \<noteq> None \<and> mtt_order_loop (2 ^ 3) 0x40000001 0 = None"
proof -
  have "mtt_order_loop (2 ^ 3) 100 0 \<noteq> None \<longleftrightarrow> unat (100 :: u32) \<le> 2 ^ 30"
    by (rule mtt_order_terminates[THEN conjunct1]) simp_all
  moreover have "mtt_order_loop (2 ^ 3) 0x40000001 0 \<noteq> None \<longleftrightarrow> unat (0x40000001 :: u32) \<le> 2 ^ 30"
    by (rule mtt_order_terminates[THEN conjunct1]) simp_all
  ultimately show ?thesis by simp
qed

section \<open>Mapping and unmapping of fast regions\<close>

lemma and_mask_add:
  assumes "is_power_of_2 m"
  shows "(x + m) AND (m - 1) = x AND (m - 1 :: u32)"
proof -
  obtain k where k: "k < 32" "m = 2 ^ k" using assms by (auto simp: is_power_of_2_iff)
  have d: "(2 :: nat) ^ k dvd 2 ^ 32" using k(1) by (intro le_imp_power_dvd) simp
  have "unat (x + m) = (unat x + 2 ^ k) mod 2 ^ 32" using k by (simp add: unat_word_ariths)
  then have "unat (x + m) mod 2 ^ k = unat x mod 2 ^ k" using d by (simp add: mod_mod_cancel)
  then have "take_bit k (x + m) = take_bit k x"
    by (simp add: word_unat_eq_iff unsigned_take_bit_eq) (simp only: take_bit_eq_mod)
  then show ?thesis using k by (simp add: and_pow2_minus_one)
qed

lemma fmr_write_mtts_nth:
  assumes "n \<le> length mtts"
  shows "length (fmr_write_mtts mtts pl n) = length mtts"
    and "i < length mtts \<Longrightarrow> fmr_write_mtts mtts pl n ! i = (if i < n then pl ! i OR MLX4_MTT_FLAG_PRESENT else mtts ! i)"
proof -
  have "length (fmr_write_mtts mtts pl n) = length mtts \<and>
    (\<forall>i < length mtts. fmr_write_mtts mtts pl n ! i = (if i < n then pl ! i OR MLX4_MTT_FLAG_PRESENT else mtts ! i))"
    using assms
  proof (induction n)
    case (Suc n)
    have "fmr_write_mtts mtts pl (Suc n) = (fmr_write_mtts mtts pl n)[n := pl ! n OR MLX4_MTT_FLAG_PRESENT]"
      by (simp add: fmr_write_mtts_def)
    then show ?case using Suc by (auto simp: nth_list_update less_Suc_eq)
  qed (simp add: fmr_write_mtts_def)
  then show "length (fmr_write_mtts mtts pl n) = length mtts"
    "i < length mtts \<Longrightarrow> fmr_write_mtts mtts pl n ! i = (if i < n then pl ! i OR MLX4_MTT_FLAG_PRESENT else mtts ! i)" by auto
qed

lemma fmr_write_mtts_length [simp]: "length (fmr_write_mtts mtts pl n) = length mtts"
  unfolding fmr_write_mtts_def by (induction n) simp_all

inductive fmr_trace :: "mlx4_caps \<Rightarrow> mlx4_fmr \<Rightarrow> mlx4_fmr \<Rightarrow> bool" for caps f0 where
  fmr_start: "fmr_trace caps f0 f0"
| fmr_map: "fmr_trace caps f0 f \<Longrightarrow> mlx4_map_phys_fmr caps f pl n iova = Inr f' \<Longrightarrow> fmr_trace caps f0 f'"
| fmr_map_fbo: "fmr_trace caps f0 f \<Longrightarrow> mlx4_map_phys_fmr_fbo caps f pl n iova fbo len same = Inr f' \<Longrightarrow> fmr_trace caps f0 f'"
| fmr_unmap: "fmr_trace caps f0 f \<Longrightarrow> fmr_trace caps f0 (mlx4_fmr_unmap caps f)"

text \<open>The protection entry's status byte and index, and the mapping budget.\<close>

definition fmr_inv :: "mlx4_caps \<Rightarrow> mlx4_fmr \<Rightarrow> mlx4_fmr \<Rightarrow> bool" where
  "fmr_inv caps f0 f \<longleftrightarrow>
     key_to_hw_index (mr_key (fmr_mr f)) AND (cap_num_mpts caps - 1) =
       key_to_hw_index (mr_key (fmr_mr f0)) AND (cap_num_mpts caps - 1) \<and>
     0 \<le> sint (fmr_maps f) \<and> sint (fmr_maps f) \<le> sint (fmr_max_maps f) \<and>
     (fmr_maps f \<noteq> 0 \<longrightarrow> mpt_key (fmr_mpt f) = key_to_hw_index (mr_key (fmr_mr f)) \<and> mpt_flags (fmr_mpt f) AND 0xFF000000 = 0) \<and>
     length (fmr_mtts f) = length (fmr_mtts f0) \<and> fmr_max_maps f = fmr_max_maps f0 \<and> mr_mtt (fmr_mr f) = mr_mtt (fmr_mr f0)"

lemma sint_succ:
  fixes w v :: u32
  assumes "sint w < sint v" "0 \<le> sint w"
  shows "sint (w + 1) = sint w + 1"
proof -
  have "sint v < 2 ^ (LENGTH(32) - 1)" using sint_lt[of v] by simp
  then have "sint w + 1 < 2 ^ 31" using assms(1) by simp
  moreover have "- (2 ^ 31) \<le> sint w + 1" using assms(2) by simp
  ultimately have "signed_take_bit 31 (sint w + 1) = sint w + 1" by (intro signed_take_bit_int_eq_self)
  then show ?thesis by (simp add: sint_word_ariths)
qed

lemma fmr_trace_inv:
  assumes "fmr_trace caps f0 f" "is_power_of_2 (cap_num_mpts caps)" "fmr_maps f0 = 0" "0 \<le> sint (fmr_max_maps f0)"
  shows "fmr_inv caps f0 f"
  using assms
proof (induction rule: fmr_trace.induct)
  case fmr_start
  then show ?case by (simp add: fmr_inv_def)
next
  case (fmr_map f pl n iova f')
  then have I: "fmr_inv caps f0 f" by blast
  have c: "mlx4_check_fmr f n iova = None" using fmr_map.hyps(2) by (auto simp: mlx4_map_phys_fmr_def Let_def split: option.splits)
  then have lt: "sint (fmr_maps f) < sint (fmr_max_maps f)" by (simp add: mlx4_check_fmr_def split: if_splits)
  from sint_succ[OF lt] I have "sint (fmr_maps f + 1) = sint (fmr_maps f) + 1" by (simp add: fmr_inv_def)
  then show ?case using I lt fmr_map.hyps(2) fmr_map.prems(1) c
    by (auto simp: mlx4_map_phys_fmr_def Let_def fmr_inv_def hw_index_roundtrip and_mask_add mpt_set_status_def and.assoc)
next
  case (fmr_map_fbo f pl n iova fbo len same f')
  then have I: "fmr_inv caps f0 f" by blast
  have c: "mlx4_check_fmr f n iova = None" using fmr_map_fbo.hyps(2) by (auto simp: mlx4_map_phys_fmr_fbo_def Let_def split: option.splits)
  then have lt: "sint (fmr_maps f) < sint (fmr_max_maps f)" by (simp add: mlx4_check_fmr_def split: if_splits)
  from sint_succ[OF lt] I have "sint (fmr_maps f + 1) = sint (fmr_maps f) + 1" by (simp add: fmr_inv_def)
  then show ?case using I lt fmr_map_fbo.hyps(2) fmr_map_fbo.prems(1) c
    by (auto simp: mlx4_map_phys_fmr_fbo_def Let_def fmr_inv_def hw_index_roundtrip and_mask_add mpt_set_status_def and.assoc)
next
  case (fmr_unmap f)
  then have I: "fmr_inv caps f0 f" by blast
  then show ?case by (auto simp: mlx4_fmr_unmap_def Let_def fmr_inv_def hw_index_roundtrip and.assoc)
qed

text \<open>C21. Over any sequence of successful fast-region mappings (of either kind) and unmappings the
  region keeps its slot of the protection table (the index bits of its key), it is never mapped
  more often than its budget, and while it is mapped the protection entry carries the
  region's current index and a status byte that hands it to the device.\<close>

theorem fmr_history:
  assumes "fmr_trace caps f0 f" "is_power_of_2 (cap_num_mpts caps)" "fmr_maps f0 = 0" "0 \<le> sint (fmr_max_maps f0)"
  shows "fmr_inv caps f0 f"
  using fmr_trace_inv[OF assms] .

definition ex_fmr :: mlx4_fmr where
  "ex_fmr = \<lparr>fmr_mr = ex_mr1, fmr_mpt = mpt_of_mr ex_caps ex_mr1, fmr_mtts = [0, 0], fmr_max_pages = 2, fmr_max_maps = 4,
     fmr_maps = 0, fmr_page_shift = 12\<rparr>"

theorem fmr_history_witness:
  "\<exists>f. fmr_trace ex_caps ex_fmr f \<and> fmr_maps f = 1 \<and> fmr_inv ex_caps ex_fmr f"
proof -
  let ?f = "projr (mlx4_map_phys_fmr ex_caps ex_fmr [0x5000, 0x9000] 2 0x10000)"
  have m: "mlx4_map_phys_fmr ex_caps ex_fmr [0x5000, 0x9000] 2 0x10000 = Inr ?f" by code_simp
  have t: "fmr_trace ex_caps ex_fmr ?f" by (rule fmr_map[OF fmr_start m])
  have "fmr_maps ?f = 1" by code_simp
  moreover have "fmr_inv ex_caps ex_fmr ?f"
    by (rule fmr_history[OF t]) (simp_all add: ex_caps_def ex_fmr_def is_power_of_2_def)
  ultimately show ?thesis using t by blast
qed

lemma page_mask_dvd:
  assumes "k < 32"
  shows "iova AND scast (push_bit k 1 - 1 :: u32) = (0 :: u64) \<longleftrightarrow> 2 ^ k dvd unat iova"
proof -
  have m: "push_bit k 1 - 1 = (mask k :: u32)" by (simp add: push_bit_of_1 mask_eq_exp_minus_1)
  have "(scast (mask k :: u32) :: u64) = mask k"
    by (rule bit_word_eqI) (use assms in \<open>auto simp: bit_signed_iff bit_mask_iff min_def\<close>)
  then have "iova AND scast (push_bit k 1 - 1 :: u32) = take_bit k iova" unfolding m by (simp add: take_bit_eq_mask)
  moreover have "take_bit k iova = 0 \<longleftrightarrow> take_bit k (unat iova) = 0" by (simp add: word_unat_eq_iff unsigned_take_bit_eq)
  ultimately show ?thesis by (simp only: take_bit_eq_mod dvd_eq_mod_eq_0)
qed

text \<open>C31. For a page size below \<open>2^32\<close> and a table with room for the pages, a mapping request is refused exactly when it has more pages than the
  region allows, an address that is not a multiple of the page size or an exhausted budget; otherwise the
  region's index advances by the size of the protection table, the first \<open>npages\<close>
  translation entries become the pages with the present bit and every other entry is kept, and
  the protection entry gets the new index as both of its keys, the address, the length and a status byte of zero, which hands it to
  the device; nothing else changes.\<close>

theorem map_phys_fmr_correct:
  assumes "int_count npages \<le> length (fmr_mtts fmr)" "fmr_page_shift fmr < 32"
  shows "case mlx4_map_phys_fmr caps fmr pl npages iova of
      Inl err \<Rightarrow> err = EINVAL \<and> (sint (fmr_max_pages fmr) < sint npages \<or> \<not> 2 ^ fmr_page_shift fmr dvd unat iova \<or>
        sint (fmr_max_maps fmr) \<le> sint (fmr_maps fmr))
    | Inr fmr' \<Rightarrow>
        sint npages \<le> sint (fmr_max_pages fmr) \<and> 2 ^ fmr_page_shift fmr dvd unat iova \<and> sint (fmr_maps fmr) < sint (fmr_max_maps fmr) \<and>
        (let index = key_to_hw_index (mr_key (fmr_mr fmr)) + cap_num_mpts caps
         in fmr' = fmr\<lparr>fmr_maps := fmr_maps fmr + 1, fmr_mr := (fmr_mr fmr)\<lparr>mr_key := mr_key (fmr_mr fmr')\<rparr>,
              fmr_mtts := fmr_mtts fmr',
              fmr_mpt := (fmr_mpt fmr)\<lparr>mpt_flags := mpt_flags (fmr_mpt fmr) AND 0x00FFFFFF, mpt_key := index, mpt_lkey := index,
                mpt_start := iova, mpt_length := scast npages * 2 ^ fmr_page_shift fmr\<rparr>\<rparr> \<and>
            key_to_hw_index (mr_key (fmr_mr fmr')) = index \<and>
            length (fmr_mtts fmr') = length (fmr_mtts fmr) \<and>
            (\<forall>i < length (fmr_mtts fmr). fmr_mtts fmr' ! i =
               (if i < int_count npages then pl ! i OR MLX4_MTT_FLAG_PRESENT else fmr_mtts fmr ! i)))"
proof (cases "mlx4_check_fmr fmr npages iova")
  case None
  then have c: "sint npages \<le> sint (fmr_max_pages fmr)" "2 ^ fmr_page_shift fmr dvd unat iova" "sint (fmr_maps fmr) < sint (fmr_max_maps fmr)"
    using page_mask_dvd[OF assms(2), of iova] by (auto simp: mlx4_check_fmr_def split: if_splits)
  show ?thesis using None c fmr_write_mtts_nth[OF assms(1), where pl = pl]
    by (simp add: mlx4_map_phys_fmr_def Let_def hw_index_roundtrip mpt_set_status_def push_bit_of_1 bit.conj_disj_distrib2 and.assoc)
next
  case (Some err)
  then show ?thesis using page_mask_dvd[OF assms(2), of iova] by (auto simp: mlx4_map_phys_fmr_def mlx4_check_fmr_def split: if_splits)
qed

theorem map_phys_fmr_correct_witness:
  "fmr_mtts (projr (mlx4_map_phys_fmr ex_caps ex_fmr [0x5000] 1 0x10000)) = [0x5001, 0]"
proof -
  let ?r = "mlx4_map_phys_fmr ex_caps ex_fmr [0x5000] 1 0x10000"
  have c: "int_count 1 = 1" by (simp add: int_count_def)
  have m: "?r = Inr (projr ?r)" by code_simp
  have "int_count 1 \<le> length (fmr_mtts ex_fmr)" "fmr_page_shift ex_fmr < 32" by (simp_all add: c ex_fmr_def)
  from map_phys_fmr_correct[OF this, where caps = ex_caps and pl = "[0x5000]" and iova = "0x10000"]
  have "length (fmr_mtts (projr ?r)) = length (fmr_mtts ex_fmr) \<and> (\<forall>i < length (fmr_mtts ex_fmr). fmr_mtts (projr ?r) ! i =
      (if i < int_count 1 then [0x5000] ! i OR MLX4_MTT_FLAG_PRESENT else fmr_mtts ex_fmr ! i))"
    by (subst (asm) m) (unfold sum.case sum.sel Let_def, blast)
  then have "length (fmr_mtts (projr ?r)) = 2" "fmr_mtts (projr ?r) ! 0 = 0x5001" "fmr_mtts (projr ?r) ! 1 = 0"
    by (simp_all add: c ex_fmr_def MLX4_MTT_FLAG_PRESENT_def)
  then show ?thesis by (intro nth_equalityI) (auto simp: less_Suc_eq numeral_2_eq_2)
qed

end
