(* ===== verification/Hca_Profile.thy ===== *)
theory Hca_Profile
  imports Icm_Table Mtt_Buddy "HOL-Library.Multiset"
begin

text \<open>
  The layout of the adapter's context memory (\<open>hw/mlx4/kernel/bus/net/profile.c\<close> and
  \<open>hw/mthca/kernel/mthca_profile.c\<close>): entry sizes and counts per resource, the sort by decreasing
  size, the packing, and the hand-over to the \<open>INIT_HCA\<close> parameters.  Both files have the
  same sorting and packing loops; they are modelled once.  A result \<open>None\<close> of an operation
  is a loop that never ends, \<open>Inl\<close> an error return.
\<close>

section \<open>Sorting and packing\<close>

record 't hca_resource =
  rs_size :: u64
  rs_start :: u64
  rs_type :: 't
  rs_num :: u32
  rs_log_num :: int

definition PAGE_SIZE :: u64 where
  "PAGE_SIZE = 0x1000"

text \<open>One pass of the exchange sort, \<open>for (j = 1; j < i; ++j)\<close>, and the outer loop.\<close>

function sort_pass :: "'t hca_resource list \<Rightarrow> nat \<Rightarrow> nat \<Rightarrow> 't hca_resource list" where
  "sort_pass p j i =
     (if j < i
      then sort_pass (if rs_size (p ! (j - 1)) < rs_size (p ! j) then p[j := p ! (j - 1), j - 1 := p ! j] else p) (Suc j) i
      else p)"
  by pat_completeness auto
termination
  by (relation "measure (\<lambda>(p, j, i). i - j)") auto

declare sort_pass.simps [simp del]

fun sort_loop :: "'t hca_resource list \<Rightarrow> nat \<Rightarrow> 't hca_resource list" where
  "sort_loop p 0 = p"
| "sort_loop p (Suc i) = sort_loop (sort_pass p 1 (Suc i)) i"

text \<open>The packing loop; \<open>None\<close> is the \<open>-ENOMEM\<close> return.\<close>

fun pack_loop ::
  "u64 \<Rightarrow> u64 \<Rightarrow> u64 \<Rightarrow> 't hca_resource list \<Rightarrow> ('t hca_resource list \<times> u64) option" where
  "pack_loop base avail tot [] = Some ([], tot)"
| "pack_loop base avail tot (r # rs) =
     (let (r, tot) = (if rs_size r \<noteq> 0 then (r\<lparr>rs_start := base + tot\<rparr>, tot + rs_size r) else (r, tot))
      in if avail < tot then None
         else map_option (\<lambda>(rs, tot). (r # rs, tot)) (pack_loop base avail tot rs))"

section \<open>The ConnectX profile\<close>

datatype mlx4_res = MLX4_RES_QP | MLX4_RES_RDMARC | MLX4_RES_ALTC | MLX4_RES_AUXC | MLX4_RES_SRQ | MLX4_RES_CQ
  | MLX4_RES_EQ | MLX4_RES_DMPT | MLX4_RES_CMPT | MLX4_RES_MTT | MLX4_RES_MCG

definition mlx4_res_all :: "mlx4_res list" where
  "mlx4_res_all = [MLX4_RES_QP, MLX4_RES_RDMARC, MLX4_RES_ALTC, MLX4_RES_AUXC, MLX4_RES_SRQ, MLX4_RES_CQ,
     MLX4_RES_EQ, MLX4_RES_DMPT, MLX4_RES_CMPT, MLX4_RES_MTT, MLX4_RES_MCG]"

record mlx4_profile =
  pr_num_qp :: u32
  pr_rdmarc_per_qp :: u32
  pr_num_srq :: u32
  pr_num_cq :: u32
  pr_num_mcg :: u32
  pr_num_mpt :: u32
  pr_num_mtt :: u32

record mlx4_dev_cap =
  dc_qpc_entry_sz :: u32
  dc_rdmarc_entry_sz :: u32
  dc_altc_entry_sz :: u32
  dc_aux_entry_sz :: u32
  dc_srq_entry_sz :: u32
  dc_cqc_entry_sz :: u32
  dc_eqc_entry_sz :: u32
  dc_dmpt_entry_sz :: u32
  dc_cmpt_entry_sz :: u32
  dc_mtt_entry_sz :: u32
  dc_reserved_eqs :: u32
  dc_max_eqs :: u32
  dc_max_icm_sz :: u64

text \<open>What else the code reads: whether the function is the master, the number of slaves and
  processors, and the translation entries per segment.\<close>

record mlx4_dev_info =
  di_master :: bool
  di_num_slaves :: u32
  di_cpus :: u32
  di_mtts_per_seg :: u32

text \<open>The fields of the device and of \<open>mlx4_init_hca_param\<close> that the function writes.\<close>

record mlx4_layout =
  lo_num_qps :: u32
  lo_qpc_base :: u64
  lo_log_num_qps :: u8
  lo_rdmarc_shift :: nat
  lo_max_qp_dest_rdma :: u32
  lo_rdmarc_base32 :: u32
  lo_rdmarc_base :: u64
  lo_log_rd_per_qp :: u8
  lo_altc_base :: u64
  lo_auxc_base :: u64
  lo_num_srqs :: u32
  lo_srqc_base :: u64
  lo_log_num_srqs :: u8
  lo_num_cqs :: u32
  lo_cqc_base :: u64
  lo_log_num_cqs :: u8
  lo_num_eqs :: u32
  lo_eqc_base :: u64
  lo_log_num_eqs :: u8
  lo_num_mpts :: u32
  lo_mpt_base :: u64
  lo_dmpt_base :: u64
  lo_log_mpt_sz :: u8
  lo_cmpt_base :: u64
  lo_num_mtt_segs :: u32
  lo_mr_mtt_base :: u64
  lo_mtt_base :: u64
  lo_num_mgms :: u32
  lo_num_amgms :: u32
  lo_mc_base :: u64
  lo_log_mc_entry_sz :: u16
  lo_log_mc_table_sz :: u8
  lo_log_mc_hash_sz :: u16
  lo_num_pds :: u32

definition MLX4_MGM_ENTRY_SIZE :: u32 where "MLX4_MGM_ENTRY_SIZE = 0x200"
definition MLX4_NUM_CMPTS :: u32 where "MLX4_NUM_CMPTS = push_bit 24 4"
definition MLX4_MFUNC_EQ_NUM :: u32 where "MLX4_MFUNC_EQ_NUM = 4"
definition MLX4_NUM_IB_EQ :: u32 where "MLX4_NUM_IB_EQ = 2"
definition MLX4_NUM_PDS :: u32 where "MLX4_NUM_PDS = push_bit 15 1"

text \<open>The entry sizes (\<open>int\<close>, widened to \<open>u64\<close>) and the requested counts.\<close>

fun mlx4_entry_size :: "mlx4_dev_info \<Rightarrow> mlx4_dev_cap \<Rightarrow> mlx4_res \<Rightarrow> u64" where
  "mlx4_entry_size dev cap MLX4_RES_QP = scast (dc_qpc_entry_sz cap)"
| "mlx4_entry_size dev cap MLX4_RES_RDMARC = scast (dc_rdmarc_entry_sz cap)"
| "mlx4_entry_size dev cap MLX4_RES_ALTC = scast (dc_altc_entry_sz cap)"
| "mlx4_entry_size dev cap MLX4_RES_AUXC = scast (dc_aux_entry_sz cap)"
| "mlx4_entry_size dev cap MLX4_RES_SRQ = scast (dc_srq_entry_sz cap)"
| "mlx4_entry_size dev cap MLX4_RES_CQ = scast (dc_cqc_entry_sz cap)"
| "mlx4_entry_size dev cap MLX4_RES_EQ = scast (dc_eqc_entry_sz cap)"
| "mlx4_entry_size dev cap MLX4_RES_DMPT = scast (dc_dmpt_entry_sz cap)"
| "mlx4_entry_size dev cap MLX4_RES_CMPT = scast (dc_cmpt_entry_sz cap)"
| "mlx4_entry_size dev cap MLX4_RES_MTT = scast (di_mtts_per_seg dev * dc_mtt_entry_sz cap)"
| "mlx4_entry_size dev cap MLX4_RES_MCG = scast MLX4_MGM_ENTRY_SIZE"

fun mlx4_entry_num :: "mlx4_dev_info \<Rightarrow> mlx4_profile \<Rightarrow> mlx4_dev_cap \<Rightarrow> mlx4_res \<Rightarrow> u32" where
  "mlx4_entry_num dev req cap MLX4_RES_QP = pr_num_qp req"
| "mlx4_entry_num dev req cap MLX4_RES_RDMARC = pr_num_qp req * pr_rdmarc_per_qp req"
| "mlx4_entry_num dev req cap MLX4_RES_ALTC = pr_num_qp req"
| "mlx4_entry_num dev req cap MLX4_RES_AUXC = pr_num_qp req"
| "mlx4_entry_num dev req cap MLX4_RES_SRQ = pr_num_srq req"
| "mlx4_entry_num dev req cap MLX4_RES_CQ = pr_num_cq req"
| "mlx4_entry_num dev req cap MLX4_RES_EQ =
     (if di_master dev then dc_reserved_eqs cap + MLX4_MFUNC_EQ_NUM * (di_num_slaves dev + 1)
      else min (dc_max_eqs cap) (dc_reserved_eqs cap + di_cpus dev + 1))"
| "mlx4_entry_num dev req cap MLX4_RES_DMPT = pr_num_mpt req"
| "mlx4_entry_num dev req cap MLX4_RES_CMPT = MLX4_NUM_CMPTS"
| "mlx4_entry_num dev req cap MLX4_RES_MTT = pr_num_mtt req"
| "mlx4_entry_num dev req cap MLX4_RES_MCG = pr_num_mcg req"

definition mlx4_entry :: "mlx4_dev_info \<Rightarrow> mlx4_profile \<Rightarrow> mlx4_dev_cap \<Rightarrow> mlx4_res \<Rightarrow> mlx4_res hca_resource" where
  "mlx4_entry dev req cap t =
     (let num = roundup_pow_of_two (mlx4_entry_num dev req cap t)
      in \<lparr>rs_size = max (mlx4_entry_size dev cap t * scast num) PAGE_SIZE, rs_start = 0, rs_type = t,
          rs_num = num, rs_log_num = ilog2 num\<rparr>)"

partial_function (option) qp_shift_loop :: "u32 \<Rightarrow> u32 \<Rightarrow> nat \<Rightarrow> nat option" where
  "qp_shift_loop num_qp num shift =
     (if sint (push_bit shift num_qp) < sint num then qp_shift_loop num_qp num (Suc shift) else Some shift)"

definition mlx4_assign ::
  "mlx4_dev_info \<Rightarrow> mlx4_profile \<Rightarrow> mlx4_dev_cap \<Rightarrow> mlx4_res hca_resource \<Rightarrow> mlx4_layout \<Rightarrow> mlx4_layout option" where
  "mlx4_assign dev req cap r lo =
     (case rs_type r of
        MLX4_RES_QP \<Rightarrow> Some (lo\<lparr>lo_num_qps := rs_num r, lo_qpc_base := rs_start r, lo_log_num_qps := of_int (rs_log_num r)\<rparr>)
      | MLX4_RES_RDMARC \<Rightarrow>
          map_option (\<lambda>shift. lo\<lparr>lo_rdmarc_shift := shift, lo_max_qp_dest_rdma := push_bit shift 1,
              lo_rdmarc_base32 := ucast (rs_start r), lo_rdmarc_base := rs_start r, lo_log_rd_per_qp := of_nat shift\<rparr>)
            (qp_shift_loop (pr_num_qp req) (rs_num r) 0)
      | MLX4_RES_ALTC \<Rightarrow> Some (lo\<lparr>lo_altc_base := rs_start r\<rparr>)
      | MLX4_RES_AUXC \<Rightarrow> Some (lo\<lparr>lo_auxc_base := rs_start r\<rparr>)
      | MLX4_RES_SRQ \<Rightarrow> Some (lo\<lparr>lo_num_srqs := rs_num r, lo_srqc_base := rs_start r, lo_log_num_srqs := of_int (rs_log_num r)\<rparr>)
      | MLX4_RES_CQ \<Rightarrow> Some (lo\<lparr>lo_num_cqs := rs_num r, lo_cqc_base := rs_start r, lo_log_num_cqs := of_int (rs_log_num r)\<rparr>)
      | MLX4_RES_EQ \<Rightarrow>
          Some (lo\<lparr>lo_num_eqs := (if di_master dev
                      then dc_reserved_eqs cap + min MLX4_MFUNC_EQ_NUM (di_cpus dev + MLX4_NUM_IB_EQ) else rs_num r),
                   lo_eqc_base := rs_start r, lo_log_num_eqs := of_int (rs_log_num r)\<rparr>)
      | MLX4_RES_DMPT \<Rightarrow>
          Some (lo\<lparr>lo_num_mpts := rs_num r, lo_mpt_base := rs_start r, lo_dmpt_base := rs_start r,
                   lo_log_mpt_sz := of_int (rs_log_num r)\<rparr>)
      | MLX4_RES_CMPT \<Rightarrow> Some (lo\<lparr>lo_cmpt_base := rs_start r\<rparr>)
      | MLX4_RES_MTT \<Rightarrow> Some (lo\<lparr>lo_num_mtt_segs := rs_num r, lo_mr_mtt_base := rs_start r, lo_mtt_base := rs_start r\<rparr>)
      | MLX4_RES_MCG \<Rightarrow>
          Some (lo\<lparr>lo_num_mgms := signed_drop_bit 1 (rs_num r), lo_num_amgms := signed_drop_bit 1 (rs_num r), lo_mc_base := rs_start r,
                   lo_log_mc_entry_sz := of_int (ilog2 MLX4_MGM_ENTRY_SIZE),
                   lo_log_mc_table_sz := of_int (rs_log_num r), lo_log_mc_hash_sz := of_int (rs_log_num r) - 1\<rparr>))"

fun mlx4_assign_all ::
  "mlx4_dev_info \<Rightarrow> mlx4_profile \<Rightarrow> mlx4_dev_cap \<Rightarrow> mlx4_res hca_resource list \<Rightarrow> mlx4_layout \<Rightarrow> mlx4_layout option" where
  "mlx4_assign_all dev req cap [] lo = Some lo"
| "mlx4_assign_all dev req cap (r # rs) lo =
     (case mlx4_assign dev req cap r lo of None \<Rightarrow> None | Some lo \<Rightarrow> mlx4_assign_all dev req cap rs lo)"

definition mlx4_make_profile ::
  "bool \<Rightarrow> mlx4_dev_info \<Rightarrow> mlx4_profile \<Rightarrow> mlx4_dev_cap \<Rightarrow> mlx4_layout \<Rightarrow> (errno + u64 \<times> mlx4_layout) option" where
  "mlx4_make_profile mem dev req cap lo =
     (if \<not> mem then Some (Inl ENOMEM)
      else let p = map (mlx4_entry dev req cap) mlx4_res_all;
               p = sort_loop p (length p)
           in case pack_loop 0 (dc_max_icm_sz cap) 0 p of
                None \<Rightarrow> Some (Inl ENOMEM)
              | Some (p, tot) \<Rightarrow>
                  map_option (\<lambda>lo. Inr (tot, lo\<lparr>lo_num_pds := MLX4_NUM_PDS\<rparr>)) (mlx4_assign_all dev req cap p lo))"

section \<open>The InfiniHost profile\<close>

datatype mthca_res = MTHCA_RES_QP | MTHCA_RES_EEC | MTHCA_RES_SRQ | MTHCA_RES_CQ | MTHCA_RES_EQP | MTHCA_RES_EEEC
  | MTHCA_RES_EQ | MTHCA_RES_RDB | MTHCA_RES_MCG | MTHCA_RES_MPT | MTHCA_RES_MTT | MTHCA_RES_UAR | MTHCA_RES_UDAV | MTHCA_RES_UARC

definition mthca_res_all :: "mthca_res list" where
  "mthca_res_all = [MTHCA_RES_QP, MTHCA_RES_EEC, MTHCA_RES_SRQ, MTHCA_RES_CQ, MTHCA_RES_EQP, MTHCA_RES_EEEC,
     MTHCA_RES_EQ, MTHCA_RES_RDB, MTHCA_RES_MCG, MTHCA_RES_MPT, MTHCA_RES_MTT, MTHCA_RES_UAR, MTHCA_RES_UDAV, MTHCA_RES_UARC]"

record mthca_profile =
  mp_num_qp :: u32
  mp_rdb_per_qp :: u32
  mp_num_srq :: u32
  mp_num_cq :: u32
  mp_num_mcg :: u32
  mp_num_mpt :: u32
  mp_num_mtt :: u32
  mp_num_udav :: u32
  mp_num_uar :: u32
  mp_uarc_size :: u32
  mp_fmr_reserved_mtts :: u32

record mthca_dev_lim =
  dl_qpc_entry_sz :: u32
  dl_eec_entry_sz :: u32
  dl_srq_entry_sz :: u32
  dl_cqc_entry_sz :: u32
  dl_eqpc_entry_sz :: u32
  dl_eeec_entry_sz :: u32
  dl_eqc_entry_sz :: u32
  dl_mpt_entry_sz :: u32
  dl_uar_scratch_entry_sz :: u32
  dl_max_icm_sz :: u64

record mthca_dev_info =
  ti_memfree :: bool
  ti_ddr_start :: u64
  ti_fw_start :: u64
  ti_win64 :: bool

record mthca_layout =
  tl_num_qps :: u32
  tl_qpc_base :: u64
  tl_log_num_qps :: u8
  tl_num_eecs :: u32
  tl_eec_base :: u64
  tl_log_num_eecs :: u8
  tl_num_srqs :: u32
  tl_srqc_base :: u64
  tl_log_num_srqs :: u8
  tl_num_cqs :: u32
  tl_cqc_base :: u64
  tl_log_num_cqs :: u8
  tl_eqpc_base :: u64
  tl_eeec_base :: u64
  tl_num_eqs :: u32
  tl_eqc_base :: u64
  tl_log_num_eqs :: u8
  tl_rdb_shift :: nat
  tl_rdb_base32 :: u32
  tl_rdb_base :: u64
  tl_num_mgms :: u32
  tl_num_amgms :: u32
  tl_mc_base :: u64
  tl_log_mc_entry_sz :: u16
  tl_log_mc_table_sz :: u8
  tl_mc_hash_sz :: u16
  tl_num_mpts :: u32
  tl_mr_mpt_base :: u64
  tl_mpt_base :: u64
  tl_log_mpt_sz :: u8
  tl_num_mtt_segs :: u32
  tl_mr_mtt_base :: u64
  tl_mtt_base :: u64
  tl_mtt_seg_sz :: u8
  tl_num_uars :: u32
  tl_uar_scratch_base :: u64
  tl_ddr_av_base :: u64
  tl_num_ddr_avs :: u32
  tl_uarc_size :: u32
  tl_uar_uarc_base :: u64
  tl_uarc_base :: u64
  tl_log_uarc_sz :: u8
  tl_log_uar_sz :: u8
  tl_num_pds :: u32
  tl_fmr_reserved_mtts :: u32

definition MTHCA_RDB_ENTRY_SIZE :: u32 where "MTHCA_RDB_ENTRY_SIZE = 0x20"
definition MTHCA_MGM_ENTRY_SIZE :: u32 where "MTHCA_MGM_ENTRY_SIZE = 0x40"
definition MTHCA_MTT_SEG_SIZE :: u32 where "MTHCA_MTT_SEG_SIZE = 0x40"
definition MTHCA_AV_SIZE :: u32 where "MTHCA_AV_SIZE = 0x20"
definition MTHCA_NUM_EQS :: u32 where "MTHCA_NUM_EQS = 32"
definition MTHCA_NUM_PDS :: u32 where "MTHCA_NUM_PDS = push_bit 15 1"

fun mthca_entry_size :: "mthca_profile \<Rightarrow> mthca_dev_lim \<Rightarrow> mthca_res \<Rightarrow> u64" where
  "mthca_entry_size req lim MTHCA_RES_QP = scast (dl_qpc_entry_sz lim)"
| "mthca_entry_size req lim MTHCA_RES_EEC = scast (dl_eec_entry_sz lim)"
| "mthca_entry_size req lim MTHCA_RES_SRQ = scast (dl_srq_entry_sz lim)"
| "mthca_entry_size req lim MTHCA_RES_CQ = scast (dl_cqc_entry_sz lim)"
| "mthca_entry_size req lim MTHCA_RES_EQP = scast (dl_eqpc_entry_sz lim)"
| "mthca_entry_size req lim MTHCA_RES_EEEC = scast (dl_eeec_entry_sz lim)"
| "mthca_entry_size req lim MTHCA_RES_EQ = scast (dl_eqc_entry_sz lim)"
| "mthca_entry_size req lim MTHCA_RES_RDB = scast MTHCA_RDB_ENTRY_SIZE"
| "mthca_entry_size req lim MTHCA_RES_MCG = scast MTHCA_MGM_ENTRY_SIZE"
| "mthca_entry_size req lim MTHCA_RES_MPT = scast (dl_mpt_entry_sz lim)"
| "mthca_entry_size req lim MTHCA_RES_MTT = scast MTHCA_MTT_SEG_SIZE"
| "mthca_entry_size req lim MTHCA_RES_UAR = scast (dl_uar_scratch_entry_sz lim)"
| "mthca_entry_size req lim MTHCA_RES_UDAV = scast MTHCA_AV_SIZE"
| "mthca_entry_size req lim MTHCA_RES_UARC = scast (mp_uarc_size req)"

text \<open>The counts that the code does not set stay 0 from \<open>RtlZeroMemory\<close>.\<close>

fun mthca_entry_num :: "mthca_profile \<Rightarrow> mthca_res \<Rightarrow> u32" where
  "mthca_entry_num req MTHCA_RES_QP = mp_num_qp req"
| "mthca_entry_num req MTHCA_RES_EEC = 0"
| "mthca_entry_num req MTHCA_RES_SRQ = mp_num_srq req"
| "mthca_entry_num req MTHCA_RES_CQ = mp_num_cq req"
| "mthca_entry_num req MTHCA_RES_EQP = mp_num_qp req"
| "mthca_entry_num req MTHCA_RES_EEEC = 0"
| "mthca_entry_num req MTHCA_RES_EQ = MTHCA_NUM_EQS"
| "mthca_entry_num req MTHCA_RES_RDB = mp_num_qp req * mp_rdb_per_qp req"
| "mthca_entry_num req MTHCA_RES_MCG = mp_num_mcg req"
| "mthca_entry_num req MTHCA_RES_MPT = mp_num_mpt req"
| "mthca_entry_num req MTHCA_RES_MTT = mp_num_mtt req"
| "mthca_entry_num req MTHCA_RES_UAR = mp_num_uar req"
| "mthca_entry_num req MTHCA_RES_UDAV = mp_num_udav req"
| "mthca_entry_num req MTHCA_RES_UARC = mp_num_uar req"

definition mthca_entry :: "mthca_dev_info \<Rightarrow> mthca_profile \<Rightarrow> mthca_dev_lim \<Rightarrow> mthca_res \<Rightarrow> mthca_res hca_resource" where
  "mthca_entry dev req lim t =
     (let num = mthca_entry_num req t; sz = mthca_entry_size req lim t * scast num
      in \<lparr>rs_size = (if ti_memfree dev then max sz PAGE_SIZE else sz), rs_start = 0, rs_type = t,
          rs_num = num, rs_log_num = max (int (ffs num) - 1) 0\<rparr>)"

definition mthca_assign ::
  "mthca_profile \<Rightarrow> mthca_res hca_resource \<Rightarrow> mthca_layout \<Rightarrow> mthca_layout option" where
  "mthca_assign req r lo =
     (case rs_type r of
        MTHCA_RES_QP \<Rightarrow> Some (lo\<lparr>tl_num_qps := rs_num r, tl_qpc_base := rs_start r, tl_log_num_qps := of_int (rs_log_num r)\<rparr>)
      | MTHCA_RES_EEC \<Rightarrow> Some (lo\<lparr>tl_num_eecs := rs_num r, tl_eec_base := rs_start r, tl_log_num_eecs := of_int (rs_log_num r)\<rparr>)
      | MTHCA_RES_SRQ \<Rightarrow> Some (lo\<lparr>tl_num_srqs := rs_num r, tl_srqc_base := rs_start r, tl_log_num_srqs := of_int (rs_log_num r)\<rparr>)
      | MTHCA_RES_CQ \<Rightarrow> Some (lo\<lparr>tl_num_cqs := rs_num r, tl_cqc_base := rs_start r, tl_log_num_cqs := of_int (rs_log_num r)\<rparr>)
      | MTHCA_RES_EQP \<Rightarrow> Some (lo\<lparr>tl_eqpc_base := rs_start r\<rparr>)
      | MTHCA_RES_EEEC \<Rightarrow> Some (lo\<lparr>tl_eeec_base := rs_start r\<rparr>)
      | MTHCA_RES_EQ \<Rightarrow> Some (lo\<lparr>tl_num_eqs := rs_num r, tl_eqc_base := rs_start r, tl_log_num_eqs := of_int (rs_log_num r)\<rparr>)
      | MTHCA_RES_RDB \<Rightarrow>
          map_option (\<lambda>shift. lo\<lparr>tl_rdb_shift := shift, tl_rdb_base32 := ucast (rs_start r), tl_rdb_base := rs_start r\<rparr>)
            (qp_shift_loop (mp_num_qp req) (rs_num r) 0)
      | MTHCA_RES_MCG \<Rightarrow>
          Some (lo\<lparr>tl_num_mgms := signed_drop_bit 1 (rs_num r), tl_num_amgms := signed_drop_bit 1 (rs_num r), tl_mc_base := rs_start r,
                   tl_log_mc_entry_sz := of_int (int (ffs MTHCA_MGM_ENTRY_SIZE) - 1),
                   tl_log_mc_table_sz := of_int (rs_log_num r),
                   tl_mc_hash_sz := ucast (push_bit (nat ((rs_log_num r - 1) mod 32)) 1 :: u32)\<rparr>)
      | MTHCA_RES_MPT \<Rightarrow>
          Some (lo\<lparr>tl_num_mpts := rs_num r, tl_mr_mpt_base := rs_start r, tl_mpt_base := rs_start r,
                   tl_log_mpt_sz := of_int (rs_log_num r)\<rparr>)
      | MTHCA_RES_MTT \<Rightarrow>
          Some (lo\<lparr>tl_num_mtt_segs := rs_num r, tl_mr_mtt_base := rs_start r, tl_mtt_base := rs_start r,
                   tl_mtt_seg_sz := of_int (int (ffs MTHCA_MTT_SEG_SIZE) - 7)\<rparr>)
      | MTHCA_RES_UAR \<Rightarrow> Some (lo\<lparr>tl_num_uars := rs_num r, tl_uar_scratch_base := rs_start r\<rparr>)
      | MTHCA_RES_UDAV \<Rightarrow> Some (lo\<lparr>tl_ddr_av_base := rs_start r, tl_num_ddr_avs := rs_num r\<rparr>)
      | MTHCA_RES_UARC \<Rightarrow>
          Some (lo\<lparr>tl_uarc_size := mp_uarc_size req, tl_uar_uarc_base := rs_start r, tl_uarc_base := rs_start r,
                   tl_log_uarc_sz := of_int (int (ffs (mp_uarc_size req)) - 13),
                   tl_log_uar_sz := of_int (int (ffs (mp_num_uar req)) - 1)\<rparr>))"

fun mthca_assign_all ::
  "mthca_profile \<Rightarrow> mthca_res hca_resource list \<Rightarrow> mthca_layout \<Rightarrow> mthca_layout option" where
  "mthca_assign_all req [] lo = Some lo"
| "mthca_assign_all req (r # rs) lo =
     (case mthca_assign req r lo of None \<Rightarrow> None | Some lo \<Rightarrow> mthca_assign_all req rs lo)"

definition mthca_make_profile ::
  "bool \<Rightarrow> mthca_dev_info \<Rightarrow> mthca_profile \<Rightarrow> mthca_dev_lim \<Rightarrow> mthca_layout \<Rightarrow> (errno + u64 \<times> mthca_layout) option" where
  "mthca_make_profile mem dev req lim lo =
     (if \<not> mem then Some (Inl ENOMEM)
      else let p = map (mthca_entry dev req lim) mthca_res_all;
               (mem_base, mem_avail) =
                 (if ti_memfree dev then (0, dl_max_icm_sz lim) else (ti_ddr_start dev, ti_fw_start dev - ti_ddr_start dev));
               p = sort_loop p (length p)
           in case pack_loop mem_base mem_avail 0 p of
                None \<Rightarrow> Some (Inl ENOMEM)
              | Some (p, tot) \<Rightarrow>
                  map_option (\<lambda>lo. Inr (tot, lo\<lparr>tl_num_pds := MTHCA_NUM_PDS,
                      tl_fmr_reserved_mtts := (if ti_memfree dev \<or> ti_win64 dev then 0 else mp_fmr_reserved_mtts req)\<rparr>))
                    (mthca_assign_all req p lo))"

section \<open>The sort\<close>

abbreviation sz :: "'t hca_resource \<Rightarrow> u64" where "sz r \<equiv> rs_size r"

lemma mset_swap_take:
  assumes "0 < j" "j < i" "i \<le> length p"
  shows "mset (take i (p[j := p ! (j - 1), j - 1 := p ! j])) = mset (take i p)"
proof -
  have "take i (p[j := p ! (j - 1), j - 1 := p ! j]) = (take i p)[j := take i p ! (j - 1), j - 1 := take i p ! j]"
    using assms by (simp add: take_update_swap)
  moreover have "j - 1 < i" using assms by simp
  ultimately show ?thesis using mset_swap[of "j - 1" "take i p" j] assms by simp
qed

lemma sort_pass_props:
  assumes "0 < j" "j \<le> i" "i \<le> length p" "\<forall>k < j. sz (p ! (j - 1)) \<le> sz (p ! k)"
  defines "q \<equiv> sort_pass p j i"
  shows "length q = length p \<and> mset (take i q) = mset (take i p) \<and> drop i q = drop i p \<and> (\<forall>k < i. sz (q ! (i - 1)) \<le> sz (q ! k))"
  using assms(1-4) unfolding q_def
proof (induction p j i rule: sort_pass.induct)
  case (1 p j i)
  let ?p = "if rs_size (p ! (j - 1)) < rs_size (p ! j) then p[j := p ! (j - 1), j - 1 := p ! j] else p"
  show ?case
  proof (cases "j < i")
    case False
    then show ?thesis using "1.prems" by (subst (1 2 3 4 5) sort_pass.simps) simp
  next
    case True
    have a: "0 < Suc j" "Suc j \<le> i" "i \<le> length ?p" using True "1.prems" by auto
    have b: "\<forall>k < Suc j. sz (?p ! (Suc j - 1)) \<le> sz (?p ! k)"
    proof (intro allI impI)
      fix k assume k: "k < Suc j"
      show "sz (?p ! (Suc j - 1)) \<le> sz (?p ! k)"
      proof (cases "rs_size (p ! (j - 1)) < rs_size (p ! j)")
        case sw: True
        then show ?thesis using "1.prems" True k by (cases "k = j"; cases "k = j - 1") (auto simp: nth_list_update less_Suc_eq)
      next
        case sw: False
        then show ?thesis using "1.prems" True k by (auto simp: less_Suc_eq not_less intro: order_trans)
      qed
    qed
    have m: "mset (take i ?p) = mset (take i p)" using mset_swap_take[OF "1.prems"(1) True "1.prems"(3)] by simp
    have d: "drop i ?p = drop i p" using True "1.prems"(1) by simp
    have e: "sort_pass p j i = sort_pass ?p (Suc j) i" using True by (subst sort_pass.simps) simp
    show ?thesis unfolding e using "1.IH"[OF True a b] m d by simp
  qed
qed

text \<open>The tail from \<open>i\<close> on is sorted and below everything before it.\<close>

definition tail_ok :: "'t hca_resource list \<Rightarrow> nat \<Rightarrow> bool" where
  "tail_ok p i \<longleftrightarrow> (\<forall>a b. a < b \<longrightarrow> i \<le> b \<longrightarrow> b < length p \<longrightarrow> sz (p ! b) \<le> sz (p ! a))"

lemma sort_loop_props:
  assumes "i \<le> length p" "tail_ok p i"
  shows "length (sort_loop p i) = length p \<and> mset (sort_loop p i) = mset p \<and> tail_ok (sort_loop p i) 0"
  using assms
proof (induction i arbitrary: p)
  case (Suc i)
  let ?q = "sort_pass p 1 (Suc i)"
  have P: "length ?q = length p" "mset (take (Suc i) ?q) = mset (take (Suc i) p)" "drop (Suc i) ?q = drop (Suc i) p"
    "\<forall>k < Suc i. sz (?q ! i) \<le> sz (?q ! k)"
    using sort_pass_props[of 1 "Suc i" p] Suc.prems(1) by auto
  have ms: "mset ?q = mset p" using P(2,3) by (metis append_take_drop_id mset_append)
  have same: "?q ! b = p ! b" if "Suc i \<le> b" "b < length p" for b
    using arg_cong[OF P(3), of "\<lambda>l. l ! (b - Suc i)"] that P(1) by simp
  have "tail_ok ?q i"
    unfolding tail_ok_def
  proof (intro allI impI)
    fix a b assume ab: "a < b" "i \<le> b" "b < length ?q"
    show "sz (?q ! b) \<le> sz (?q ! a)"
    proof (cases "b = i")
      case True
      then show ?thesis using P(4) ab(1) by simp
    next
      case False
      then have b: "Suc i \<le> b" "b < length p" using ab P(1) by auto
      show ?thesis
      proof (cases "Suc i \<le> a")
        case True
        then show ?thesis using Suc.prems(2) ab b same P(1) by (simp add: tail_ok_def)
      next
        case False
        have "?q ! a \<in> set (take (Suc i) ?q)" using False ab P(1) by (auto simp: in_set_conv_nth intro!: exI[of _ a])
        then have "?q ! a \<in> set (take (Suc i) p)" using P(2) by (metis set_mset_mset)
        then obtain a' where a': "a' < Suc i" "a' < length p" "?q ! a = p ! a'" by (auto simp: in_set_conv_nth)
        then show ?thesis using Suc.prems(2) b same by (simp add: tail_ok_def)
      qed
    qed
  qed
  then show ?case using Suc.IH[of ?q] Suc.prems(1) P(1) ms by simp
qed simp

section \<open>The packing\<close>

definition sizes_sum :: "'t hca_resource list \<Rightarrow> nat" where
  "sizes_sum rs = sum_list (map (unat \<circ> rs_size) rs)"

definition placed :: "u64 \<Rightarrow> nat \<Rightarrow> 't hca_resource list \<Rightarrow> 't hca_resource list \<Rightarrow> bool" where
  "placed base ofs rs rs' \<longleftrightarrow> length rs' = length rs \<and>
     (\<forall>i < length rs. rs' ! i = (if rs_size (rs ! i) = 0 then rs ! i
        else (rs ! i)\<lparr>rs_start := base + of_nat (ofs + sizes_sum (take i rs))\<rparr>))"

lemma placed_Cons:
  assumes "placed base (ofs + unat (rs_size r)) rs rs'"
  shows "placed base ofs (r # rs) ((if rs_size r = 0 then r else r\<lparr>rs_start := base + of_nat ofs\<rparr>) # rs')"
  unfolding placed_def
proof (intro conjI allI impI)
  show "length ((if rs_size r = 0 then r else r\<lparr>rs_start := base + of_nat ofs\<rparr>) # rs') = length (r # rs)"
    using assms by (simp add: placed_def)
  fix i assume i: "i < length (r # rs)"
  show "((if rs_size r = 0 then r else r\<lparr>rs_start := base + of_nat ofs\<rparr>) # rs') ! i =
      (if rs_size ((r # rs) ! i) = 0 then (r # rs) ! i
       else ((r # rs) ! i)\<lparr>rs_start := base + of_nat (ofs + sizes_sum (take i (r # rs)))\<rparr>)"
  proof (cases i)
    case 0
    then show ?thesis by (simp add: sizes_sum_def)
  next
    case (Suc k)
    have "ofs + sizes_sum (take i (r # rs)) = ofs + unat (rs_size r) + sizes_sum (take k rs)"
      by (simp add: Suc sizes_sum_def)
    then show ?thesis using assms i Suc by (simp add: placed_def add.assoc del: of_nat_add)
  qed
qed

lemma pack_loop_some:
  assumes "\<forall>r \<in> set rs. unat (rs_size r) < 2 ^ 63" "unat avail < 2 ^ 63" "unat tot \<le> unat avail"
  shows "pack_loop base avail tot rs =
    (if unat tot + sizes_sum rs \<le> unat avail
     then pack_loop base avail tot rs else None) \<and>
    (unat tot + sizes_sum rs \<le> unat avail \<longrightarrow> (\<exists>rs'. pack_loop base avail tot rs = Some (rs', of_nat (unat tot + sizes_sum rs)) \<and>
       placed base (unat tot) rs rs'))"
  using assms(1,3)
proof (induction rs arbitrary: tot)
  case Nil
  then show ?case by (simp add: sizes_sum_def placed_def)
next
  case (Cons r rs)
  let ?t = "tot + rs_size r"
  let ?r = "if rs_size r = 0 then r else r\<lparr>rs_start := base + tot\<rparr>"
  have u: "unat ?t = unat tot + unat (rs_size r)"
    using Cons.prems assms(2) by (intro unat_add_less) simp
  have step: "pack_loop base avail tot (r # rs) =
      (if avail < ?t then None else map_option (\<lambda>(rs, tot). (?r # rs, tot)) (pack_loop base avail ?t rs))"
    by (simp add: Let_def)
  have ss: "sizes_sum (r # rs) = unat (rs_size r) + sizes_sum rs" by (simp add: sizes_sum_def)
  show ?case
  proof (cases "avail < ?t")
    case True
    then have "unat avail < unat tot + unat (rs_size r)" using u by (simp add: word_less_nat_alt)
    then show ?thesis using True step ss by (simp del: pack_loop.simps)
  next
    case False
    then have le: "unat ?t \<le> unat avail" by (simp add: word_less_nat_alt)
    have p: "\<forall>r \<in> set rs. unat (rs_size r) < 2 ^ 63" using Cons.prems by simp
    note IH = Cons.IH[OF p le]
    show ?thesis
    proof (cases "unat ?t + sizes_sum rs \<le> unat avail")
      case True
      then obtain rs' where rs': "pack_loop base avail ?t rs = Some (rs', of_nat (unat ?t + sizes_sum rs))" "placed base (unat ?t) rs rs'"
        using IH by blast
      have ot: "of_nat (unat tot) = tot" by simp
      have "placed base (unat tot) (r # rs) (?r # rs')"
        using placed_Cons[of base "unat tot" r rs rs', unfolded ot] rs'(2) unfolding u .
      moreover have "unat ?t + sizes_sum rs = unat tot + sizes_sum (r # rs)" using u ss by simp
      ultimately show ?thesis using True False rs'(1) step by (auto simp del: of_nat_add pack_loop.simps)
    next
      case nf: False
      then have "pack_loop base avail ?t rs = None" using IH by simp
      moreover have "unat ?t + sizes_sum rs = unat tot + sizes_sum (r # rs)" using u ss by simp
      ultimately show ?thesis using nf False step by (simp del: pack_loop.simps)
    qed
  qed
qed


section \<open>Disjoint, aligned regions\<close>

lemma sizes_sum_take_mono:
  assumes "i < j" "j \<le> length rs"
  shows "sizes_sum (take i rs) + unat (rs_size (rs ! i)) \<le> sizes_sum (take j rs)"
proof -
  have "take (Suc i) rs = take i rs @ [rs ! i]" using assms by (simp add: take_Suc_conv_app_nth)
  then have "sizes_sum (take i rs) + unat (rs_size (rs ! i)) = sizes_sum (take (Suc i) rs)" by (simp add: sizes_sum_def)
  also have "\<dots> \<le> sizes_sum (take j rs)"
  proof -
    have "take j rs = take (Suc i) rs @ take (j - Suc i) (drop (Suc i) rs)"
      using assms by (metis Suc_leI le_add_diff_inverse take_add)
    then show ?thesis by (simp add: sizes_sum_def)
  qed
  finally show ?thesis .
qed

lemma sizes_sum_mset: "mset rs = mset rs' \<Longrightarrow> sizes_sum rs = sizes_sum rs'"
  unfolding sizes_sum_def by (metis mset_map sum_mset_sum_list)

text \<open>The sizes are powers of two (or 0), so in decreasing order every offset is a multiple of the size there.\<close>

definition pow2_sizes :: "'t hca_resource list \<Rightarrow> bool" where
  "pow2_sizes rs \<longleftrightarrow> (\<forall>r \<in> set rs. rs_size r = 0 \<or> (\<exists>k. unat (rs_size r) = 2 ^ k))"

lemma dvd_sum_list: "\<forall>x \<in> set xs. (d::nat) dvd x \<Longrightarrow> d dvd sum_list xs"
  by (induction xs) auto

lemma aligned_offset:
  assumes "tail_ok rs 0" "pow2_sizes rs" "i < length rs"
  shows "unat (rs_size (rs ! i)) dvd sizes_sum (take i rs) \<or> rs_size (rs ! i) = 0"
proof (cases "rs_size (rs ! i) = 0")
  case False
  then obtain k where k: "unat (rs_size (rs ! i)) = 2 ^ k" using assms by (auto simp: pow2_sizes_def)
  have "2 ^ k dvd unat (rs_size (rs ! j))" if "j < i" for j
  proof -
    have le: "rs_size (rs ! i) \<le> rs_size (rs ! j)" using assms that by (simp add: tail_ok_def)
    have "0 < unat (rs_size (rs ! i))" using k by simp
    then have "rs_size (rs ! j) \<noteq> 0" using le by (auto simp: word_le_nat_alt)
    moreover have "rs ! j \<in> set rs" using that assms(3) by simp
    ultimately obtain l where l: "unat (rs_size (rs ! j)) = 2 ^ l" using assms(2) unfolding pow2_sizes_def by blast
    have "(2::nat) ^ k \<le> 2 ^ l" using le k l by (simp add: word_le_nat_alt)
    then have "k \<le> l" by (rule power_le_imp_le_exp[rotated]) simp
    then show ?thesis using l by (simp add: le_imp_power_dvd)
  qed
  then have "\<forall>x \<in> set (map (unat \<circ> rs_size) (take i rs)). 2 ^ k dvd x"
    using assms(3) by (auto simp: in_set_conv_nth)
  then have "2 ^ k dvd sum_list (map (unat \<circ> rs_size) (take i rs))"
    by (rule dvd_sum_list)
  then show ?thesis using k by (simp add: sizes_sum_def)
qed simp


text \<open>The result of sorting and packing, resource by resource.\<close>

definition region :: "'t hca_resource \<Rightarrow> nat set" where
  "region r = {unat (rs_start r)..<unat (rs_start r) + unat (rs_size r)}"

definition layout_ok :: "u64 \<Rightarrow> u64 \<Rightarrow> 't hca_resource list \<Rightarrow> bool" where
  "layout_ok base avail rs \<longleftrightarrow>
     (\<forall>r \<in> set rs. region r \<subseteq> {unat base..<unat base + unat avail} \<and>
        (rs_size r \<noteq> 0 \<longrightarrow> unat (rs_size r) dvd unat (rs_start r) - unat base)) \<and>
     (\<forall>i < length rs. \<forall>j < length rs. i \<noteq> j \<longrightarrow> region (rs ! i) \<inter> region (rs ! j) = {})"

lemma packed_layout:
  assumes pl: "placed base 0 rs rs'" and so: "tail_ok rs 0" "pow2_sizes rs"
    and b: "sizes_sum rs \<le> unat avail" "unat base + unat avail < 2 ^ 64"
  shows "layout_ok base avail rs'"
proof -
  let ?o = "\<lambda>i. sizes_sum (take i rs)"
  have tot: "?o i + unat (rs_size (rs ! i)) \<le> unat avail" if "i < length rs" for i
    using sizes_sum_take_mono[of i "length rs" rs] that b(1) by simp
  have st: "rs_size (rs' ! i) = rs_size (rs ! i)" "rs_size (rs ! i) \<noteq> 0 \<Longrightarrow> unat (rs_start (rs' ! i)) = unat base + ?o i"
    if i: "i < length rs" for i
  proof -
    show "rs_size (rs' ! i) = rs_size (rs ! i)" using pl i by (simp add: placed_def)
    assume "rs_size (rs ! i) \<noteq> 0"
    then have s: "rs_start (rs' ! i) = base + of_nat (?o i)" using pl i by (simp add: placed_def)
    have "unat base + ?o i < 2 ^ LENGTH(64)" using tot[OF i] b(2) by simp
    moreover from this have "unat (of_nat (?o i) :: u64) = ?o i" by (intro unat_of_nat_less) simp
    ultimately show "unat (rs_start (rs' ! i)) = unat base + ?o i" unfolding s by (subst unat_add_less) simp_all
  qed
  have len: "length rs' = length rs" using pl by (simp add: placed_def)
  have reg: "region (rs' ! i) = (if rs_size (rs ! i) = 0 then {} else {unat base + ?o i..<unat base + ?o i + unat (rs_size (rs ! i))})"
    if "i < length rs" for i using st[OF that] by (simp add: region_def)
  have dj: "region (rs' ! i) \<inter> region (rs' ! j) = {}" if ij: "i < j" "j < length rs" for i j
    using reg[of i] reg[of j] ij sizes_sum_take_mono[of i j rs] by auto
  show ?thesis
    unfolding layout_ok_def
  proof (intro conjI ballI allI impI)
    fix r assume "r \<in> set rs'"
    then obtain i where i: "i < length rs" "r = rs' ! i" by (auto simp: in_set_conv_nth len)
    show "region r \<subseteq> {unat base..<unat base + unat avail}" using reg[OF i(1)] i(2) tot[OF i(1)] by auto
    assume "rs_size r \<noteq> 0"
    then show "unat (rs_size r) dvd unat (rs_start r) - unat base"
      using st[OF i(1)] i aligned_offset[OF so i(1)] by simp
  next
    fix i j assume "i < length rs'" "j < length rs'" "i \<noteq> j"
    then show "region (rs' ! i) \<inter> region (rs' ! j) = {}"
      using dj[of i j] dj[of j i] len by (auto simp: Int_commute neq_iff)
  qed
qed

lemma sort_pack_outcome:
  assumes p2: "pow2_sizes p" and bnd: "\<forall>r \<in> set p. unat (rs_size r) < 2 ^ 63"
    and av: "unat avail < 2 ^ 63" "unat base + unat avail < 2 ^ 64"
  shows "if sizes_sum p \<le> unat avail
    then \<exists>p'. pack_loop base avail 0 (sort_loop p (length p)) = Some (p', of_nat (sizes_sum p)) \<and> layout_ok base avail p' \<and>
      mset (map (\<lambda>r. r\<lparr>rs_start := 0\<rparr>) p') = mset (map (\<lambda>r. r\<lparr>rs_start := 0\<rparr>) p)
    else pack_loop base avail 0 (sort_loop p (length p)) = None"
proof -
  let ?s = "sort_loop p (length p)"
  have S: "length ?s = length p" "mset ?s = mset p" "tail_ok ?s 0"
    using sort_loop_props[of "length p" p] by (auto simp: tail_ok_def)
  have st: "set ?s = set p" using S(2) by (metis set_mset_mset)
  have sum: "sizes_sum ?s = sizes_sum p" by (rule sizes_sum_mset[OF S(2)])
  note P = pack_loop_some[of ?s avail 0 base]
  show ?thesis
  proof (cases "sizes_sum p \<le> unat avail")
    case True
    then obtain p' where p': "pack_loop base avail 0 ?s = Some (p', of_nat (sizes_sum p))" "placed base 0 ?s p'"
      using P bnd st av sum by auto
    have "layout_ok base avail p'"
      using packed_layout[OF p'(2) S(3)] p2 st sum True av(2) by (simp add: pow2_sizes_def)
    moreover have "map (\<lambda>r. r\<lparr>rs_start := 0\<rparr>) p' = map (\<lambda>r. r\<lparr>rs_start := 0\<rparr>) ?s"
      using p'(2) by (intro nth_equalityI) (auto simp: placed_def)
    then have "mset (map (\<lambda>r. r\<lparr>rs_start := 0\<rparr>) p') = mset (map (\<lambda>r. r\<lparr>rs_start := 0\<rparr>) p)"
      using S(2) by (simp flip: mset_map) (metis mset_map)
    ultimately show ?thesis using True p'(1) by auto
  next
    case False
    then show ?thesis using P bnd st av sum by (metis unat_0 add_0 le0)
  qed
qed

section \<open>Handing the layout over\<close>

text \<open>What the two hand-over loops share: each resource writes its own base address and no other.\<close>

definition area :: "('l \<Rightarrow> 't \<Rightarrow> u64) \<Rightarrow> ('t \<Rightarrow> 't hca_resource) \<Rightarrow> 'l \<Rightarrow> 't \<Rightarrow> nat set" where
  "area baseof entry lo t = {unat (baseof lo t)..<unat (baseof lo t) + unat (rs_size (entry t))}"

definition areas_ok :: "('l \<Rightarrow> 't \<Rightarrow> u64) \<Rightarrow> ('t \<Rightarrow> 't hca_resource) \<Rightarrow> 't list \<Rightarrow> u64 \<Rightarrow> u64 \<Rightarrow> 'l \<Rightarrow> bool" where
  "areas_ok baseof entry types base avail lo \<longleftrightarrow>
     (\<forall>t \<in> set types. area baseof entry lo t \<subseteq> {unat base..<unat base + unat avail} \<and>
        (rs_size (entry t) \<noteq> 0 \<longrightarrow> unat (rs_size (entry t)) dvd unat (baseof lo t) - unat base) \<and>
        (\<forall>t' \<in> set types. t \<noteq> t' \<longrightarrow> area baseof entry lo t \<inter> area baseof entry lo t' = {}))"

locale layout_writer =
  fixes assign :: "'t hca_resource \<Rightarrow> 'l \<Rightarrow> 'l option"
    and assign_all :: "'t hca_resource list \<Rightarrow> 'l \<Rightarrow> 'l option"
    and baseof :: "'l \<Rightarrow> 't \<Rightarrow> u64"
  assumes assign_base: "assign r lo = Some lo' \<Longrightarrow> baseof lo' t = (if t = rs_type r then rs_start r else baseof lo t)"
    and all_Nil: "assign_all [] lo = Some lo"
    and all_Cons: "assign_all (r # rs) lo = (case assign r lo of None \<Rightarrow> None | Some lo' \<Rightarrow> assign_all rs lo')"
begin

lemma all_base:
  assumes "assign_all rs lo = Some lo'" "distinct (map rs_type rs)"
  shows "(t \<notin> rs_type ` set rs \<longrightarrow> baseof lo' t = baseof lo t) \<and> (\<forall>r \<in> set rs. baseof lo' (rs_type r) = rs_start r)"
  using assms
proof (induction rs arbitrary: lo t)
  case (Cons r rs)
  then obtain l where l: "assign r lo = Some l" "assign_all rs l = Some lo'"
    by (auto simp: all_Cons split: option.splits)
  have d: "distinct (map rs_type rs)" "rs_type r \<notin> rs_type ` set rs" using Cons.prems(2) by auto
  have "baseof lo' (rs_type r) = baseof l (rs_type r)" using Cons.IH[OF l(2) d(1)] d(2) by blast
  then have "baseof lo' (rs_type r) = rs_start r" using assign_base[OF l(1)] by simp
  moreover have "baseof lo' t = baseof lo t" if "t \<notin> rs_type ` set (r # rs)"
    using that Cons.IH[OF l(2) d(1), of t] assign_base[OF l(1), of t] by auto
  ultimately show ?case using Cons.IH[OF l(2) d(1)] by auto
qed (simp add: all_Nil)

lemma all_defined:
  assumes "\<And>r lo. r \<in> set rs \<Longrightarrow> assign r lo \<noteq> None"
  shows "assign_all rs lo \<noteq> None"
  using assms
proof (induction rs arbitrary: lo)
  case (Cons r rs)
  then obtain l where "assign r lo = Some l" by fastforce
  then show ?case using Cons by (simp add: all_Cons)
qed (simp add: all_Nil)

lemma areas_from_layout:
  assumes lay: "layout_ok base avail p'"
    and ms: "mset (map (\<lambda>r. r\<lparr>rs_start := 0\<rparr>) p') = mset (map (\<lambda>r. r\<lparr>rs_start := 0\<rparr>) (map entry types))"
    and ty: "\<And>t. rs_type (entry t) = t" and d: "distinct types"
    and a: "assign_all p' lo = Some lo'"
  shows "areas_ok baseof entry types base avail lo'"
proof -
  have m: "mset (map (\<lambda>r. (rs_type r, rs_size r)) p') = mset (map (\<lambda>t. (t, rs_size (entry t))) types)"
    using arg_cong[OF ms, of "image_mset (\<lambda>r. (rs_type r, rs_size r))"] by (simp add: ty flip: mset_map) (simp add: comp_def ty)
  have "mset (map rs_type p') = mset types"
    using arg_cong[OF m, of "image_mset fst"] by (simp add: image_mset.compositionality comp_def)
  then have dt: "distinct (map rs_type p')" using d by (metis mset_eq_imp_distinct_iff)
  note B = all_base[OF a dt]
  have ex: "\<exists>i < length p'. rs_type (p' ! i) = t \<and> rs_size (p' ! i) = rs_size (entry t) \<and> baseof lo' t = rs_start (p' ! i)"
    if "t \<in> set types" for t
  proof -
    have "(t, rs_size (entry t)) \<in> set (map (\<lambda>r. (rs_type r, rs_size r)) p')"
      using mset_eq_setD[OF m] that by force
    then obtain i where i: "i < length p'" "rs_type (p' ! i) = t" "rs_size (p' ! i) = rs_size (entry t)"
      by (auto simp: in_set_conv_nth)
    then show ?thesis using B by (metis nth_mem)
  qed
  show ?thesis
    unfolding areas_ok_def
  proof (intro ballI conjI impI)
    fix t assume t: "t \<in> set types"
    then obtain i where i: "i < length p'" "rs_type (p' ! i) = t" "rs_size (p' ! i) = rs_size (entry t)" "baseof lo' t = rs_start (p' ! i)"
      using ex by blast
    have ar: "area baseof entry lo' t = region (p' ! i)" using i by (simp add: area_def region_def)
    have L: "region (p' ! i) \<subseteq> {unat base..<unat base + unat avail}"
      "rs_size (p' ! i) \<noteq> 0 \<longrightarrow> unat (rs_size (p' ! i)) dvd unat (rs_start (p' ! i)) - unat base"
      using lay i(1) unfolding layout_ok_def by (meson nth_mem)+
    show "area baseof entry lo' t \<subseteq> {unat base..<unat base + unat avail}" using L(1) ar by simp
    show "unat (rs_size (entry t)) dvd unat (baseof lo' t) - unat base" if "rs_size (entry t) \<noteq> 0" using L(2) i that by simp
    fix t' assume t': "t' \<in> set types" "t \<noteq> t'"
    then obtain j where j: "j < length p'" "rs_type (p' ! j) = t'" "rs_size (p' ! j) = rs_size (entry t')" "baseof lo' t' = rs_start (p' ! j)"
      using ex by blast
    have "i \<noteq> j" using i(2) j(2) t'(2) by auto
    then have "region (p' ! i) \<inter> region (p' ! j) = {}" using lay i(1) j(1) unfolding layout_ok_def by blast
    moreover have "area baseof entry lo' t' = region (p' ! j)" using j by (simp add: area_def region_def)
    ultimately show "area baseof entry lo' t \<inter> area baseof entry lo' t' = {}" using ar by simp
  qed
qed

end

lemma qp_shift_loop_some:
  assumes "0 < unat q" "unat q < 2 ^ 31" "unat n \<le> 2 ^ 30"
  shows "\<exists>s. qp_shift_loop q n 0 = Some s \<and> unat n \<le> unat q * 2 ^ s"
proof -
  have "\<exists>s'. qp_shift_loop q n s = Some s' \<and> unat n \<le> unat q * 2 ^ s'" if "unat q * 2 ^ s < 2 ^ 31" for s
    using that
  proof (induction "unat n - unat q * 2 ^ s" arbitrary: s rule: less_induct)
    case less
    have u: "unat (push_bit s q) = unat q * 2 ^ s" using less.prems by (intro unat_push_bit_small) simp
    have "unat n < 2 ^ 31" "unat (push_bit s q) < 2 ^ 31" using assms(3) u less.prems by simp_all
    then have i: "sint n = int (unat n)" "sint (push_bit s q) = int (unat (push_bit s q))" using sint_small by blast+
    have c: "sint (push_bit s q) < sint n \<longleftrightarrow> unat q * 2 ^ s < unat n" unfolding i u of_nat_less_iff ..
    show ?case
    proof (cases "unat q * 2 ^ s < unat n")
      case False
      then have "qp_shift_loop q n s = Some s" using c by (subst qp_shift_loop.simps) simp
      then show ?thesis using False by (intro exI[of _ s]) simp
    next
      case True
      have "unat q * 2 ^ Suc s < 2 ^ 31" using True assms(3) by simp
      moreover have "0 < unat q * 2 ^ s" using assms(1) by simp
      then have "unat n - unat q * 2 ^ Suc s < unat n - unat q * 2 ^ s" using True unfolding power_Suc by linarith
      moreover have "qp_shift_loop q n s = qp_shift_loop q n (Suc s)" using True c by (subst qp_shift_loop.simps) simp
      ultimately show ?thesis using less.hyps by simp
    qed
  qed
  from this[of 0] show ?thesis using assms(2) by simp
qed

section \<open>The ConnectX layout\<close>

fun mlx4_base :: "mlx4_layout \<Rightarrow> mlx4_res \<Rightarrow> u64" where
  "mlx4_base lo MLX4_RES_QP = lo_qpc_base lo"
| "mlx4_base lo MLX4_RES_RDMARC = lo_rdmarc_base lo"
| "mlx4_base lo MLX4_RES_ALTC = lo_altc_base lo"
| "mlx4_base lo MLX4_RES_AUXC = lo_auxc_base lo"
| "mlx4_base lo MLX4_RES_SRQ = lo_srqc_base lo"
| "mlx4_base lo MLX4_RES_CQ = lo_cqc_base lo"
| "mlx4_base lo MLX4_RES_EQ = lo_eqc_base lo"
| "mlx4_base lo MLX4_RES_DMPT = lo_dmpt_base lo"
| "mlx4_base lo MLX4_RES_CMPT = lo_cmpt_base lo"
| "mlx4_base lo MLX4_RES_MTT = lo_mtt_base lo"
| "mlx4_base lo MLX4_RES_MCG = lo_mc_base lo"

interpretation mlx4_writer: layout_writer "mlx4_assign dev req cap" "mlx4_assign_all dev req cap" mlx4_base
  for dev :: mlx4_dev_info and req :: mlx4_profile and cap :: mlx4_dev_cap
proof
  fix r lo lo' t rs
  assume "mlx4_assign dev req cap r lo = Some lo'"
  then show "mlx4_base lo' t = (if t = rs_type r then rs_start r else mlx4_base lo t)"
    by (cases "rs_type r"; cases t) (auto simp: mlx4_assign_def)
qed (simp_all add: option.case_eq_if)

fun mthca_base :: "mthca_layout \<Rightarrow> mthca_res \<Rightarrow> u64" where
  "mthca_base lo MTHCA_RES_QP = tl_qpc_base lo"
| "mthca_base lo MTHCA_RES_EEC = tl_eec_base lo"
| "mthca_base lo MTHCA_RES_SRQ = tl_srqc_base lo"
| "mthca_base lo MTHCA_RES_CQ = tl_cqc_base lo"
| "mthca_base lo MTHCA_RES_EQP = tl_eqpc_base lo"
| "mthca_base lo MTHCA_RES_EEEC = tl_eeec_base lo"
| "mthca_base lo MTHCA_RES_EQ = tl_eqc_base lo"
| "mthca_base lo MTHCA_RES_RDB = tl_rdb_base lo"
| "mthca_base lo MTHCA_RES_MCG = tl_mc_base lo"
| "mthca_base lo MTHCA_RES_MPT = tl_mpt_base lo"
| "mthca_base lo MTHCA_RES_MTT = tl_mtt_base lo"
| "mthca_base lo MTHCA_RES_UAR = tl_uar_scratch_base lo"
| "mthca_base lo MTHCA_RES_UDAV = tl_ddr_av_base lo"
| "mthca_base lo MTHCA_RES_UARC = tl_uarc_base lo"

interpretation mthca_writer: layout_writer "mthca_assign req" "mthca_assign_all req" mthca_base
  for req :: mthca_profile
proof
  fix r lo lo' t rs
  assume "mthca_assign req r lo = Some lo'"
  then show "mthca_base lo' t = (if t = rs_type r then rs_start r else mthca_base lo t)"
    by (cases "rs_type r"; cases t) (auto simp: mthca_assign_def)
qed (simp_all add: option.case_eq_if)


section \<open>Sizes\<close>

text \<open>What the comment in the code presumes: entry sizes are powers of two; the counts are positive
  and small enough for an \<open>int\<close>.\<close>

definition mlx4_profile_ok :: "mlx4_dev_info \<Rightarrow> mlx4_profile \<Rightarrow> mlx4_dev_cap \<Rightarrow> bool" where
  "mlx4_profile_ok dev req cap \<longleftrightarrow> unat (dc_max_icm_sz cap) < 2 ^ 63 \<and>
     (\<forall>t. (\<exists>a \<le> 30. unat (mlx4_entry_size dev cap t) = 2 ^ a) \<and>
        0 < unat (mlx4_entry_num dev req cap t) \<and> unat (mlx4_entry_num dev req cap t) \<le> 2 ^ 30)"

lemma scast_small:
  assumes "unat (w :: u32) < 2 ^ 31"
  shows "unat (scast w :: u64) = unat w"
proof -
  have "(scast w :: u64) = of_int (sint w)" by (rule scast_eq)
  then have "(scast w :: u64) = of_nat (unat w)" using sint_small[OF assms] by (simp only: of_int_of_nat_eq)
  then show ?thesis using assms by (simp only: unat_of_nat_less) (intro unat_of_nat_less, simp)
qed

lemma mult_pow2_size:
  assumes "unat (e :: u64) = 2 ^ a" "a \<le> 30" "unat (n :: u32) = 2 ^ b" "b \<le> 30"
  shows "unat (e * scast n) = 2 ^ (a + b)" "(2::nat) ^ (a + b) < 2 ^ 63"
proof -
  have "(2::nat) ^ b \<le> 2 ^ 30" using assms(4) by (intro power_increasing) auto
  then have n: "unat (scast n :: u64) = 2 ^ b" using scast_small[of n] assms(3) by simp
  show lt: "(2::nat) ^ (a + b) < 2 ^ 63" using assms(2,4) by (intro power_strict_increasing) auto
  then have "unat e * unat (scast n :: u64) < 2 ^ LENGTH(64)" using assms(1) n by (simp add: power_add)
  then have "unat (e * scast n) = unat e * unat (scast n :: u64)" by (simp only: unat_mult_lem)
  then show "unat (e * scast n) = 2 ^ (a + b)" using assms(1) n by (simp add: power_add)
qed

lemma max_page_pow2:
  assumes "unat (s :: u64) = 2 ^ k"
  shows "\<exists>j. unat (max s PAGE_SIZE) = 2 ^ j"
proof (cases "s \<le> PAGE_SIZE")
  case True
  then show ?thesis by (intro exI[of _ 12]) (simp add: max_def PAGE_SIZE_def)
next
  case False
  then show ?thesis using assms by (auto simp: max_def)
qed

lemma max_page_bound: "unat s < 2 ^ 63 \<Longrightarrow> unat (max s PAGE_SIZE) < 2 ^ 63"
  by (simp add: max_def PAGE_SIZE_def)

lemma mlx4_entry_props:
  assumes "mlx4_profile_ok dev req cap"
  shows "\<exists>j. unat (rs_size (mlx4_entry dev req cap t)) = 2 ^ j" "unat (rs_size (mlx4_entry dev req cap t)) < 2 ^ 63"
    "rs_type (mlx4_entry dev req cap t) = t" "unat (rs_num (mlx4_entry dev req cap t)) \<le> 2 ^ 30"
proof -
  from assms obtain a where a: "a \<le> 30" "unat (mlx4_entry_size dev cap t) = 2 ^ a"
    and n: "0 < unat (mlx4_entry_num dev req cap t)" "unat (mlx4_entry_num dev req cap t) \<le> 2 ^ 30"
    unfolding mlx4_profile_ok_def by blast
  let ?x = "mlx4_entry_num dev req cap t" let ?k = "fls (?x - 1)"
  have x0: "0 < ?x" using n(1) by (simp add: word_less_nat_alt)
  have x31: "unat ?x \<le> 2 ^ 31" using n(2) by simp
  note R = roundup_pow_of_two_props[OF x0 x31]
  have "?k \<le> 30"
  proof (cases "?x = 1")
    case True
    then show ?thesis by (simp add: fls_def)
  next
    case False
    then have "(2::nat) ^ ?k < 2 ^ 31" using R(1,4) n(2) by simp
    then have "?k < 31" by (rule power_less_imp_less_exp[rotated]) simp
    then show ?thesis by simp
  qed
  then obtain b where b: "unat (roundup_pow_of_two ?x) = 2 ^ b" "b \<le> 30" using R(1) by blast
  note m = mult_pow2_size[OF a(2,1) b]
  show "\<exists>j. unat (rs_size (mlx4_entry dev req cap t)) = 2 ^ j"
    using max_page_pow2[OF m(1)] by (simp add: mlx4_entry_def Let_def)
  show "unat (rs_size (mlx4_entry dev req cap t)) < 2 ^ 63"
    using max_page_bound m by (simp add: mlx4_entry_def Let_def)
  show "rs_type (mlx4_entry dev req cap t) = t" by (simp add: mlx4_entry_def Let_def)
  have "(2::nat) ^ b \<le> 2 ^ 30" using b(2) by (intro power_increasing) auto
  then show "unat (rs_num (mlx4_entry dev req cap t)) \<le> 2 ^ 30" using b(1) by (simp add: mlx4_entry_def Let_def)
qed


lemma mlx4_res_all_props: "set mlx4_res_all = UNIV" "distinct mlx4_res_all"
proof -
  show "set mlx4_res_all = UNIV"
  proof (intro set_eqI iffI UNIV_I)
    fix t show "t \<in> set mlx4_res_all" by (cases t) (simp_all add: mlx4_res_all_def)
  qed
qed (simp add: mlx4_res_all_def)

lemma mlx4_assign_some:
  assumes "0 < unat (pr_num_qp req)" "unat (pr_num_qp req) < 2 ^ 31" "unat (rs_num r) \<le> 2 ^ 30"
  shows "mlx4_assign dev req cap r lo \<noteq> None"
  using qp_shift_loop_some[OF assms] by (cases "rs_type r") (auto simp: mlx4_assign_def)

definition mlx4_total :: "mlx4_dev_info \<Rightarrow> mlx4_profile \<Rightarrow> mlx4_dev_cap \<Rightarrow> nat" where
  "mlx4_total dev req cap = sizes_sum (map (mlx4_entry dev req cap) mlx4_res_all)"

lemma erased_num:
  assumes "mset (map (\<lambda>r. r\<lparr>rs_start := 0\<rparr>) p') = mset (map (\<lambda>r. r\<lparr>rs_start := 0\<rparr>) (map entry types))" "r \<in> set p'"
  shows "\<exists>t \<in> set types. rs_num r = rs_num (entry t)"
proof -
  have "r\<lparr>rs_start := 0\<rparr> \<in> set (map (\<lambda>r. r\<lparr>rs_start := 0\<rparr>) (map entry types))"
    using mset_eq_setD[OF assms(1)] assms(2) by force
  then obtain t where t: "t \<in> set types" "r\<lparr>rs_start := 0\<rparr> = (entry t)\<lparr>rs_start := 0\<rparr>" by auto
  then have "rs_num (r\<lparr>rs_start := 0\<rparr>) = rs_num ((entry t)\<lparr>rs_start := 0\<rparr>)" by simp
  then show ?thesis using t(1) by auto
qed

lemma mlx4_base_pds: "mlx4_base (lo\<lparr>lo_num_pds := n\<rparr>) t = mlx4_base lo t"
  by (cases t) simp_all

lemma mlx4_make_profile_outcome:
  assumes ok: "mlx4_profile_ok dev req cap"
  shows "case mlx4_make_profile True dev req cap lo of
      None \<Rightarrow> False
    | Some (Inl e) \<Rightarrow> e = ENOMEM \<and> unat (dc_max_icm_sz cap) < mlx4_total dev req cap
    | Some (Inr (tot, lo')) \<Rightarrow> unat tot = mlx4_total dev req cap \<and> unat tot \<le> unat (dc_max_icm_sz cap) \<and>
        areas_ok mlx4_base (mlx4_entry dev req cap) mlx4_res_all 0 (dc_max_icm_sz cap) lo'"
proof -
  let ?e = "mlx4_entry dev req cap" let ?p = "map ?e mlx4_res_all" let ?av = "dc_max_icm_sz cap"
  note E = mlx4_entry_props[OF ok]
  have p2: "pow2_sizes ?p" using E(1) by (auto simp: pow2_sizes_def)
  have bd: "\<forall>r \<in> set ?p. unat (rs_size r) < 2 ^ 63" using E(2) by auto
  have av: "unat ?av < 2 ^ 63" using ok by (simp add: mlx4_profile_ok_def)
  then have av2: "unat (0::u64) + unat ?av < 2 ^ 64" by simp
  note S = sort_pack_outcome[OF p2 bd av av2]
  show ?thesis
  proof (cases "sizes_sum ?p \<le> unat ?av")
    case False
    then have "pack_loop 0 ?av 0 (sort_loop ?p (length ?p)) = None" using S by simp
    then show ?thesis using False by (simp add: mlx4_make_profile_def Let_def mlx4_total_def)
  next
    case True
    then obtain p' where p': "pack_loop 0 ?av 0 (sort_loop ?p (length ?p)) = Some (p', of_nat (sizes_sum ?p))"
      "layout_ok 0 ?av p'" "mset (map (\<lambda>r. r\<lparr>rs_start := 0\<rparr>) p') = mset (map (\<lambda>r. r\<lparr>rs_start := 0\<rparr>) ?p)"
      using S by auto
    have q: "0 < unat (pr_num_qp req)" "unat (pr_num_qp req) < 2 ^ 31"
    proof -
      have "0 < unat (mlx4_entry_num dev req cap MLX4_RES_QP) \<and> unat (mlx4_entry_num dev req cap MLX4_RES_QP) \<le> 2 ^ 30"
        using ok unfolding mlx4_profile_ok_def by blast
      then show "0 < unat (pr_num_qp req)" "unat (pr_num_qp req) < 2 ^ 31" by simp_all
    qed
    have "mlx4_assign dev req cap r lo \<noteq> None" if "r \<in> set p'" for r lo
      using mlx4_assign_some[OF q] erased_num[OF p'(3) that] E(4) by metis
    then obtain lo' where lo': "mlx4_assign_all dev req cap p' lo = Some lo'"
      using mlx4_writer.all_defined[of p'] by blast
    have "areas_ok mlx4_base ?e mlx4_res_all 0 ?av lo'"
      by (rule mlx4_writer.areas_from_layout[OF p'(2,3) E(3) mlx4_res_all_props(2) lo'])
    then have "areas_ok mlx4_base ?e mlx4_res_all 0 ?av (lo'\<lparr>lo_num_pds := MLX4_NUM_PDS\<rparr>)"
      by (simp add: areas_ok_def area_def mlx4_base_pds)
    moreover have "unat (of_nat (sizes_sum ?p) :: u64) = sizes_sum ?p" using True av by (intro unat_of_nat_less) simp
    ultimately show ?thesis using True p'(1) lo' by (simp add: mlx4_make_profile_def Let_def mlx4_total_def)
  qed
qed


section \<open>The InfiniHost layout\<close>

definition mthca_window :: "mthca_dev_info \<Rightarrow> mthca_dev_lim \<Rightarrow> u64 \<times> u64" where
  "mthca_window dev lim =
     (if ti_memfree dev then (0, dl_max_icm_sz lim) else (ti_ddr_start dev, ti_fw_start dev - ti_ddr_start dev))"

text \<open>A request: every entry size and every count is zero or a power of two up to \<open>2 ^ 30\<close>.  For attached memory the
  driver asks for no context per user access region, so that this size is 0; counts are 0 for resources not used.\<close>

definition mthca_profile_ok :: "mthca_dev_info \<Rightarrow> mthca_profile \<Rightarrow> mthca_dev_lim \<Rightarrow> bool" where
  "mthca_profile_ok dev req lim \<longleftrightarrow>
     unat (snd (mthca_window dev lim)) < 2 ^ 63 \<and> (ti_memfree dev \<or> ti_ddr_start dev \<le> ti_fw_start dev) \<and> mp_num_qp req \<noteq> 0 \<and>
     (\<forall>t. (mthca_entry_size req lim t = 0 \<or> (\<exists>a \<le> 30. unat (mthca_entry_size req lim t) = 2 ^ a)) \<and>
        (mthca_entry_num req t = 0 \<or> (\<exists>b \<le> 30. unat (mthca_entry_num req t) = 2 ^ b)))"

lemma mthca_entry_props:
  assumes "mthca_profile_ok dev req lim"
  shows "rs_size (mthca_entry dev req lim t) = 0 \<or> (\<exists>j. unat (rs_size (mthca_entry dev req lim t)) = 2 ^ j)"
    "unat (rs_size (mthca_entry dev req lim t)) < 2 ^ 63"
    "rs_type (mthca_entry dev req lim t) = t" "unat (rs_num (mthca_entry dev req lim t)) \<le> 2 ^ 30"
proof -
  from assms have a: "mthca_entry_size req lim t = 0 \<or> (\<exists>a \<le> 30. unat (mthca_entry_size req lim t) = 2 ^ a)"
    and n: "mthca_entry_num req t = 0 \<or> (\<exists>b \<le> 30. unat (mthca_entry_num req t) = 2 ^ b)"
    unfolding mthca_profile_ok_def by blast+
  let ?s = "mthca_entry_size req lim t * scast (mthca_entry_num req t)"
  have s: "?s = 0 \<or> (\<exists>j. unat ?s = 2 ^ j)" "unat ?s < 2 ^ 63" "unat (mthca_entry_num req t) \<le> 2 ^ 30"
  proof -
    have "?s = 0 \<or> (\<exists>j. unat ?s = 2 ^ j \<and> (2::nat) ^ j < 2 ^ 63)" using a n mult_pow2_size by auto
    then show "?s = 0 \<or> (\<exists>j. unat ?s = 2 ^ j)" "unat ?s < 2 ^ 63" by auto
    show "unat (mthca_entry_num req t) \<le> 2 ^ 30" using n power_increasing[of _ 30 "2::nat"] by auto
  qed
  have mx: "\<exists>j. unat (max ?s PAGE_SIZE) = 2 ^ j"
  proof (cases "?s = 0")
    case True
    then show ?thesis by (intro exI[of _ 12]) (simp add: PAGE_SIZE_def)
  next
    case False
    then show ?thesis using s(1) max_page_pow2 by blast
  qed
  show "rs_size (mthca_entry dev req lim t) = 0 \<or> (\<exists>j. unat (rs_size (mthca_entry dev req lim t)) = 2 ^ j)"
    using s(1) mx by (simp add: mthca_entry_def Let_def)
  show "unat (rs_size (mthca_entry dev req lim t)) < 2 ^ 63"
    using s(2) max_page_bound[OF s(2)] by (simp add: mthca_entry_def Let_def)
  show "rs_type (mthca_entry dev req lim t) = t" by (simp add: mthca_entry_def Let_def)
  show "unat (rs_num (mthca_entry dev req lim t)) \<le> 2 ^ 30" using s(3) by (simp add: mthca_entry_def Let_def)
qed

lemma mthca_res_all_props: "distinct mthca_res_all"
  by (simp add: mthca_res_all_def)

lemma mthca_assign_some:
  assumes "0 < unat (mp_num_qp req)" "unat (mp_num_qp req) < 2 ^ 31" "unat (rs_num r) \<le> 2 ^ 30"
  shows "mthca_assign req r lo \<noteq> None"
  using qp_shift_loop_some[OF assms] by (cases "rs_type r") (auto simp: mthca_assign_def)

definition mthca_total :: "mthca_dev_info \<Rightarrow> mthca_profile \<Rightarrow> mthca_dev_lim \<Rightarrow> nat" where
  "mthca_total dev req lim = sizes_sum (map (mthca_entry dev req lim) mthca_res_all)"

lemma mthca_base_pds: "mthca_base (lo\<lparr>tl_num_pds := n, tl_fmr_reserved_mtts := m\<rparr>) t = mthca_base lo t"
  by (cases t) simp_all

lemma mthca_make_profile_outcome:
  assumes ok: "mthca_profile_ok dev req lim"
  shows "case mthca_make_profile True dev req lim lo of
      None \<Rightarrow> False
    | Some (Inl e) \<Rightarrow> e = ENOMEM \<and> unat (snd (mthca_window dev lim)) < mthca_total dev req lim
    | Some (Inr (tot, lo')) \<Rightarrow> unat tot = mthca_total dev req lim \<and> unat tot \<le> unat (snd (mthca_window dev lim)) \<and>
        areas_ok mthca_base (mthca_entry dev req lim) mthca_res_all (fst (mthca_window dev lim)) (snd (mthca_window dev lim)) lo'"
proof -
  let ?e = "mthca_entry dev req lim" let ?p = "map ?e mthca_res_all"
  obtain b av where w: "mthca_window dev lim = (b, av)" by fastforce
  note E = mthca_entry_props[OF ok]
  have p2: "pow2_sizes ?p" using E(1) by (auto simp: pow2_sizes_def)
  have bd: "\<forall>r \<in> set ?p. unat (rs_size r) < 2 ^ 63" using E(2) by auto
  have av: "unat av < 2 ^ 63" using ok w by (simp add: mthca_profile_ok_def)
  have av2: "unat b + unat av < 2 ^ 64"
  proof (cases "ti_memfree dev")
    case True
    then show ?thesis using w av by (auto simp: mthca_window_def)
  next
    case False
    have "unat (ti_fw_start dev - ti_ddr_start dev) = unat (ti_fw_start dev) - unat (ti_ddr_start dev)"
      "unat (ti_ddr_start dev) \<le> unat (ti_fw_start dev)"
      using ok False by (simp_all add: mthca_profile_ok_def unat_sub word_le_nat_alt)
    moreover have "unat (ti_fw_start dev) < 2 ^ 64" using unsigned_less[of "ti_fw_start dev"] by simp
    ultimately show ?thesis using w False by (auto simp: mthca_window_def)
  qed
  note S = sort_pack_outcome[OF p2 bd av av2]
  have unf: "mthca_make_profile True dev req lim lo = (case pack_loop b av 0 (sort_loop ?p (length ?p)) of
        None \<Rightarrow> Some (Inl ENOMEM)
      | Some (p, tot) \<Rightarrow> map_option (\<lambda>lo. Inr (tot, lo\<lparr>tl_num_pds := MTHCA_NUM_PDS,
            tl_fmr_reserved_mtts := (if ti_memfree dev \<or> ti_win64 dev then 0 else mp_fmr_reserved_mtts req)\<rparr>)) (mthca_assign_all req p lo))"
    using w by (simp add: mthca_make_profile_def Let_def mthca_window_def split: if_splits)
  show ?thesis
  proof (cases "sizes_sum ?p \<le> unat av")
    case False
    then have "pack_loop b av 0 (sort_loop ?p (length ?p)) = None" using S by simp
    then show ?thesis using False w by (simp add: unf mthca_total_def)
  next
    case True
    then obtain p' where p': "pack_loop b av 0 (sort_loop ?p (length ?p)) = Some (p', of_nat (sizes_sum ?p))"
      "layout_ok b av p'" "mset (map (\<lambda>r. r\<lparr>rs_start := 0\<rparr>) p') = mset (map (\<lambda>r. r\<lparr>rs_start := 0\<rparr>) ?p)"
      using S by auto
    have q: "0 < unat (mp_num_qp req)" "unat (mp_num_qp req) < 2 ^ 31"
      using ok E(4)[of MTHCA_RES_QP] by (simp_all add: mthca_profile_ok_def mthca_entry_def Let_def unat_gt_0)
    have "mthca_assign req r lo \<noteq> None" if "r \<in> set p'" for r lo
      using mthca_assign_some[OF q] erased_num[OF p'(3) that] E(4) by metis
    then obtain lo' where lo': "mthca_assign_all req p' lo = Some lo'"
      using mthca_writer.all_defined[of p'] by blast
    have "areas_ok mthca_base ?e mthca_res_all b av lo'"
      by (rule mthca_writer.areas_from_layout[OF p'(2,3) E(3) mthca_res_all_props lo'])
    then have "areas_ok mthca_base ?e mthca_res_all b av (lo'\<lparr>tl_num_pds := n, tl_fmr_reserved_mtts := m\<rparr>)" for n m
      by (simp add: areas_ok_def area_def mthca_base_pds)
    moreover have "unat (of_nat (sizes_sum ?p) :: u64) = sizes_sum ?p" using True av by (intro unat_of_nat_less) simp
    ultimately show ?thesis using True p'(1) lo' w by (simp add: unf mthca_total_def)
  qed
qed

section \<open>Properties\<close>

text \<open>C18. \<open>mlx4_make_profile\<close> always returns.  It fails exactly when the resources together exceed the
  context memory; otherwise the areas it announces to the firmware are inside that memory,
  pairwise disjoint, each aligned to its own size, and packed without a gap (the total is the sum
  of the sizes).\<close>

theorem mlx4_make_profile_correct:
  assumes "mlx4_profile_ok dev req cap"
  shows "case mlx4_make_profile True dev req cap lo of
      None \<Rightarrow> False
    | Some (Inl e) \<Rightarrow> e = ENOMEM \<and> unat (dc_max_icm_sz cap) < mlx4_total dev req cap
    | Some (Inr (tot, lo')) \<Rightarrow> unat tot = mlx4_total dev req cap \<and> unat tot \<le> unat (dc_max_icm_sz cap) \<and>
        areas_ok mlx4_base (mlx4_entry dev req cap) mlx4_res_all 0 (dc_max_icm_sz cap) lo'"
  by (rule mlx4_make_profile_outcome[OF assms])

definition ex_profile :: mlx4_profile where
  "ex_profile = \<lparr>pr_num_qp = 16, pr_rdmarc_per_qp = 4, pr_num_srq = 16, pr_num_cq = 16, pr_num_mcg = 16, pr_num_mpt = 16, pr_num_mtt = 64\<rparr>"

definition ex_dev_cap :: mlx4_dev_cap where
  "ex_dev_cap = \<lparr>dc_qpc_entry_sz = 256, dc_rdmarc_entry_sz = 32, dc_altc_entry_sz = 64, dc_aux_entry_sz = 128, dc_srq_entry_sz = 128,
     dc_cqc_entry_sz = 128, dc_eqc_entry_sz = 128, dc_dmpt_entry_sz = 128, dc_cmpt_entry_sz = 64, dc_mtt_entry_sz = 8,
     dc_reserved_eqs = 4, dc_max_eqs = 64, dc_max_icm_sz = 0x200000000\<rparr>"

definition ex_dev_info :: mlx4_dev_info where
  "ex_dev_info = \<lparr>di_master = False, di_num_slaves = 0, di_cpus = 8, di_mtts_per_seg = 8\<rparr>"

lemma ex_profile_ok: "mlx4_profile_ok ex_dev_info ex_profile ex_dev_cap"
proof -
  have p: "\<exists>a \<le> 30. (n::nat) = 2 ^ a" if "n \<in> {32, 64, 128, 256, 512}" for n
    using that by (auto intro: exI[of _ 5] exI[of _ 6] exI[of _ 7] exI[of _ 8] exI[of _ 9])
  have "unat (mlx4_entry_size ex_dev_info ex_dev_cap t) \<in> {32, 64, 128, 256, 512}" for t
    by (cases t) (simp_all add: ex_dev_info_def ex_dev_cap_def MLX4_MGM_ENTRY_SIZE_def scast_small)
  moreover have "0 < unat (mlx4_entry_num ex_dev_info ex_profile ex_dev_cap t) \<and> unat (mlx4_entry_num ex_dev_info ex_profile ex_dev_cap t) \<le> 2 ^ 30" for t
    by (cases t) (simp_all add: ex_dev_info_def ex_dev_cap_def ex_profile_def MLX4_NUM_CMPTS_def)
  ultimately show ?thesis using p by (auto simp: mlx4_profile_ok_def ex_dev_cap_def)
qed

declare qp_shift_loop.simps [code]

definition ex_layout :: mlx4_layout where
  "ex_layout = \<lparr>lo_num_qps = 0, lo_qpc_base = 0, lo_log_num_qps = 0, lo_rdmarc_shift = 0, lo_max_qp_dest_rdma = 0,
     lo_rdmarc_base32 = 0, lo_rdmarc_base = 0, lo_log_rd_per_qp = 0, lo_altc_base = 0, lo_auxc_base = 0, lo_num_srqs = 0,
     lo_srqc_base = 0, lo_log_num_srqs = 0, lo_num_cqs = 0, lo_cqc_base = 0, lo_log_num_cqs = 0, lo_num_eqs = 0, lo_eqc_base = 0,
     lo_log_num_eqs = 0, lo_num_mpts = 0, lo_mpt_base = 0, lo_dmpt_base = 0, lo_log_mpt_sz = 0, lo_cmpt_base = 0,
     lo_num_mtt_segs = 0, lo_mr_mtt_base = 0, lo_mtt_base = 0, lo_num_mgms = 0, lo_num_amgms = 0, lo_mc_base = 0,
     lo_log_mc_entry_sz = 0, lo_log_mc_table_sz = 0, lo_log_mc_hash_sz = 0, lo_num_pds = 0\<rparr>"

theorem mlx4_make_profile_correct_witness:
  "\<exists>tot lo'. mlx4_make_profile True ex_dev_info ex_profile ex_dev_cap ex_layout = Some (Inr (tot, lo')) \<and>
     areas_ok mlx4_base (mlx4_entry ex_dev_info ex_profile ex_dev_cap) mlx4_res_all 0 (dc_max_icm_sz ex_dev_cap) lo'"
proof -
  have "case mlx4_make_profile True ex_dev_info ex_profile ex_dev_cap ex_layout of Some (Inr x) \<Rightarrow> True | _ \<Rightarrow> False"
    by code_simp
  then obtain tot lo' where r: "mlx4_make_profile True ex_dev_info ex_profile ex_dev_cap ex_layout = Some (Inr (tot, lo'))"
    by (auto split: option.splits sum.splits)
  from mlx4_make_profile_correct[OF ex_profile_ok, of ex_layout] r show ?thesis by simp
qed

text \<open>C33. The same for \<open>mthca_make_profile\<close>: it always returns, fails exactly when the resources exceed the
  window (context memory on memory-free devices, else attached memory below the firmware), and
  otherwise places all areas inside the window, disjoint, and aligned to their sizes
  relative to its start.  A resource of size zero, such as the context of access regions on devices with attached memory, takes no room.\<close>

theorem mthca_make_profile_correct:
  assumes "mthca_profile_ok dev req lim"
  shows "case mthca_make_profile True dev req lim lo of
      None \<Rightarrow> False
    | Some (Inl e) \<Rightarrow> e = ENOMEM \<and> unat (snd (mthca_window dev lim)) < mthca_total dev req lim
    | Some (Inr (tot, lo')) \<Rightarrow> unat tot = mthca_total dev req lim \<and> unat tot \<le> unat (snd (mthca_window dev lim)) \<and>
        areas_ok mthca_base (mthca_entry dev req lim) mthca_res_all (fst (mthca_window dev lim)) (snd (mthca_window dev lim)) lo'"
  by (rule mthca_make_profile_outcome[OF assms])

text \<open>The driver's default request for a device with attached memory and 8 MB of access regions.\<close>

definition ex_mthca_profile :: mthca_profile where
  "ex_mthca_profile = \<lparr>mp_num_qp = 0x10000, mp_rdb_per_qp = 4, mp_num_srq = 0, mp_num_cq = 0x10000, mp_num_mcg = 0x2000, mp_num_mpt = 0x20000,
     mp_num_mtt = 0x100000, mp_num_udav = 0x8000, mp_num_uar = 0x800, mp_uarc_size = 0, mp_fmr_reserved_mtts = 0x40000\<rparr>"

definition ex_dev_lim :: mthca_dev_lim where
  "ex_dev_lim = \<lparr>dl_qpc_entry_sz = 256, dl_eec_entry_sz = 256, dl_srq_entry_sz = 32, dl_cqc_entry_sz = 64, dl_eqpc_entry_sz = 32,
     dl_eeec_entry_sz = 32, dl_eqc_entry_sz = 64, dl_mpt_entry_sz = 64, dl_uar_scratch_entry_sz = 32, dl_max_icm_sz = 0\<rparr>"

definition ex_mthca_info :: mthca_dev_info where
  "ex_mthca_info = \<lparr>ti_memfree = False, ti_ddr_start = 0x80000000, ti_fw_start = 0x90000000, ti_win64 = True\<rparr>"

lemma ex_mthca_profile_ok: "mthca_profile_ok ex_mthca_info ex_mthca_profile ex_dev_lim"
proof -
  have p: "\<exists>a \<le> 30. (n::nat) = 2 ^ a" if "n \<in> {2 ^ 5, 2 ^ 6, 2 ^ 8, 2 ^ 11, 2 ^ 13, 2 ^ 15, 2 ^ 16, 2 ^ 17, 2 ^ 18, 2 ^ 20}" for n
    using that by (elim insertE emptyE) (rule exI, rule conjI[rotated], assumption, simp)+
  have "mthca_entry_size ex_mthca_profile ex_dev_lim t = 0 \<or>
    unat (mthca_entry_size ex_mthca_profile ex_dev_lim t) \<in> {2 ^ 5, 2 ^ 6, 2 ^ 8, 2 ^ 11, 2 ^ 13, 2 ^ 15, 2 ^ 16, 2 ^ 17, 2 ^ 18, 2 ^ 20}" for t
    by (cases t) (simp_all add: ex_mthca_profile_def ex_dev_lim_def MTHCA_MGM_ENTRY_SIZE_def MTHCA_RDB_ENTRY_SIZE_def
        MTHCA_MTT_SEG_SIZE_def MTHCA_AV_SIZE_def scast_small)
  moreover have "mthca_entry_num ex_mthca_profile t = 0 \<or>
    unat (mthca_entry_num ex_mthca_profile t) \<in> {2 ^ 5, 2 ^ 6, 2 ^ 8, 2 ^ 11, 2 ^ 13, 2 ^ 15, 2 ^ 16, 2 ^ 17, 2 ^ 18, 2 ^ 20}" for t
    by (cases t) (simp_all add: ex_mthca_profile_def MTHCA_NUM_EQS_def)
  ultimately show ?thesis
    using p by (simp add: mthca_profile_ok_def mthca_window_def ex_mthca_info_def ex_mthca_profile_def) blast
qed

definition ex_mthca_layout :: mthca_layout where
  "ex_mthca_layout = \<lparr>tl_num_qps = 0, tl_qpc_base = 0, tl_log_num_qps = 0, tl_num_eecs = 0, tl_eec_base = 0, tl_log_num_eecs = 0,
     tl_num_srqs = 0, tl_srqc_base = 0, tl_log_num_srqs = 0, tl_num_cqs = 0, tl_cqc_base = 0, tl_log_num_cqs = 0, tl_eqpc_base = 0,
     tl_eeec_base = 0, tl_num_eqs = 0, tl_eqc_base = 0, tl_log_num_eqs = 0, tl_rdb_shift = 0, tl_rdb_base32 = 0, tl_rdb_base = 0,
     tl_num_mgms = 0, tl_num_amgms = 0, tl_mc_base = 0, tl_log_mc_entry_sz = 0, tl_log_mc_table_sz = 0, tl_mc_hash_sz = 0,
     tl_num_mpts = 0, tl_mr_mpt_base = 0, tl_mpt_base = 0, tl_log_mpt_sz = 0, tl_num_mtt_segs = 0, tl_mr_mtt_base = 0,
     tl_mtt_base = 0, tl_mtt_seg_sz = 0, tl_num_uars = 0, tl_uar_scratch_base = 0, tl_ddr_av_base = 0, tl_num_ddr_avs = 0,
     tl_uarc_size = 0, tl_uar_uarc_base = 0, tl_uarc_base = 0, tl_log_uarc_sz = 0, tl_log_uar_sz = 0, tl_num_pds = 0,
     tl_fmr_reserved_mtts = 0\<rparr>"

theorem mthca_make_profile_correct_witness:
  "\<exists>tot lo'. mthca_make_profile True ex_mthca_info ex_mthca_profile ex_dev_lim ex_mthca_layout = Some (Inr (tot, lo')) \<and>
     areas_ok mthca_base (mthca_entry ex_mthca_info ex_mthca_profile ex_dev_lim) mthca_res_all
       (fst (mthca_window ex_mthca_info ex_dev_lim)) (snd (mthca_window ex_mthca_info ex_dev_lim)) lo'"
proof -
  have "case mthca_make_profile True ex_mthca_info ex_mthca_profile ex_dev_lim ex_mthca_layout of Some (Inr x) \<Rightarrow> True | _ \<Rightarrow> False"
    by code_simp
  then obtain tot lo' where r: "mthca_make_profile True ex_mthca_info ex_mthca_profile ex_dev_lim ex_mthca_layout = Some (Inr (tot, lo'))"
    by (auto split: option.splits sum.splits)
  from mthca_make_profile_correct[OF ex_mthca_profile_ok, of ex_mthca_layout] r show ?thesis by simp
qed

end
