(* ===== verification/Mthca_Alloc.thy ===== *)
theory Mthca_Alloc
  imports Mlx4_Bitmap
begin

text \<open>
  The identifier allocator and the lazily allocated pointer array of the InfiniHost driver
  (\<open>hw/mthca/kernel/mthca_allocator.c\<close>).  The allocator is a second provider of the identifier
  interface of \<open>Id_Alloc\<close>; it uses the bit searches of \<open>mt_utils.h\<close>, which are those
  of \<open>L2w_Bit\<close> text for text.
\<close>

section \<open>Identifiers\<close>

record mthca_alloc_t =
  ma_last :: u32
  ma_top :: u32
  ma_max :: u32
  ma_mask :: u32
  ma_table :: "u32 list"

definition mthca_alloc :: "mthca_alloc_t \<Rightarrow> u32 \<times> mthca_alloc_t" where
  "mthca_alloc a =
     (let obj = find_next_zero_bit (ma_table a) (ma_max a) (ma_last a);
          (obj, a) =
            (if ma_max a \<le> obj
             then (find_first_zero_bit (ma_table a) (ma_max a), a\<lparr>ma_top := (ma_top a + ma_max a) AND ma_mask a\<rparr>)
             else (obj, a))
      in if obj < ma_max a
         then (obj OR ma_top a, a\<lparr>ma_table := l2w_set_bit (unat obj) (ma_table a)\<rparr>)
         else (-1, a))"

definition mthca_free :: "mthca_alloc_t \<Rightarrow> u32 \<Rightarrow> mthca_alloc_t" where
  "mthca_free a obj =
     (let obj = obj AND (ma_max a - 1)
      in a\<lparr>ma_table := l2w_clear_bit (unat obj) (ma_table a), ma_last := min (ma_last a) obj,
           ma_top := (ma_top a + ma_max a) AND ma_mask a\<rparr>)"

definition mthca_alloc_init :: "bool \<Rightarrow> u32 \<Rightarrow> u32 \<Rightarrow> u32 \<Rightarrow> errno + mthca_alloc_t" where
  "mthca_alloc_init mem num msk reserved =
     (if num \<noteq> push_bit (ffs num - 1) 1 then Inl EINVAL
      else if \<not> mem then Inl ENOMEM
      else Inr \<lparr>ma_last = 0, ma_top = 0, ma_max = num, ma_mask = msk,
                ma_table = fold l2w_set_bit [0..<int_count reserved] (replicate (unat (bits_to_longs num)) 0)\<rparr>)"

section \<open>Pointer arrays\<close>

text \<open>A leaf page has \<open>PAGE_SIZE / sizeof (void *)\<close> slots, 512 for pages of 4 KB and pointers of 8 bytes; \<open>None\<close> is the null pointer.  \<open>used\<close> counts the
  calls of \<open>mthca_array_set\<close> less those of \<open>mthca_array_clear\<close>.\<close>

definition MTHCA_ARRAY_SLOTS :: nat where
  "MTHCA_ARRAY_SLOTS = 512"

record 'v mthca_page =
  ap_page :: "'v option list option"
  ap_used :: int

type_synonym 'v mthca_array = "'v mthca_page list"

definition mthca_array_get :: "'v mthca_array \<Rightarrow> nat \<Rightarrow> 'v option" where
  "mthca_array_get arr index =
     (case ap_page (arr ! (index div MTHCA_ARRAY_SLOTS)) of
        Some pg \<Rightarrow> pg ! (index mod MTHCA_ARRAY_SLOTS)
      | None \<Rightarrow> None)"

definition mthca_array_set :: "bool \<Rightarrow> 'v mthca_array \<Rightarrow> nat \<Rightarrow> 'v option \<Rightarrow> errno option \<times> 'v mthca_array" where
  "mthca_array_set mem arr index val =
     (let p = index div MTHCA_ARRAY_SLOTS; e = arr ! p;
          e = (if ap_page e = None \<and> mem then e\<lparr>ap_page := Some (replicate MTHCA_ARRAY_SLOTS None)\<rparr> else e)
      in case ap_page e of
           None \<Rightarrow> (Some ENOMEM, arr)
         | Some pg \<Rightarrow> (None, arr[p := e\<lparr>ap_page := Some (pg[index mod MTHCA_ARRAY_SLOTS := val]), ap_used := ap_used e + 1\<rparr>]))"

text \<open>\<open>None\<close> is a store through a null page.\<close>

definition mthca_array_clear :: "'v mthca_array \<Rightarrow> nat \<Rightarrow> 'v mthca_array option" where
  "mthca_array_clear arr index =
     (let p = index div MTHCA_ARRAY_SLOTS; e = arr ! p
      in if ap_used e \<le> 0 then Some arr
         else if ap_used e - 1 = 0 then Some (arr[p := e\<lparr>ap_page := None, ap_used := 0\<rparr>])
         else case ap_page e of
                None \<Rightarrow> None
              | Some pg \<Rightarrow> Some (arr[p := e\<lparr>ap_page := Some (pg[index mod MTHCA_ARRAY_SLOTS := None]), ap_used := ap_used e - 1\<rparr>]))"

definition mthca_array_init :: "bool \<Rightarrow> nat \<Rightarrow> errno + 'v mthca_array" where
  "mthca_array_init mem nent =
     (if \<not> mem then Inl ENOMEM
      else Inr (replicate ((nent * 8 + 4096 - 1) div 4096) \<lparr>ap_page = None, ap_used = 0\<rparr>))"

section \<open>The allocator as a mlx4 bitmap\<close>

text \<open>Seen as a mlx4 bitmap without kept-back slots, the allocator makes the same choices: only the
  search start and the free counter, which it does not have, differ.\<close>

definition as_mlx4 :: "mthca_alloc_t \<Rightarrow> mlx4_bitmap" where
  "as_mlx4 a = \<lparr>bm_last = ma_last a, bm_top = ma_top a, bm_max = ma_max a, bm_effective_max = ma_max a, bm_mask = ma_mask a,
     bm_avail = of_nat (count_upto (\<lambda>i. \<not> l2w_test_bit i (ma_table a)) (unat (ma_max a))), bm_table = ma_table a\<rparr>"

lemma as_mlx4_sel [simp]:
  "bm_last (as_mlx4 a) = ma_last a" "bm_top (as_mlx4 a) = ma_top a" "bm_max (as_mlx4 a) = ma_max a"
  "bm_effective_max (as_mlx4 a) = ma_max a" "bm_mask (as_mlx4 a) = ma_mask a" "bm_table (as_mlx4 a) = ma_table a"
  "bm_avail (as_mlx4 a) = of_nat (count_upto (\<lambda>i. \<not> l2w_test_bit i (ma_table a)) (unat (ma_max a)))"
  by (simp_all only: as_mlx4_def mlx4_bitmap.select_convs)

definition ma_wf :: "mthca_alloc_t \<Rightarrow> bool" where
  "ma_wf a \<longleftrightarrow> bm_wf (as_mlx4 a)"

definition ma_used :: "mthca_alloc_t \<Rightarrow> nat set" where
  "ma_used a = {i. i < unat (ma_max a) \<and> l2w_test_bit i (ma_table a)}"

definition ma_idx :: "mthca_alloc_t \<Rightarrow> u32 \<Rightarrow> nat" where
  "ma_idx a h = unat (h AND (ma_max a - 1))"

lemma as_mlx4_used: "bm_used (as_mlx4 a) = ma_used a" "bm_idx (as_mlx4 a) = ma_idx a"
proof -
  show "bm_used (as_mlx4 a) = ma_used a" by (simp add: bm_used_def ma_used_def)
  show "bm_idx (as_mlx4 a) = ma_idx a" by (rule ext) (simp add: bm_idx_def ma_idx_def)
qed

text \<open>Equal up to search start and counter.\<close>

definition same_choices :: "mthca_alloc_t \<Rightarrow> mlx4_bitmap \<Rightarrow> bool" where
  "same_choices a b \<longleftrightarrow> bm_top b = ma_top a \<and> bm_max b = ma_max a \<and> bm_effective_max b = ma_max a \<and>
     bm_mask b = ma_mask a \<and> bm_table b = ma_table a"

lemma alloc_same_choices:
  assumes "mthca_alloc a = (h, a')" "mlx4_bitmap_alloc (as_mlx4 a) = (h2, b')"
  shows "h2 = h \<and> same_choices a' b' \<and> ma_last a' = ma_last a"
proof -
  let ?o = "find_next_zero_bit (ma_table a) (ma_max a) (ma_last a)" and ?f = "find_first_zero_bit (ma_table a) (ma_max a)"
  consider "\<not> ma_max a \<le> ?o" | "ma_max a \<le> ?o" "?f < ma_max a" | "ma_max a \<le> ?o" "\<not> ?f < ma_max a" by blast
  then show ?thesis
    using assms by cases (auto simp: mthca_alloc_def mlx4_bitmap_alloc_def same_choices_def Let_def not_le)
qed

lemma free_same_choices: "same_choices (mthca_free a h) (mlx4_bitmap_free (as_mlx4 a) h)"
  by (simp add: mthca_free_def mlx4_bitmap_free_def same_choices_def Let_def)

lemma ma_wf_transfer:
  assumes "bm_wf b" "same_choices a b" "ma_last a \<le> ma_max a"
  shows "ma_wf a"
proof -
  let ?N = "count_upto (\<lambda>i. \<not> l2w_test_bit i (ma_table a)) (unat (ma_max a))"
  note S = assms(2)[unfolded same_choices_def]
  have W: "is_power_of_2 (ma_max a)" "unat (ma_max a) \<le> 32 * length (ma_table a)" "ma_top a AND (ma_max a - 1) = 0"
    "ma_top a AND NOT (ma_mask a) = 0" "prefix_ok (ma_mask a) (ma_max a) (ma_max a)" "unat (bm_avail b) = ?N"
    using assms(1) S unfolding bm_wf_def bm_shape_def by metis+
  have "of_nat (unat (bm_avail b)) = bm_avail b" by simp
  then have "unat (of_nat ?N :: u32) = ?N" using W(6) by metis
  then show ?thesis unfolding ma_wf_def bm_wf_def bm_shape_def as_mlx4_sel using W(1-5) assms(3) by blast
qed

lemma ma_used_same: "same_choices a b \<Longrightarrow> ma_used a = bm_used b" "same_choices a b \<Longrightarrow> ma_idx a = bm_idx b"
proof -
  assume S: "same_choices a b"
  show "ma_used a = bm_used b" using S by (simp add: same_choices_def ma_used_def bm_used_def)
  show "ma_idx a = bm_idx b" using S by (intro ext) (simp add: same_choices_def ma_idx_def bm_idx_def)
qed

lemma ma_wf_last: "ma_wf a \<Longrightarrow> ma_last a \<le> ma_max a"
  by (simp add: ma_wf_def bm_wf_def bm_shape_def)

text \<open>The same without the condition on the mask: the last slot may be lost.\<close>

definition ma_shape :: "mthca_alloc_t \<Rightarrow> bool" where
  "ma_shape a \<longleftrightarrow> bm_shape (as_mlx4 a)"

definition ma_leaks :: "mthca_alloc_t \<Rightarrow> nat set" where
  "ma_leaks a = bm_leaks (as_mlx4 a)"

lemma ma_shape_transfer:
  assumes "bm_shape b" "same_choices a b" "ma_last a \<le> ma_max a"
  shows "ma_shape a" "ma_leaks a = bm_leaks b"
  using assms by (simp_all add: ma_shape_def ma_leaks_def bm_shape_def bm_leaks_def same_choices_def)

interpretation mthca_weak: leaky_allocator ma_shape ma_used "\<lambda>a. unat (ma_max a)" ma_idx ma_leaks mthca_alloc mthca_free
proof
  fix s s' h
  assume "ma_shape s"
  then have bw: "bm_shape (as_mlx4 s)" and last: "ma_last s \<le> ma_max s" by (simp_all add: ma_shape_def bm_shape_def)
  show "ma_used s \<subseteq> {..<unat (ma_max s)}" by (auto simp: ma_used_def)
  obtain h2 b' where b': "mlx4_bitmap_alloc (as_mlx4 s) = (h2, b')" by fastforce
  note AI = mlx4_weak.al_inv[OF bw b'] and AF = mlx4_weak.al_frame[OF bw b']
  have mx: "bm_max b' = ma_max s" by (rule mlx4_bitmap_alloc_step[OF bw b']) simp_all
  have S: "h2 = h" "same_choices s' b'" "ma_max s' = ma_max s" "ma_last s' \<le> ma_max s'" if "mthca_alloc s = (h, s')"
    using alloc_same_choices[OF that b'] mx last by (auto simp: same_choices_def)
  show "ma_shape s'" if "mthca_alloc s = (h, s')" by (rule ma_shape_transfer(1)[OF AI S(2,4)[OF that]])
  show "unat (ma_max s') = unat (ma_max s) \<and> ma_idx s' = ma_idx s \<and> ma_leaks s' = ma_leaks s" if "mthca_alloc s = (h, s')"
    using ma_shape_transfer(2)[OF AI S(2,4)[OF that]] AF S(3)[OF that] by (simp add: ma_leaks_def fun_eq_iff ma_idx_def)
  show "ma_idx s h \<in> {..<unat (ma_max s)} - ma_used s \<and> ma_used s' = insert (ma_idx s h) (ma_used s)"
    if "mthca_alloc s = (h, s')" "h \<noteq> -1"
    using mlx4_weak.al_fresh[OF bw b'] S(1)[OF that(1)] that(2) as_mlx4_used[of s] ma_used_same(1)[OF S(2)[OF that(1)]] by simp
  show "(ma_used s = {..<unat (ma_max s)} \<and> ma_used s' = ma_used s) \<or> (\<exists>i \<in> ma_leaks s - ma_used s. ma_used s' = insert i (ma_used s))"
    if "mthca_alloc s = (-1, s')"
  proof -
    have T: "h2 = -1" "same_choices s' b'" using alloc_same_choices[OF that b'] by auto
    show ?thesis using mlx4_weak.al_fail[OF bw b'[unfolded T(1)]] ma_used_same(1)[OF T(2)] by (simp only: as_mlx4_used as_mlx4_sel ma_leaks_def)
  qed
  assume u: "ma_idx s h \<in> ma_used s"
  then have bu: "bm_idx (as_mlx4 s) h \<in> bm_used (as_mlx4 s)" by (simp add: as_mlx4_used)
  note F = mlx4_bitmap_free_shape[OF bw bu] and C = free_same_choices[of s h] and FF = mlx4_weak.fr_frame[OF bw bu]
  have l: "ma_last (mthca_free s h) \<le> ma_max (mthca_free s h)" using last by (simp add: mthca_free_def Let_def min.coboundedI1)
  show "ma_shape (mthca_free s h)" by (rule ma_shape_transfer(1)[OF F(2) C l])
  show "unat (ma_max (mthca_free s h)) = unat (ma_max s) \<and> ma_idx (mthca_free s h) = ma_idx s \<and> ma_leaks (mthca_free s h) = ma_leaks s"
    using ma_shape_transfer(2)[OF F(2) C l] FF by (simp add: ma_leaks_def) (simp add: mthca_free_def Let_def fun_eq_iff ma_idx_def)
  show "ma_used (mthca_free s h) = ma_used s - {ma_idx s h}"
    using F(1) ma_used_same(1)[OF C] by (simp add: as_mlx4_used)
qed

interpretation mthca_ids: id_allocator ma_wf ma_used "\<lambda>a. unat (ma_max a)" ma_idx mthca_alloc mthca_free
proof
  fix s s' h
  assume wf: "ma_wf s"
  then have bw: "bm_wf (as_mlx4 s)" by (simp add: ma_wf_def)
  show "ma_used s \<subseteq> {..<unat (ma_max s)}" by (auto simp: ma_used_def)
  obtain h2 b' where b': "mlx4_bitmap_alloc (as_mlx4 s) = (h2, b')" by fastforce
  show "ma_wf s'" if "mthca_alloc s = (h, s')"
  proof -
    note S = alloc_same_choices[OF that b']
    have "bm_wf b'" "bm_max b' = ma_max s" using mlx4_bitmap_alloc_frame[OF bw b'] by simp_all
    then show ?thesis using ma_wf_transfer[of b' s'] S ma_wf_last[OF wf] by (simp add: same_choices_def)
  qed
  show "unat (ma_max s') = unat (ma_max s) \<and> ma_idx s' = ma_idx s" if "mthca_alloc s = (h, s')"
    using alloc_same_choices[OF that b'] mlx4_bitmap_alloc_frame[OF bw b']
    by (simp add: same_choices_def fun_eq_iff ma_idx_def)
  show "ma_idx s h \<in> {..<unat (ma_max s)} - ma_used s \<and> ma_used s' = insert (ma_idx s h) (ma_used s)"
    if "mthca_alloc s = (h, s')" "h \<noteq> -1"
    using alloc_same_choices[OF that(1) b'] mlx4_bitmap_alloc_fresh(1,2)[OF bw b'] that(2) as_mlx4_used[of s]
      ma_used_same(1)[of s' b'] by simp
  show "ma_used s = {..<unat (ma_max s)} \<and> ma_used s' = ma_used s" if "mthca_alloc s = (-1, s')"
  proof -
    have S: "h2 = -1" "same_choices s' b'" using alloc_same_choices[OF that b'] by auto
    note f = mlx4_bitmap_alloc_full(1,2)[OF bw b'[unfolded S(1)]]
    have "bm_used b' = bm_used (as_mlx4 s)" using f(2) by (simp add: bm_used_def)
    then show ?thesis using f(1) as_mlx4_used[of s] ma_used_same(1)[OF S(2)] by simp
  qed
  assume u: "ma_idx s h \<in> ma_used s"
  then have bu: "bm_idx (as_mlx4 s) h \<in> bm_used (as_mlx4 s)" by (simp add: as_mlx4_used)
  note F = mlx4_bitmap_free_props[OF bw bu] and S = free_same_choices[of s h]
  show "ma_wf (mthca_free s h)"
    using ma_wf_transfer[OF F(2) S] ma_wf_last[OF wf] by (simp add: mthca_free_def Let_def min.coboundedI1)
  show "unat (ma_max (mthca_free s h)) = unat (ma_max s) \<and> ma_idx (mthca_free s h) = ma_idx s"
    by (simp add: mthca_free_def Let_def fun_eq_iff ma_idx_def)
  show "ma_used (mthca_free s h) = ma_used s - {ma_idx s h}"
    using F(1) ma_used_same(1)[OF S] by (simp add: as_mlx4_used)
qed

lemma ffs_power:
  assumes "is_power_of_2 num"
  shows "num = push_bit (ffs num - 1) 1"
proof -
  obtain k where k: "k < 32" "num = 2 ^ k" using assms by (auto simp: is_power_of_2_iff)
  have "first_idx (bit num) 0 32 = k"
    using k by (intro first_idx_eqI) (auto simp: bit_exp_iff possible_bit_def)
  moreover have "num \<noteq> 0" using assms by (simp add: is_power_of_2_def)
  ultimately have "ffs num = Suc k" by (simp add: ffs_eq)
  then show ?thesis using k by (simp add: push_bit_of_1)
qed

lemma mthca_alloc_init_choices:
  assumes "is_power_of_2 num" "mthca_alloc_init True num msk reserved = Inr a"
    "mlx4_bitmap_init_with_effective_max True num msk reserved num = Inr b"
  shows "same_choices a b" "ma_last a \<le> ma_max a" "ma_max a = num" "ma_mask a = msk"
proof -
  have a: "a = \<lparr>ma_last = 0, ma_top = 0, ma_max = num, ma_mask = msk,
      ma_table = fold l2w_set_bit [0..<int_count reserved] (replicate (unat (bits_to_longs num)) 0)\<rparr>"
    using assms(2) ffs_power[OF assms(1), symmetric] by (simp add: mthca_alloc_init_def)
  show "same_choices a b"
    using assms(3) by (auto simp: a mlx4_bitmap_init_with_effective_max_def same_choices_def split: if_splits)
  show "ma_last a \<le> ma_max a" "ma_max a = num" "ma_mask a = msk" by (simp_all add: a)
qed

lemma mthca_alloc_init_wf:
  assumes "is_power_of_2 num" "reserved \<le> num" "unat reserved < 2 ^ 31" "prefix_ok msk num num"
    and i: "mthca_alloc_init True num msk reserved = Inr a"
  shows "ma_wf a" "ma_used a = {..<unat reserved}" "ma_max a = num"
proof -
  from mlx4_bitmap_init_wf[OF assms(1) order_refl assms(2-4)] obtain b where
    b: "mlx4_bitmap_init_with_effective_max True num msk reserved num = Inr b" "bm_wf b" "bm_used b = {..<unat reserved}" by blast
  note S = mthca_alloc_init_choices[OF assms(1) i b(1)]
  show "ma_wf a" by (rule ma_wf_transfer[OF b(2) S(1,2)])
  show "ma_used a = {..<unat reserved}" using ma_used_same(1)[OF S(1)] b(3) by simp
  show "ma_max a = num" by (rule S)
qed

lemma mthca_alloc_init_shape:
  assumes "is_power_of_2 num" "reserved \<le> num" "unat reserved < 2 ^ 31"
    and i: "mthca_alloc_init True num msk reserved = Inr a"
  shows "ma_shape a" "ma_used a = {..<unat reserved}" "ma_max a = num"
    "ma_leaks a = (if prefix_ok msk num num then {} else {unat num - 1})"
proof -
  from mlx4_bitmap_init_shape[OF assms(1) order_refl assms(2,3), of msk] obtain b where
    b: "mlx4_bitmap_init_with_effective_max True num msk reserved num = Inr b" "bm_shape b" "bm_used b = {..<unat reserved}"
      "bm_max b = num" "bm_effective_max b = num" "bm_mask b = msk" by metis
  note S = mthca_alloc_init_choices[OF assms(1) i b(1)]
  show "ma_shape a" by (rule ma_shape_transfer(1)[OF b(2) S(1,2)])
  show "ma_used a = {..<unat reserved}" using ma_used_same(1)[OF S(1)] b(3) by simp
  show "ma_max a = num" by (rule S)
  show "ma_leaks a = (if prefix_ok msk num num then {} else {unat num - 1})"
    unfolding ma_shape_transfer(2)[OF b(2) S(1,2)] by (simp add: bm_leaks_def b)
qed

text \<open>C27. From a successful \<open>mthca_alloc_init\<close>, with any mask, after any interleaving of
  \<open>mthca_alloc\<close> and frees of held handles: the held handles name distinct slots at or
  above the reserved ones and below the size; the slots in use are these, the reserved ones and \<open>lost\<close>, which is empty when
  the mask leaves a prefix bit out and otherwise at most the last slot.  The next allocation fails when every slot is in use,
  and then only, except that with an all-ones mask, as the memory-region table has, one failing call may take the last slot away.\<close>

theorem mthca_alloc_history:
  assumes "is_power_of_2 num" "reserved \<le> num" "unat reserved < 2 ^ 31"
    "mthca_alloc_init True num msk reserved = Inr a0" "id_trace mthca_alloc mthca_free a0 a hs"
  shows "\<exists>lost. lost \<subseteq> (if prefix_ok msk num num then {} else {unat num - 1}) \<and> history_ok num num reserved (ma_used a) hs lost \<and>
    (length hs + card lost = unat num - unat reserved \<longrightarrow> fst (mthca_alloc a) = -1) \<and>
    (fst (mthca_alloc a) = -1 \<longrightarrow> length hs + card lost = unat num - unat reserved \<or>
       \<not> prefix_ok msk num num \<and> unat num - 1 \<notin> ma_used a \<and> ma_used (snd (mthca_alloc a)) = insert (unat num - 1) (ma_used a))"
proof -
  note a0 = mthca_alloc_init_shape[OF assms(1-4)]
  obtain lost where T: "mthca_weak.trace_ok a0 a hs lost" using mthca_weak.weak_trace[OF assms(5) a0(1)] by blast
  note I = T[unfolded mthca_weak.trace_ok_def] and N = mthca_weak.weak_count[OF T a0(1)]
  have ix: "ma_idx a0 = (\<lambda>h. unat (h AND (num - 1)))" by (simp add: ma_idx_def a0(3) fun_eq_iff)
  have ord: "unat reserved \<le> unat num" using assms(2) by (simp add: word_le_nat_alt)
  have sub: "ma_used a \<subseteq> {..<unat num}" using mthca_weak.used_below[of a] I a0(3) by simp
  have H: "history_ok num num reserved (ma_used a) hs lost"
    by (rule history_okI[OF _ _ _ _ sub]) (use I in \<open>simp_all only: a0(2) ix\<close>)
  have L: "lost \<subseteq> (if prefix_ok msk num num then {} else {unat num - 1})" using I a0(4) by simp
  obtain h a' where ab: "mthca_alloc a = (h, a')" by fastforce
  have fl: "ma_used a = {..<unat num} \<longleftrightarrow> length hs + card lost = unat num - unat reserved"
    using N(3) ord by (simp only: a0(2,3) card_lessThan) linarith
  note W = mthca_weak.weak_full[OF T a0(1) ab, unfolded a0(3,4) fl]
  have F: "length hs + card lost = unat num - unat reserved \<or>
      \<not> prefix_ok msk num num \<and> unat num - 1 \<notin> ma_used a \<and> ma_used a' = insert (unat num - 1) (ma_used a)" if "h = -1"
    using W(2)[OF that] by (cases "prefix_ok msk num num") auto
  show ?thesis unfolding ab fst_conv snd_conv
    by (rule exI[of _ lost], intro conjI, rule L, rule H, rule impI, erule W(1), rule impI, erule F)
qed

theorem mthca_alloc_history_witness:
  "\<exists>a lost. id_trace mthca_alloc mthca_free \<lparr>ma_last = 0, ma_top = 0, ma_max = 8, ma_mask = -1, ma_table = [3]\<rparr> a [3, 2] \<and>
     lost \<subseteq> {7} \<and> history_ok 8 8 2 (ma_used a) [3, 2] lost"
proof -
  let ?a0 = "\<lparr>ma_last = 0, ma_top = 0, ma_max = 8, ma_mask = -1, ma_table = [3]\<rparr>"
  let ?a1 = "\<lparr>ma_last = 0, ma_top = 0, ma_max = 8, ma_mask = -1, ma_table = [7]\<rparr>"
  let ?a2 = "\<lparr>ma_last = 0, ma_top = 0, ma_max = 8, ma_mask = -1, ma_table = [15]\<rparr>"
  have i: "mthca_alloc_init True 8 (-1) 2 = Inr ?a0" by code_simp
  have a1: "mthca_alloc ?a0 = (2, ?a1)" by code_simp
  have a2: "mthca_alloc ?a1 = (3, ?a2)" by code_simp
  have "id_trace mthca_alloc mthca_free ?a0 ?a1 [2]" by (rule id_alloc, rule id_start, rule a1) simp
  then have t: "id_trace mthca_alloc mthca_free ?a0 ?a2 [3, 2]" by (rule id_alloc) (rule a2, simp)
  have "is_power_of_2 8" "(2 :: u32) \<le> 8" "unat (2 :: u32) < 2 ^ 31" by (simp_all add: is_power_of_2_def)
  from mthca_alloc_history[OF this i t]
  obtain lost where "lost \<subseteq> (if prefix_ok (-1) 8 8 then {} else {unat (8 :: u32) - 1})" "history_ok 8 8 2 (ma_used ?a2) [3, 2] lost"
    by (elim exE conjE)
  moreover have "\<not> prefix_ok (-1) 8 8" by (simp add: prefix_ok_def)
  ultimately show ?thesis using t by (intro exI[of _ ?a2] exI[of _ lost]) simp
qed

section \<open>The array as a map\<close>

text \<open>Histories of a client that sets only empty slots to non-null values and clears only set ones;
  \<open>m\<close> is the map it expects.\<close>

inductive array_trace :: "nat \<Rightarrow> 'v mthca_array \<Rightarrow> 'v mthca_array \<Rightarrow> (nat \<Rightarrow> 'v option) \<Rightarrow> bool" for nent a0 where
  array_start: "array_trace nent a0 a0 (\<lambda>i. None)"
| array_set: "array_trace nent a0 a m \<Longrightarrow> i < nent \<Longrightarrow> m i = None \<Longrightarrow> mthca_array_set mem a i (Some v) = (None, a') \<Longrightarrow>
    array_trace nent a0 a' (m(i \<mapsto> v))"
| array_nomem: "array_trace nent a0 a m \<Longrightarrow> i < nent \<Longrightarrow> m i = None \<Longrightarrow> mthca_array_set mem a i (Some v) = (Some e, a') \<Longrightarrow>
    array_trace nent a0 a' m"
| array_clear: "array_trace nent a0 a m \<Longrightarrow> i < nent \<Longrightarrow> m i \<noteq> None \<Longrightarrow> mthca_array_clear a i = Some a' \<Longrightarrow>
    array_trace nent a0 a' (m(i := None))"

definition page_of :: "nat \<Rightarrow> (nat \<Rightarrow> 'v option) \<Rightarrow> nat set" where
  "page_of p m = {i. i div MTHCA_ARRAY_SLOTS = p \<and> m i \<noteq> None}"

definition array_inv :: "nat \<Rightarrow> 'v mthca_array \<Rightarrow> (nat \<Rightarrow> 'v option) \<Rightarrow> bool" where
  "array_inv nent a m \<longleftrightarrow> (\<forall>i < nent. i div MTHCA_ARRAY_SLOTS < length a) \<and>
     (\<forall>p < length a. ap_used (a ! p) = int (card (page_of p m)) \<and>
        (case ap_page (a ! p) of
           None \<Rightarrow> page_of p m = {}
         | Some pg \<Rightarrow> page_of p m \<noteq> {} \<and> length pg = MTHCA_ARRAY_SLOTS \<and>
             (\<forall>k < MTHCA_ARRAY_SLOTS. pg ! k = m (p * MTHCA_ARRAY_SLOTS + k))))"

lemma finite_page_of [simp]: "finite (page_of p m)"
proof (rule finite_subset)
  show "page_of p m \<subseteq> {..<(p + 1) * MTHCA_ARRAY_SLOTS}"
  proof
    fix i assume "i \<in> page_of p m"
    then have "i div MTHCA_ARRAY_SLOTS = p" by (simp add: page_of_def)
    then show "i \<in> {..<(p + 1) * MTHCA_ARRAY_SLOTS}"
      using dividend_less_times_div[of MTHCA_ARRAY_SLOTS i] by (auto simp: MTHCA_ARRAY_SLOTS_def algebra_simps)
  qed
qed simp

lemma page_of_update:
  "page_of p (m(i := v)) = (if i div MTHCA_ARRAY_SLOTS = p
     then if v = None then page_of p m - {i} else insert i (page_of p m) else page_of p m)"
  by (auto simp: page_of_def)

lemma slots_pos: "0 < MTHCA_ARRAY_SLOTS" by (simp add: MTHCA_ARRAY_SLOTS_def)

lemma slot_addr:
  assumes "k < MTHCA_ARRAY_SLOTS"
  shows "p * MTHCA_ARRAY_SLOTS + k = i \<longleftrightarrow> p = i div MTHCA_ARRAY_SLOTS \<and> k = i mod MTHCA_ARRAY_SLOTS"
proof
  assume "p * MTHCA_ARRAY_SLOTS + k = i"
  then show "p = i div MTHCA_ARRAY_SLOTS \<and> k = i mod MTHCA_ARRAY_SLOTS"
    using assms slots_pos by (metis add.commute add.right_neutral div_less div_mult_self3 mod_less mod_mult_self1 not_gr_zero)
next
  assume "p = i div MTHCA_ARRAY_SLOTS \<and> k = i mod MTHCA_ARRAY_SLOTS"
  then show "p * MTHCA_ARRAY_SLOTS + k = i" by simp
qed

lemma array_set_inv:
  assumes I: "array_inv nent a m" and i: "i < nent" and mi: "m i = None"
    and s: "mthca_array_set mem a i (Some v) = (r, a')"
  shows "r = None \<Longrightarrow> array_inv nent a' (m(i \<mapsto> v))" "r \<noteq> None \<Longrightarrow> a' = a"
proof -
  let ?p = "i div MTHCA_ARRAY_SLOTS" let ?k = "i mod MTHCA_ARRAY_SLOTS"
  have p: "?p < length a" using I i by (simp add: array_inv_def)
  show "a' = a" if "r \<noteq> None" using s that by (auto simp: mthca_array_set_def Let_def split: option.splits)
  assume r: "r = None"
  define pg where "pg = (case ap_page (a ! ?p) of Some pg \<Rightarrow> pg | None \<Rightarrow> replicate MTHCA_ARRAY_SLOTS None)"
  have a': "a' = a[?p := (a ! ?p)\<lparr>ap_page := Some (pg[?k := Some v]), ap_used := ap_used (a ! ?p) + 1\<rparr>]"
    using s r by (auto simp: mthca_array_set_def Let_def pg_def split: option.splits if_splits)
  have pg: "length pg = MTHCA_ARRAY_SLOTS" "\<forall>k < MTHCA_ARRAY_SLOTS. pg ! k = m (?p * MTHCA_ARRAY_SLOTS + k)"
  proof -
    have "ap_page (a ! ?p) = None \<Longrightarrow> k < MTHCA_ARRAY_SLOTS \<Longrightarrow> m (?p * MTHCA_ARRAY_SLOTS + k) = None" for k
      using I p slot_addr[of k ?p "?p * MTHCA_ARRAY_SLOTS + k"] by (force simp: array_inv_def page_of_def)
    then show "length pg = MTHCA_ARRAY_SLOTS" "\<forall>k < MTHCA_ARRAY_SLOTS. pg ! k = m (?p * MTHCA_ARRAY_SLOTS + k)"
      using I p by (auto simp: pg_def array_inv_def split: option.splits)
  qed
  have new: "i \<notin> page_of ?p m" using mi by (simp add: page_of_def)
  have kk: "?k < MTHCA_ARRAY_SLOTS" using slots_pos by simp
  have sl: "(pg[?k := Some v]) ! k = (m(i \<mapsto> v)) (?p * MTHCA_ARRAY_SLOTS + k)" if "k < MTHCA_ARRAY_SLOTS" for k
    using that pg slot_addr[OF that, of ?p i] by (auto simp: nth_list_update)
  show "array_inv nent a' (m(i \<mapsto> v))"
    unfolding array_inv_def
  proof (intro conjI allI impI)
    show "j div MTHCA_ARRAY_SLOTS < length a'" if "j < nent" for j using I that by (simp add: a' array_inv_def)
    fix q assume q: "q < length a'"
    show "ap_used (a' ! q) = int (card (page_of q (m(i \<mapsto> v))))"
      using q I p new by (auto simp: a' array_inv_def nth_list_update page_of_update)
    show "case ap_page (a' ! q) of None \<Rightarrow> page_of q (m(i \<mapsto> v)) = {}
       | Some pg \<Rightarrow> page_of q (m(i \<mapsto> v)) \<noteq> {} \<and> length pg = MTHCA_ARRAY_SLOTS \<and>
           (\<forall>k < MTHCA_ARRAY_SLOTS. pg ! k = (m(i \<mapsto> v)) (q * MTHCA_ARRAY_SLOTS + k))"
    proof (cases "q = ?p")
      case True
      then show ?thesis using p pg sl by (simp add: a' page_of_update)
    next
      case False
      have "(m(i \<mapsto> v)) (q * MTHCA_ARRAY_SLOTS + k) = m (q * MTHCA_ARRAY_SLOTS + k)" if "k < MTHCA_ARRAY_SLOTS" for k
        using slot_addr[OF that, of q i] False by auto
      then show ?thesis using q I False by (simp add: a' array_inv_def page_of_update cong: option.case_cong)
    qed
  qed
qed

lemma array_clear_inv:
  assumes I: "array_inv nent a m" and i: "i < nent" and mi: "m i \<noteq> None"
  obtains a' where "mthca_array_clear a i = Some a'" "array_inv nent a' (m(i := None))"
proof -
  let ?p = "i div MTHCA_ARRAY_SLOTS" let ?k = "i mod MTHCA_ARRAY_SLOTS"
  have p: "?p < length a" using I i by (simp add: array_inv_def)
  have ip: "i \<in> page_of ?p m" using mi by (simp add: page_of_def)
  have u: "ap_used (a ! ?p) = int (card (page_of ?p m))" using I p by (simp add: array_inv_def)
  obtain pg where pg: "ap_page (a ! ?p) = Some pg" "length pg = MTHCA_ARRAY_SLOTS"
    "\<forall>k < MTHCA_ARRAY_SLOTS. pg ! k = m (?p * MTHCA_ARRAY_SLOTS + k)"
    using I p ip by (force simp: array_inv_def split: option.splits)
  have c0: "0 < card (page_of ?p m)" using ip by (auto simp: card_gt_0_iff)
  have c1: "card (page_of ?p m - {i}) = card (page_of ?p m) - 1" using ip by (simp add: card_Diff_singleton)
  define e where "e = (if card (page_of ?p m) = 1 then (a ! ?p)\<lparr>ap_page := None, ap_used := 0\<rparr>
    else (a ! ?p)\<lparr>ap_page := Some (pg[?k := None]), ap_used := int (card (page_of ?p m)) - 1\<rparr>)"
  have cl: "mthca_array_clear a i = Some (a[?p := e])"
    using c0 ip by (auto simp: mthca_array_clear_def Let_def u pg(1) e_def)
  have "array_inv nent (a[?p := e]) (m(i := None))"
    unfolding array_inv_def
  proof (intro conjI allI impI)
    show "j div MTHCA_ARRAY_SLOTS < length (a[?p := e])" if "j < nent" for j using I that by (simp add: array_inv_def)
    fix q assume q: "q < length (a[?p := e])"
    show "ap_used (a[?p := e] ! q) = int (card (page_of q (m(i := None))))"
      using q I p c0 c1 by (auto simp: array_inv_def nth_list_update page_of_update e_def)
    show "case ap_page (a[?p := e] ! q) of None \<Rightarrow> page_of q (m(i := None)) = {}
       | Some pg \<Rightarrow> page_of q (m(i := None)) \<noteq> {} \<and> length pg = MTHCA_ARRAY_SLOTS \<and>
           (\<forall>k < MTHCA_ARRAY_SLOTS. pg ! k = (m(i := None)) (q * MTHCA_ARRAY_SLOTS + k))"
    proof (cases "q = ?p")
      case True
      have sl: "(pg[?k := None]) ! k = (m(i := None)) (?p * MTHCA_ARRAY_SLOTS + k)" if "k < MTHCA_ARRAY_SLOTS" for k
        using that pg slot_addr[OF that, of ?p i] by (auto simp: nth_list_update)
      have z: "page_of ?p m - {i} = {} \<longleftrightarrow> card (page_of ?p m) = 1"
        using c1 c0 by (metis One_nat_def Suc_diff_1 card_0_eq card.empty diff_self_eq_0 finite_Diff finite_page_of)
      show ?thesis using True p pg(2) sl z by (auto simp: e_def page_of_update)
    next
      case False
      have "(m(i := None)) (q * MTHCA_ARRAY_SLOTS + k) = m (q * MTHCA_ARRAY_SLOTS + k)" if "k < MTHCA_ARRAY_SLOTS" for k
        using slot_addr[OF that, of q i] False by auto
      then show ?thesis using q I False by (simp add: array_inv_def page_of_update cong: option.case_cong)
    qed
  qed
  then show ?thesis using that cl by blast
qed

lemma array_init_inv:
  assumes "mthca_array_init True nent = Inr a"
  shows "array_inv nent a (\<lambda>i. None)"
proof -
  have a: "a = replicate ((nent * 8 + 4096 - 1) div 4096) \<lparr>ap_page = None, ap_used = 0\<rparr>"
    using assms by (simp add: mthca_array_init_def)
  have "j div 512 < (4095 + nent * 8) div 4096" if "j < nent" for j using that by arith
  then show ?thesis by (simp add: array_inv_def a page_of_def MTHCA_ARRAY_SLOTS_def)
qed

lemma array_trace_inv:
  assumes "array_trace nent a0 a m" "array_inv nent a0 (\<lambda>i. None)"
  shows "array_inv nent a m"
  using assms
proof (induction rule: array_trace.induct)
  case (array_clear a m i a')
  then obtain b where "mthca_array_clear a i = Some b" "array_inv nent b (m(i := None))"
    by (metis array_clear_inv)
  then show ?case using array_clear.hyps by (metis option.inject)
next
  case (array_set a m i mem v a')
  show ?case by (rule array_set_inv(1)[OF array_set.IH[OF array_set.prems] array_set.hyps(2-4) refl])
next
  case (array_nomem a m i mem v e a')
  have "a' = a" by (rule array_set_inv(2)[OF array_nomem.IH[OF array_nomem.prems] array_nomem.hyps(2-4)]) simp
  then show ?case using array_nomem by simp
qed

lemma array_inv_get:
  assumes I: "array_inv nent a m" and i: "i < nent"
  shows "mthca_array_get a i = m i"
proof -
  let ?p = "i div MTHCA_ARRAY_SLOTS"
  have p: "?p < length a" using I i by (simp add: array_inv_def)
  have k: "i mod MTHCA_ARRAY_SLOTS < MTHCA_ARRAY_SLOTS" using slots_pos by simp
  show ?thesis
  proof (cases "ap_page (a ! ?p)")
    case None
    then have "i \<notin> page_of ?p m" using I p by (auto simp: array_inv_def)
    then show ?thesis using None by (simp add: mthca_array_get_def page_of_def)
  next
    case (Some pg)
    then have "pg ! (i mod MTHCA_ARRAY_SLOTS) = m (?p * MTHCA_ARRAY_SLOTS + i mod MTHCA_ARRAY_SLOTS)"
      using I p k by (force simp: array_inv_def)
    then show ?thesis using Some by (simp add: mthca_array_get_def)
  qed
qed

text \<open>C24. The pointer array behaves as a finite map under every history of a client that stores into empty
  slots and clears occupied ones, failed page allocations included: a lookup returns what the map holds,
  a clear of an occupied slot never stores through a null page, and a leaf page is allocated exactly while
  one of its slots is occupied.\<close>

theorem mthca_array_history:
  assumes "mthca_array_init True nent = Inr a0" "array_trace nent a0 a m"
  shows "(\<forall>i < nent. mthca_array_get a i = m i) \<and>
    (\<forall>i < nent. m i \<noteq> None \<longrightarrow> mthca_array_clear a i \<noteq> None) \<and>
    (\<forall>p < length a. ap_page (a ! p) \<noteq> None \<longleftrightarrow> (\<exists>i. i div MTHCA_ARRAY_SLOTS = p \<and> m i \<noteq> None))"
proof -
  have I: "array_inv nent a m" by (rule array_trace_inv[OF assms(2) array_init_inv[OF assms(1)]])
  have "ap_page (a ! p) \<noteq> None \<longleftrightarrow> page_of p m \<noteq> {}" if "p < length a" for p
    using I that by (fastforce simp: array_inv_def split: option.splits)
  then have "\<forall>p < length a. ap_page (a ! p) \<noteq> None \<longleftrightarrow> (\<exists>i. i div MTHCA_ARRAY_SLOTS = p \<and> m i \<noteq> None)"
    by (auto simp: page_of_def)
  moreover have "\<forall>i < nent. m i \<noteq> None \<longrightarrow> mthca_array_clear a i \<noteq> None"
    using array_clear_inv[OF I] by (metis option.distinct(1))
  ultimately show ?thesis using array_inv_get[OF I] by blast
qed

theorem mthca_array_history_witness:
  "\<exists>a0 a :: nat mthca_array. mthca_array_init True 600 = Inr a0 \<and> array_trace 600 a0 a [513 \<mapsto> 7] \<and> mthca_array_get a 513 = Some 7"
proof -
  let ?e = "\<lparr>ap_page = None, ap_used = 0\<rparr> :: nat mthca_page"
  have r: "replicate 2 ?e = [?e, ?e]" by (simp only: numeral_2_eq_2 replicate.simps)
  have i: "mthca_array_init True 600 = Inr [?e, ?e]" by (simp add: mthca_array_init_def r)
  have "513 div MTHCA_ARRAY_SLOTS = 1" by (simp add: MTHCA_ARRAY_SLOTS_def)
  then have "fst (mthca_array_set True [?e, ?e] 513 (Some 7)) = None"
    by (simp add: mthca_array_set_def)
  then obtain a where "mthca_array_set True [?e, ?e] 513 (Some 7) = (None, a)" by (metis prod.collapse)
  then have t: "array_trace 600 [?e, ?e] a [513 \<mapsto> 7]" by (rule array_trace.array_set[OF array_start, rotated 2]) simp_all
  have "mthca_array_get a 513 = Some 7" using mthca_array_history[OF i t, THEN conjunct1] by simp
  then show ?thesis using i t by blast
qed

end
