(* ===== verification/Hash_Chain.thy ===== *)
theory Hash_Chain
  imports OFED_Prelude
begin

text \<open>
  Hash tables whose collision chains are linked by slot numbers, the shape of the multicast
  tables in device memory: the first \<open>N\<close> slots are the bucket heads, a link of \<open>0\<close> ends a
  chain, an unused head carries the key \<open>z\<close>.  A table is given by three functions of the slot number:
  \<open>nx\<close> (link), \<open>key\<close> and \<open>val\<close> (contents as a set).
\<close>

section \<open>Chains\<close>

fun chain :: "(nat \<Rightarrow> nat) \<Rightarrow> nat \<Rightarrow> nat list \<Rightarrow> bool" where
  "chain nx i [] = False"
| "chain nx i [p] = (p = i \<and> nx i = 0)"
| "chain nx i (p # q # ps) = (p = i \<and> nx i \<noteq> 0 \<and> chain nx (nx i) (q # ps))"

lemma chain_hd: "chain nx i ps \<Longrightarrow> \<exists>qs. ps = i # qs"
  by (cases "(nx, i, ps)" rule: chain.cases) auto

lemma chain_cong: "(\<And>j. j \<in> set ps \<Longrightarrow> nx j = nx' j) \<Longrightarrow> chain nx i ps = chain nx' i ps"
  by (induction nx i ps rule: chain.induct) auto

lemma chain_next: "chain nx i (xs @ p # q # ys) \<Longrightarrow> nx p = q \<and> q \<noteq> 0"
proof (induction xs arbitrary: i)
  case Nil
  then show ?case using chain_hd by fastforce
next
  case (Cons x xs)
  then show ?case by (cases xs) (auto dest: chain_hd)
qed

lemma chain_last: "chain nx i (xs @ [p]) \<Longrightarrow> nx p = 0"
proof (induction xs arbitrary: i)
  case (Cons x xs)
  then show ?case by (cases xs) auto
qed simp

lemma chain_snoc:
  "chain nx i (xs @ [p]) \<Longrightarrow> distinct (xs @ [p]) \<Longrightarrow> j \<notin> set (xs @ [p]) \<Longrightarrow> j \<noteq> 0 \<Longrightarrow>
   chain (nx(j := 0, p := j)) i (xs @ [p, j])"
proof (induction xs arbitrary: i)
  case (Cons x xs)
  then show ?case by (cases xs) auto
qed simp

lemma chain_drop:
  "chain nx i (xs @ p # q # ys) \<Longrightarrow> distinct (xs @ p # q # ys) \<Longrightarrow> chain (nx(p := nx q)) i (xs @ p # ys)"
proof (induction xs arbitrary: i)
  case Nil
  show ?case
  proof (cases ys)
    case (Cons y zs)
    have "chain nx (nx q) (y # zs)" using Nil(1) Cons by auto
    then have "chain (nx(p := nx q)) (nx q) (y # zs)"
      using Nil(2) Cons by (subst chain_cong[of _ _ nx]) auto
    then show ?thesis using Nil Cons by (auto simp: fun_upd_def)
  qed (use Nil in auto)
next
  case (Cons x xs)
  then show ?case by (cases xs) auto
qed

section \<open>Tables\<close>

definition slot_val :: "(nat \<Rightarrow> 'k) \<Rightarrow> (nat \<Rightarrow> 'v set) \<Rightarrow> nat list \<Rightarrow> 'k \<Rightarrow> 'v set" where
  "slot_val key val ps g = (\<Union>i\<in>{i \<in> set ps. key i = g}. val i)"

definition bucket_ok :: "'k \<Rightarrow> ('k \<Rightarrow> nat) \<Rightarrow> (nat \<Rightarrow> 'k) \<Rightarrow> (nat \<Rightarrow> 'v set) \<Rightarrow> nat \<Rightarrow> nat list \<Rightarrow> bool" where
  "bucket_ok z hash key val h ps \<longleftrightarrow>
     (key h = z \<and> ps = [h] \<and> val h = {}) \<or> (distinct (map key ps) \<and> (\<forall>i\<in>set ps. key i \<noteq> z \<and> hash (key i) = h))"

definition table_ok :: "'k \<Rightarrow> ('k \<Rightarrow> nat) \<Rightarrow> nat \<Rightarrow> (nat \<Rightarrow> nat) \<Rightarrow> (nat \<Rightarrow> 'k) \<Rightarrow> (nat \<Rightarrow> 'v set) \<Rightarrow>
    nat set \<Rightarrow> (nat \<Rightarrow> nat list) \<Rightarrow> ('k \<Rightarrow> 'v set) \<Rightarrow> bool" where
  "table_ok z hash N nx key val U C M \<longleftrightarrow>
     (\<forall>h<N. chain nx h (C h) \<and> distinct (C h) \<and> (\<forall>i\<in>set (tl (C h)). N \<le> i) \<and> bucket_ok z hash key val h (C h)) \<and>
     (\<forall>h<N. \<forall>h'<N. h \<noteq> h' \<longrightarrow> set (C h) \<inter> set (C h') = {}) \<and>
     (\<Union>h\<in>{..<N}. set (tl (C h))) = U \<and>
     (\<forall>g. g \<noteq> z \<longrightarrow> M g = slot_val key val (C (hash g)) g)"

lemma table_okD:
  assumes "table_ok z hash N nx key val U C M" "h < N"
  shows "chain nx h (C h)" "distinct (C h)" "\<forall>i\<in>set (tl (C h)). N \<le> i" "bucket_ok z hash key val h (C h)"
    "\<forall>h'<N. h \<noteq> h' \<longrightarrow> set (C h) \<inter> set (C h') = {}" "set (tl (C h)) \<subseteq> U"
  using assms by (auto simp: table_ok_def)

lemma slot_val_cong:
  "(\<And>i. i \<in> set ps \<Longrightarrow> key i = g \<longleftrightarrow> key' i = g) \<Longrightarrow> (\<And>i. i \<in> set ps \<Longrightarrow> key i = g \<Longrightarrow> val i = val' i) \<Longrightarrow>
   slot_val key val ps g = slot_val key' val' ps g"
  unfolding slot_val_def by blast

text \<open>A change confined to one bucket: the slots of \<open>C h\<close> and of its replacement \<open>ps\<close>.\<close>

lemma table_update:
  assumes T: "table_ok z hash N nx key val U C M" and h: "h < N"
    and same: "\<And>i. i \<notin> set (C h) \<union> set ps \<Longrightarrow> nx' i = nx i \<and> key' i = key i \<and> val' i = val i"
    and fresh: "set ps - set (C h) \<subseteq> - ({..<N} \<union> U)"
    and ps: "chain nx' h ps" "distinct ps" "\<forall>i\<in>set (tl ps). N \<le> i" "bucket_ok z hash key' val' h ps"
    and M': "\<And>g. g \<noteq> z \<Longrightarrow> hash g = h \<Longrightarrow> M' g = slot_val key' val' ps g"
      "\<And>g. g \<noteq> z \<Longrightarrow> hash g \<noteq> h \<Longrightarrow> M' g = M g"
    and hb: "\<And>g. g \<noteq> z \<Longrightarrow> hash g < N"
  shows "table_ok z hash N nx' key' val' (U - set (tl (C h)) \<union> set (tl ps)) (C(h := ps)) M'"
proof -
  note Th = table_okD[OF T h]
  have dis: "set ps \<inter> set (C h') = {}" if "h' < N" "h' \<noteq> h" for h'
  proof -
    have "set (C h') \<subseteq> {..<N} \<union> U"
      using table_okD(1,6)[OF T that(1)] chain_hd[of nx h' "C h'"] that(1) by fastforce
    then show ?thesis using fresh Th(5) that by blast
  qed
  have other: "nx' i = nx i \<and> key' i = key i \<and> val' i = val i" if "h' < N" "h' \<noteq> h" "i \<in> set (C h')" for h' i
  proof -
    have "i \<notin> set (C h)" "i \<notin> set ps" using Th(5) dis[OF that(1,2)] that by blast+
    then show ?thesis using same by blast
  qed
  have c1: "chain nx' h' ((C(h := ps)) h') \<and> distinct ((C(h := ps)) h') \<and> (\<forall>i\<in>set (tl ((C(h := ps)) h')). N \<le> i) \<and>
    bucket_ok z hash key' val' h' ((C(h := ps)) h')" if h': "h' < N" for h'
  proof (cases "h' = h")
    case False
    note Th' = table_okD[OF T h']
    have "chain nx' h' (C h')" using Th'(1) other[OF h' False] by (subst chain_cong[of _ _ nx]) auto
    moreover have "map key' (C h') = map key (C h')" using other[OF h' False] by simp
    then have "distinct (map key' (C h')) = distinct (map key (C h'))" by (simp only:)
    moreover have "h' \<in> set (C h')" using chain_hd[OF Th'(1)] by force
    ultimately show ?thesis
      using Th' False other[OF h' False] unfolding bucket_ok_def by simp
  qed (use ps in simp)
  have c2: "(C(h := ps)) a \<noteq> [] \<and> set ((C(h := ps)) a) \<inter> set ((C(h := ps)) b) = {}" if "a < N" "b < N" "a \<noteq> b" for a b
    using dis[of a] dis[of b] table_okD(5)[OF T that(1)] that c1[OF that(1)] by (cases "a = h"; cases "b = h") auto
  have c3: "(\<Union>h'\<in>{..<N}. set (tl ((C(h := ps)) h'))) = U - set (tl (C h)) \<union> set (tl ps)"
  proof -
    have tls: "set (tl xs) \<subseteq> set xs" for xs :: "nat list" by (cases xs) auto
    have "U = (\<Union>h'\<in>{..<N} - {h}. set (tl (C h'))) \<union> set (tl (C h))"
      using T h by (auto simp: table_ok_def)
    moreover have "set (tl (C h')) \<inter> set (tl (C h)) = {}" if "h' \<in> {..<N} - {h}" for h'
      using Th(5) that tls[of "C h'"] tls[of "C h"] by blast
    ultimately have "U - set (tl (C h)) = (\<Union>h'\<in>{..<N} - {h}. set (tl (C h')))" by blast
    then show ?thesis using h by (auto split: if_splits)
  qed
  have c4: "M' g = slot_val key' val' ((C(h := ps)) (hash g)) g" if g: "g \<noteq> z" for g
  proof (cases "hash g = h")
    case False
    have "slot_val key' val' (C (hash g)) g = slot_val key val (C (hash g)) g"
      using other[OF hb[OF g] False] by (intro slot_val_cong) auto
    then show ?thesis using M'(2)[OF g False] T g False by (simp add: table_ok_def)
  qed (use M'(1)[OF g] in simp)
  show ?thesis unfolding table_ok_def using c1 c2 c3 c4 by blast
qed

lemma slot_val_Cons: "slot_val key val (p # ps) g = (if key p = g then val p else {}) \<union> slot_val key val ps g"
  by (auto simp: slot_val_def)

lemma slot_val_found:
  assumes "distinct (map key ps)" "i \<in> set ps"
  shows "slot_val key val ps (key i) = val i"
proof -
  have "{j \<in> set ps. key j = key i} = {i}" using assms by (auto simp: distinct_map dest: inj_onD)
  then show ?thesis by (simp add: slot_val_def)
qed

lemma slot_val_none: "g \<notin> key ` set ps \<Longrightarrow> slot_val key val ps g = {}"
  by (auto simp: slot_val_def)

lemma table_slots:
  assumes T: "table_ok z hash N nx key val U C M" and h: "h < N"
  shows "set (C h) \<subseteq> {..<N} \<union> U" "h \<in> set (C h)" "C h = h # tl (C h)" "set (C h) \<inter> {..<N} = {h}"
proof -
  obtain qs where q: "C h = h # qs" using chain_hd[OF table_okD(1)[OF T h]] by blast
  show "set (C h) \<subseteq> {..<N} \<union> U" "h \<in> set (C h)" "C h = h # tl (C h)" "set (C h) \<inter> {..<N} = {h}"
    using q table_okD(3,6)[OF T h] h by auto
qed

lemma table_M:
  assumes "table_ok z hash N nx key val U C M" "g \<noteq> z"
  shows "M g = slot_val key val (C (hash g)) g"
  using assms by (simp add: table_ok_def)

text \<open>Slots outside the table are free to change.\<close>

lemma table_cong:
  assumes T: "table_ok z hash N nx key val U C M"
    and same: "\<And>i. i \<in> {..<N} \<union> U \<Longrightarrow> nx' i = nx i \<and> key' i = key i \<and> val' i = val i"
    and hb: "\<And>g. g \<noteq> z \<Longrightarrow> hash g < N"
  shows "table_ok z hash N nx' key' val' U C M"
proof -
  have s: "nx' i = nx i \<and> key' i = key i \<and> val' i = val i" if "h < N" "i \<in> set (C h)" for h i
    using same table_slots(1)[OF T that(1)] that(2) by blast
  have "chain nx' h (C h) \<and> bucket_ok z hash key' val' h (C h)" if h: "h < N" for h
  proof -
    have "map key' (C h) = map key (C h)" using s[OF h] by simp
    then have "distinct (map key' (C h)) = distinct (map key (C h))" by (simp only:)
    moreover have "chain nx' h (C h)" using table_okD(1)[OF T h] s[OF h] by (subst chain_cong[of _ _ nx]) auto
    ultimately show ?thesis
      using table_okD(4)[OF T h] s[OF h] table_slots(2)[OF T h] unfolding bucket_ok_def by auto
  qed
  moreover have "M g = slot_val key' val' (C (hash g)) g" if "g \<noteq> z" for g
    using table_M[OF T that] s[OF hb[OF that]] by (subst slot_val_cong[of _ key' g key val' val]) auto
  ultimately show ?thesis using T unfolding table_ok_def by blast
qed

lemma bucket_live:
  assumes "bucket_ok z hash key val h ps" "i \<in> set ps" "key i \<noteq> z"
  shows "distinct (map key ps)" "\<forall>i\<in>set ps. key i \<noteq> z \<and> hash (key i) = h"
  using assms by (auto simp: bucket_ok_def)

section \<open>The updates of a table\<close>

lemma table_write:
  assumes T: "table_ok z hash N nx key val U C M" and h: "h < N" and i: "i \<in> set (C h)" "key i \<noteq> z"
    and hb: "\<And>g. g \<noteq> z \<Longrightarrow> hash g < N"
  shows "table_ok z hash N nx key (val(i := V)) U C (M(key i := V))"
proof -
  note Th = table_okD[OF T h] and B = bucket_live[OF table_okD(4)[OF T h] i]
  have "table_ok z hash N nx key (val(i := V)) (U - set (tl (C h)) \<union> set (tl (C h))) (C(h := C h)) (M(key i := V))"
  proof (rule table_update[OF T h _ _ Th(1,2,3) _ _ _ hb])
    show "bucket_ok z hash key (val(i := V)) h (C h)" using B by (simp add: bucket_ok_def)
    show "(M(key i := V)) g = slot_val key (val(i := V)) (C h) g" if "g \<noteq> z" "hash g = h" for g
    proof (cases "g = key i")
      case True
      then show ?thesis using slot_val_found[OF B(1) i(1), of "val(i := V)"] by simp
    next
      case False
      then show ?thesis using table_M[OF T that(1)] that(2)
        by (subst slot_val_cong[of _ key g key "val(i := V)" val]) auto
    qed
    show "(M(key i := V)) g = M g" if "g \<noteq> z" "hash g \<noteq> h" for g using that B(2) i(1) by auto
  qed (use i in auto)
  moreover have "U - set (tl (C h)) \<union> set (tl (C h)) = U" using Th(6) by blast
  ultimately show ?thesis by simp
qed

lemma table_claim:
  assumes T: "table_ok z hash N nx key val U C M" and h: "h < N" and k: "key h = z" and g: "g \<noteq> z" "hash g = h"
    and hb: "\<And>g. g \<noteq> z \<Longrightarrow> hash g < N"
  shows "table_ok z hash N nx (key(h := g)) (val(h := V)) U C (M(g := V))"
proof -
  note Th = table_okD[OF T h]
  have C: "C h = [h]" "val h = {}" using Th(4) k table_slots(2)[OF T h] by (auto simp: bucket_ok_def)
  have "table_ok z hash N nx (key(h := g)) (val(h := V)) (U - set (tl (C h)) \<union> set (tl (C h))) (C(h := C h)) (M(g := V))"
  proof (rule table_update[OF T h _ _ Th(1,2,3) _ _ _ hb])
    show "bucket_ok z hash (key(h := g)) (val(h := V)) h (C h)" using C g by (simp add: bucket_ok_def)
    show "(M(g := V)) g' = slot_val (key(h := g)) (val(h := V)) (C h) g'" if "g' \<noteq> z" "hash g' = h" for g'
      using table_M[OF T that(1)] that k C by (auto simp: slot_val_def)
    show "(M(g := V)) g' = M g'" if "g' \<noteq> z" "hash g' \<noteq> h" for g' using that g by auto
  qed (use C in auto)
  moreover have "U - set (tl (C h)) \<union> set (tl (C h)) = U" using Th(6) by blast
  ultimately show ?thesis by simp
qed

lemma table_append:
  assumes T: "table_ok z hash N nx key val U C M" and h: "h < N" and p: "C h = xs @ [p]" and k: "key h \<noteq> z"
    and g: "g \<noteq> z" "hash g = h" "g \<notin> key ` set (C h)" and j: "j \<notin> {..<N} \<union> U" "0 < N"
    and hb: "\<And>g. g \<noteq> z \<Longrightarrow> hash g < N"
  shows "table_ok z hash N (nx(j := 0, p := j)) (key(j := g)) (val(j := V)) (insert j U) (C(h := C h @ [j])) (M(g := V))"
proof -
  note Th = table_okD[OF T h] and S = table_slots[OF T h]
  note B = bucket_live[OF Th(4) S(2) k]
  have jC: "j \<notin> set (C h)" using S(1) j by blast
  have "table_ok z hash N (nx(j := 0, p := j)) (key(j := g)) (val(j := V))
      (U - set (tl (C h)) \<union> set (tl (C h @ [j]))) (C(h := C h @ [j])) (M(g := V))"
  proof (rule table_update[OF T h _ _ _ _ _ _ _ _ hb])
    show "set (C h @ [j]) - set (C h) \<subseteq> - ({..<N} \<union> U)" using j by auto
    show "chain (nx(j := 0, p := j)) h (C h @ [j])" using chain_snoc[of nx h xs p j] Th(1,2) jC j p by auto
    show "distinct (C h @ [j])" using Th(2) jC by simp
    show "\<forall>i\<in>set (tl (C h @ [j])). N \<le> i"
    proof
      fix i assume "i \<in> set (tl (C h @ [j]))"
      then have "i \<in> set (tl (C h)) \<or> i = j" using S(3) by (metis append_Cons Un_iff empty_iff insert_iff list.sel(3) set_append set_simps)
      then show "N \<le> i" using Th(3) j by auto
    qed
    have m: "map (key(j := g)) (C h) = map key (C h)" using jC by auto
    have "distinct (map (key(j := g)) (C h @ [j]))" unfolding map_append m using B(1) g(3) by auto
    then show "bucket_ok z hash (key(j := g)) (val(j := V)) h (C h @ [j])"
      unfolding bucket_ok_def using B(2) g by auto
    show "(M(g := V)) g' = slot_val (key(j := g)) (val(j := V)) (C h @ [j]) g'" if "g' \<noteq> z" "hash g' = h" for g'
      using table_M[OF T that(1)] that g(3) jC by (auto simp: slot_val_def)
    show "(M(g := V)) g' = M g'" if "g' \<noteq> z" "hash g' \<noteq> h" for g' using that g by auto
  qed (use p in auto)
  moreover have "set (tl (C h @ [j])) = insert j (set (tl (C h)))" using S(3) by (metis append_Cons list.sel(3) list.simps(15) rotate1.simps(2) set_rotate1)
  then have "U - set (tl (C h)) \<union> set (tl (C h @ [j])) = insert j U" using Th(6) by auto
  ultimately show ?thesis by simp
qed

lemma table_drop:
  assumes T: "table_ok z hash N nx key val U C M" and h: "h < N" and C: "C h = xs @ p # q # ys" and v: "val q = {}"
    and hb: "\<And>g. g \<noteq> z \<Longrightarrow> hash g < N"
  shows "table_ok z hash N (nx(p := nx q)) key val (U - {q}) (C(h := xs @ p # ys)) M"
proof -
  note Th = table_okD[OF T h] and S = table_slots[OF T h]
  have kh: "distinct (map key (C h))" "\<forall>i\<in>set (C h). key i \<noteq> z \<and> hash (key i) = h"
    using Th(4) C by (auto simp: bucket_ok_def)
  obtain ws where W: "xs @ p # ys = h # ws" "set (tl (C h)) = insert q (set ws)" "q \<notin> set ws"
    using S(3) Th(2) unfolding C by (cases xs) auto
  have "table_ok z hash N (nx(p := nx q)) key val (U - set (tl (C h)) \<union> set (tl (xs @ p # ys))) (C(h := xs @ p # ys)) M"
  proof (rule table_update[OF T h _ _ _ _ _ _ _ _ hb])
    show "chain (nx(p := nx q)) h (xs @ p # ys)" using chain_drop[of nx h xs p q ys] Th(1,2) C by simp
    show "\<forall>i\<in>set (tl (xs @ p # ys)). N \<le> i" using Th(3) W by auto
    show "bucket_ok z hash key val h (xs @ p # ys)" using kh C by (auto simp: bucket_ok_def)
    show "M g = slot_val key val (xs @ p # ys) g" if "g \<noteq> z" "hash g = h" for g
      using table_M[OF T that(1)] that(2) v C by (auto simp: slot_val_def)
  qed (use C Th(2) in auto)
  moreover have "U - set (tl (C h)) \<union> set (tl (xs @ p # ys)) = U - {q}" using Th(6) W by auto
  ultimately show ?thesis by simp
qed

lemma table_pull:
  assumes T: "table_ok z hash N nx key val U C M" and h: "h < N" and C: "C h = h # j # ys" and v: "val h = {}"
    and hb: "\<And>g. g \<noteq> z \<Longrightarrow> hash g < N"
  shows "table_ok z hash N (nx(h := nx j)) (key(h := key j)) (val(h := val j)) (U - {j}) (C(h := h # ys)) M"
proof -
  note Th = table_okD[OF T h]
  have kh: "distinct (map key (C h))" "\<forall>i\<in>set (C h). key i \<noteq> z \<and> hash (key i) = h"
    using Th(4) C by (auto simp: bucket_ok_def)
  have d: "distinct (h # j # ys)" using Th(2) C by simp
  have "table_ok z hash N (nx(h := nx j)) (key(h := key j)) (val(h := val j)) (U - set (tl (C h)) \<union> set (tl (h # ys))) (C(h := h # ys)) M"
  proof (rule table_update[OF T h _ _ _ _ _ _ _ _ hb])
    show "chain (nx(h := nx j)) h (h # ys)" using chain_drop[of nx h "[]" h j ys] Th(1,2) C by simp
    have "map (key(h := key j)) (h # ys) = map key (j # ys)" using d by auto
    then have "distinct (map (key(h := key j)) (h # ys))" using kh(1) C by (metis distinct.simps(2) list.simps(9))
    then show "bucket_ok z hash (key(h := key j)) (val(h := val j)) h (h # ys)"
      using kh(2) C unfolding bucket_ok_def by auto
    show "M g = slot_val (key(h := key j)) (val(h := val j)) (h # ys) g" if "g \<noteq> z" "hash g = h" for g
    proof -
      have "slot_val (key(h := key j)) (val(h := val j)) ys g = slot_val key val ys g" using d by (intro slot_val_cong) auto
      then show ?thesis using table_M[OF T that(1)] that(2) v C by (simp add: slot_val_Cons)
    qed
  qed (use C d Th(3) in auto)
  moreover have "U - set (tl (C h)) \<union> set (tl (h # ys)) = U - {j}" using Th(6) C d by auto
  ultimately show ?thesis by simp
qed

lemma table_release:
  assumes T: "table_ok z hash N nx key val U C M" and h: "h < N" and C: "C h = [h]" and v: "val h = {}"
    and hb: "\<And>g. g \<noteq> z \<Longrightarrow> hash g < N"
  shows "table_ok z hash N nx (key(h := z)) val U C M"
proof -
  note Th = table_okD[OF T h]
  have "table_ok z hash N nx (key(h := z)) val (U - set (tl (C h)) \<union> set (tl (C h))) (C(h := C h)) M"
  proof (rule table_update[OF T h _ _ Th(1,2,3) _ _ _ hb])
    show "bucket_ok z hash (key(h := z)) val h (C h)" using C v by (simp add: bucket_ok_def)
    show "M g = slot_val (key(h := z)) val (C h) g" if "g \<noteq> z" "hash g = h" for g
      using table_M[OF T that(1)] that v C by (auto simp: slot_val_def)
  qed (use C in auto)
  moreover have "U - set (tl (C h)) \<union> set (tl (C h)) = U" using Th(6) by blast
  ultimately show ?thesis by simp
qed

lemma table_empty:
  assumes "\<And>h. h < N \<Longrightarrow> nx h = 0 \<and> key h = z \<and> val h = {}" "\<And>g. g \<noteq> z \<Longrightarrow> hash g < N"
  shows "table_ok z hash N nx key val {} (\<lambda>h. [h]) (\<lambda>g. {})"
  using assms by (auto simp: table_ok_def bucket_ok_def slot_val_def)

end
