(* ===== verification/Mthca_Mcg.thy ===== *)
theory Mthca_Mcg
  imports Mthca_Alloc Hash_Chain
begin

text \<open>
  The multicast group table of the InfiniHost driver (\<open>hw/mthca/kernel/mthca_mcg.c\<close>): attaching and
  detaching queue pairs.  The table is in device memory and is reached through firmware commands only,
  each of which may fail; a failed command has no effect.  \<open>md_fw\<close> is how the firmware answers the
  next commands, in order (commands past its end succeed).  Words of an entry are held in host byte order; its
  reserved words are never looked at and are left out.  The hash of a group identifier is computed by the
  firmware and is a parameter.
\<close>

section \<open>Entries and commands\<close>

definition MTHCA_QP_PER_MGM :: nat where
  "MTHCA_QP_PER_MGM = 4 * (0x40 div 16 - 2)"

record mgm =
  mg_next :: u32
  mg_gid :: "u8 list"
  mg_qp :: "u32 list"

definition zero_gid :: "u8 list" where
  "zero_gid = replicate 16 0"

datatype fw_reply = Fw_done | Fw_err errno | Fw_status u8

record mcg_dev =
  md_mem :: "nat \<Rightarrow> mgm"
  md_num_mgms :: int
  md_alloc :: mthca_alloc_t
  md_fw :: "fw_reply list"

text \<open>A command and the checks of its return code and its status byte that follow each call.\<close>

definition fw_cmd :: "mcg_dev \<Rightarrow> errno option \<times> mcg_dev" where
  "fw_cmd dev = (case md_fw dev of
     [] \<Rightarrow> (None, dev)
   | r # fw \<Rightarrow> ((case r of Fw_done \<Rightarrow> None | Fw_err e \<Rightarrow> Some e | Fw_status st \<Rightarrow> if st = 0 then None else Some EINVAL),
               dev\<lparr>md_fw := fw\<rparr>))"

definition mthca_READ_MGM :: "mcg_dev \<Rightarrow> int \<Rightarrow> (errno + mgm) \<times> mcg_dev" where
  "mthca_READ_MGM dev index = (case fw_cmd dev of
     (Some e, dev) \<Rightarrow> (Inl e, dev)
   | (None, dev) \<Rightarrow> (Inr (md_mem dev (nat index)), dev))"

definition mthca_WRITE_MGM :: "mcg_dev \<Rightarrow> int \<Rightarrow> mgm \<Rightarrow> errno option \<times> mcg_dev" where
  "mthca_WRITE_MGM dev index m = (case fw_cmd dev of
     (Some e, dev) \<Rightarrow> (Some e, dev)
   | (None, dev) \<Rightarrow> (None, dev\<lparr>md_mem := (md_mem dev)(nat index := m)\<rparr>))"

definition mgm_next :: "mgm \<Rightarrow> int" where
  "mgm_next m = uint (drop_bit 6 (mg_next m))"

section \<open>Looking a group up\<close>

partial_function (option) find_mgm_loop ::
  "u8 list \<Rightarrow> int \<Rightarrow> mcg_dev \<Rightarrow> int \<Rightarrow> int \<Rightarrow> ((errno + int \<times> int \<times> mgm) \<times> mcg_dev) option" where
  "find_mgm_loop gid hash dev prev index =
     (case mthca_READ_MGM dev index of
        (Inl e, dev) \<Rightarrow> Some (Inl e, dev)
      | (Inr m, dev) \<Rightarrow>
          if mg_gid m = zero_gid
          then Some (if index \<noteq> hash then Inl EINVAL else Inr (prev, index, m), dev)
          else if mg_gid m = gid then Some (Inr (prev, index, m), dev)
          else if mgm_next m \<noteq> 0 then find_mgm_loop gid hash dev index (mgm_next m)
          else Some (Inr (index, -1, m), dev))"

declare find_mgm_loop.simps [code]

definition find_mgm :: "bool \<Rightarrow> (u8 list \<Rightarrow> u16) \<Rightarrow> mcg_dev \<Rightarrow> u8 list \<Rightarrow>
    ((errno + int \<times> int \<times> mgm) \<times> mcg_dev) option" where
  "find_mgm mb mgid_hash dev gid =
     (if \<not> mb then Some (Inl ENOMEM, dev)
      else case fw_cmd dev of
             (Some e, dev) \<Rightarrow> Some (Inl e, dev)
           | (None, dev) \<Rightarrow> let hash = uint (mgid_hash gid) in find_mgm_loop gid hash dev (-1) hash)"

section \<open>Attaching a queue pair\<close>

definition qp_tag :: "u32 \<Rightarrow> u32" where
  "qp_tag qp_num = qp_num OR push_bit 31 1"

datatype qp_place = Qp_member | Qp_placed "u32 list" | Qp_full

fun place_qp :: "u32 \<Rightarrow> u32 list \<Rightarrow> qp_place" where
  "place_qp tag [] = Qp_full"
| "place_qp tag (q # qs) =
     (if q = tag then Qp_member
      else if \<not> bit q 31 then Qp_placed (tag # qs)
      else case place_qp tag qs of Qp_placed qs' \<Rightarrow> Qp_placed (q # qs') | r \<Rightarrow> r)"

definition attach_write :: "mcg_dev \<Rightarrow> u32 \<Rightarrow> bool \<Rightarrow> int \<Rightarrow> int \<Rightarrow> mgm \<Rightarrow> errno option \<times> mcg_dev" where
  "attach_write dev qp_num link prev index m =
     (case place_qp (qp_tag qp_num) (mg_qp m) of
        Qp_member \<Rightarrow> (None, dev)
      | Qp_full \<Rightarrow> (Some ENOMEM, dev)
      | Qp_placed qs \<Rightarrow>
          (case mthca_WRITE_MGM dev index (m\<lparr>mg_qp := qs\<rparr>) of
             (Some e, dev) \<Rightarrow> (Some e, dev)
           | (None, dev) \<Rightarrow>
               if \<not> link then (None, dev)
               else (case mthca_READ_MGM dev prev of
                       (Inl e, dev) \<Rightarrow> (Some e, dev)
                     | (Inr m, dev) \<Rightarrow> mthca_WRITE_MGM dev prev (m\<lparr>mg_next := word_of_int (push_bit 6 index)\<rparr>))))"

text \<open>The exit of the function: \<open>None\<close> is the failed assertion.\<close>

definition attach_out :: "bool \<Rightarrow> int \<Rightarrow> errno option \<times> mcg_dev \<Rightarrow> (errno option \<times> mcg_dev) option" where
  "attach_out link index r = (case r of (err, dev) \<Rightarrow>
     if err \<noteq> None \<and> link \<and> index \<noteq> -1
     then if index < md_num_mgms dev then None
          else Some (err, dev\<lparr>md_alloc := mthca_free (md_alloc dev) (word_of_int index)\<rparr>)
     else Some (err, dev))"

definition mthca_multicast_attach ::
  "bool \<Rightarrow> bool \<Rightarrow> (u8 list \<Rightarrow> u16) \<Rightarrow> mcg_dev \<Rightarrow> u32 \<Rightarrow> u8 list \<Rightarrow> (errno option \<times> mcg_dev) option" where
  "mthca_multicast_attach mb mb' mgid_hash dev qp_num gid =
     (if \<not> mb then Some (Some ENOMEM, dev)
      else case find_mgm mb' mgid_hash dev gid of
             None \<Rightarrow> None
           | Some (Inl e, dev) \<Rightarrow> Some (Some e, dev)
           | Some (Inr (prev, index, m), dev) \<Rightarrow>
               if index \<noteq> -1
               then attach_out False index
                      (attach_write dev qp_num False prev index (if mg_gid m = zero_gid then m\<lparr>mg_gid := gid\<rparr> else m))
               else let (obj, a) = mthca_alloc (md_alloc dev); dev = dev\<lparr>md_alloc := a\<rparr>; index = sint obj
                    in if index = -1 then Some (Some ENOMEM, dev)
                       else case mthca_READ_MGM dev index of
                              (Inl e, dev) \<Rightarrow> attach_out True index (Some e, dev)
                            | (Inr _, dev) \<Rightarrow>
                                attach_out True index
                                  (attach_write dev qp_num True prev index
                                     \<lparr>mg_next = 0, mg_gid = gid, mg_qp = replicate MTHCA_QP_PER_MGM 0\<rparr>))"

section \<open>Detaching a queue pair\<close>

fun detach_scan :: "u32 \<Rightarrow> int \<Rightarrow> int \<Rightarrow> u32 list \<Rightarrow> int \<times> int" where
  "detach_scan tag i loc [] = (loc, i)"
| "detach_scan tag i loc (q # qs) =
     (let loc = (if q = tag then i else loc)
      in if \<not> bit q 31 then (loc, i) else detach_scan tag (i + 1) loc qs)"

definition detach_head :: "mcg_dev \<Rightarrow> int \<Rightarrow> mgm \<Rightarrow> (errno option \<times> mcg_dev) option" where
  "detach_head dev index m =
     (let amgm_index_to_free = mgm_next m;
          (r, dev) = (if amgm_index_to_free \<noteq> 0 then mthca_READ_MGM dev amgm_index_to_free
                      else (Inr (m\<lparr>mg_gid := zero_gid\<rparr>), dev))
      in case r of
           Inl e \<Rightarrow> Some (Some e, dev)
         | Inr m \<Rightarrow>
             (case mthca_WRITE_MGM dev index m of
                (Some e, dev) \<Rightarrow> Some (Some e, dev)
              | (None, dev) \<Rightarrow>
                  if amgm_index_to_free \<noteq> 0
                  then if amgm_index_to_free < md_num_mgms dev then None
                       else Some (None, dev\<lparr>md_alloc := mthca_free (md_alloc dev) (word_of_int amgm_index_to_free)\<rparr>)
                  else Some (None, dev)))"

definition detach_amgm :: "mcg_dev \<Rightarrow> int \<Rightarrow> int \<Rightarrow> mgm \<Rightarrow> (errno option \<times> mcg_dev) option" where
  "detach_amgm dev prev index m =
     (let curr_next_index = mgm_next m
      in case mthca_READ_MGM dev prev of
           (Inl e, dev) \<Rightarrow> Some (Some e, dev)
         | (Inr m, dev) \<Rightarrow>
             (case mthca_WRITE_MGM dev prev (m\<lparr>mg_next := word_of_int (push_bit 6 curr_next_index)\<rparr>) of
                (Some e, dev) \<Rightarrow> Some (Some e, dev)
              | (None, dev) \<Rightarrow>
                  if index < md_num_mgms dev then None
                  else Some (None, dev\<lparr>md_alloc := mthca_free (md_alloc dev) (word_of_int index)\<rparr>)))"

definition mthca_multicast_detach ::
  "bool \<Rightarrow> bool \<Rightarrow> (u8 list \<Rightarrow> u16) \<Rightarrow> mcg_dev \<Rightarrow> u32 \<Rightarrow> u8 list \<Rightarrow> (errno option \<times> mcg_dev) option" where
  "mthca_multicast_detach mb mb' mgid_hash dev qp_num gid =
     (if \<not> mb then Some (Some ENOMEM, dev)
      else case find_mgm mb' mgid_hash dev gid of
             None \<Rightarrow> None
           | Some (Inl e, dev) \<Rightarrow> Some (Some e, dev)
           | Some (Inr (prev, index, m), dev) \<Rightarrow>
               if index = -1 then Some (Some EINVAL, dev)
               else let (loc, i) = detach_scan (qp_tag qp_num) 0 (-1) (mg_qp m)
                    in if loc = -1 then Some (Some EINVAL, dev)
                       else let m = m\<lparr>mg_qp := (mg_qp m)[nat loc := mg_qp m ! nat (i - 1), nat (i - 1) := 0]\<rparr>
                            in case mthca_WRITE_MGM dev index m of
                                 (Some e, dev) \<Rightarrow> Some (Some e, dev)
                               | (None, dev) \<Rightarrow>
                                   if i \<noteq> 1 then Some (None, dev)
                                   else if prev = -1 then detach_head dev index m
                                   else detach_amgm dev prev index m)"

definition mthca_init_mcg_table :: "bool \<Rightarrow> int \<Rightarrow> int \<Rightarrow> errno + mthca_alloc_t" where
  "mthca_init_mcg_table mem num_mgms num_amgms =
     (let table_size = num_mgms + num_amgms
      in mthca_alloc_init mem (word_of_int table_size) (word_of_int (table_size - 1)) (word_of_int num_mgms))"


section \<open>The table as a map from groups to queue pairs\<close>

definition qp_members :: "u32 list \<Rightarrow> u32 set" where
  "qp_members qs = set (takeWhile (\<lambda>q. bit q 31) qs)"

definition qp_dense :: "u32 list \<Rightarrow> bool" where
  "qp_dense qs \<longleftrightarrow> length qs = MTHCA_QP_PER_MGM \<and> distinct (takeWhile (\<lambda>q. bit q 31) qs) \<and>
     (\<forall>q\<in>set (dropWhile (\<lambda>q. bit q 31) qs). \<not> bit q 31)"

definition mcg_nx :: "mcg_dev \<Rightarrow> nat \<Rightarrow> nat" where "mcg_nx dev i = nat (mgm_next (md_mem dev i))"
definition mcg_key :: "mcg_dev \<Rightarrow> nat \<Rightarrow> u8 list" where "mcg_key dev i = mg_gid (md_mem dev i)"
definition mcg_val :: "mcg_dev \<Rightarrow> nat \<Rightarrow> u32 set" where "mcg_val dev i = qp_members (mg_qp (md_mem dev i))"

definition mcg_alloc_ok :: "mcg_dev \<Rightarrow> bool" where
  "mcg_alloc_ok dev \<longleftrightarrow> ma_wf (md_alloc dev) \<and> ma_top (md_alloc dev) = 0 \<and>
     ma_mask (md_alloc dev) = ma_max (md_alloc dev) - 1 \<and> unat (ma_max (md_alloc dev)) \<le> 2 ^ 26 \<and>
     0 < md_num_mgms dev \<and> {..<nat (md_num_mgms dev)} \<subseteq> ma_used (md_alloc dev)"

definition mcg_inv :: "(u8 list \<Rightarrow> u16) \<Rightarrow> mcg_dev \<Rightarrow> (nat \<Rightarrow> nat list) \<Rightarrow> (u8 list \<Rightarrow> u32 set) \<Rightarrow> bool" where
  "mcg_inv hash dev C M \<longleftrightarrow> mcg_alloc_ok dev \<and> (\<forall>i\<in>ma_used (md_alloc dev). qp_dense (mg_qp (md_mem dev i))) \<and>
     table_ok zero_gid (\<lambda>g. unat (hash g)) (nat (md_num_mgms dev)) (mcg_nx dev) (mcg_key dev) (mcg_val dev)
       (ma_used (md_alloc dev) - {..<nat (md_num_mgms dev)}) C M"

lemma views_fw [simp]:
  "mcg_nx (dev\<lparr>md_fw := fw\<rparr>) = mcg_nx dev" "mcg_key (dev\<lparr>md_fw := fw\<rparr>) = mcg_key dev"
  "mcg_val (dev\<lparr>md_fw := fw\<rparr>) = mcg_val dev" "mcg_alloc_ok (dev\<lparr>md_fw := fw\<rparr>) = mcg_alloc_ok dev"
  by (auto simp: mcg_nx_def mcg_key_def mcg_val_def mcg_alloc_ok_def fun_eq_iff)

lemma mcg_inv_fw [simp]: "mcg_inv hash (dev\<lparr>md_fw := fw\<rparr>) C M = mcg_inv hash dev C M"
  by (simp add: mcg_inv_def)

lemma views_alloc [simp]:
  "mcg_nx (dev\<lparr>md_alloc := a\<rparr>) = mcg_nx dev" "mcg_key (dev\<lparr>md_alloc := a\<rparr>) = mcg_key dev"
  "mcg_val (dev\<lparr>md_alloc := a\<rparr>) = mcg_val dev"
  by (auto simp: mcg_nx_def mcg_key_def mcg_val_def fun_eq_iff)

lemma views_mem [simp]:
  "mcg_nx (dev\<lparr>md_mem := (md_mem dev)(i := m)\<rparr>) = (mcg_nx dev)(i := nat (mgm_next m))"
  "mcg_key (dev\<lparr>md_mem := (md_mem dev)(i := m)\<rparr>) = (mcg_key dev)(i := mg_gid m)"
  "mcg_val (dev\<lparr>md_mem := (md_mem dev)(i := m)\<rparr>) = (mcg_val dev)(i := qp_members (mg_qp m))"
  "mcg_alloc_ok (dev\<lparr>md_mem := f\<rparr>) = mcg_alloc_ok dev"
  by (auto simp: mcg_nx_def mcg_key_def mcg_val_def mcg_alloc_ok_def fun_eq_iff)

section \<open>Commands\<close>

definition fw_clean :: "mcg_dev \<Rightarrow> bool" where "fw_clean dev \<longleftrightarrow> set (md_fw dev) \<subseteq> {Fw_done}"

lemma fw_cmd_cases:
  assumes "fw_cmd dev = (r, dev')"
  obtains fw where "dev' = dev\<lparr>md_fw := fw\<rparr>" "fw_clean dev \<longrightarrow> r = None \<and> fw_clean dev'"
proof (cases "md_fw dev")
  case Nil
  then show ?thesis using assms that[of "md_fw dev"] by (simp add: fw_cmd_def fw_clean_def)
next
  case (Cons r fw)
  then show ?thesis using assms that[of fw] by (auto simp: fw_cmd_def fw_clean_def)
qed

lemma READ_cases:
  obtains (ok) fw where "mthca_READ_MGM dev i = (Inr (md_mem dev (nat i)), dev\<lparr>md_fw := fw\<rparr>)" "fw_clean dev \<longrightarrow> fw_clean (dev\<lparr>md_fw := fw\<rparr>)"
  | (err) e fw where "mthca_READ_MGM dev i = (Inl e, dev\<lparr>md_fw := fw\<rparr>)" "\<not> fw_clean dev"
proof -
  obtain r dev' where f: "fw_cmd dev = (r, dev')" by fastforce
  then obtain fw where "dev' = dev\<lparr>md_fw := fw\<rparr>" "fw_clean dev \<longrightarrow> r = None \<and> fw_clean dev'" by (rule fw_cmd_cases)
  then show ?thesis using f that by (cases r) (auto simp: mthca_READ_MGM_def)
qed

lemma WRITE_cases:
  obtains (ok) fw where "mthca_WRITE_MGM dev i m = (None, dev\<lparr>md_mem := (md_mem dev)(nat i := m), md_fw := fw\<rparr>)"
      "fw_clean dev \<longrightarrow> fw_clean (dev\<lparr>md_fw := fw\<rparr>)"
  | (err) e fw where "mthca_WRITE_MGM dev i m = (Some e, dev\<lparr>md_fw := fw\<rparr>)" "\<not> fw_clean dev"
proof -
  obtain r dev' where f: "fw_cmd dev = (r, dev')" by fastforce
  then obtain fw where F: "dev' = dev\<lparr>md_fw := fw\<rparr>" "fw_clean dev \<longrightarrow> r = None \<and> fw_clean dev'" by (rule fw_cmd_cases)
  show ?thesis
  proof (cases r)
    case None
    then have "mthca_WRITE_MGM dev i m = (None, dev\<lparr>md_mem := (md_mem dev)(nat i := m), md_fw := fw\<rparr>)"
      using f F by (simp add: mthca_WRITE_MGM_def)
    then show ?thesis using F by (intro ok) auto
  next
    case (Some e)
    then show ?thesis using f F by (intro err) (auto simp: mthca_WRITE_MGM_def)
  qed
qed

section \<open>Lookup\<close>

definition found :: "mcg_dev \<Rightarrow> nat list \<Rightarrow> nat \<Rightarrow> u8 list \<Rightarrow> int \<Rightarrow> int \<Rightarrow> mgm \<Rightarrow> bool" where
  "found dev ps h g prev index m \<longleftrightarrow>
     (index = int h \<and> prev = -1 \<and> m = md_mem dev h \<and> (mg_gid m = g \<or> mg_gid m = zero_gid)) \<or>
     (\<exists>xs p q ys. ps = xs @ p # q # ys \<and> index = int q \<and> prev = int p \<and> m = md_mem dev q \<and> mg_gid m = g) \<or>
     (\<exists>xs p. ps = xs @ [p] \<and> index = -1 \<and> prev = int p \<and> g \<notin> mcg_key dev ` set ps \<and> mcg_key dev h \<noteq> zero_gid)"

lemma found_fw [simp]: "found (dev\<lparr>md_fw := fw\<rparr>) = found dev"
  by (auto simp: found_def fun_eq_iff)

lemma mgm_next_nx: "mgm_next (md_mem dev i) = int (mcg_nx dev i)"
  by (simp add: mcg_nx_def mgm_next_def)

lemma found_here:
  assumes "mcg_key dev i = g \<or> mcg_key dev i = zero_gid \<and> pre = []" "pre = [] \<Longrightarrow> i = h"
    "prev = (if pre = [] then -1 else int (last pre))"
  shows "found dev (pre @ i # ys) h g prev (int i) (md_mem dev i)"
proof (cases "pre = []")
  case True
  then show ?thesis using assms by (auto simp: found_def mcg_key_def)
next
  case False
  then have "pre @ i # ys = butlast pre @ last pre # i # ys" by simp
  moreover have "prev = int (last pre)" "mg_gid (md_mem dev i) = g" using False assms by (auto simp: mcg_key_def)
  ultimately show ?thesis unfolding found_def by blast
qed

lemma find_mgm_loop_read:
  assumes "mthca_READ_MGM dev (int i) = (Inr (md_mem dev i), dev')"
  shows "find_mgm_loop g hash dev prev (int i) =
    (if mcg_key dev i = zero_gid then Some (if int i \<noteq> hash then Inl EINVAL else Inr (prev, int i, md_mem dev i), dev')
     else if mcg_key dev i = g then Some (Inr (prev, int i, md_mem dev i), dev')
     else if mcg_nx dev i \<noteq> 0 then find_mgm_loop g hash dev' (int i) (int (mcg_nx dev i))
     else Some (Inr (int i, -1, md_mem dev i), dev'))"
  by (subst find_mgm_loop.simps) (simp add: assms mcg_key_def mgm_next_nx)

lemma find_mgm_loop_hit:
  assumes R: "mthca_READ_MGM dev (int i) = (Inr (md_mem dev i), dev')"
    and c: "chain (mcg_nx dev) h (pre @ i # ys)" "distinct (pre @ i # ys)"
    and k: "\<forall>j\<in>set (pre @ i # ys). j \<noteq> h \<longrightarrow> mcg_key dev j \<noteq> zero_gid" "mcg_key dev i = zero_gid \<or> mcg_key dev i = g"
    and prev: "prev = (if pre = [] then -1 else int (last pre))"
  shows "find_mgm_loop g (int h) dev prev (int i) = Some (Inr (prev, int i, md_mem dev i), dev')"
    "found dev (pre @ i # ys) h g prev (int i) (md_mem dev i)"
proof -
  have hd: "pre = [] \<longleftrightarrow> i = h" using c by (cases pre) (auto dest: chain_hd)
  then have *: "mcg_key dev i = g \<or> mcg_key dev i = zero_gid \<and> pre = []" "mcg_key dev i = zero_gid \<Longrightarrow> i = h"
    using k by auto
  show "found dev (pre @ i # ys) h g prev (int i) (md_mem dev i)" by (rule found_here) (use * hd prev in auto)
  show "find_mgm_loop g (int h) dev prev (int i) = Some (Inr (prev, int i, md_mem dev i), dev')"
    using *(2) k(2) by (auto simp: find_mgm_loop_read[OF R])
qed

lemma find_mgm_loop_finds:
  assumes "chain (mcg_nx dev) h (pre @ i # ys)" "distinct (pre @ i # ys)"
    "\<forall>j\<in>set (pre @ i # ys). j \<noteq> h \<longrightarrow> mcg_key dev j \<noteq> zero_gid"
    "\<forall>j\<in>set pre. mcg_key dev j \<noteq> g \<and> mcg_key dev j \<noteq> zero_gid"
    "prev = (if pre = [] then -1 else int (last pre))"
  shows "\<exists>r fw. find_mgm_loop g (int h) dev prev (int i) = Some (r, dev\<lparr>md_fw := fw\<rparr>) \<and>
    (fw_clean dev \<longrightarrow> fw_clean (dev\<lparr>md_fw := fw\<rparr>) \<and> isl r = False) \<and>
    (\<forall>prev' index m. r = Inr (prev', index, m) \<longrightarrow> found dev (pre @ i # ys) h g prev' index m)"
  using assms
proof (induction ys arbitrary: pre i prev dev)
  case (Cons y ys)
  have nx: "mcg_nx dev i = y" "y \<noteq> 0" using chain_next[OF Cons.prems(1)] by auto
  show ?case
  proof (cases rule: READ_cases[of dev "int i"])
    case (ok fw)
    then have R: "mthca_READ_MGM dev (int i) = (Inr (md_mem dev i), dev\<lparr>md_fw := fw\<rparr>)" by simp
    show ?thesis
    proof (cases "mcg_key dev i = zero_gid \<or> mcg_key dev i = g")
      case True
      note hit = find_mgm_loop_hit[OF R Cons.prems(1,2,3) True Cons.prems(5)]
      then show ?thesis using ok(2) by auto
    next
      case False
      have "\<exists>r fw'. find_mgm_loop g (int h) (dev\<lparr>md_fw := fw\<rparr>) (int i) (int y) = Some (r, dev\<lparr>md_fw := fw\<rparr>\<lparr>md_fw := fw'\<rparr>) \<and>
        (fw_clean (dev\<lparr>md_fw := fw\<rparr>) \<longrightarrow> fw_clean (dev\<lparr>md_fw := fw\<rparr>\<lparr>md_fw := fw'\<rparr>) \<and> isl r = False) \<and>
        (\<forall>prev' index m. r = Inr (prev', index, m) \<longrightarrow> found (dev\<lparr>md_fw := fw\<rparr>) ((pre @ [i]) @ y # ys) h g prev' index m)"
        using Cons.prems False by (intro Cons.IH) auto
      then obtain r fw' where
        "find_mgm_loop g (int h) (dev\<lparr>md_fw := fw\<rparr>) (int i) (int y) = Some (r, dev\<lparr>md_fw := fw'\<rparr>)"
        "fw_clean dev \<longrightarrow> fw_clean (dev\<lparr>md_fw := fw'\<rparr>) \<and> isl r = False"
        "\<forall>prev' index m. r = Inr (prev', index, m) \<longrightarrow> found dev (pre @ i # y # ys) h g prev' index m"
        using ok(2) by auto
      moreover have "find_mgm_loop g (int h) dev prev (int i) = find_mgm_loop g (int h) (dev\<lparr>md_fw := fw\<rparr>) (int i) (int y)"
        using False nx by (simp add: find_mgm_loop_read[OF R])
      ultimately show ?thesis by auto
    qed
  next
    case (err e fw)
    then show ?thesis by (subst find_mgm_loop.simps) auto
  qed
next
  case Nil
  show ?case
  proof (cases rule: READ_cases[of dev "int i"])
    case (ok fw)
    then have R: "mthca_READ_MGM dev (int i) = (Inr (md_mem dev i), dev\<lparr>md_fw := fw\<rparr>)" by simp
    show ?thesis
    proof (cases "mcg_key dev i = zero_gid \<or> mcg_key dev i = g")
      case True
      note hit = find_mgm_loop_hit[OF R Nil.prems(1,2,3) True Nil.prems(5)]
      then show ?thesis using ok(2) by auto
    next
      case False
      have nx: "mcg_nx dev i = 0" using chain_last[OF Nil.prems(1)] .
      have "h \<in> set (pre @ [i])" using chain_hd[OF Nil.prems(1)] by (metis list.set_intros(1))
      then have "mcg_key dev h \<noteq> zero_gid" using Nil.prems(4) False by auto
      then have "found dev (pre @ [i]) h g (int i) (-1) (md_mem dev i)"
        unfolding found_def using Nil.prems(4) False by auto
      then have "find_mgm_loop g (int h) dev prev (int i) = Some (Inr (int i, -1, md_mem dev i), dev\<lparr>md_fw := fw\<rparr>) \<and>
        found dev (pre @ [i]) h g (int i) (-1) (md_mem dev i)"
        using False nx by (simp add: find_mgm_loop_read[OF R])
      then show ?thesis using ok(2) by auto
    qed
  next
    case (err e fw)
    then show ?thesis by (subst find_mgm_loop.simps) auto
  qed
qed

section \<open>The queue pairs of an entry\<close>

lemma qp_tag_live [simp]: "bit (qp_tag q) 31"
  by (simp add: qp_tag_def bit_or_iff bit_push_bit_iff)

lemma qp_denseD:
  assumes "qp_dense qs"
  shows "length qs = MTHCA_QP_PER_MGM" "distinct (takeWhile (\<lambda>q. bit q 31) qs)"
    "\<forall>q\<in>set (dropWhile (\<lambda>q. bit q 31) qs). \<not> bit q 31"
  using assms unfolding qp_dense_def by blast+

lemma place_qp_eq:
  assumes "bit tag 31"
  shows "place_qp tag qs =
    (if tag \<in> qp_members qs then Qp_member
     else case dropWhile (\<lambda>q. bit q 31) qs of [] \<Rightarrow> Qp_full | d # ds \<Rightarrow> Qp_placed (takeWhile (\<lambda>q. bit q 31) qs @ tag # ds))"
  using assms by (induction qs) (auto simp: qp_members_def simp del: dropWhile_eq_Nil_conv split: list.splits)

lemma place_qp_member: "qp_dense qs \<Longrightarrow> place_qp (qp_tag q) qs = Qp_member \<longleftrightarrow> qp_tag q \<in> qp_members qs"
  by (simp add: place_qp_eq split: list.splits)

lemma place_qp_full:
  assumes "qp_dense qs" "place_qp (qp_tag q) qs = Qp_full"
  shows "qp_tag q \<notin> qp_members qs \<and> card (qp_members qs) = MTHCA_QP_PER_MGM"
proof -
  have "qp_tag q \<notin> qp_members qs" "dropWhile (\<lambda>q. bit q 31) qs = []"
    using assms(2) by (auto simp: place_qp_eq split: if_splits list.splits)
  moreover from this(2) have t: "takeWhile (\<lambda>q. bit q 31) qs = qs" by (metis append_Nil2 takeWhile_dropWhile_id)
  ultimately show ?thesis using qp_denseD(1,2)[OF assms(1)] unfolding qp_members_def t by (simp add: distinct_card)
qed

lemma place_qp_placed:
  assumes d: "qp_dense qs" and p: "place_qp (qp_tag q) qs = Qp_placed qs'"
  shows "qp_tag q \<notin> qp_members qs" "qp_dense qs'" "qp_members qs' = insert (qp_tag q) (qp_members qs)"
proof -
  let ?t = "takeWhile (\<lambda>q. bit q 31) qs"
  obtain x ds where X: "qp_tag q \<notin> qp_members qs" "dropWhile (\<lambda>q. bit q 31) qs = x # ds" "qs' = ?t @ qp_tag q # ds"
    using p by (auto simp: place_qp_eq split: if_splits list.splits)
  have dead: "\<forall>y\<in>set ds. \<not> bit y 31" using qp_denseD(3)[OF d, unfolded X(2)] by simp
  have t: "takeWhile (\<lambda>q. bit q 31) ds = []" "dropWhile (\<lambda>q. bit q 31) ds = ds" using dead by (cases ds; simp)+
  have "\<forall>y\<in>set ?t. bit y 31" by (auto dest: set_takeWhileD)
  then have tw: "takeWhile (\<lambda>q. bit q 31) qs' = ?t @ [qp_tag q]" "dropWhile (\<lambda>q. bit q 31) qs' = ds"
    using t by (simp_all add: X(3) takeWhile_append2 dropWhile_append2)
  have len: "length qs' = length qs" using arg_cong[OF takeWhile_dropWhile_id[of "\<lambda>q. bit q 31" qs], of length] X(2,3) by simp
  have dd: "distinct ?t" "length qs = MTHCA_QP_PER_MGM" using qp_denseD[OF d] by blast+
  show "qp_tag q \<notin> qp_members qs" by (fact X(1))
  show "qp_dense qs'" unfolding qp_dense_def tw using dd X(1) dead len by (auto simp: qp_members_def)
  show "qp_members qs' = insert (qp_tag q) (qp_members qs)" unfolding qp_members_def tw by simp
qed

lemma detach_scan_counts:
  "detach_scan tag i loc qs = (loc', i') \<Longrightarrow> i' = i + int (length (takeWhile (\<lambda>q. bit q 31) qs))"
proof (induction tag i loc qs rule: detach_scan.induct)
  case (2 tag i loc q qs)
  then show ?case by (auto simp: Let_def split: if_splits)
qed simp

lemma detach_scan_finds:
  assumes "distinct (takeWhile (\<lambda>q. bit q 31) qs)" "bit tag 31" "detach_scan tag i loc qs = (loc', i')"
  shows "if tag \<in> qp_members qs
     then \<exists>k < length (takeWhile (\<lambda>q. bit q 31) qs). loc' = i + int k \<and> qs ! k = tag
     else loc' = loc"
  using assms
proof (induction tag i loc qs rule: detach_scan.induct)
  case (2 tag i loc q qs)
  show ?case
  proof (cases "bit q 31")
    case False
    then have "q \<noteq> tag" using 2(3) by auto
    then show ?thesis using False 2(4) by (auto simp: qp_members_def)
  next
    case True
    define l where "l = (if q = tag then i else loc)"
    have s: "detach_scan tag (i + 1) l qs = (loc', i')" using 2(4) True by (auto simp: Let_def l_def)
    have IH: "if tag \<in> qp_members qs then \<exists>k < length (takeWhile (\<lambda>q. bit q 31) qs). loc' = i + 1 + int k \<and> qs ! k = tag else loc' = l"
      using 2(1)[OF l_def] True 2(2,3) s by auto
    show ?thesis
    proof (cases "tag \<in> qp_members qs")
      case T: True
      then obtain k where "k < length (takeWhile (\<lambda>q. bit q 31) qs)" "loc' = i + 1 + int k" "qs ! k = tag" using IH by auto
      then have "Suc k < length (takeWhile (\<lambda>q. bit q 31) (q # qs)) \<and> loc' = i + int (Suc k) \<and> (q # qs) ! Suc k = tag"
        using True by simp
      then show ?thesis using T True by (auto simp: qp_members_def)
    next
      case F: False
      then show ?thesis using IH True by (auto simp: qp_members_def l_def)
    qed
  qed
qed (simp add: qp_members_def)

lemma swap_out:
  assumes "distinct t" "k < length t"
  shows "distinct (butlast (t[k := last t]))" "set (butlast (t[k := last t])) = set t - {t ! k}"
proof -
  obtain u x where t: "t = u @ [x]" using assms(2) by (cases t rule: rev_cases) auto
  have "distinct (butlast (t[k := last t])) \<and> set (butlast (t[k := last t])) = set t - {t ! k}"
  proof (cases "k < length u")
    case True
    then have "butlast (t[k := last t]) = u[k := x]" by (simp add: t list_update_append)
    moreover have "t ! k = u ! k" "t ! k \<noteq> x" using True assms(1) by (auto simp: t nth_append)
    ultimately show ?thesis using True assms(1) by (auto simp: t set_update_distinct intro!: distinct_list_update)
  next
    case False
    then have "k = length u" using assms(2) t by simp
    then have "butlast (t[k := last t]) = u" "t ! k = x" by (simp_all add: t)
    then show ?thesis using assms(1) by (auto simp: t)
  qed
  then show "distinct (butlast (t[k := last t]))" "set (butlast (t[k := last t])) = set t - {t ! k}" by auto
qed

lemma swap_append:
  fixes t :: "u32 list"
  assumes "k < length t"
  shows "(t @ d)[k := (t @ d) ! (length t - 1), length t - 1 := 0] = butlast (t[k := last t]) @ 0 # d"
proof -
  obtain u x where t: "t = u @ [x]" using assms by (cases t rule: rev_cases) auto
  have "(t @ d)[k := x] = t[k := x] @ d" using assms by (simp add: list_update_append)
  moreover have "(t[k := x] @ d)[length t - 1 := 0] = (t[k := x])[length t - 1 := 0] @ d"
    using assms by (intro list_update_append1) auto
  moreover have "(t[k := x])[length t - 1 := 0] = butlast (t[k := x]) @ [0]"
    by (cases "t[k := x]" rule: rev_cases) (auto simp: t dest: arg_cong[of _ _ length])
  ultimately show ?thesis by (simp add: t)
qed

lemma remove_qp:
  assumes d: "qp_dense qs" and n: "n = length (takeWhile (\<lambda>q. bit q 31) qs)" and k: "k < n"
  shows "qp_dense (qs[k := qs ! (n - 1), n - 1 := 0])"
    "qp_members (qs[k := qs ! (n - 1), n - 1 := 0]) = qp_members qs - {qs ! k}"
proof -
  define t where "t = takeWhile (\<lambda>q. bit q 31) qs"
  define ds where "ds = dropWhile (\<lambda>q. bit q 31) qs"
  define u where "u = butlast (t[k := last t])"
  have q: "qs = t @ ds" by (simp add: t_def ds_def)
  have kt: "k < length t" using n k by (simp add: t_def)
  have len: "length qs = MTHCA_QP_PER_MGM" using qp_denseD[OF d] by blast
  have e: "qs[k := qs ! (n - 1), n - 1 := 0] = u @ 0 # ds"
    using swap_append[of k t ds] n k unfolding u_def t_def[symmetric] q[symmetric] by simp
  have D: "distinct t" "\<forall>y\<in>set ds. \<not> bit y 31" using qp_denseD[OF d] unfolding t_def ds_def by blast+
  have S: "distinct u" "set u = set t - {t ! k}" using swap_out[OF D(1) kt] by (simp_all only: u_def)
  have "\<forall>y\<in>set t. bit y 31" by (auto simp: t_def dest: set_takeWhileD)
  then have "\<forall>y\<in>set u. bit y 31" using S(2) by simp
  then have tw: "takeWhile (\<lambda>q. bit q 31) (u @ 0 # ds) = u" "dropWhile (\<lambda>q. bit q 31) (u @ 0 # ds) = 0 # ds"
    by (simp_all add: takeWhile_append2 dropWhile_append2)
  have "length (u @ 0 # ds) = length qs" unfolding e[symmetric] by simp
  then show "qp_dense (qs[k := qs ! (n - 1), n - 1 := 0])"
    unfolding qp_dense_def e tw using S(1) D(2) len by auto
  have "qs ! k = t ! k" using kt by (subst q) (simp add: nth_append)
  then show "qp_members (qs[k := qs ! (n - 1), n - 1 := 0]) = qp_members qs - {qs ! k}"
    unfolding qp_members_def e tw t_def[symmetric] using S(2) by simp
qed

section \<open>Identifiers of the chained entries\<close>

lemma mcg_alloc_okD:
  assumes "mcg_alloc_ok dev"
  shows "ma_wf (md_alloc dev)" "ma_top (md_alloc dev) = 0" "ma_mask (md_alloc dev) = ma_max (md_alloc dev) - 1"
    "unat (ma_max (md_alloc dev)) \<le> 2 ^ 26" "0 < md_num_mgms dev" "{..<nat (md_num_mgms dev)} \<subseteq> ma_used (md_alloc dev)"
    "is_power_of_2 (ma_max (md_alloc dev))" "(ma_max (md_alloc dev)) AND (ma_max (md_alloc dev) - 1) = 0"
  using assms by (auto simp: mcg_alloc_ok_def ma_wf_def bm_wf_def bm_shape_def is_power_of_2_def)

lemma mcg_idx:
  assumes "mcg_alloc_ok dev" "unat h < unat (ma_max (md_alloc dev))"
  shows "ma_idx (md_alloc dev) h = unat h"
  using handle_idx[OF mcg_alloc_okD(7)[OF assms(1)], of h 0] assms(2) by (simp add: ma_idx_def word_less_nat_alt)

lemma mcg_sint:
  assumes "unat (h :: u32) < 2 ^ 26"
  shows "sint h = int (unat h)"
proof -
  have "(2 :: nat) ^ 26 \<le> 2 ^ 31" by simp
  then have "unat h < 2 ^ 31" using assms by linarith
  then show ?thesis using sint_small[of h] by simp
qed

lemma sint_minus_one: "sint (h :: u32) = -1 \<longleftrightarrow> h = -1"
  by (metis sint_n1 signed_word_eqI)

lemma mcg_alloc_cases:
  assumes ok: "mcg_alloc_ok dev" and a: "mthca_alloc (md_alloc dev) = (obj, a)"
  obtains (full) "sint obj = -1" "ma_used a = ma_used (md_alloc dev)" "mcg_alloc_ok (dev\<lparr>md_alloc := a\<rparr>)"
      "ma_used (md_alloc dev) = {..<unat (ma_max (md_alloc dev))}"
  | (fresh) j where "sint obj = int j" "j \<notin> ma_used (md_alloc dev)" "j < 2 ^ 26" "ma_used a = insert j (ma_used (md_alloc dev))"
      "mcg_alloc_ok (dev\<lparr>md_alloc := a\<rparr>)"
proof -
  note D = mcg_alloc_okD[OF ok]
  have keep: "ma_top a = 0" "ma_mask a = ma_mask (md_alloc dev)" "ma_max a = ma_max (md_alloc dev)"
    using a D(2,3,8) by (auto simp: mthca_alloc_def Let_def split: if_splits)
  have used: "ma_used (md_alloc dev) \<subseteq> ma_used a"
    using mthca_ids.al_fresh[OF D(1) a] mthca_ids.al_full[OF D(1)] a by (cases "obj = -1") auto
  have ok': "mcg_alloc_ok (dev\<lparr>md_alloc := a\<rparr>)"
    using mthca_ids.al_inv[OF D(1) a] keep D used by (auto simp: mcg_alloc_ok_def)
  show ?thesis
  proof (cases "obj = -1")
    case True
    then show ?thesis using full ok' mthca_ids.al_full[OF D(1)] a by simp
  next
    case False
    have lt: "obj < ma_max (md_alloc dev)"
      using a False D(2,3,8) by (auto simp: mthca_alloc_def Let_def split: if_splits)
    then have i: "ma_idx (md_alloc dev) obj = unat obj" using mcg_idx[OF ok] by (simp add: word_less_nat_alt)
    have "unat obj < 2 ^ 26" using lt D(4) by (simp add: word_less_nat_alt)
    then show ?thesis
      using fresh[of "unat obj"] mcg_sint[of obj] mthca_ids.al_fresh[OF D(1) a False] i ok' by auto
  qed
qed

lemma mcg_free:
  assumes ok: "mcg_alloc_ok dev" and j: "j \<in> ma_used (md_alloc dev)" "nat (md_num_mgms dev) \<le> j"
  shows "mcg_alloc_ok (dev\<lparr>md_alloc := mthca_free (md_alloc dev) (word_of_int (int j))\<rparr>)"
    "ma_used (mthca_free (md_alloc dev) (word_of_int (int j))) = ma_used (md_alloc dev) - {j}"
proof -
  note D = mcg_alloc_okD[OF ok]
  have lt: "j < unat (ma_max (md_alloc dev))" using mthca_ids.used_below[OF D(1)] j(1) by auto
  have u: "unat (word_of_int (int j) :: u32) = j"
  proof -
    have "j < 2 ^ LENGTH(32)" using lt D(4) by simp
    then show ?thesis by (simp add: unat_of_nat take_bit_nat_eq_self)
  qed
  have i: "ma_idx (md_alloc dev) (word_of_int (int j)) = j" using mcg_idx[OF ok] u lt by simp
  show F: "ma_used (mthca_free (md_alloc dev) (word_of_int (int j))) = ma_used (md_alloc dev) - {j}"
    using mthca_ids.fr_used[OF D(1), of "word_of_int (int j)"] i j(1) by simp
  have "ma_wf (mthca_free (md_alloc dev) (word_of_int (int j)))"
    using mthca_ids.fr_inv[OF D(1), of "word_of_int (int j)"] i j(1) by simp
  moreover have "ma_top (mthca_free (md_alloc dev) h) = 0" for h
    using D(2,3,8) by (simp add: mthca_free_def Let_def)
  moreover have "ma_mask (mthca_free (md_alloc dev) h) = ma_mask (md_alloc dev)" "ma_max (mthca_free (md_alloc dev) h) = ma_max (md_alloc dev)" for h
    by (simp_all add: mthca_free_def Let_def)
  ultimately show "mcg_alloc_ok (dev\<lparr>md_alloc := mthca_free (md_alloc dev) (word_of_int (int j))\<rparr>)"
    using D F j(2) by (auto simp: mcg_alloc_ok_def)
qed

lemma next_word:
  assumes "j < 2 ^ 26"
  shows "mgm_next (m\<lparr>mg_next := word_of_int (push_bit 6 (int j))\<rparr>) = int j"
proof -
  have "(2 :: nat) ^ 26 * 64 = 2 ^ 32" by simp
  then have l: "j * 64 < 2 ^ 32" using assms by linarith
  have "unat (word_of_int (push_bit 6 (int j)) :: u32) = j * 64"
  proof -
    have "(word_of_int (push_bit 6 (int j)) :: u32) = of_nat (j * 64)" by (simp add: push_bit_eq_mult)
    then show ?thesis using l by (simp only:) (simp add: unat_of_nat take_bit_nat_eq_self del: of_nat_mult)
  qed
  then have "unat (drop_bit 6 (word_of_int (push_bit 6 (int j)) :: u32)) = j"
    unfolding unat_drop_bit_eq by (simp add: drop_bit_eq_div)
  then show ?thesis by (simp add: mgm_next_def) (metis uint_nat)
qed

section \<open>Changes of the table\<close>

lemma mcg_invD:
  assumes "mcg_inv hash dev C M"
  shows "mcg_alloc_ok dev" "\<And>i. i \<in> ma_used (md_alloc dev) \<Longrightarrow> qp_dense (mg_qp (md_mem dev i))"
    "table_ok zero_gid (\<lambda>g. unat (hash g)) (nat (md_num_mgms dev)) (mcg_nx dev) (mcg_key dev) (mcg_val dev)
       (ma_used (md_alloc dev) - {..<nat (md_num_mgms dev)}) C M"
    "{..<nat (md_num_mgms dev)} \<union> (ma_used (md_alloc dev) - {..<nat (md_num_mgms dev)}) = ma_used (md_alloc dev)"
  using assms mcg_alloc_okD(6) by (auto simp: mcg_inv_def)

definition hash_ok :: "(u8 list \<Rightarrow> u16) \<Rightarrow> mcg_dev \<Rightarrow> bool" where
  "hash_ok hash dev \<longleftrightarrow> (\<forall>g. g \<noteq> zero_gid \<longrightarrow> unat (hash g) < nat (md_num_mgms dev))"

lemma hash_okD: "hash_ok hash dev \<Longrightarrow> g \<noteq> zero_gid \<Longrightarrow> unat (hash g) < nat (md_num_mgms dev)"
  by (simp add: hash_ok_def)

lemma mcg_chain_used:
  assumes "mcg_inv hash dev C M" "h < nat (md_num_mgms dev)" "i \<in> set (C h)"
  shows "i \<in> ma_used (md_alloc dev)"
  using table_slots(1)[OF mcg_invD(3)[OF assms(1)] assms(2)] mcg_invD(4)[OF assms(1)] assms(3) by blast

lemma mcg_write:
  assumes I: "mcg_inv hash dev C M" and H: "hash_ok hash dev" and h: "h < nat (md_num_mgms dev)" "i \<in> set (C h)"
    and m: "mcg_key dev i \<noteq> zero_gid" "mg_gid m = mcg_key dev i" "mgm_next m = int (mcg_nx dev i)" "qp_dense (mg_qp m)"
  shows "mcg_inv hash (dev\<lparr>md_mem := (md_mem dev)(i := m)\<rparr>) C (M(mcg_key dev i := qp_members (mg_qp m)))"
proof -
  note D = mcg_invD[OF I]
  have "table_ok zero_gid (\<lambda>g. unat (hash g)) (nat (md_num_mgms dev)) ((mcg_nx dev)(i := nat (mgm_next m))) ((mcg_key dev)(i := mg_gid m))
     ((mcg_val dev)(i := qp_members (mg_qp m))) (ma_used (md_alloc dev) - {..<nat (md_num_mgms dev)}) C (M(mcg_key dev i := qp_members (mg_qp m)))"
    using table_write[OF D(3) h m(1) hash_okD[OF H], of "qp_members (mg_qp m)"] m(2,3) by simp
  then show ?thesis using D(1,2) m(4) by (simp add: mcg_inv_def)
qed

lemma mcg_claim:
  assumes I: "mcg_inv hash dev C M" and H: "hash_ok hash dev" and g: "g \<noteq> zero_gid" "h = unat (hash g)"
    and m: "mcg_key dev h = zero_gid" "mg_gid m = g" "mgm_next m = int (mcg_nx dev h)" "qp_dense (mg_qp m)"
  shows "mcg_inv hash (dev\<lparr>md_mem := (md_mem dev)(h := m)\<rparr>) C (M(g := qp_members (mg_qp m)))"
proof -
  note D = mcg_invD[OF I]
  have h: "h < nat (md_num_mgms dev)" using hash_okD[OF H g(1)] g(2) by simp
  have "table_ok zero_gid (\<lambda>g. unat (hash g)) (nat (md_num_mgms dev)) ((mcg_nx dev)(h := nat (mgm_next m))) ((mcg_key dev)(h := mg_gid m))
     ((mcg_val dev)(h := qp_members (mg_qp m))) (ma_used (md_alloc dev) - {..<nat (md_num_mgms dev)}) C (M(g := qp_members (mg_qp m)))"
    using table_claim[OF D(3) h m(1) g(1) g(2)[symmetric] hash_okD[OF H], of "qp_members (mg_qp m)"] m(2,3) by simp
  then show ?thesis using D(1,2) m(4) by (simp add: mcg_inv_def)
qed

lemma mcg_outside:
  assumes I: "mcg_inv hash dev C M" and H: "hash_ok hash dev" and j: "j \<notin> ma_used (md_alloc dev)"
    and a: "mcg_alloc_ok (dev\<lparr>md_alloc := a\<rparr>)" "ma_used a = ma_used (md_alloc dev)"
  shows "mcg_inv hash (dev\<lparr>md_alloc := a, md_mem := (md_mem dev)(j := m)\<rparr>) C M"
proof -
  note D = mcg_invD[OF I]
  let ?d = "dev\<lparr>md_mem := (md_mem dev)(j := m)\<rparr>"
  have "mcg_nx ?d i = mcg_nx dev i \<and> mcg_key ?d i = mcg_key dev i \<and> mcg_val ?d i = mcg_val dev i"
    if "i \<in> {..<nat (md_num_mgms dev)} \<union> (ma_used (md_alloc dev) - {..<nat (md_num_mgms dev)})" for i
  proof -
    have "i \<noteq> j" using that j D(4) by auto
    then show ?thesis by (simp add: mcg_nx_def mcg_key_def mcg_val_def)
  qed
  then have T: "table_ok zero_gid (\<lambda>g. unat (hash g)) (nat (md_num_mgms dev)) (mcg_nx ?d) (mcg_key ?d) (mcg_val ?d)
      (ma_used (md_alloc dev) - {..<nat (md_num_mgms dev)}) C M"
    by (rule table_cong[OF D(3) _ hash_okD[OF H]])
  have v: "mcg_nx (dev\<lparr>md_alloc := a, md_mem := (md_mem dev)(j := m)\<rparr>) = mcg_nx ?d"
    "mcg_key (dev\<lparr>md_alloc := a, md_mem := (md_mem dev)(j := m)\<rparr>) = mcg_key ?d"
    "mcg_val (dev\<lparr>md_alloc := a, md_mem := (md_mem dev)(j := m)\<rparr>) = mcg_val ?d"
    by (auto simp: mcg_nx_def mcg_key_def mcg_val_def fun_eq_iff)
  have "\<forall>i\<in>ma_used a. qp_dense (mg_qp (((md_mem dev)(j := m)) i))" using D(2) a(2) j by auto
  moreover have "mcg_alloc_ok (dev\<lparr>md_alloc := a, md_mem := (md_mem dev)(j := m)\<rparr>)"
    using a(1) by (simp add: mcg_alloc_ok_def)
  ultimately show ?thesis unfolding mcg_inv_def v using T a(2) by (simp del: views_mem)
qed

lemma mcg_realloc:
  assumes I: "mcg_inv hash dev C M" and a: "mcg_alloc_ok (dev\<lparr>md_alloc := a\<rparr>)" "ma_used a = ma_used (md_alloc dev)"
  shows "mcg_inv hash (dev\<lparr>md_alloc := a\<rparr>) C M"
  using mcg_invD[OF I] a by (simp add: mcg_inv_def)

lemma mcg_append:
  assumes I: "mcg_inv hash dev C M" and H: "hash_ok hash dev" and g: "g \<noteq> zero_gid" "h = unat (hash g)"
    and C: "C h = xs @ [p]" "mcg_key dev h \<noteq> zero_gid" "g \<notin> mcg_key dev ` set (C h)"
    and j: "j \<notin> ma_used (md_alloc dev)" and a: "mcg_alloc_ok (dev\<lparr>md_alloc := a\<rparr>)" "ma_used a = insert j (ma_used (md_alloc dev))"
    and m: "mg_gid m = g" "mgm_next m = 0" "qp_dense (mg_qp m)"
    and m': "mg_gid m' = mcg_key dev p" "mgm_next m' = int j" "mg_qp m' = mg_qp (md_mem dev p)"
  shows "mcg_inv hash (dev\<lparr>md_alloc := a, md_mem := (md_mem dev)(j := m, p := m')\<rparr>) (C(h := C h @ [j])) (M(g := qp_members (mg_qp m)))"
    (is "mcg_inv hash ?d _ _")
proof -
  note D = mcg_invD[OF I]
  let ?N = "nat (md_num_mgms dev)" let ?U = "ma_used (md_alloc dev) - {..<?N}"
  have h: "h < ?N" using hash_okD[OF H g(1)] g(2) by simp
  have N: "0 < ?N" using mcg_alloc_okD(5)[OF D(1)] by simp
  have jn: "j \<notin> {..<?N} \<union> ?U" using j D(4) by blast
  have p: "p \<in> ma_used (md_alloc dev)" using mcg_chain_used[OF I h] C(1) by simp
  then have pj: "p \<noteq> j" using j by blast
  have v: "mcg_nx ?d = (mcg_nx dev)(j := 0, p := j)" "mcg_key ?d = (mcg_key dev)(j := g)" "mcg_val ?d = (mcg_val dev)(j := qp_members (mg_qp m))"
    using m m' pj by (auto simp: mcg_nx_def mcg_key_def mcg_val_def fun_eq_iff)
  have "insert j ?U = insert j (ma_used (md_alloc dev)) - {..<?N}" using jn by auto
  then have T: "table_ok zero_gid (\<lambda>g. unat (hash g)) ?N (mcg_nx ?d) (mcg_key ?d) (mcg_val ?d)
      (insert j (ma_used (md_alloc dev)) - {..<?N}) (C(h := C h @ [j])) (M(g := qp_members (mg_qp m)))"
    unfolding v using table_append[OF D(3) h C(1,2) g(1) g(2)[symmetric] C(3) jn N hash_okD[OF H], of "qp_members (mg_qp m)"] by simp
  have "\<forall>i\<in>ma_used a. qp_dense (mg_qp (((md_mem dev)(j := m, p := m')) i))" using D(2) a(2) m(3) m'(3) p by auto
  moreover have "mcg_alloc_ok ?d" using a(1) by (simp add: mcg_alloc_ok_def)
  ultimately show ?thesis unfolding mcg_inv_def using T a(2) by simp
qed

lemma mcg_drop:
  assumes I: "mcg_inv hash dev C M" and H: "hash_ok hash dev" and h: "h < nat (md_num_mgms dev)"
    and C: "C h = xs @ p # q # ys" "mcg_val dev q = {}"
    and m: "mg_gid m = mcg_key dev p" "mgm_next m = int (mcg_nx dev q)" "mg_qp m = mg_qp (md_mem dev p)"
  shows "mcg_inv hash (dev\<lparr>md_mem := (md_mem dev)(p := m), md_alloc := mthca_free (md_alloc dev) (word_of_int (int q))\<rparr>)
    (C(h := xs @ p # ys)) M" (is "mcg_inv hash ?d _ _")
proof -
  note D = mcg_invD[OF I]
  let ?N = "nat (md_num_mgms dev)"
  have u: "q \<in> ma_used (md_alloc dev)" "p \<in> ma_used (md_alloc dev)" using mcg_chain_used[OF I h] C(1) by auto
  have "q \<in> set (tl (C h))" unfolding C(1) by (cases xs) auto
  then have qN: "?N \<le> q" using table_okD(3)[OF D(3) h] by blast
  note F = mcg_free[OF D(1) u(1) qN]
  have v: "mcg_nx ?d = (mcg_nx dev)(p := mcg_nx dev q)" "mcg_key ?d = mcg_key dev" "mcg_val ?d = mcg_val dev"
    using m by (auto simp: mcg_nx_def mcg_key_def mcg_val_def fun_eq_iff)
  have "ma_used (md_alloc dev) - {..<?N} - {q} = ma_used (md_alloc dev) - {q} - {..<?N}" by blast
  then have "table_ok zero_gid (\<lambda>g. unat (hash g)) ?N (mcg_nx ?d) (mcg_key ?d) (mcg_val ?d)
      (ma_used (md_alloc dev) - {q} - {..<?N}) (C(h := xs @ p # ys)) M"
    unfolding v using table_drop[OF D(3) h C hash_okD[OF H]] by simp
  moreover have "\<forall>i\<in>ma_used (md_alloc dev) - {q}. qp_dense (mg_qp (((md_mem dev)(p := m)) i))" using D(2) m(3) u by auto
  moreover have "mcg_alloc_ok ?d" using F(1) by (simp add: mcg_alloc_ok_def)
  ultimately show ?thesis unfolding mcg_inv_def using F(2) by simp
qed

lemma mcg_pull:
  assumes I: "mcg_inv hash dev C M" and H: "hash_ok hash dev" and h: "h < nat (md_num_mgms dev)"
    and C: "C h = h # j # ys" "mcg_val dev h = {}"
  shows "mcg_inv hash (dev\<lparr>md_mem := (md_mem dev)(h := md_mem dev j), md_alloc := mthca_free (md_alloc dev) (word_of_int (int j))\<rparr>)
    (C(h := h # ys)) M" (is "mcg_inv hash ?d _ _") and "nat (md_num_mgms dev) \<le> j"
proof -
  note D = mcg_invD[OF I]
  let ?N = "nat (md_num_mgms dev)"
  have u: "j \<in> ma_used (md_alloc dev)" using mcg_chain_used[OF I h] C(1) by auto
  show jN: "?N \<le> j" using table_okD(3)[OF D(3) h] C(1) by simp
  note F = mcg_free[OF D(1) u jN]
  have v: "mcg_nx ?d = (mcg_nx dev)(h := mcg_nx dev j)" "mcg_key ?d = (mcg_key dev)(h := mcg_key dev j)"
    "mcg_val ?d = (mcg_val dev)(h := mcg_val dev j)"
    by (auto simp: mcg_nx_def mcg_key_def mcg_val_def fun_eq_iff)
  have "ma_used (md_alloc dev) - {..<?N} - {j} = ma_used (md_alloc dev) - {j} - {..<?N}" by blast
  then have "table_ok zero_gid (\<lambda>g. unat (hash g)) ?N (mcg_nx ?d) (mcg_key ?d) (mcg_val ?d)
      (ma_used (md_alloc dev) - {j} - {..<?N}) (C(h := h # ys)) M"
    unfolding v using table_pull[OF D(3) h C hash_okD[OF H]] by simp
  moreover have "\<forall>i\<in>ma_used (md_alloc dev) - {j}. qp_dense (mg_qp (((md_mem dev)(h := md_mem dev j)) i))" using D(2) u by auto
  moreover have "mcg_alloc_ok ?d" using F(1) by (simp add: mcg_alloc_ok_def)
  ultimately show "mcg_inv hash ?d (C(h := h # ys)) M" unfolding mcg_inv_def using F(2) by simp
qed

lemma mcg_release:
  assumes I: "mcg_inv hash dev C M" and H: "hash_ok hash dev" and h: "h < nat (md_num_mgms dev)"
    and C: "C h = [h]" "mcg_val dev h = {}"
  shows "mcg_inv hash (dev\<lparr>md_mem := (md_mem dev)(h := (md_mem dev h)\<lparr>mg_gid := zero_gid\<rparr>)\<rparr>) C M" (is "mcg_inv hash ?d _ _")
proof -
  note D = mcg_invD[OF I]
  have v: "mcg_nx ?d = mcg_nx dev" "mcg_key ?d = (mcg_key dev)(h := zero_gid)" "mcg_val ?d = mcg_val dev"
    by (auto simp: mcg_nx_def mcg_key_def mcg_val_def mgm_next_def fun_eq_iff)
  have "\<forall>i\<in>ma_used (md_alloc dev). qp_dense (mg_qp (((md_mem dev)(h := (md_mem dev h)\<lparr>mg_gid := zero_gid\<rparr>)) i))"
    using D(2) by auto
  then show ?thesis using D(1) table_release[OF D(3) h C hash_okD[OF H]] v unfolding mcg_inv_def by simp
qed

section \<open>The operations\<close>

lemma find_mgm_outcome:
  assumes I: "mcg_inv hash dev C M" and H: "hash_ok hash dev" and g: "g \<noteq> zero_gid"
  shows "\<exists>r fw. find_mgm mb hash dev g = Some (r, dev\<lparr>md_fw := fw\<rparr>) \<and>
    (mb \<longrightarrow> fw_clean dev \<longrightarrow> fw_clean (dev\<lparr>md_fw := fw\<rparr>) \<and> isl r = False) \<and>
    (\<forall>prev index m. r = Inr (prev, index, m) \<longrightarrow> found dev (C (unat (hash g))) (unat (hash g)) g prev index m)"
proof (cases mb)
  case False
  then have "find_mgm mb hash dev g = Some (Inl ENOMEM, dev\<lparr>md_fw := md_fw dev\<rparr>)" by (simp add: find_mgm_def)
  then show ?thesis using False by blast
next
  case True
  obtain r0 dev0 where f: "fw_cmd dev = (r0, dev0)" by fastforce
  then obtain fw where F: "dev0 = dev\<lparr>md_fw := fw\<rparr>" "fw_clean dev \<longrightarrow> r0 = None \<and> fw_clean dev0" by (rule fw_cmd_cases)
  show ?thesis
  proof (cases r0)
    case (Some e)
    then show ?thesis using f F True by (auto simp: find_mgm_def)
  next
    case None
    define h where "h = unat (hash g)"
    have h: "h < nat (md_num_mgms dev)" using hash_okD[OF H g] by (simp add: h_def)
    note D = mcg_invD[OF I] and T = table_okD[OF mcg_invD(3)[OF I] h] and S = table_slots[OF mcg_invD(3)[OF I] h]
    have k: "\<forall>j\<in>set (C h). j \<noteq> h \<longrightarrow> mcg_key dev0 j \<noteq> zero_gid" using T(4) F(1) by (auto simp: bucket_ok_def)
    have c: "chain (mcg_nx dev0) h ([] @ h # tl (C h))" "distinct ([] @ h # tl (C h))" using T(1,2) S(3) F(1) by simp_all
    have "\<exists>r fw. find_mgm_loop g (int h) dev0 (-1) (int h) = Some (r, dev0\<lparr>md_fw := fw\<rparr>) \<and>
      (fw_clean dev0 \<longrightarrow> fw_clean (dev0\<lparr>md_fw := fw\<rparr>) \<and> isl r = False) \<and>
      (\<forall>prev' index m. r = Inr (prev', index, m) \<longrightarrow> found dev0 ([] @ h # tl (C h)) h g prev' index m)"
      using find_mgm_loop_finds[OF c, of g "-1"] k S(3) by simp
    then obtain r fw' where R: "find_mgm_loop g (int h) dev0 (-1) (int h) = Some (r, dev\<lparr>md_fw := fw'\<rparr>)"
      "fw_clean dev0 \<longrightarrow> fw_clean (dev\<lparr>md_fw := fw'\<rparr>) \<and> isl r = False"
      "\<forall>prev' index m. r = Inr (prev', index, m) \<longrightarrow> found dev (C h) h g prev' index m"
      using S(3) F(1) by auto
    have "uint (hash g) = int h" by (simp add: h_def)
    then have "find_mgm mb hash dev g = Some (r, dev\<lparr>md_fw := fw'\<rparr>)"
      using f None True R(1) by (simp add: find_mgm_def)
    then show ?thesis using R(2,3) F(2) unfolding h_def by blast
  qed
qed

lemma mcg_members:
  assumes I: "mcg_inv hash dev C M" and H: "hash_ok hash dev" and g: "g \<noteq> zero_gid" "h = unat (hash g)"
  shows "i \<in> set (C h) \<Longrightarrow> mcg_key dev i = g \<Longrightarrow> M g = mcg_val dev i"
    "g \<notin> mcg_key dev ` set (C h) \<Longrightarrow> M g = {}"
    "mcg_key dev h = zero_gid \<Longrightarrow> M g = {} \<and> mcg_val dev h = {}"
proof -
  note T = mcg_invD(3)[OF I] and M = table_M[OF mcg_invD(3)[OF I] g(1)]
  have h: "h < nat (md_num_mgms dev)" using hash_okD[OF H g(1)] g(2) by simp
  show "i \<in> set (C h) \<Longrightarrow> mcg_key dev i = g \<Longrightarrow> M g = mcg_val dev i"
    using slot_val_found[of "mcg_key dev" "C h" i "mcg_val dev"] bucket_live(1)[OF table_okD(4)[OF T h]] M g by auto
  show n: "g \<notin> mcg_key dev ` set (C h) \<Longrightarrow> M g = {}" using slot_val_none M g(2) by metis
  assume z: "mcg_key dev h = zero_gid"
  then have "C h = [h]" "mcg_val dev h = {}"
    using table_okD(4)[OF T h] table_slots(2)[OF T h] by (auto simp: bucket_ok_def)
  then show "M g = {} \<and> mcg_val dev h = {}" using n z g(1) by auto
qed

text \<open>The outcome of attaching: an error leaves the groups as they were; with \<open>clean\<close> replies the only
  error is that the entry or the table is full.\<close>

definition attach_post :: "(u8 list \<Rightarrow> u16) \<Rightarrow> mcg_dev \<Rightarrow> (u8 list \<Rightarrow> u32 set) \<Rightarrow> u8 list \<Rightarrow> u32 \<Rightarrow> bool \<Rightarrow>
    (errno option \<times> mcg_dev) option \<Rightarrow> bool" where
  "attach_post hash dev M g tag clean R \<longleftrightarrow> (\<exists>r dev' C'. R = Some (r, dev') \<and> md_num_mgms dev' = md_num_mgms dev \<and>
     mcg_inv hash dev' C' (if r = None then M(g := insert tag (M g)) else M) \<and>
     (clean \<longrightarrow> r \<noteq> None \<longrightarrow> r = Some ENOMEM \<and> tag \<notin> M g \<and>
        (card (M g) = MTHCA_QP_PER_MGM \<or> M g = {} \<and> ma_used (md_alloc dev) = {..<unat (ma_max (md_alloc dev))})))"

lemma attach_postI:
  assumes "R = Some (r, dev')" "md_num_mgms dev' = md_num_mgms dev" "r = None \<Longrightarrow> mcg_inv hash dev' C' (M(g := insert tag (M g)))"
    "r \<noteq> None \<Longrightarrow> mcg_inv hash dev' C' M"
    "clean \<Longrightarrow> r \<noteq> None \<Longrightarrow> r = Some ENOMEM \<and> tag \<notin> M g \<and>
      (card (M g) = MTHCA_QP_PER_MGM \<or> M g = {} \<and> ma_used (md_alloc dev) = {..<unat (ma_max (md_alloc dev))})"
  shows "attach_post hash dev M g tag clean R"
  unfolding attach_post_def using assms by auto

lemma attach_existing:
  assumes I: "mcg_inv hash dev C M" and H: "hash_ok hash dev" and g: "g \<noteq> zero_gid" "h = unat (hash g)"
    and i: "i \<in> set (C h)" "mcg_key dev i = g \<or> i = h \<and> mcg_key dev h = zero_gid"
  shows "attach_post hash dev M g (qp_tag q) (fw_clean dev) (attach_out False (int i)
      (attach_write dev q False prev (int i) (if mg_gid (md_mem dev i) = zero_gid then (md_mem dev i)\<lparr>mg_gid := g\<rparr> else md_mem dev i)))"
    (is "attach_post _ _ _ _ _ _ (attach_out _ _ (attach_write _ _ _ _ _ ?m))")
proof -
  note mem = mcg_members[OF I H g]
  have h: "h < nat (md_num_mgms dev)" using hash_okD[OF H g(1)] g(2) by simp
  have d: "qp_dense (mg_qp (md_mem dev i))" using mcg_invD(2)[OF I mcg_chain_used[OF I h i(1)]] .
  have Mg: "M g = qp_members (mg_qp (md_mem dev i))" using mem(1)[OF i(1)] mem(3) i(2) by (auto simp: mcg_val_def)
  have m: "mg_qp ?m = mg_qp (md_mem dev i)" "mg_gid ?m = g" "mgm_next ?m = int (mcg_nx dev i)"
    using i(2) g(1) by (auto simp: mcg_key_def mgm_next_nx[symmetric] mgm_next_def)
  show ?thesis
  proof (cases "place_qp (qp_tag q) (mg_qp (md_mem dev i))")
    case Qp_member
    then have t: "qp_tag q \<in> M g" using place_qp_member[OF d] Mg by simp
    have "attach_write dev q False prev (int i) ?m = (None, dev)" by (simp add: attach_write_def m(1) Qp_member)
    then show ?thesis using I t by (intro attach_postI[where r = None and dev' = dev and C' = C]) (auto simp: attach_out_def insert_absorb)
  next
    case Qp_full
    have "attach_write dev q False prev (int i) ?m = (Some ENOMEM, dev)" by (simp add: attach_write_def m(1) Qp_full)
    then show ?thesis using I place_qp_full[OF d Qp_full] Mg
      by (intro attach_postI[where r = "Some ENOMEM" and dev' = dev and C' = C]) (auto simp: attach_out_def)
  next
    case (Qp_placed qs)
    note P = place_qp_placed[OF d Qp_placed]
    show ?thesis
    proof (cases rule: WRITE_cases[of dev "int i" "?m\<lparr>mg_qp := qs\<rparr>"])
      case (ok fw)
      then have w: "attach_write dev q False prev (int i) ?m = (None, dev\<lparr>md_mem := (md_mem dev)(i := ?m\<lparr>mg_qp := qs\<rparr>), md_fw := fw\<rparr>)"
        by (simp add: attach_write_def m(1) Qp_placed)
      have m': "mg_gid (?m\<lparr>mg_qp := qs\<rparr>) = g" "mgm_next (?m\<lparr>mg_qp := qs\<rparr>) = int (mcg_nx dev i)" "mg_qp (?m\<lparr>mg_qp := qs\<rparr>) = qs"
        using m by (simp_all add: mgm_next_def)
      have "mcg_inv hash (dev\<lparr>md_mem := (md_mem dev)(i := ?m\<lparr>mg_qp := qs\<rparr>)\<rparr>) C (M(g := insert (qp_tag q) (M g)))"
        using mcg_write[OF I H h i(1), of "?m\<lparr>mg_qp := qs\<rparr>"] mcg_claim[OF I H g, of "?m\<lparr>mg_qp := qs\<rparr>"] i(2) g(1) m' P Mg by auto
      then show ?thesis using w by (intro attach_postI[where r = None and C' = C
        and dev' = "dev\<lparr>md_mem := (md_mem dev)(i := ?m\<lparr>mg_qp := qs\<rparr>), md_fw := fw\<rparr>"]) (simp_all add: attach_out_def)
    next
      case (err e fw)
      then have "attach_write dev q False prev (int i) ?m = (Some e, dev\<lparr>md_fw := fw\<rparr>)"
        by (simp add: attach_write_def m(1) Qp_placed)
      then show ?thesis using I err(2) by (intro attach_postI[where r = "Some e" and C' = C and dev' = "dev\<lparr>md_fw := fw\<rparr>"]) (simp_all add: attach_out_def)
    qed
  qed
qed

lemma qp_tag_nonzero: "qp_tag q \<noteq> 0"
  using qp_tag_live[of q] by (metis bit_0_eq bot_apply bot_bool_def)

lemma qp_empty:
  "qp_dense (replicate MTHCA_QP_PER_MGM 0)" "place_qp (qp_tag q) (replicate MTHCA_QP_PER_MGM 0) = Qp_placed (qp_tag q # replicate 7 0)"
  "qp_dense (qp_tag q # replicate 7 0)" "qp_members (qp_tag q # replicate 7 0) = {qp_tag q}"
proof -
  have r: "replicate MTHCA_QP_PER_MGM (0 :: u32) = 0 # replicate 7 0"
    unfolding MTHCA_QP_PER_MGM_def by (simp flip: replicate_Suc)
  have z: "takeWhile (\<lambda>q. bit q 31) (replicate n (0 :: u32)) = []" "dropWhile (\<lambda>q. bit q 31) (replicate n (0 :: u32)) = replicate n 0" for n
    by (cases n; simp)+
  show "qp_dense (replicate MTHCA_QP_PER_MGM 0)" unfolding qp_dense_def z by simp
  show "place_qp (qp_tag q) (replicate MTHCA_QP_PER_MGM 0) = Qp_placed (qp_tag q # replicate 7 0)"
    unfolding r using qp_tag_nonzero[of q] by simp
  have t: "takeWhile (\<lambda>q. bit q 31) (qp_tag q # replicate 7 0) = [qp_tag q]"
    "dropWhile (\<lambda>q. bit q 31) (qp_tag q # replicate 7 0) = replicate 7 0" using z[of 7] by simp_all
  show "qp_dense (qp_tag q # replicate 7 0)" unfolding qp_dense_def t by (simp add: MTHCA_QP_PER_MGM_def)
  show "qp_members (qp_tag q # replicate 7 0) = {qp_tag q}" unfolding qp_members_def t by simp
qed

lemma attach_new:
  assumes I: "mcg_inv hash dev C M" and H: "hash_ok hash dev" and g: "g \<noteq> zero_gid" "h = unat (hash g)"
    and C: "C h = xs @ [p]" "mcg_key dev h \<noteq> zero_gid" "g \<notin> mcg_key dev ` set (C h)"
    and j: "j \<notin> ma_used (md_alloc dev)" "j < 2 ^ 26" and a: "mcg_alloc_ok (dev\<lparr>md_alloc := a\<rparr>)" "ma_used a = insert j (ma_used (md_alloc dev))"
    and fw0: "fw_clean dev \<longrightarrow> fw_clean (dev\<lparr>md_fw := fw0\<rparr>)"
  shows "attach_post hash dev M g (qp_tag q) (fw_clean dev) (attach_out True (int j)
      (attach_write (dev\<lparr>md_alloc := a, md_fw := fw0\<rparr>) q True (int p) (int j) \<lparr>mg_next = 0, mg_gid = g, mg_qp = replicate MTHCA_QP_PER_MGM 0\<rparr>))"
    (is "attach_post _ _ _ _ _ _ (attach_out _ _ (attach_write ?d _ _ _ _ ?m))")
proof -
  have h: "h < nat (md_num_mgms dev)" using hash_okD[OF H g(1)] g(2) by simp
  have Mg: "M g = {}" using mcg_members(2)[OF I H g C(3)] .
  have jN: "nat (md_num_mgms dev) \<le> j" using j(1) mcg_alloc_okD(6)[OF mcg_invD(1)[OF I]] by (meson lessThan_iff not_le subsetD)
  have pj: "p \<noteq> j" using mcg_chain_used[OF I h, of p] C(1) j(1) by auto
  let ?qs = "qp_tag q # replicate 7 0" let ?m1 = "?m\<lparr>mg_qp := ?qs\<rparr>"
  let ?a' = "mthca_free a (word_of_int (int j))"
  have fr: "mcg_alloc_ok (dev\<lparr>md_alloc := ?a'\<rparr>)" "ma_used ?a' = ma_used (md_alloc dev)"
    using mcg_free[OF a(1), of j] a(2) jN j(1) by auto
  have undo: "mcg_inv hash (dev\<lparr>md_alloc := ?a', md_mem := (md_mem dev)(j := x)\<rparr>) C M" for x
    using mcg_outside[OF I H j(1) fr] .
  have out: "attach_post hash dev M g (qp_tag q) (fw_clean dev)
      (attach_out True (int j) (Some e, dev\<lparr>md_alloc := a, md_mem := (md_mem dev)(j := x), md_fw := fw\<rparr>))"
    if "\<not> fw_clean dev" for e x fw
    using undo[of x] that jN by (intro attach_postI[where r = "Some e" and C' = C
        and dev' = "(dev\<lparr>md_alloc := ?a', md_mem := (md_mem dev)(j := x)\<rparr>)\<lparr>md_fw := fw\<rparr>"]) (simp_all add: attach_out_def)
  show ?thesis
  proof (cases rule: WRITE_cases[of ?d "int j" ?m1])
    case W: (err e fw)
    have aw: "attach_write ?d q True (int p) (int j) ?m = (Some e, dev\<lparr>md_alloc := a, md_mem := (md_mem dev)(j := md_mem dev j), md_fw := fw\<rparr>)"
      using W(1) by (simp add: attach_write_def qp_empty)
    have "\<not> fw_clean dev" using W(2) fw0 by (auto simp: fw_clean_def)
    then show ?thesis unfolding aw by (rule out)
  next
    case W: (ok fw)
    let ?d1 = "dev\<lparr>md_alloc := a, md_mem := (md_mem dev)(j := ?m1), md_fw := fw\<rparr>"
    have c1: "fw_clean dev \<longrightarrow> fw_clean ?d1" using W(2) fw0 by (auto simp: fw_clean_def)
    have w1: "mthca_WRITE_MGM ?d (int j) ?m1 = (None, ?d1)" using W(1) by simp
    show ?thesis
    proof (cases rule: READ_cases[of ?d1 "int p"])
      case R: (err e fw')
      have aw: "attach_write ?d q True (int p) (int j) ?m = (Some e, dev\<lparr>md_alloc := a, md_mem := (md_mem dev)(j := ?m1), md_fw := fw'\<rparr>)"
        using w1 R(1) by (simp add: attach_write_def qp_empty)
      have "\<not> fw_clean dev" using c1 R(2) by blast
      then show ?thesis unfolding aw by (rule out)
    next
      case R: (ok fw')
      let ?d2 = "dev\<lparr>md_alloc := a, md_mem := (md_mem dev)(j := ?m1), md_fw := fw'\<rparr>"
      let ?mp = "(md_mem dev p)\<lparr>mg_next := word_of_int (push_bit 6 (int j))\<rparr>"
      have c2: "fw_clean dev \<longrightarrow> fw_clean ?d2" using c1 R(2) by (auto simp: fw_clean_def)
      have aw: "attach_write ?d q True (int p) (int j) ?m = mthca_WRITE_MGM ?d2 (int p) ?mp"
        using w1 R(1) pj by (simp add: attach_write_def qp_empty)
      show ?thesis
      proof (cases rule: WRITE_cases[of ?d2 "int p" ?mp])
        case X: (err e fw3)
        then have aw: "attach_write ?d q True (int p) (int j) ?m = (Some e, dev\<lparr>md_alloc := a, md_mem := (md_mem dev)(j := ?m1), md_fw := fw3\<rparr>)"
          using aw by simp
        have "\<not> fw_clean dev" using c2 X(2) by blast
        then show ?thesis unfolding aw by (rule out)
      next
        case X: (ok fw3)
        have "mgm_next ?m1 = 0" by (simp add: mgm_next_def)
        then have "mcg_inv hash (dev\<lparr>md_alloc := a, md_mem := (md_mem dev)(j := ?m1, p := ?mp)\<rparr>) (C(h := C h @ [j])) (M(g := insert (qp_tag q) (M g)))"
          using mcg_append[OF I H g C j(1) a, of ?m1 ?mp] next_word[OF j(2)] Mg
          by (simp add: qp_empty mcg_key_def)
        moreover have "attach_write ?d q True (int p) (int j) ?m = (None, (dev\<lparr>md_alloc := a, md_mem := (md_mem dev)(j := ?m1, p := ?mp)\<rparr>)\<lparr>md_fw := fw3\<rparr>)"
          using aw X(1) by simp
        ultimately show ?thesis
          by (intro attach_postI[where r = None and C' = "C(h := C h @ [j])"
            and dev' = "(dev\<lparr>md_alloc := a, md_mem := (md_mem dev)(j := ?m1, p := ?mp)\<rparr>)\<lparr>md_fw := fw3\<rparr>"]) (simp_all add: attach_out_def)
      qed
    qed
  qed
qed

lemma fw_clean_alloc [simp]: "fw_clean (dev\<lparr>md_alloc := a\<rparr>) = fw_clean dev"
  by (simp add: fw_clean_def)

lemma hash_ok_fw [simp]: "hash_ok hash (dev\<lparr>md_fw := fw\<rparr>) = hash_ok hash dev"
  by (simp add: hash_ok_def)

lemma attach_post_fw [simp]: "attach_post hash (dev\<lparr>md_fw := fw\<rparr>) = attach_post hash dev"
  by (simp add: attach_post_def fun_eq_iff)

lemma attach_post_weaken: "attach_post hash dev M g tag c R \<Longrightarrow> (c' \<Longrightarrow> c) \<Longrightarrow> attach_post hash dev M g tag c' R"
  unfolding attach_post_def by blast

lemma attach_correct:
  assumes I: "mcg_inv hash dev C M" and H: "hash_ok hash dev" and g: "g \<noteq> zero_gid"
  shows "attach_post hash dev M g (qp_tag q) (mb \<and> mb' \<and> fw_clean dev) (mthca_multicast_attach mb mb' hash dev q g)"
proof (cases mb)
  case False
  then show ?thesis using I by (intro attach_postI[where r = "Some ENOMEM" and C' = C and dev' = dev]) (simp_all add: mthca_multicast_attach_def)
next
  case mb: True
  define h where "h = unat (hash g)"
  obtain r fw where F: "find_mgm mb' hash dev g = Some (r, dev\<lparr>md_fw := fw\<rparr>)"
    "mb' \<longrightarrow> fw_clean dev \<longrightarrow> fw_clean (dev\<lparr>md_fw := fw\<rparr>) \<and> isl r = False"
    "\<forall>prev index m. r = Inr (prev, index, m) \<longrightarrow> found dev (C h) h g prev index m"
    using find_mgm_outcome[OF I H g, of mb'] unfolding h_def by blast
  let ?d = "dev\<lparr>md_fw := fw\<rparr>"
  have I': "mcg_inv hash ?d C M" "hash_ok hash ?d" using I H by simp_all
  have cl: "mb \<and> mb' \<and> fw_clean dev \<Longrightarrow> fw_clean ?d" using F(2) by blast
  have h: "h < nat (md_num_mgms dev)" using hash_okD[OF H g] by (simp add: h_def)
  show ?thesis
  proof (cases r)
    case (Inl e)
    then show ?thesis using I F mb
      by (intro attach_postI[where r = "Some e" and C' = C and dev' = ?d]) (auto simp: mthca_multicast_attach_def)
  next
    case (Inr x)
    obtain prev index m where x: "x = (prev, index, m)" by (cases x) auto
    have fd: "found dev (C h) h g prev index m" using F(3) Inr x by blast
    show ?thesis
    proof (cases "index = -1")
      case False
      then obtain i where i: "index = int i" "m = md_mem dev i" "i \<in> set (C h)" "mcg_key dev i = g \<or> i = h \<and> mcg_key dev h = zero_gid"
        using fd table_slots(2)[OF mcg_invD(3)[OF I] h] unfolding found_def mcg_key_def by fastforce
      have "mthca_multicast_attach mb mb' hash dev q g = attach_out False (int i)
          (attach_write ?d q False prev (int i) (if mg_gid (md_mem ?d i) = zero_gid then (md_mem ?d i)\<lparr>mg_gid := g\<rparr> else md_mem ?d i))"
        using F(1) Inr x mb i(1,2) by (simp add: mthca_multicast_attach_def)
      then have "attach_post hash ?d M g (qp_tag q) (fw_clean ?d) (mthca_multicast_attach mb mb' hash dev q g)"
        using attach_existing[OF I' g h_def i(3)] i(4) by simp
      then show ?thesis using attach_post_weaken cl by simp
    next
      case True
      then obtain xs p where C: "C h = xs @ [p]" "prev = int p" "g \<notin> mcg_key dev ` set (C h)" "mcg_key dev h \<noteq> zero_gid"
        using fd unfolding found_def by auto
      have Mg: "M g = {}" using mcg_members(2)[OF I H g h_def C(3)] .
      have t: "qp_tag q \<notin> M g" using Mg by simp
      obtain obj a where A: "mthca_alloc (md_alloc dev) = (obj, a)" by fastforce
      from mcg_invD(1)[OF I] A show ?thesis
      proof (cases rule: mcg_alloc_cases)
        case full
        have "mthca_multicast_attach mb mb' hash dev q g = Some (Some ENOMEM, (dev\<lparr>md_alloc := a\<rparr>)\<lparr>md_fw := fw\<rparr>)"
          using F(1) Inr x mb True A full(1) by (simp add: mthca_multicast_attach_def)
        then show ?thesis using mcg_realloc[OF I full(3,2)] full(4) Mg t
          by (intro attach_postI[where r = "Some ENOMEM" and C' = C and dev' = "(dev\<lparr>md_alloc := a\<rparr>)\<lparr>md_fw := fw\<rparr>"]) simp_all
      next
        case (fresh j)
        have eq: "dev\<lparr>md_fw := fw, md_alloc := a\<rparr> = dev\<lparr>md_alloc := a, md_fw := fw\<rparr>" by simp
        show ?thesis
        proof (cases rule: READ_cases[of "dev\<lparr>md_alloc := a, md_fw := fw\<rparr>" "int j"])
          case R: (ok fw')
          have c: "fw_clean ?d \<longrightarrow> fw_clean (?d\<lparr>md_fw := fw'\<rparr>)" using R(2) by (simp add: fw_clean_def)
          have "mthca_multicast_attach mb mb' hash dev q g = attach_out True (int j) (attach_write (?d\<lparr>md_alloc := a, md_fw := fw'\<rparr>) q True (int p) (int j)
              \<lparr>mg_next = 0, mg_gid = g, mg_qp = replicate MTHCA_QP_PER_MGM 0\<rparr>)"
            using F(1) Inr x mb True A fresh(1) R(1) C(2) by (simp add: mthca_multicast_attach_def Let_def eq)
          moreover have "mcg_alloc_ok (?d\<lparr>md_alloc := a\<rparr>)" using fresh(5) by (simp add: mcg_alloc_ok_def)
          ultimately have "attach_post hash ?d M g (qp_tag q) (fw_clean ?d) (mthca_multicast_attach mb mb' hash dev q g)"
            using attach_new[OF I' g h_def C(1), of j a fw' q] C(3,4) fresh(2,3,4) c by simp
          then show ?thesis using attach_post_weaken cl by simp
        next
          case R: (err e fw')
          note ok = mcg_invD(1)[OF I]
          have jN: "nat (md_num_mgms dev) \<le> j" using fresh(2) mcg_alloc_okD(6)[OF ok] by (meson lessThan_iff not_le subsetD)
          let ?a' = "mthca_free a (word_of_int (int j))"
          have fr: "mcg_alloc_ok (dev\<lparr>md_alloc := ?a'\<rparr>)" "ma_used ?a' = ma_used (md_alloc dev)"
            using mcg_free[OF fresh(5), of j] fresh(2,4) jN by auto
          have "mthca_multicast_attach mb mb' hash dev q g = Some (Some e, (dev\<lparr>md_alloc := ?a'\<rparr>)\<lparr>md_fw := fw'\<rparr>)"
            using F(1) Inr x mb True A fresh(1) R(1) jN by (simp add: mthca_multicast_attach_def attach_out_def Let_def eq)
          moreover have "\<not> (mb \<and> mb' \<and> fw_clean dev)" using cl R(2) by (auto simp: fw_clean_def)
          ultimately show ?thesis using mcg_realloc[OF I fr]
            by (intro attach_postI[where r = "Some e" and C' = C and dev' = "(dev\<lparr>md_alloc := ?a'\<rparr>)\<lparr>md_fw := fw'\<rparr>"]) simp_all
        qed
      qed
    qed
  qed
qed

text \<open>The outcome of detaching.  An error after the membership was written leaves the queue pair detached.\<close>

definition detach_post :: "(u8 list \<Rightarrow> u16) \<Rightarrow> mcg_dev \<Rightarrow> (u8 list \<Rightarrow> u32 set) \<Rightarrow> u8 list \<Rightarrow> u32 \<Rightarrow> bool \<Rightarrow>
    (errno option \<times> mcg_dev) option \<Rightarrow> bool" where
  "detach_post hash dev M g tag clean R \<longleftrightarrow> (\<exists>r dev' C' M'. R = Some (r, dev') \<and> md_num_mgms dev' = md_num_mgms dev \<and>
     mcg_inv hash dev' C' M' \<and> (M' = M(g := M g - {tag}) \<or> r \<noteq> None \<and> M' = M) \<and> (r = None \<longrightarrow> tag \<in> M g) \<and>
     (clean \<longrightarrow> (if tag \<in> M g then r = None else r = Some EINVAL)))"

lemma detach_postI:
  assumes "R = Some (r, dev')" "md_num_mgms dev' = md_num_mgms dev" "mcg_inv hash dev' C' M'"
    "M' = M(g := M g - {tag}) \<or> r \<noteq> None \<and> M' = M" "r = None \<Longrightarrow> tag \<in> M g"
    "clean \<Longrightarrow> (if tag \<in> M g then r = None else r = Some EINVAL)"
  shows "detach_post hash dev M g tag clean R"
  unfolding detach_post_def using assms by blast

text \<open>Removing an entry that has lost its last queue pair.\<close>

definition removal_post :: "(u8 list \<Rightarrow> u16) \<Rightarrow> mcg_dev \<Rightarrow> (u8 list \<Rightarrow> u32 set) \<Rightarrow> (errno option \<times> mcg_dev) option \<Rightarrow> bool" where
  "removal_post hash dev M R \<longleftrightarrow> (\<exists>r dev' C'. R = Some (r, dev') \<and> md_num_mgms dev' = md_num_mgms dev \<and>
     mcg_inv hash dev' C' M \<and> (fw_clean dev \<longrightarrow> r = None))"

lemma removal_postI:
  assumes "R = Some (r, dev')" "md_num_mgms dev' = md_num_mgms dev" "mcg_inv hash dev' C' M" "fw_clean dev \<Longrightarrow> r = None"
  shows "removal_post hash dev M R"
  unfolding removal_post_def using assms by blast

lemma detach_amgm_correct:
  assumes I: "mcg_inv hash dev C M" and H: "hash_ok hash dev" and h: "h < nat (md_num_mgms dev)"
    and C: "C h = xs @ p # q # ys" "mcg_val dev q = {}"
  shows "removal_post hash dev M (detach_amgm dev (int p) (int q) (md_mem dev q))"
proof (cases rule: READ_cases[of dev "int p"])
  case (err e fw)
  then show ?thesis using I
    by (intro removal_postI[where r = "Some e" and C' = C and dev' = "dev\<lparr>md_fw := fw\<rparr>"]) (simp_all add: detach_amgm_def Let_def)
next
  case R: (ok fw)
  let ?m = "(md_mem dev p)\<lparr>mg_next := word_of_int (push_bit 6 (mgm_next (md_mem dev q)))\<rparr>"
  note D = mcg_invD[OF I]
  have "q \<in> set (tl (C h))" unfolding C(1) by (cases xs) auto
  then have qN: "nat (md_num_mgms dev) \<le> q" using table_okD(3)[OF D(3) h] by blast
  have "mcg_nx dev q < 2 ^ 26"
  proof -
    have "unat (mg_next (md_mem dev q)) < 2 ^ LENGTH(32)" by (rule unsigned_less)
    then have "unat (drop_bit 6 (mg_next (md_mem dev q))) < 2 ^ 26" unfolding unat_drop_bit_eq by (simp add: drop_bit_eq_div)
    then show ?thesis by (simp add: mcg_nx_def mgm_next_def)
  qed
  from next_word[OF this, of "md_mem dev p"] have nw: "mgm_next ?m = int (mcg_nx dev q)" by (simp add: mgm_next_nx)
  show ?thesis
  proof (cases rule: WRITE_cases[of "dev\<lparr>md_fw := fw\<rparr>" "int p" ?m])
    case (err e fw')
    then show ?thesis using I R
      by (intro removal_postI[where r = "Some e" and C' = C and dev' = "dev\<lparr>md_fw := fw'\<rparr>"]) (auto simp: detach_amgm_def Let_def)
  next
    case W: (ok fw')
    let ?d = "(dev\<lparr>md_mem := (md_mem dev)(p := ?m), md_alloc := mthca_free (md_alloc dev) (word_of_int (int q))\<rparr>)\<lparr>md_fw := fw'\<rparr>"
    have "mcg_inv hash ?d (C(h := xs @ p # ys)) M"
      using mcg_drop[OF I H h C, of ?m] nw by (simp add: mcg_key_def)
    moreover have "detach_amgm dev (int p) (int q) (md_mem dev q) = Some (None, ?d)"
      using R(1) W(1) qN by (simp add: detach_amgm_def Let_def)
    ultimately show ?thesis by (intro removal_postI[where r = None and C' = "C(h := xs @ p # ys)" and dev' = ?d]) simp_all
  qed
qed

lemma detach_head_correct:
  assumes I: "mcg_inv hash dev C M" and H: "hash_ok hash dev" and h: "h < nat (md_num_mgms dev)" and v: "mcg_val dev h = {}"
  shows "removal_post hash dev M (detach_head dev (int h) (md_mem dev h))"
proof -
  note T = table_okD[OF mcg_invD(3)[OF I] h] and S = table_slots[OF mcg_invD(3)[OF I] h]
  show ?thesis
  proof (cases "tl (C h)")
    case Nil
    then have C: "C h = [h]" using S(3) by simp
    then have nx: "mgm_next (md_mem dev h) = 0" using T(1) by (simp add: mgm_next_nx)
    let ?m = "(md_mem dev h)\<lparr>mg_gid := zero_gid\<rparr>"
    show ?thesis
    proof (cases rule: WRITE_cases[of dev "int h" ?m])
      case (ok fw)
      let ?d = "(dev\<lparr>md_mem := (md_mem dev)(h := ?m)\<rparr>)\<lparr>md_fw := fw\<rparr>"
      have "detach_head dev (int h) (md_mem dev h) = Some (None, ?d)" using ok(1) nx by (simp add: detach_head_def Let_def)
      then show ?thesis using mcg_release[OF I H h C v] by (intro removal_postI[where r = None and C' = C and dev' = ?d]) simp_all
    next
      case (err e fw)
      then show ?thesis using I nx
        by (intro removal_postI[where r = "Some e" and C' = C and dev' = "dev\<lparr>md_fw := fw\<rparr>"]) (simp_all add: detach_head_def Let_def)
    qed
  next
    case (Cons j ys)
    then have C: "C h = h # j # ys" using S(3) by simp
    then have nx: "mgm_next (md_mem dev h) = int j" "j \<noteq> 0" using chain_next[of "mcg_nx dev" h "[]" h j ys] T(1) by (auto simp: mgm_next_nx)
    note P = mcg_pull[OF I H h C v]
    show ?thesis
    proof (cases rule: READ_cases[of dev "int j"])
      case (err e fw)
      then show ?thesis using I nx
        by (intro removal_postI[where r = "Some e" and C' = C and dev' = "dev\<lparr>md_fw := fw\<rparr>"]) (simp_all add: detach_head_def Let_def)
    next
      case R: (ok fw)
      show ?thesis
      proof (cases rule: WRITE_cases[of "dev\<lparr>md_fw := fw\<rparr>" "int h" "md_mem dev j"])
        case (err e fw')
        then show ?thesis using I nx R
          by (intro removal_postI[where r = "Some e" and C' = C and dev' = "dev\<lparr>md_fw := fw'\<rparr>"]) (auto simp: detach_head_def Let_def)
      next
        case W: (ok fw')
        let ?d = "(dev\<lparr>md_mem := (md_mem dev)(h := md_mem dev j), md_alloc := mthca_free (md_alloc dev) (word_of_int (int j))\<rparr>)\<lparr>md_fw := fw'\<rparr>"
        have "detach_head dev (int h) (md_mem dev h) = Some (None, ?d)"
          using R(1) W(1) nx P(2) by (simp add: detach_head_def Let_def)
        then show ?thesis using P(1) by (intro removal_postI[where r = None and C' = "C(h := h # ys)" and dev' = ?d]) simp_all
      qed
    qed
  qed
qed

lemma detach_post_fw [simp]: "detach_post hash (dev\<lparr>md_fw := fw\<rparr>) = detach_post hash dev"
  by (simp add: detach_post_def fun_eq_iff)

lemma detach_post_weaken: "detach_post hash dev M g tag c R \<Longrightarrow> (c' \<Longrightarrow> c) \<Longrightarrow> detach_post hash dev M g tag c' R"
  unfolding detach_post_def by blast

lemma removal_detach:
  assumes "removal_post hash dev' (M(g := M g - {tag})) R" "md_num_mgms dev' = md_num_mgms dev" "tag \<in> M g" "c \<Longrightarrow> fw_clean dev'"
  shows "detach_post hash dev M g tag c R"
  using assms unfolding removal_post_def by (auto intro!: detach_postI)

lemma detach_found:
  assumes I: "mcg_inv hash dev C M" and H: "hash_ok hash dev" and g: "g \<noteq> zero_gid" "h = unat (hash g)"
    and fd: "found dev (C h) h g prev (int i) (md_mem dev i)" and k: "mcg_key dev i = g" "i \<in> set (C h)"
    and loc: "k < length (takeWhile (\<lambda>q. bit q 31) (mg_qp (md_mem dev i)))" "mg_qp (md_mem dev i) ! k = qp_tag q"
    and n: "n = int (length (takeWhile (\<lambda>q. bit q 31) (mg_qp (md_mem dev i))))"
    and m: "m = (md_mem dev i)\<lparr>mg_qp := (mg_qp (md_mem dev i))[k := mg_qp (md_mem dev i) ! nat (n - 1), nat (n - 1) := 0]\<rparr>"
  shows "detach_post hash dev M g (qp_tag q) (fw_clean dev) (case mthca_WRITE_MGM dev (int i) m of
      (Some e, dev) \<Rightarrow> Some (Some e, dev)
    | (None, dev) \<Rightarrow> if n \<noteq> 1 then Some (None, dev) else if prev = -1 then detach_head dev (int i) m else detach_amgm dev prev (int i) m)"
proof -
  have h: "h < nat (md_num_mgms dev)" using hash_okD[OF H g(1)] g(2) by simp
  have d: "qp_dense (mg_qp (md_mem dev i))" using mcg_invD(2)[OF I mcg_chain_used[OF I h k(2)]] .
  have Mg: "M g = qp_members (mg_qp (md_mem dev i))" using mcg_members(1)[OF I H g k(2,1)] by (simp add: mcg_val_def)
  let ?t = "takeWhile (\<lambda>q. bit q 31) (mg_qp (md_mem dev i))"
  have nn: "nat (n - 1) = length ?t - 1" using n loc(1) by linarith
  have m': "qp_dense (mg_qp m)" "qp_members (mg_qp m) = M g - {qp_tag q}" "mg_gid m = g" "mgm_next m = int (mcg_nx dev i)"
    using remove_qp[OF d refl loc(1)] k(1) loc(2) Mg unfolding m nn by (simp_all add: mcg_key_def mgm_next_nx[symmetric] mgm_next_def)
  have "qp_tag q = ?t ! k" using loc by (simp add: takeWhile_nth)
  then have tM: "qp_tag q \<in> M g" unfolding Mg qp_members_def using loc(1) by (metis nth_mem)
  show ?thesis
  proof (cases rule: WRITE_cases[of dev "int i" m])
    case (err e fw)
    then show ?thesis using I
      by (intro detach_postI[where r = "Some e" and C' = C and M' = M and dev' = "dev\<lparr>md_fw := fw\<rparr>"]) simp_all
  next
    case (ok fw)
    let ?d = "(dev\<lparr>md_mem := (md_mem dev)(i := m)\<rparr>)\<lparr>md_fw := fw\<rparr>"
    have I1: "mcg_inv hash ?d C (M(g := M g - {qp_tag q}))" "hash_ok hash ?d"
      using mcg_write[OF I H h k(2), of m] m' k(1) g(1) H by (simp_all add: hash_ok_def)
    have cl: "fw_clean dev \<Longrightarrow> fw_clean ?d" using ok(2) by (simp add: fw_clean_def)
    show ?thesis
    proof (cases "n = 1")
      case False
      then show ?thesis using ok(1) I1 tM
        by (intro detach_postI[where r = None and C' = C and M' = "M(g := M g - {qp_tag q})" and dev' = ?d]) simp_all
    next
      case True
      then have "length ?t = 1" using n by simp
      then have "M g = {qp_tag q}" using tM unfolding Mg qp_members_def by (cases ?t) auto
      then have v: "mcg_val ?d i = {}" using m'(2) by (simp add: mcg_val_def)
      have mi: "md_mem ?d i = m" by simp
      have R: "removal_post hash ?d (M(g := M g - {qp_tag q})) (if prev = -1 then detach_head ?d (int i) m else detach_amgm ?d prev (int i) m)"
      proof (cases "prev = -1")
        case p: True
        then have "i = h" using fd by (auto simp: found_def)
        then show ?thesis using detach_head_correct[OF I1, of h] h v mi p by simp
      next
        case p: False
        then obtain xs p' ys where "C h = xs @ p' # i # ys" "prev = int p'" using fd by (auto simp: found_def)
        then show ?thesis using detach_amgm_correct[OF I1, of h xs p' i ys] h v mi p by simp
      qed
      show ?thesis using removal_detach[OF R _ tM cl] ok(1) True by simp
    qed
  qed
qed

lemma detach_correct:
  assumes I: "mcg_inv hash dev C M" and H: "hash_ok hash dev" and g: "g \<noteq> zero_gid"
  shows "detach_post hash dev M g (qp_tag q) (mb \<and> mb' \<and> fw_clean dev) (mthca_multicast_detach mb mb' hash dev q g)"
proof (cases mb)
  case False
  then show ?thesis using I by (intro detach_postI[where r = "Some ENOMEM" and C' = C and M' = M and dev' = dev]) (simp_all add: mthca_multicast_detach_def)
next
  case mb: True
  define h where "h = unat (hash g)"
  obtain r fw where F: "find_mgm mb' hash dev g = Some (r, dev\<lparr>md_fw := fw\<rparr>)"
    "mb' \<longrightarrow> fw_clean dev \<longrightarrow> fw_clean (dev\<lparr>md_fw := fw\<rparr>) \<and> isl r = False"
    "\<forall>prev index m. r = Inr (prev, index, m) \<longrightarrow> found dev (C h) h g prev index m"
    using find_mgm_outcome[OF I H g, of mb'] unfolding h_def by blast
  let ?d = "dev\<lparr>md_fw := fw\<rparr>"
  have I': "mcg_inv hash ?d C M" "hash_ok hash ?d" using I H by simp_all
  have cl: "mb \<and> mb' \<and> fw_clean dev \<Longrightarrow> fw_clean ?d" using F(2) by blast
  have h: "h < nat (md_num_mgms dev)" using hash_okD[OF H g] by (simp add: h_def)
  have einval: "detach_post hash dev M g (qp_tag q) (mb \<and> mb' \<and> fw_clean dev) (Some (Some EINVAL, ?d))" if "qp_tag q \<notin> M g"
    using I that by (intro detach_postI[where r = "Some EINVAL" and C' = C and M' = M and dev' = ?d]) simp_all
  show ?thesis
  proof (cases r)
    case (Inl e)
    then show ?thesis using I F mb
      by (intro detach_postI[where r = "Some e" and C' = C and M' = M and dev' = ?d]) (auto simp: mthca_multicast_detach_def)
  next
    case (Inr x)
    obtain prev index m where x: "x = (prev, index, m)" by (cases x) auto
    have fd: "found dev (C h) h g prev index m" using F(3) Inr x by blast
    show ?thesis
    proof (cases "index = -1")
      case True
      then have "g \<notin> mcg_key dev ` set (C h)" using fd unfolding found_def by auto
      then have "qp_tag q \<notin> M g" using mcg_members(2)[OF I H g h_def] by simp
      then show ?thesis using einval F(1) Inr x mb True by (simp add: mthca_multicast_detach_def)
    next
      case False
      then obtain i where i: "index = int i" "m = md_mem dev i" "i \<in> set (C h)" "mcg_key dev i = g \<or> i = h \<and> mcg_key dev h = zero_gid"
        using fd table_slots(2)[OF mcg_invD(3)[OF I] h] unfolding found_def mcg_key_def by fastforce
      have d: "qp_dense (mg_qp (md_mem dev i))" using mcg_invD(2)[OF I mcg_chain_used[OF I h i(3)]] .
      have Mg: "M g = qp_members (mg_qp (md_mem dev i))"
        using mcg_members(1)[OF I H g h_def i(3)] mcg_members(3)[OF I H g h_def] i(4) by (auto simp: mcg_val_def)
      obtain loc n where s: "detach_scan (qp_tag q) 0 (-1) (mg_qp (md_mem dev i)) = (loc, n)" by fastforce
      note sc = detach_scan_finds[OF qp_denseD(2)[OF d] qp_tag_live s] and n = detach_scan_counts[OF s]
      show ?thesis
      proof (cases "qp_tag q \<in> M g")
        case False
        then have "loc = -1" using sc Mg by simp
        then show ?thesis using einval[OF False] F(1) Inr x mb i s by (simp add: mthca_multicast_detach_def)
      next
        case t: True
        then obtain k where k: "k < length (takeWhile (\<lambda>q. bit q 31) (mg_qp (md_mem dev i)))" "loc = int k" "mg_qp (md_mem dev i) ! k = qp_tag q"
          using sc Mg by auto
        have key: "mcg_key dev i = g" using i(4) t mcg_members(3)[OF I H g h_def] by auto
        have fd': "found ?d (C h) h g prev (int i) (md_mem ?d i)" using fd i(1,2) by simp
        define m1 where "m1 = (md_mem dev i)\<lparr>mg_qp := (mg_qp (md_mem dev i))[k := mg_qp (md_mem dev i) ! nat (n - 1), nat (n - 1) := 0]\<rparr>"
        have eq: "mthca_multicast_detach mb mb' hash dev q g = (case mthca_WRITE_MGM ?d (int i) m1 of
            (Some e, dev) \<Rightarrow> Some (Some e, dev)
          | (None, dev) \<Rightarrow> if n \<noteq> 1 then Some (None, dev) else if prev = -1 then detach_head dev (int i) m1 else detach_amgm dev prev (int i) m1)"
          unfolding m1_def using F(1) Inr x mb i(1,2) s k(2) by (simp add: mthca_multicast_detach_def Let_def)
        have "detach_post hash ?d M g (qp_tag q) (fw_clean ?d) (mthca_multicast_detach mb mb' hash dev q g)"
          unfolding eq by (rule detach_found[OF I' g h_def fd' _ i(3), where k = k]) (use key k n in \<open>simp_all add: m1_def\<close>)
        then show ?thesis using detach_post_weaken cl by simp
      qed
    qed
  qed
qed

section \<open>Every reachable table\<close>

text \<open>The queue pairs of a group as the driver's own lookup finds them.\<close>

definition mcg_group :: "(u8 list \<Rightarrow> u16) \<Rightarrow> mcg_dev \<Rightarrow> u8 list \<Rightarrow> u32 set" where
  "mcg_group hash dev g = (case find_mgm True hash (dev\<lparr>md_fw := []\<rparr>) g of
     Some (Inr (prev, index, m), _) \<Rightarrow> if index = -1 then {} else qp_members (mg_qp m)
   | _ \<Rightarrow> {})"

lemma mcg_group_eq:
  assumes I: "mcg_inv hash dev C M" and H: "hash_ok hash dev" and g: "g \<noteq> zero_gid"
  shows "mcg_group hash dev g = M g"
proof -
  define h where "h = unat (hash g)"
  let ?d = "dev\<lparr>md_fw := []\<rparr>"
  have I': "mcg_inv hash ?d C M" "hash_ok hash ?d" using I H by simp_all
  have cl: "fw_clean ?d" by (simp add: fw_clean_def)
  obtain r fw where F: "find_mgm True hash ?d g = Some (r, ?d\<lparr>md_fw := fw\<rparr>)" "isl r = False"
    "\<forall>prev index m. r = Inr (prev, index, m) \<longrightarrow> found ?d (C h) h g prev index m"
    using find_mgm_outcome[OF I' g, of True] cl unfolding h_def by blast
  obtain prev index m where r: "r = Inr (prev, index, m)" using F(2) by (cases r) auto
  have fd: "found dev (C h) h g prev index m" using F(3) r by simp
  have h: "h < nat (md_num_mgms dev)" using hash_okD[OF H g] by (simp add: h_def)
  show ?thesis
  proof (cases "index = -1")
    case True
    then have "g \<notin> mcg_key dev ` set (C h)" using fd unfolding found_def by auto
    then show ?thesis using mcg_members(2)[OF I H g h_def] F(1) r True by (simp add: mcg_group_def)
  next
    case False
    then obtain i where i: "m = md_mem dev i" "i \<in> set (C h)" "mcg_key dev i = g \<or> i = h \<and> mcg_key dev h = zero_gid"
      using fd table_slots(2)[OF mcg_invD(3)[OF I] h] unfolding found_def mcg_key_def by fastforce
    then have "M g = qp_members (mg_qp m)"
      using mcg_members(1)[OF I H g h_def i(2)] mcg_members(3)[OF I H g h_def] by (auto simp: mcg_val_def)
    then show ?thesis using F(1) r False by (simp add: mcg_group_def)
  qed
qed

text \<open>A driver that has just come up: identifiers initialised, heads blank in device memory, and a firmware hash that
  stays within the heads.\<close>

definition mcg_boot :: "(u8 list \<Rightarrow> u16) \<Rightarrow> mcg_dev \<Rightarrow> int \<Rightarrow> bool" where
  "mcg_boot hash dev num_amgms \<longleftrightarrow> 0 < md_num_mgms dev \<and> 0 \<le> num_amgms \<and> md_num_mgms dev + num_amgms \<le> 2 ^ 26 \<and>
     mthca_init_mcg_table True (md_num_mgms dev) num_amgms = Inr (md_alloc dev) \<and> hash_ok hash dev \<and>
     (\<forall>i < nat (md_num_mgms dev). md_mem dev i = \<lparr>mg_next = 0, mg_gid = zero_gid, mg_qp = replicate MTHCA_QP_PER_MGM 0\<rparr>)"

inductive mcg_reach :: "(u8 list \<Rightarrow> u16) \<Rightarrow> mcg_dev \<Rightarrow> mcg_dev \<Rightarrow> bool" for hash dev0 where
  mcg_start: "mcg_reach hash dev0 dev0"
| mcg_attach: "mcg_reach hash dev0 dev \<Longrightarrow> g \<noteq> zero_gid \<Longrightarrow>
    mthca_multicast_attach mb mb' hash (dev\<lparr>md_fw := fw\<rparr>) q g = Some (r, dev') \<Longrightarrow> mcg_reach hash dev0 dev'"
| mcg_detach: "mcg_reach hash dev0 dev \<Longrightarrow> g \<noteq> zero_gid \<Longrightarrow>
    mthca_multicast_detach mb mb' hash (dev\<lparr>md_fw := fw\<rparr>) q g = Some (r, dev') \<Longrightarrow> mcg_reach hash dev0 dev'"

lemma power_init:
  assumes "mthca_alloc_init True num msk res = Inr a" "num \<noteq> 0"
  shows "is_power_of_2 num"
proof -
  obtain k where n: "num = 2 ^ k" using assms(1) by (auto simp: mthca_alloc_init_def push_bit_of_1 split: if_splits)
  have "k < 32"
  proof (rule ccontr)
    assume "\<not> k < 32"
    then have "(2 :: u32) ^ k = 0" by (simp add: exp_eq_zero_iff)
    then show False using n assms(2) by simp
  qed
  then show ?thesis using n by (auto simp: is_power_of_2_iff)
qed

lemma alloc_init_fields:
  assumes "mthca_alloc_init True num msk res = Inr a"
  shows "ma_top a = 0" "ma_mask a = msk"
  using assms by (auto simp: mthca_alloc_init_def split: if_splits)

lemma mcg_boot_inv:
  assumes B: "mcg_boot hash dev na"
  shows "mcg_inv hash dev (\<lambda>h. [h]) (\<lambda>g. {})"
proof -
  define n where "n = nat (md_num_mgms dev)"
  define t where "t = n + nat na"
  have b: "0 < n" "t \<le> 2 ^ 26" "hash_ok hash dev" using B by (auto simp: mcg_boot_def n_def t_def nat_add_distrib[symmetric] nat_le_iff)
  have ni: "md_num_mgms dev = int n" "md_num_mgms dev + na = int t" using B by (auto simp: mcg_boot_def n_def t_def)
  let ?w = "of_nat t :: u32"
  have p31: "(2 :: nat) ^ 26 < 2 ^ 31" "(2 :: nat) ^ 26 < 2 ^ 32" by simp_all
  have "t < 2 ^ 32" using b(2) p31 by linarith
  then have tw: "unat ?w = t" by (simp add: unat_of_nat take_bit_nat_eq_self)
  have nt: "n \<le> t" by (simp add: t_def)
  then have "n < 2 ^ 32" using \<open>t < 2 ^ 32\<close> by linarith
  then have nw: "unat (of_nat n :: u32) = n" by (simp add: unat_of_nat take_bit_nat_eq_self)
  have init: "mthca_alloc_init True ?w (?w - 1) (of_nat n) = Inr (md_alloc dev)"
  proof -
    have "mthca_init_mcg_table True (md_num_mgms dev) na = Inr (md_alloc dev)" using B by (simp add: mcg_boot_def)
    then show ?thesis unfolding mthca_init_mcg_table_def Let_def ni(2) unfolding ni(1) by simp
  qed
  have w0: "?w \<noteq> 0" using tw b(1) nt by auto
  note pw = power_init[OF init w0]
  have le: "(of_nat n :: u32) \<le> ?w" using tw nw nt by (simp add: word_le_nat_alt)
  have n31: "unat (of_nat n :: u32) < 2 ^ 31" using nw nt b(2) p31 by linarith
  have m1: "?w - 1 \<noteq> -1" using w0 by simp
  have pre: "prefix_ok (?w - 1) ?w ?w" using m1 by (simp add: prefix_ok_def)
  note A = mthca_alloc_init_wf[OF pw le n31 pre init]
  have tm: "ma_top (md_alloc dev) = 0" "ma_mask (md_alloc dev) = ?w - 1"
    using alloc_init_fields[OF init] by auto
  have "mcg_alloc_ok dev" unfolding mcg_alloc_ok_def n_def[symmetric] A(2,3) tm nw tw using A(1) b(1,2) ni(1) by simp
  moreover have mem: "md_mem dev i = \<lparr>mg_next = 0, mg_gid = zero_gid, mg_qp = replicate MTHCA_QP_PER_MGM 0\<rparr>" if "i < n" for i
    using B that by (simp add: mcg_boot_def n_def)
  have "qp_members (replicate MTHCA_QP_PER_MGM 0) = {}"
    unfolding qp_members_def MTHCA_QP_PER_MGM_def by (simp add: takeWhile_replicate)
  then have "table_ok zero_gid (\<lambda>g. unat (hash g)) n (mcg_nx dev) (mcg_key dev) (mcg_val dev) {} (\<lambda>h. [h]) (\<lambda>g. {})"
    using mem hash_okD[OF b(3)] by (intro table_empty) (auto simp: mcg_nx_def mcg_key_def mcg_val_def mgm_next_def n_def)
  moreover have "ma_used (md_alloc dev) = {..<n}" using A(2) nw by simp
  moreover have "qp_dense (mg_qp (md_mem dev i))" if "i < n" for i using mem[OF that] qp_empty(1) by simp
  ultimately show ?thesis by (simp add: mcg_inv_def n_def)
qed

lemma mcg_reach_inv:
  assumes "mcg_reach hash dev0 dev" "mcg_boot hash dev0 na"
  shows "(\<exists>C M. mcg_inv hash dev C M) \<and> hash_ok hash dev"
  using assms
proof (induction rule: mcg_reach.induct)
  case mcg_start
  then show ?case using mcg_boot_inv[OF mcg_start] unfolding mcg_boot_def by blast
next
  case (mcg_attach dev g mb mb' fw q r dev')
  then obtain C M where I: "mcg_inv hash (dev\<lparr>md_fw := fw\<rparr>) C M" "hash_ok hash (dev\<lparr>md_fw := fw\<rparr>)" by auto
  show ?case using attach_correct[OF I mcg_attach.hyps(2), of q mb mb'] mcg_attach.hyps(3) I(2)
    by (auto simp: attach_post_def hash_ok_def)
next
  case (mcg_detach dev g mb mb' fw q r dev')
  then obtain C M where I: "mcg_inv hash (dev\<lparr>md_fw := fw\<rparr>) C M" "hash_ok hash (dev\<lparr>md_fw := fw\<rparr>)" by auto
  show ?case using detach_correct[OF I mcg_detach.hyps(2), of q mb mb'] mcg_detach.hyps(3) I(2)
    by (auto simp: detach_post_def hash_ok_def)
qed

definition mcg_ex_dev :: mcg_dev where
  "mcg_ex_dev = \<lparr>md_mem = (\<lambda>i. \<lparr>mg_next = 0, mg_gid = zero_gid, mg_qp = replicate MTHCA_QP_PER_MGM 0\<rparr>), md_num_mgms = 2,
     md_alloc = \<lparr>ma_last = 0, ma_top = 0, ma_max = 4, ma_mask = 3, ma_table = [3]\<rparr>, md_fw = []\<rparr>"

definition mcg_ex_gid :: "u8 list" where
  "mcg_ex_gid = 0xFF # replicate 15 0"

lemma mcg_ex_gid: "mcg_ex_gid \<noteq> zero_gid"
proof
  assume "mcg_ex_gid = zero_gid"
  then have "mcg_ex_gid ! 0 = zero_gid ! 0" by (rule arg_cong)
  then show False by (simp add: mcg_ex_gid_def zero_gid_def)
qed

lemma mcg_ex_boot: "mcg_boot (\<lambda>g. 0) mcg_ex_dev 2"
proof -
  have "mthca_init_mcg_table True 2 2 = Inr \<lparr>ma_last = 0, ma_top = 0, ma_max = 4, ma_mask = 3, ma_table = [3]\<rparr>" by code_simp
  then show ?thesis by (simp add: mcg_boot_def mcg_ex_dev_def hash_ok_def)
qed

lemma mcg_ex_step:
  "\<exists>r dev. mthca_multicast_attach True True (\<lambda>g. 0) (mcg_ex_dev\<lparr>md_fw := []\<rparr>) 5 mcg_ex_gid = Some (r, dev) \<and> mcg_reach (\<lambda>g. 0) mcg_ex_dev dev"
proof -
  have "hash_ok (\<lambda>g. 0) (mcg_ex_dev\<lparr>md_fw := []\<rparr>)" by (simp add: mcg_ex_dev_def hash_ok_def)
  moreover have "mcg_inv (\<lambda>g. 0) (mcg_ex_dev\<lparr>md_fw := []\<rparr>) (\<lambda>h. [h]) (\<lambda>g. {})" using mcg_boot_inv[OF mcg_ex_boot] by simp
  ultimately obtain r dev where "mthca_multicast_attach True True (\<lambda>g. 0) (mcg_ex_dev\<lparr>md_fw := []\<rparr>) 5 mcg_ex_gid = Some (r, dev)"
    using attach_correct[OF _ _ mcg_ex_gid, of "\<lambda>g. 0" "mcg_ex_dev\<lparr>md_fw := []\<rparr>" "\<lambda>h. [h]" "\<lambda>g. {}" 5 True True] unfolding attach_post_def by blast
  then show ?thesis using mcg_reach.mcg_attach[OF mcg_start mcg_ex_gid] by blast
qed

text \<open>C5. From boot, after any history of attaches and detaches under any firmware and memory failures, attaching a
  queue pair returns: on success the group, as the driver looks it up, gains exactly that queue pair and no other group
  changes; on failure no group changes; and without failures it refuses only when the group is full, or
  new with no chained entry left.\<close>

theorem mcg_attach_refines:
  assumes boot: "mcg_boot hash dev0 na" and reach: "mcg_reach hash dev0 dev" and g: "g \<noteq> zero_gid"
  shows "\<exists>r dev'. mthca_multicast_attach mb mb' hash dev q g = Some (r, dev') \<and>
    (\<forall>g'. g' \<noteq> zero_gid \<longrightarrow> mcg_group hash dev' g' =
       (if r = None \<and> g' = g then insert (qp_tag q) (mcg_group hash dev g) else mcg_group hash dev g')) \<and>
    (mb \<and> mb' \<and> set (md_fw dev) \<subseteq> {Fw_done} \<and> r \<noteq> None \<longrightarrow> r = Some ENOMEM \<and> qp_tag q \<notin> mcg_group hash dev g \<and>
      (card (mcg_group hash dev g) = MTHCA_QP_PER_MGM \<or>
       mcg_group hash dev g = {} \<and> ma_used (md_alloc dev) = {..<unat (ma_max (md_alloc dev))}))"
proof -
  obtain C M where I: "mcg_inv hash dev C M" and H: "hash_ok hash dev" using mcg_reach_inv[OF reach boot] by blast
  note G = mcg_group_eq[OF I H]
  obtain r dev' C' where A: "mthca_multicast_attach mb mb' hash dev q g = Some (r, dev')" "md_num_mgms dev' = md_num_mgms dev"
    "mcg_inv hash dev' C' (if r = None then M(g := insert (qp_tag q) (M g)) else M)"
    "mb \<and> mb' \<and> fw_clean dev \<longrightarrow> r \<noteq> None \<longrightarrow> r = Some ENOMEM \<and> qp_tag q \<notin> M g \<and>
        (card (M g) = MTHCA_QP_PER_MGM \<or> M g = {} \<and> ma_used (md_alloc dev) = {..<unat (ma_max (md_alloc dev))})"
    using attach_correct[OF I H g, of q mb mb'] unfolding attach_post_def by blast
  have "hash_ok hash dev'" using H A(2) by (simp add: hash_ok_def)
  note G' = mcg_group_eq[OF A(3) this]
  have "mcg_group hash dev' g' = (if r = None \<and> g' = g then insert (qp_tag q) (mcg_group hash dev g) else mcg_group hash dev g')"
    if "g' \<noteq> zero_gid" for g'
    using G'[OF that] G[OF that] G[OF g] by auto
  then show ?thesis using A(1) A(4)[folded G[OF g], unfolded fw_clean_def] by blast
qed

theorem mcg_attach_refines_witness:
  "\<exists>r dev r' dev'. mthca_multicast_attach True True (\<lambda>g. 0) (mcg_ex_dev\<lparr>md_fw := []\<rparr>) 5 mcg_ex_gid = Some (r, dev) \<and>
     mthca_multicast_attach True True (\<lambda>g. 0) dev 6 mcg_ex_gid = Some (r', dev') \<and>
     (r' = None \<longrightarrow> mcg_group (\<lambda>g. 0) dev' mcg_ex_gid = insert (qp_tag 6) (mcg_group (\<lambda>g. 0) dev mcg_ex_gid))"
proof -
  obtain r dev where D: "mthca_multicast_attach True True (\<lambda>g. 0) (mcg_ex_dev\<lparr>md_fw := []\<rparr>) 5 mcg_ex_gid = Some (r, dev)" "mcg_reach (\<lambda>g. 0) mcg_ex_dev dev"
    using mcg_ex_step by blast
  obtain r' dev' where E: "mthca_multicast_attach True True (\<lambda>g. 0) dev 6 mcg_ex_gid = Some (r', dev')"
    "\<forall>g'. g' \<noteq> zero_gid \<longrightarrow> mcg_group (\<lambda>g. 0) dev' g' =
       (if r' = None \<and> g' = mcg_ex_gid then insert (qp_tag 6) (mcg_group (\<lambda>g. 0) dev mcg_ex_gid) else mcg_group (\<lambda>g. 0) dev g')"
    using mcg_attach_refines[OF mcg_ex_boot D(2) mcg_ex_gid, of True True 6] by blast
  have "r' = None \<longrightarrow> mcg_group (\<lambda>g. 0) dev' mcg_ex_gid = insert (qp_tag 6) (mcg_group (\<lambda>g. 0) dev mcg_ex_gid)"
    using E(2) mcg_ex_gid by simp
  then show ?thesis using D(1) E(1) by blast
qed

text \<open>C7. Likewise for detaching: on success the queue pair was a member, leaves its group and nothing else
  changes; on failure the groups are unchanged, or the queue pair has left all the same (its removal was
  written before a later command failed); without failures it succeeds exactly for members.\<close>

theorem mcg_detach_refines:
  assumes boot: "mcg_boot hash dev0 na" and reach: "mcg_reach hash dev0 dev" and g: "g \<noteq> zero_gid"
  shows "\<exists>r dev'. mthca_multicast_detach mb mb' hash dev q g = Some (r, dev') \<and>
    ((\<forall>g'. g' \<noteq> zero_gid \<longrightarrow> mcg_group hash dev' g' =
       (if g' = g then mcg_group hash dev g - {qp_tag q} else mcg_group hash dev g')) \<or>
     r \<noteq> None \<and> (\<forall>g'. g' \<noteq> zero_gid \<longrightarrow> mcg_group hash dev' g' = mcg_group hash dev g')) \<and>
    (r = None \<longrightarrow> qp_tag q \<in> mcg_group hash dev g) \<and>
    (mb \<and> mb' \<and> set (md_fw dev) \<subseteq> {Fw_done} \<longrightarrow> (if qp_tag q \<in> mcg_group hash dev g then r = None else r = Some EINVAL))"
proof -
  obtain C M where I: "mcg_inv hash dev C M" and H: "hash_ok hash dev" using mcg_reach_inv[OF reach boot] by blast
  note G = mcg_group_eq[OF I H]
  obtain r dev' C' M' where A: "mthca_multicast_detach mb mb' hash dev q g = Some (r, dev')" "md_num_mgms dev' = md_num_mgms dev"
    "mcg_inv hash dev' C' M'" "M' = M(g := M g - {qp_tag q}) \<or> r \<noteq> None \<and> M' = M" "r = None \<longrightarrow> qp_tag q \<in> M g"
    "mb \<and> mb' \<and> fw_clean dev \<longrightarrow> (if qp_tag q \<in> M g then r = None else r = Some EINVAL)"
    using detach_correct[OF I H g, of q mb mb'] unfolding detach_post_def by blast
  have "hash_ok hash dev'" using H A(2) by (simp add: hash_ok_def)
  note G' = mcg_group_eq[OF A(3) this]
  have "(\<forall>g'. g' \<noteq> zero_gid \<longrightarrow> mcg_group hash dev' g' = (if g' = g then mcg_group hash dev g - {qp_tag q} else mcg_group hash dev g')) \<or>
     r \<noteq> None \<and> (\<forall>g'. g' \<noteq> zero_gid \<longrightarrow> mcg_group hash dev' g' = mcg_group hash dev g')"
    using A(4) G' G G[OF g] by auto
  then show ?thesis using A(1) A(5,6)[folded G[OF g], unfolded fw_clean_def] by blast
qed

theorem mcg_detach_refines_witness:
  "\<exists>r dev r' dev'. mthca_multicast_attach True True (\<lambda>g. 0) (mcg_ex_dev\<lparr>md_fw := []\<rparr>) 5 mcg_ex_gid = Some (r, dev) \<and>
     mthca_multicast_detach True True (\<lambda>g. 0) dev 5 mcg_ex_gid = Some (r', dev') \<and> (r' = None \<longrightarrow> qp_tag 5 \<in> mcg_group (\<lambda>g. 0) dev mcg_ex_gid)"
proof -
  obtain r dev where D: "mthca_multicast_attach True True (\<lambda>g. 0) (mcg_ex_dev\<lparr>md_fw := []\<rparr>) 5 mcg_ex_gid = Some (r, dev)" "mcg_reach (\<lambda>g. 0) mcg_ex_dev dev"
    using mcg_ex_step by blast
  show ?thesis using mcg_detach_refines[OF mcg_ex_boot D(2) mcg_ex_gid, of True True 5] D(1) by blast
qed

text \<open>C9. In every reachable table, whatever commands failed on the way: each bucket's links form one finite
  chain that starts at its head, no slot is on two chains, and the identifiers in use beyond the heads are
  exactly the chained slots, so none is leaked and none is free while linked.\<close>

theorem mcg_no_leak:
  assumes boot: "mcg_boot hash dev0 na" and reach: "mcg_reach hash dev0 dev"
  shows "\<exists>C. (\<forall>h < nat (md_num_mgms dev). chain (mcg_nx dev) h (C h) \<and> distinct (C h)) \<and>
    (\<forall>h < nat (md_num_mgms dev). \<forall>h' < nat (md_num_mgms dev). h \<noteq> h' \<longrightarrow> set (C h) \<inter> set (C h') = {}) \<and>
    (\<Union>h < nat (md_num_mgms dev). set (tl (C h))) = ma_used (md_alloc dev) - {..<nat (md_num_mgms dev)}"
proof -
  obtain C M where "mcg_inv hash dev C M" using mcg_reach_inv[OF reach boot] by blast
  note T = mcg_invD(3)[OF this]
  have "(\<Union>h < nat (md_num_mgms dev). set (tl (C h))) = ma_used (md_alloc dev) - {..<nat (md_num_mgms dev)}"
    using T unfolding table_ok_def by (elim conjE)
  then show ?thesis using table_okD(1,2,5)[OF T] by blast
qed

theorem mcg_no_leak_witness:
  "\<exists>dev C. mcg_reach (\<lambda>g. 0) mcg_ex_dev dev \<and> (\<Union>h < nat (md_num_mgms dev). set (tl (C h))) = ma_used (md_alloc dev) - {..<nat (md_num_mgms dev)}"
proof -
  obtain dev where r: "mcg_reach (\<lambda>g. 0) mcg_ex_dev dev" using mcg_ex_step by blast
  show ?thesis using mcg_no_leak[OF mcg_ex_boot r] r by blast
qed

end
