(* ===== verification/Cl_Map.thy ===== *)
theory Cl_Map
  imports OFED_Prelude
begin

text \<open>
  The quick map of the component library (\<open>core/complib/cl_map.c\<close>, \<open>inc/complib/cl_qmap.h\<close>), in which the access layer and
  OpenSM keep their tables: a red-black tree with parent pointers whose nodes, embedded in the caller's objects, are also linked in
  key order.  The heap maps the address of a map item to its fields.  A map is given by the addresses of its two
  sentinels and its count.  The tree operations change pointers one assignment at a time, as the code does; the loops are partial
  functions, undefined where the code would not end.  Assertions and the fields of debug builds are left out.
\<close>

section \<open>Items and pointers\<close>

type_synonym addr = nat

datatype cl_map_color = CL_MAP_RED | CL_MAP_BLACK

record cl_heap =
  p_next :: "addr \<Rightarrow> addr"
  p_prev :: "addr \<Rightarrow> addr"
  p_left :: "addr \<Rightarrow> addr"
  p_right :: "addr \<Rightarrow> addr"
  p_up :: "addr \<Rightarrow> addr"
  color :: "addr \<Rightarrow> cl_map_color"
  key :: "addr \<Rightarrow> u64"

record cl_qmap =
  root :: addr
  nil :: addr
  count :: u64

definition set_next :: "addr \<Rightarrow> addr \<Rightarrow> cl_heap \<Rightarrow> cl_heap" where "set_next a v h = h\<lparr>p_next := (p_next h)(a := v)\<rparr>"
definition set_prev :: "addr \<Rightarrow> addr \<Rightarrow> cl_heap \<Rightarrow> cl_heap" where "set_prev a v h = h\<lparr>p_prev := (p_prev h)(a := v)\<rparr>"
definition set_left :: "addr \<Rightarrow> addr \<Rightarrow> cl_heap \<Rightarrow> cl_heap" where "set_left a v h = h\<lparr>p_left := (p_left h)(a := v)\<rparr>"
definition set_right :: "addr \<Rightarrow> addr \<Rightarrow> cl_heap \<Rightarrow> cl_heap" where "set_right a v h = h\<lparr>p_right := (p_right h)(a := v)\<rparr>"
definition set_up :: "addr \<Rightarrow> addr \<Rightarrow> cl_heap \<Rightarrow> cl_heap" where "set_up a v h = h\<lparr>p_up := (p_up h)(a := v)\<rparr>"
definition set_color :: "addr \<Rightarrow> cl_map_color \<Rightarrow> cl_heap \<Rightarrow> cl_heap" where "set_color a v h = h\<lparr>color := (color h)(a := v)\<rparr>"
definition set_key :: "addr \<Rightarrow> u64 \<Rightarrow> cl_heap \<Rightarrow> cl_heap" where "set_key a v h = h\<lparr>key := (key h)(a := v)\<rparr>"

text \<open>The address of a child pointer inside an item.\<close>

datatype child_ptr = At_left addr | At_right addr

fun load :: "cl_heap \<Rightarrow> child_ptr \<Rightarrow> addr" where
  "load h (At_left a) = p_left h a"
| "load h (At_right a) = p_right h a"

fun store :: "child_ptr \<Rightarrow> addr \<Rightarrow> cl_heap \<Rightarrow> cl_heap" where
  "store (At_left a) v h = set_left a v h"
| "store (At_right a) v h = set_right a v h"

section \<open>Lists\<close>

definition cl_primitive_insert :: "addr \<Rightarrow> addr \<Rightarrow> cl_heap \<Rightarrow> cl_heap" where
  "cl_primitive_insert item new h =
     (let h = set_next new item h;
          h = set_prev new (p_prev h item) h;
          h = set_prev item new h
      in set_next (p_prev h new) new h)"

definition cl_primitive_remove :: "addr \<Rightarrow> cl_heap \<Rightarrow> cl_heap" where
  "cl_primitive_remove item h =
     (let h = set_prev (p_next h item) (p_prev h item) h
      in set_next (p_prev h item) (p_next h item) h)"

section \<open>Rotations\<close>

definition cl_map_root :: "cl_heap \<Rightarrow> cl_qmap \<Rightarrow> addr" where
  "cl_map_root h m = p_left h (root m)"

definition cl_map_is_left_child :: "cl_heap \<Rightarrow> addr \<Rightarrow> bool" where
  "cl_map_is_left_child h item \<longleftrightarrow> p_left h (p_up h item) = item"

definition cl_map_get_parent_ptr_to_item :: "cl_heap \<Rightarrow> addr \<Rightarrow> child_ptr" where
  "cl_map_get_parent_ptr_to_item h item =
     (if cl_map_is_left_child h item then At_left (p_up h item) else At_right (p_up h item))"

definition cl_map_rot_left :: "cl_qmap \<Rightarrow> addr \<Rightarrow> cl_heap \<Rightarrow> cl_heap" where
  "cl_map_rot_left m item h =
     (let pp_root = cl_map_get_parent_ptr_to_item h item;
          h = store pp_root (p_right h item) h;
          h = set_up (load h pp_root) (p_up h item) h;
          h = set_right item (p_left h (load h pp_root)) h;
          h = (if p_left h (load h pp_root) \<noteq> nil m then set_up (p_left h (load h pp_root)) item h else h);
          h = set_left (load h pp_root) item h
      in set_up item (load h pp_root) h)"

definition cl_map_rot_right :: "cl_qmap \<Rightarrow> addr \<Rightarrow> cl_heap \<Rightarrow> cl_heap" where
  "cl_map_rot_right m item h =
     (let pp_root = cl_map_get_parent_ptr_to_item h item;
          h = store pp_root (p_left h item) h;
          h = set_up (load h pp_root) (p_up h item) h;
          h = set_left item (p_right h (load h pp_root)) h;
          h = (if p_right h (load h pp_root) \<noteq> nil m then set_up (p_right h (load h pp_root)) item h else h);
          h = set_right (load h pp_root) item h
      in set_up item (load h pp_root) h)"

section \<open>Operations\<close>

definition cl_qmap_remove_all :: "cl_qmap \<Rightarrow> cl_heap \<Rightarrow> cl_qmap \<times> cl_heap" where
  "cl_qmap_remove_all m h =
     (let h = set_left (root m) (nil m) h;
          h = set_next (nil m) (nil m) h;
          h = set_prev (nil m) (nil m) h
      in (m\<lparr>count := 0\<rparr>, h))"

text \<open>Clearing the map's memory sets what the assignments below do not: the list links of the root and the two keys.\<close>

definition cl_qmap_init :: "cl_qmap \<Rightarrow> cl_heap \<Rightarrow> cl_qmap \<times> cl_heap" where
  "cl_qmap_init m h =
     (let h = set_next (root m) 0 h;
          h = set_prev (root m) 0 h;
          h = set_key (root m) 0 h;
          h = set_key (nil m) 0 h;
          h = set_up (root m) (root m) h;
          h = set_left (root m) (nil m) h;
          h = set_right (root m) (nil m) h;
          h = set_color (root m) CL_MAP_BLACK h;
          h = set_up (nil m) (nil m) h;
          h = set_left (nil m) (nil m) h;
          h = set_right (nil m) (nil m) h;
          h = set_color (nil m) CL_MAP_BLACK h
      in cl_qmap_remove_all m h)"

abbreviation cl_qmap_end :: "cl_qmap \<Rightarrow> addr" where
  "cl_qmap_end m \<equiv> nil m"

definition cl_qmap_head :: "cl_qmap \<Rightarrow> cl_heap \<Rightarrow> addr" where
  "cl_qmap_head m h = p_next h (nil m)"

definition cl_qmap_tail :: "cl_qmap \<Rightarrow> cl_heap \<Rightarrow> addr" where
  "cl_qmap_tail m h = p_prev h (nil m)"

definition cl_qmap_next :: "cl_heap \<Rightarrow> addr \<Rightarrow> addr" where
  "cl_qmap_next h item = p_next h item"

definition cl_qmap_prev :: "cl_heap \<Rightarrow> addr \<Rightarrow> addr" where
  "cl_qmap_prev h item = p_prev h item"

partial_function (option) cl_qmap_get_loop :: "cl_qmap \<Rightarrow> u64 \<Rightarrow> cl_heap \<Rightarrow> addr \<Rightarrow> addr option" where
  "cl_qmap_get_loop m k h item =
     (if item = nil m then Some item
      else if k = key h item then Some item
      else if k < key h item then cl_qmap_get_loop m k h (p_left h item)
      else cl_qmap_get_loop m k h (p_right h item))"

definition cl_qmap_get :: "cl_qmap \<Rightarrow> u64 \<Rightarrow> cl_heap \<Rightarrow> addr option" where
  "cl_qmap_get m k h = cl_qmap_get_loop m k h (cl_map_root h m)"

partial_function (option) cl_map_ins_bal :: "cl_qmap \<Rightarrow> addr \<Rightarrow> cl_heap \<Rightarrow> cl_heap option" where
  "cl_map_ins_bal m item h =
     (if color h (p_up h item) \<noteq> CL_MAP_RED then Some h
      else if cl_map_is_left_child h (p_up h item)
      then let grand_uncle = p_right h (p_up h (p_up h item))
           in if color h grand_uncle = CL_MAP_RED
              then let h = set_color grand_uncle CL_MAP_BLACK h;
                       h = set_color (p_up h item) CL_MAP_BLACK h;
                       h = set_color (p_up h (p_up h item)) CL_MAP_RED h
                   in cl_map_ins_bal m (p_up h (p_up h item)) h
              else let (item, h) = (if \<not> cl_map_is_left_child h item
                                    then (p_up h item, cl_map_rot_left m (p_up h item) h) else (item, h));
                       h = set_color (p_up h item) CL_MAP_BLACK h;
                       h = set_color (p_up h (p_up h item)) CL_MAP_RED h;
                       h = cl_map_rot_right m (p_up h (p_up h item)) h
                   in cl_map_ins_bal m item h
      else let grand_uncle = p_left h (p_up h (p_up h item))
           in if color h grand_uncle = CL_MAP_RED
              then let h = set_color grand_uncle CL_MAP_BLACK h;
                       h = set_color (p_up h item) CL_MAP_BLACK h;
                       h = set_color (p_up h (p_up h item)) CL_MAP_RED h
                   in cl_map_ins_bal m (p_up h (p_up h item)) h
              else let (item, h) = (if cl_map_is_left_child h item
                                    then (p_up h item, cl_map_rot_right m (p_up h item) h) else (item, h));
                       h = set_color (p_up h item) CL_MAP_BLACK h;
                       h = set_color (p_up h (p_up h item)) CL_MAP_RED h;
                       h = cl_map_rot_left m (p_up h (p_up h item)) h
                   in cl_map_ins_bal m item h)"

text \<open>The search for the insertion point ends at an item with the key (\<open>Inl\<close>) or below the future parent (\<open>Inr\<close>).\<close>

partial_function (option) cl_qmap_insert_loop :: "cl_qmap \<Rightarrow> u64 \<Rightarrow> cl_heap \<Rightarrow> addr \<Rightarrow> addr \<Rightarrow> (addr + addr) option" where
  "cl_qmap_insert_loop m k h insert_at comp_item =
     (if comp_item = nil m then Some (Inr insert_at)
      else if k = key h comp_item then Some (Inl comp_item)
      else if k < key h comp_item then cl_qmap_insert_loop m k h comp_item (p_left h comp_item)
      else cl_qmap_insert_loop m k h comp_item (p_right h comp_item))"

definition cl_qmap_insert :: "cl_qmap \<Rightarrow> u64 \<Rightarrow> addr \<Rightarrow> cl_heap \<Rightarrow> (addr \<times> cl_qmap \<times> cl_heap) option" where
  "cl_qmap_insert m k item h =
     (let h = set_left item (nil m) h;
          h = set_right item (nil m) h;
          h = set_key item k h;
          h = set_color item CL_MAP_RED h
      in case cl_qmap_insert_loop m k h (root m) (cl_map_root h m) of
           None \<Rightarrow> None
         | Some (Inl found) \<Rightarrow> Some (found, m, h)
         | Some (Inr insert_at) \<Rightarrow>
             let h = (if insert_at = root m then cl_primitive_insert (nil m) item (set_left insert_at item h)
                      else if k < key h insert_at then cl_primitive_insert insert_at item (set_left insert_at item h)
                      else let h = set_right insert_at item h in cl_primitive_insert (p_next h insert_at) item h);
                 m = m\<lparr>count := count m + 1\<rparr>;
                 h = set_up item insert_at h
             in case cl_map_ins_bal m item h of
                  None \<Rightarrow> None
                | Some h \<Rightarrow> Some (item, m, set_color (cl_map_root h m) CL_MAP_BLACK h))"

partial_function (option) cl_map_del_bal_loop :: "cl_qmap \<Rightarrow> addr \<Rightarrow> cl_heap \<Rightarrow> (addr \<times> cl_heap) option" where
  "cl_map_del_bal_loop m item h =
     (if \<not> (color h item \<noteq> CL_MAP_RED \<and> p_up h item \<noteq> root m) then Some (item, h)
      else if cl_map_is_left_child h item
      then let uncle = p_right h (p_up h item);
               (uncle, h) = (if color h uncle = CL_MAP_RED
                             then let h = set_color uncle CL_MAP_BLACK h;
                                      h = set_color (p_up h item) CL_MAP_RED h;
                                      h = cl_map_rot_left m (p_up h item) h
                                  in (p_right h (p_up h item), h)
                             else (uncle, h))
           in if color h (p_right h uncle) \<noteq> CL_MAP_RED \<and> color h (p_left h uncle) \<noteq> CL_MAP_RED
              then let h = set_color uncle CL_MAP_RED h in cl_map_del_bal_loop m (p_up h item) h
              else let (uncle, h) = (if color h (p_right h uncle) \<noteq> CL_MAP_RED
                                     then let h = set_color (p_left h uncle) CL_MAP_BLACK h;
                                              h = set_color uncle CL_MAP_RED h;
                                              h = cl_map_rot_right m uncle h
                                          in (p_right h (p_up h item), h)
                                     else (uncle, h));
                       h = set_color uncle (color h (p_up h item)) h;
                       h = set_color (p_up h item) CL_MAP_BLACK h;
                       h = set_color (p_right h uncle) CL_MAP_BLACK h;
                       h = cl_map_rot_left m (p_up h item) h
                   in Some (item, h)
      else let uncle = p_left h (p_up h item);
               (uncle, h) = (if color h uncle = CL_MAP_RED
                             then let h = set_color uncle CL_MAP_BLACK h;
                                      h = set_color (p_up h item) CL_MAP_RED h;
                                      h = cl_map_rot_right m (p_up h item) h
                                  in (p_left h (p_up h item), h)
                             else (uncle, h))
           in if color h (p_left h uncle) \<noteq> CL_MAP_RED \<and> color h (p_right h uncle) \<noteq> CL_MAP_RED
              then let h = set_color uncle CL_MAP_RED h in cl_map_del_bal_loop m (p_up h item) h
              else let (uncle, h) = (if color h (p_left h uncle) \<noteq> CL_MAP_RED
                                     then let h = set_color (p_right h uncle) CL_MAP_BLACK h;
                                              h = set_color uncle CL_MAP_RED h;
                                              h = cl_map_rot_left m uncle h
                                          in (p_left h (p_up h item), h)
                                     else (uncle, h));
                       h = set_color uncle (color h (p_up h item)) h;
                       h = set_color (p_up h item) CL_MAP_BLACK h;
                       h = set_color (p_left h uncle) CL_MAP_BLACK h;
                       h = cl_map_rot_right m (p_up h item) h
                   in Some (item, h))"

definition cl_map_del_bal :: "cl_qmap \<Rightarrow> addr \<Rightarrow> cl_heap \<Rightarrow> cl_heap option" where
  "cl_map_del_bal m item h = map_option (\<lambda>(item, h). set_color item CL_MAP_BLACK h) (cl_map_del_bal_loop m item h)"

definition cl_qmap_remove_item :: "cl_qmap \<Rightarrow> addr \<Rightarrow> cl_heap \<Rightarrow> (cl_qmap \<times> cl_heap) option" where
  "cl_qmap_remove_item m item h =
     (if item = cl_qmap_end m then Some (m, h)
      else let del_item = (if p_right h item = nil m \<or> p_left h item = nil m then item else cl_qmap_next h item);
               h = cl_primitive_remove item h;
               m = m\<lparr>count := count m - 1\<rparr>;
               child = (if p_left h del_item \<noteq> nil m then p_left h del_item else p_right h del_item);
               h = set_up child (p_up h del_item) h;
               h = store (cl_map_get_parent_ptr_to_item h del_item) child h
           in case (if color h del_item \<noteq> CL_MAP_RED then cl_map_del_bal m child h else Some h) of
                None \<Rightarrow> None
              | Some h \<Rightarrow>
                  if del_item = item then Some (m, h)
                  else let h = set_up del_item (p_up h item) h;
                           h = set_left del_item (p_left h item) h;
                           h = set_right del_item (p_right h item) h;
                           h = store (cl_map_get_parent_ptr_to_item h item) del_item h;
                           h = set_up (p_right h item) del_item h;
                           h = set_up (p_left h item) del_item h
                       in Some (m, set_color del_item (color h item) h))"

definition cl_qmap_remove :: "cl_qmap \<Rightarrow> u64 \<Rightarrow> cl_heap \<Rightarrow> (addr \<times> cl_qmap \<times> cl_heap) option" where
  "cl_qmap_remove m k h =
     (case cl_qmap_get m k h of
        None \<Rightarrow> None
      | Some item \<Rightarrow> map_option (\<lambda>(m, h). (item, m, h)) (cl_qmap_remove_item m item h))"

text \<open>The traversal calls a function of the caller's on every item; it may change its own context but not the map.\<close>

partial_function (option) cl_qmap_apply_loop :: "cl_qmap \<Rightarrow> (addr \<Rightarrow> 'c \<Rightarrow> 'c) \<Rightarrow> cl_heap \<Rightarrow> addr \<Rightarrow> 'c \<Rightarrow> 'c option" where
  "cl_qmap_apply_loop m pfn_func h item context =
     (if item = cl_qmap_end m then Some context
      else cl_qmap_apply_loop m pfn_func h (cl_qmap_next h item) (pfn_func item context))"

definition cl_qmap_apply_func :: "cl_qmap \<Rightarrow> (addr \<Rightarrow> 'c \<Rightarrow> 'c) \<Rightarrow> 'c \<Rightarrow> cl_heap \<Rightarrow> 'c option" where
  "cl_qmap_apply_func m pfn_func context h = cl_qmap_apply_loop m pfn_func h (cl_qmap_head m h) context"

partial_function (option) cl_qmap_merge_loop :: "cl_qmap \<Rightarrow> cl_qmap \<Rightarrow> addr \<Rightarrow> cl_heap \<Rightarrow> (cl_qmap \<times> cl_qmap \<times> cl_heap) option" where
  "cl_qmap_merge_loop dest src item h =
     (if item = cl_qmap_end src then Some (dest, src, h)
      else let next = cl_qmap_next h item
           in case cl_qmap_remove_item src item h of
                None \<Rightarrow> None
              | Some (src, h) \<Rightarrow>
                  (case cl_qmap_insert dest (key h item) item h of
                     None \<Rightarrow> None
                   | Some (item2, dest, h) \<Rightarrow>
                       if item2 \<noteq> item
                       then (case cl_qmap_insert src (key h item) item h of
                               None \<Rightarrow> None
                             | Some (_, src, h) \<Rightarrow> cl_qmap_merge_loop dest src next h)
                       else cl_qmap_merge_loop dest src next h))"

definition cl_qmap_merge :: "cl_qmap \<Rightarrow> cl_qmap \<Rightarrow> cl_heap \<Rightarrow> (cl_qmap \<times> cl_qmap \<times> cl_heap) option" where
  "cl_qmap_merge dest src h = cl_qmap_merge_loop dest src (cl_qmap_head src h) h"

definition cl_qmap_delta_move :: "cl_qmap \<Rightarrow> cl_qmap \<Rightarrow> addr \<Rightarrow> cl_heap \<Rightarrow> (cl_qmap \<times> cl_qmap \<times> addr \<times> cl_heap) option" where
  "cl_qmap_delta_move dest src item h =
     (let next = cl_qmap_next h item
      in case cl_qmap_remove_item src item h of
           None \<Rightarrow> None
         | Some (src, h) \<Rightarrow>
             (case cl_qmap_insert dest (key h item) item h of
                None \<Rightarrow> None
              | Some (_, dest, h) \<Rightarrow> Some (dest, src, next, h)))"

partial_function (option) cl_qmap_delta_rest :: "cl_qmap \<Rightarrow> cl_qmap \<Rightarrow> addr \<Rightarrow> cl_heap \<Rightarrow> (cl_qmap \<times> cl_qmap \<times> cl_heap) option" where
  "cl_qmap_delta_rest dest src item h =
     (if item = cl_qmap_end src then Some (dest, src, h)
      else case cl_qmap_delta_move dest src item h of
             None \<Rightarrow> None
           | Some (dest, src, item, h) \<Rightarrow> cl_qmap_delta_rest dest src item h)"

text \<open>The common loop of the comparison; it returns the maps in the order first, second, new, old and the two items reached.\<close>

partial_function (option) cl_qmap_delta_loop ::
    "cl_qmap \<Rightarrow> cl_qmap \<Rightarrow> cl_qmap \<Rightarrow> cl_qmap \<Rightarrow> addr \<Rightarrow> addr \<Rightarrow> cl_heap \<Rightarrow>
     (cl_qmap \<times> cl_qmap \<times> cl_qmap \<times> cl_qmap \<times> addr \<times> addr \<times> cl_heap) option" where
  "cl_qmap_delta_loop p_map1 p_map2 new old item1 item2 h =
     (if item1 = cl_qmap_end p_map1 \<or> item2 = cl_qmap_end p_map2 then Some (p_map1, p_map2, new, old, item1, item2, h)
      else if key h item1 < key h item2
      then (case cl_qmap_delta_move old p_map1 item1 h of
              None \<Rightarrow> None
            | Some (old, p_map1, item1, h) \<Rightarrow> cl_qmap_delta_loop p_map1 p_map2 new old item1 item2 h)
      else if key h item2 < key h item1
      then (case cl_qmap_delta_move new p_map2 item2 h of
              None \<Rightarrow> None
            | Some (new, p_map2, item2, h) \<Rightarrow> cl_qmap_delta_loop p_map1 p_map2 new old item1 item2 h)
      else cl_qmap_delta_loop p_map1 p_map2 new old (cl_qmap_next h item1) (cl_qmap_next h item2) h)"

definition cl_qmap_delta ::
    "cl_qmap \<Rightarrow> cl_qmap \<Rightarrow> cl_qmap \<Rightarrow> cl_qmap \<Rightarrow> cl_heap \<Rightarrow> (cl_qmap \<times> cl_qmap \<times> cl_qmap \<times> cl_qmap \<times> cl_heap) option" where
  "cl_qmap_delta p_map1 p_map2 new old h =
     (case cl_qmap_delta_loop p_map1 p_map2 new old (cl_qmap_head p_map1 h) (cl_qmap_head p_map2 h) h of
        None \<Rightarrow> None
      | Some (p_map1, p_map2, new, old, item1, item2, h) \<Rightarrow>
          (case cl_qmap_delta_rest new p_map2 item2 h of
             None \<Rightarrow> None
           | Some (new, p_map2, h) \<Rightarrow>
               (case cl_qmap_delta_rest old p_map1 item1 h of
                  None \<Rightarrow> None
                | Some (old, p_map1, h) \<Rightarrow> Some (p_map1, p_map2, new, old, h))))"

end
