(* ===== verification/Cl_Map_Tree.thy ===== *)
theory Cl_Map_Tree
  imports Cl_Map
begin

text \<open>
  The red-black tree of the quick map: the tree a heap holds, seen from any of its nodes; what the rotations do to it; and the
  repair of its colours after an insertion.
\<close>

section \<open>Shape\<close>

lemma heap_sel [simp]:
  "p_next (set_next a v h) = (p_next h)(a := v)" "p_next (set_prev a v h) = p_next h" "p_next (set_left a v h) = p_next h"
  "p_next (set_right a v h) = p_next h" "p_next (set_up a v h) = p_next h" "p_next (set_color a c h) = p_next h" "p_next (set_key a k h) = p_next h"
  "p_prev (set_prev a v h) = (p_prev h)(a := v)" "p_prev (set_next a v h) = p_prev h" "p_prev (set_left a v h) = p_prev h"
  "p_prev (set_right a v h) = p_prev h" "p_prev (set_up a v h) = p_prev h" "p_prev (set_color a c h) = p_prev h" "p_prev (set_key a k h) = p_prev h"
  "p_left (set_left a v h) = (p_left h)(a := v)" "p_left (set_next a v h) = p_left h" "p_left (set_prev a v h) = p_left h"
  "p_left (set_right a v h) = p_left h" "p_left (set_up a v h) = p_left h" "p_left (set_color a c h) = p_left h" "p_left (set_key a k h) = p_left h"
  "p_right (set_right a v h) = (p_right h)(a := v)" "p_right (set_next a v h) = p_right h" "p_right (set_prev a v h) = p_right h"
  "p_right (set_left a v h) = p_right h" "p_right (set_up a v h) = p_right h" "p_right (set_color a c h) = p_right h" "p_right (set_key a k h) = p_right h"
  "p_up (set_up a v h) = (p_up h)(a := v)" "p_up (set_next a v h) = p_up h" "p_up (set_prev a v h) = p_up h"
  "p_up (set_left a v h) = p_up h" "p_up (set_right a v h) = p_up h" "p_up (set_color a c h) = p_up h" "p_up (set_key a k h) = p_up h"
  "color (set_color a c h) = (color h)(a := c)" "color (set_next a v h) = color h" "color (set_prev a v h) = color h"
  "color (set_left a v h) = color h" "color (set_right a v h) = color h" "color (set_up a v h) = color h" "color (set_key a k h) = color h"
  "key (set_key a k h) = (key h)(a := k)" "key (set_next a v h) = key h" "key (set_prev a v h) = key h"
  "key (set_left a v h) = key h" "key (set_right a v h) = key h" "key (set_up a v h) = key h" "key (set_color a c h) = key h"
  by (simp_all add: set_next_def set_prev_def set_left_def set_right_def set_up_def set_color_def set_key_def)

lemma store_sel [simp]:
  "p_next (store pp v h) = p_next h" "p_prev (store pp v h) = p_prev h" "p_up (store pp v h) = p_up h" "color (store pp v h) = color h"
  "key (store pp v h) = key h"
  by (cases pp; simp)+

text \<open>The tree a heap holds, and a tree with a hole as the list of the nodes above the hole, the nearest first.\<close>

datatype ptree = Leaf | Node cl_map_color ptree addr ptree

datatype frame = FL cl_map_color addr ptree | FR cl_map_color ptree addr

fun inorder :: "ptree \<Rightarrow> addr list" where
  "inorder Leaf = []"
| "inorder (Node c l a r) = inorder l @ a # inorder r"

fun plug :: "frame list \<Rightarrow> ptree \<Rightarrow> ptree" where
  "plug [] t = t"
| "plug (FL c a r # fs) t = plug fs (Node c t a r)"
| "plug (FR c l a # fs) t = plug fs (Node c l a t)"

fun lctx :: "frame list \<Rightarrow> addr list" where
  "lctx [] = []"
| "lctx (FL c a r # fs) = lctx fs"
| "lctx (FR c l a # fs) = lctx fs @ inorder l @ [a]"

fun rctx :: "frame list \<Rightarrow> addr list" where
  "rctx [] = []"
| "rctx (FL c a r # fs) = a # inorder r @ rctx fs"
| "rctx (FR c l a # fs) = rctx fs"

lemma inorder_plug [simp]: "inorder (plug fs t) = lctx fs @ inorder t @ rctx fs"
  by (induction fs t rule: plug.induct) simp_all

fun ptr :: "cl_qmap \<Rightarrow> ptree \<Rightarrow> addr" where
  "ptr m Leaf = nil m"
| "ptr m (Node c l a r) = a"

fun tree_at :: "cl_qmap \<Rightarrow> cl_heap \<Rightarrow> ptree \<Rightarrow> addr \<Rightarrow> bool" where
  "tree_at m h Leaf u \<longleftrightarrow> True"
| "tree_at m h (Node c l a r) u \<longleftrightarrow> p_left h a = ptr m l \<and> p_right h a = ptr m r \<and> p_up h a = u \<and> color h a = c \<and>
     tree_at m h l a \<and> tree_at m h r a"

fun hp :: "cl_qmap \<Rightarrow> frame list \<Rightarrow> addr" where
  "hp m [] = root m"
| "hp m (FL c a r # fs) = a"
| "hp m (FR c l a # fs) = a"

fun ctx_at :: "cl_qmap \<Rightarrow> cl_heap \<Rightarrow> frame list \<Rightarrow> addr \<Rightarrow> bool" where
  "ctx_at m h [] q \<longleftrightarrow> p_left h (root m) = q"
| "ctx_at m h (FL c a r # fs) q \<longleftrightarrow> p_left h a = q \<and> p_right h a = ptr m r \<and> p_up h a = hp m fs \<and> color h a = c \<and>
     tree_at m h r a \<and> ctx_at m h fs a"
| "ctx_at m h (FR c l a # fs) q \<longleftrightarrow> p_right h a = q \<and> p_left h a = ptr m l \<and> p_up h a = hp m fs \<and> color h a = c \<and>
     tree_at m h l a \<and> ctx_at m h fs a"

definition dist :: "cl_qmap \<Rightarrow> addr list \<Rightarrow> bool" where
  "dist m xs \<longleftrightarrow> distinct (root m # nil m # xs)"

definition zip_at :: "cl_qmap \<Rightarrow> cl_heap \<Rightarrow> frame list \<Rightarrow> ptree \<Rightarrow> bool" where
  "zip_at m h fs t \<longleftrightarrow> ctx_at m h fs (ptr m t) \<and> tree_at m h t (hp m fs) \<and> dist m (lctx fs @ inorder t @ rctx fs)"

lemma zip_FL: "zip_at m h (FL c a r # fs) t \<longleftrightarrow> zip_at m h fs (Node c t a r)"
  by (auto simp: zip_at_def)

lemma zip_FR: "zip_at m h (FR c l a # fs) t \<longleftrightarrow> zip_at m h fs (Node c l a t)"
  by (auto simp: zip_at_def)

lemma zip_plug: "zip_at m h fs t \<longleftrightarrow> zip_at m h [] (plug fs t)"
  by (induction fs t rule: plug.induct) (simp_all add: zip_FL zip_FR)

lemma tree_cong:
  assumes "\<And>x. x \<in> set (inorder t) \<Longrightarrow> p_left h' x = p_left h x \<and> p_right h' x = p_right h x \<and> p_up h' x = p_up h x \<and> color h' x = color h x"
  shows "tree_at m h' t u = tree_at m h t u"
  using assms by (induction t arbitrary: u) auto

lemma ctx_cong:
  assumes "\<And>x. x \<in> set (lctx fs) \<union> set (rctx fs) \<Longrightarrow>
      p_left h' x = p_left h x \<and> p_right h' x = p_right h x \<and> p_up h' x = p_up h x \<and> color h' x = color h x"
    and "p_left h' (root m) = p_left h (root m)"
  shows "ctx_at m h' fs q = ctx_at m h fs q"
  using assms
proof (induction m h' fs q rule: ctx_at.induct)
  case (2 m h' c a r fs q)
  have "tree_at m h' r a = tree_at m h r a" by (rule tree_cong) (use 2 in auto)
  then show ?case using 2 by auto
next
  case (3 m h' c l a fs q)
  have "tree_at m h' l a = tree_at m h l a" by (rule tree_cong) (use 3 in auto)
  then show ?case using 3 by auto
qed simp

lemma tree_frame [simp]:
  "tree_at m (set_next a v h) t u = tree_at m h t u" "tree_at m (set_prev a v h) t u = tree_at m h t u" "tree_at m (set_key a k h) t u = tree_at m h t u"
  "a \<notin> set (inorder t) \<Longrightarrow> tree_at m (set_left a v h) t u = tree_at m h t u"
  "a \<notin> set (inorder t) \<Longrightarrow> tree_at m (set_right a v h) t u = tree_at m h t u"
  "a \<notin> set (inorder t) \<Longrightarrow> tree_at m (set_up a v h) t u = tree_at m h t u"
  "a \<notin> set (inorder t) \<Longrightarrow> tree_at m (set_color a c h) t u = tree_at m h t u"
  by (rule tree_cong; auto)+

lemma ctx_frame [simp]:
  "ctx_at m (set_next a v h) fs q = ctx_at m h fs q" "ctx_at m (set_prev a v h) fs q = ctx_at m h fs q" "ctx_at m (set_key a k h) fs q = ctx_at m h fs q"
  "a \<notin> set (lctx fs) \<Longrightarrow> a \<notin> set (rctx fs) \<Longrightarrow> a \<noteq> root m \<Longrightarrow> ctx_at m (set_left a v h) fs q = ctx_at m h fs q"
  "a \<notin> set (lctx fs) \<Longrightarrow> a \<notin> set (rctx fs) \<Longrightarrow> ctx_at m (set_right a v h) fs q = ctx_at m h fs q"
  "a \<notin> set (lctx fs) \<Longrightarrow> a \<notin> set (rctx fs) \<Longrightarrow> ctx_at m (set_up a v h) fs q = ctx_at m h fs q"
  "a \<notin> set (lctx fs) \<Longrightarrow> a \<notin> set (rctx fs) \<Longrightarrow> ctx_at m (set_color a c h) fs q = ctx_at m h fs q"
  by (rule ctx_cong; auto)+

text \<open>The parent's pointer to the hole.\<close>

fun pp_of :: "cl_qmap \<Rightarrow> frame list \<Rightarrow> child_ptr" where
  "pp_of m [] = At_left (root m)"
| "pp_of m (FL c a r # fs) = At_left a"
| "pp_of m (FR c l a # fs) = At_right a"

lemma hp_in: "hp m fs \<in> insert (root m) (set (lctx fs) \<union> set (rctx fs))"
  by (cases "(m, fs)" rule: hp.cases) auto

lemma hp_notin: "distinct (root m # nil m # lctx fs @ ys @ rctx fs) \<Longrightarrow> hp m fs \<noteq> nil m \<and> hp m fs \<notin> set ys"
  by (cases "(m, fs)" rule: hp.cases) auto

lemma left_child_iff:
  assumes z: "zip_at m h fs t" and u: "p_up h (ptr m t) = hp m fs" and n: "t = Leaf \<Longrightarrow> \<forall>c a fs'. fs \<noteq> FR c Leaf a # fs'"
  shows "cl_map_is_left_child h (ptr m t) \<longleftrightarrow> (\<forall>c l a fs'. fs \<noteq> FR c l a # fs')"
proof (cases "(m, fs)" rule: hp.cases)
  case (3 m' c l a fs')
  have "ptr m l \<noteq> ptr m t"
  proof
    assume "ptr m l = ptr m t"
    then show False using z n 3 by (cases l; cases t) (auto simp: zip_at_def dist_def)
  qed
  then show ?thesis using z u 3 by (auto simp: cl_map_is_left_child_def zip_at_def)
qed (use z u in \<open>auto simp: cl_map_is_left_child_def zip_at_def\<close>)

lemma parent_ptr:
  assumes z: "zip_at m h fs t" and u: "p_up h (ptr m t) = hp m fs" and n: "t = Leaf \<Longrightarrow> \<forall>c a fs'. fs \<noteq> FR c Leaf a # fs'"
  shows "cl_map_get_parent_ptr_to_item h (ptr m t) = pp_of m fs"
  using left_child_iff[OF assms] u by (cases "(m, fs)" rule: hp.cases) (auto simp: cl_map_get_parent_ptr_to_item_def)

lemma store_pp:
  assumes "ctx_at m h fs q" "dist m (lctx fs @ xs @ rctx fs)"
  shows "ctx_at m (store (pp_of m fs) q' h) fs q'"
proof (cases "(m, fs)" rule: hp.cases)
  case (2 m' c a r fs')
  then show ?thesis using assms by (auto simp: dist_def)
next
  case (3 m' c l a fs')
  then show ?thesis using assms by (auto simp: dist_def)
qed simp

lemma load_store [simp]: "load (store pp v h) pp = v"
  by (cases pp) simp_all

lemma load_frame [simp]:
  "load (set_up a v h) pp = load h pp" "load (set_color a c h) pp = load h pp"
  "load (set_next a v h) pp = load h pp" "load (set_prev a v h) pp = load h pp" "load (set_key a k h) pp = load h pp"
  by (cases pp; simp)+

lemma load_frame_child:
  "hp m fs \<noteq> a \<Longrightarrow> load (set_left a v h) (pp_of m fs) = load h (pp_of m fs)"
  "hp m fs \<noteq> a \<Longrightarrow> load (set_right a v h) (pp_of m fs) = load h (pp_of m fs)"
  by (cases "(m, fs)" rule: hp.cases; auto)+

lemma store_child:
  "hp m fs \<noteq> a \<Longrightarrow> p_left (store (pp_of m fs) v h) a = p_left h a" "hp m fs \<noteq> a \<Longrightarrow> p_right (store (pp_of m fs) v h) a = p_right h a"
  by (cases "(m, fs)" rule: hp.cases; auto)+

lemma tree_store: "hp m fs \<notin> set (inorder t) \<Longrightarrow> tree_at m (store (pp_of m fs) v h) t u = tree_at m h t u"
  by (cases "(m, fs)" rule: hp.cases) auto

text \<open>What a step on the tree leaves alone: the list, the keys, and everything outside the map.\<close>

definition only_tree :: "cl_qmap \<Rightarrow> addr set \<Rightarrow> cl_heap \<Rightarrow> cl_heap \<Rightarrow> bool" where
  "only_tree m X h h' \<longleftrightarrow> p_next h' = p_next h \<and> p_prev h' = p_prev h \<and> key h' = key h \<and> color h' (root m) = color h (root m) \<and>
     p_up h' (root m) = p_up h (root m) \<and>
     (\<forall>x. x \<notin> X \<and> x \<noteq> root m \<and> x \<noteq> nil m \<longrightarrow>
        p_left h' x = p_left h x \<and> p_right h' x = p_right h x \<and> p_up h' x = p_up h x \<and> color h' x = color h x)"

lemma only_tree_refl [simp]: "only_tree m X h h"
  by (simp add: only_tree_def)

lemma only_tree_trans: "only_tree m X h h' \<Longrightarrow> only_tree m X h' h'' \<Longrightarrow> only_tree m X h h''"
  by (simp add: only_tree_def)

definition zset :: "frame list \<Rightarrow> ptree \<Rightarrow> addr set" where
  "zset fs t = set (inorder (plug fs t))"

lemma zip_color:
  assumes "zip_at m h fs (Node c l a r)"
  shows "zip_at m (set_color a c' h) fs (Node c' l a r)" and "only_tree m (zset fs (Node c l a r)) h (set_color a c' h)"
  using assms by (auto simp: zip_at_def dist_def only_tree_def zset_def)

lemma rot_left_zip:
  assumes z: "zip_at m h fs (Node c l a (Node d k b r))"
  shows "zip_at m (cl_map_rot_left m a h) fs (Node d (Node c l a k) b r)"
    and "only_tree m (zset fs (Node c l a (Node d k b r))) h (cl_map_rot_left m a h)"
    and "color (cl_map_rot_left m a h) = color h" and "p_up (cl_map_rot_left m a h) (nil m) = p_up h (nil m)"
proof -
  have pp: "cl_map_get_parent_ptr_to_item h a = pp_of m fs" using parent_ptr[OF z] z by (simp add: zip_at_def)
  have d: "distinct (root m # nil m # lctx fs @ inorder l @ a # inorder k @ b # inorder r @ rctx fs)" using z by (simp add: zip_at_def dist_def)
  have hpi: "hp m fs \<in> insert (root m) (set (lctx fs) \<union> set (rctx fs))" by (rule hp_in)
  have hpn: "hp m fs \<noteq> a" "hp m fs \<noteq> b" "hp m fs \<noteq> nil m" "hp m fs \<notin> set (inorder l)" "hp m fs \<notin> set (inorder k)" "hp m fs \<notin> set (inorder r)"
    using hp_notin[of m fs "inorder l @ a # inorder k @ b # inorder r"] d by simp_all
  have ab: "a \<noteq> b" "a \<noteq> nil m" "b \<noteq> nil m" "a \<noteq> root m" "b \<noteq> root m" "root m \<noteq> nil m" using d by auto
  have kn: "ptr m k = nil m \<longleftrightarrow> k = Leaf" using d by (cases k) auto
  have kin: "k \<noteq> Leaf \<Longrightarrow> ptr m k \<in> set (inorder k)" by (cases k) auto
  have kab: "k \<noteq> Leaf \<Longrightarrow> ptr m k \<noteq> a \<and> ptr m k \<noteq> b \<and> ptr m k \<noteq> root m \<and> ptr m k \<notin> set (inorder l) \<and> ptr m k \<notin> set (inorder r) \<and>
      ptr m k \<notin> set (lctx fs) \<and> ptr m k \<notin> set (rctx fs)" using kin d by auto
  have out: "a \<notin> set (inorder l)" "a \<notin> set (inorder k)" "a \<notin> set (inorder r)" "b \<notin> set (inorder l)" "b \<notin> set (inorder k)" "b \<notin> set (inorder r)"
    "a \<notin> set (lctx fs)" "a \<notin> set (rctx fs)" "b \<notin> set (lctx fs)" "b \<notin> set (rctx fs)" using d by auto
  have f: "p_left h a = ptr m l" "p_right h a = b" "p_up h a = hp m fs" "color h a = c"
    "p_left h b = ptr m k" "p_right h b = ptr m r" "color h b = d" "tree_at m h l a" "tree_at m h k b" "tree_at m h r b" "ctx_at m h fs a"
    using z by (simp_all add: zip_at_def)
  define h1 where "h1 = set_right a (ptr m k) (set_up b (hp m fs) (store (pp_of m fs) b h))"
  define h2 where "h2 = (if k \<noteq> Leaf then set_up (ptr m k) a h1 else h1)"
  have e: "cl_map_rot_left m a h = set_up a b (set_left b a h2)"
    using hpn kn ab unfolding cl_map_rot_left_def pp h2_def h1_def
    by (simp add: Let_def f load_frame_child store_child)
  have "dist m (lctx fs @ (inorder l @ a # inorder k @ b # inorder r) @ rctx fs)" using d by (simp add: dist_def)
  from store_pp[OF f(11) this] have c1: "ctx_at m (store (pp_of m fs) b h) fs b" .
  have t1: "tree_at m h1 l a" "tree_at m h1 r b" "tree_at m h1 k b" "ctx_at m h1 fs b"
    using c1 hpn out ab f by (simp_all add: h1_def tree_store)
  have tk: "tree_at m (set_up (ptr m k) a h1) k a" if "k \<noteq> Leaf" using that t1(3) d by (cases k) auto
  have t2: "tree_at m h2 l a" "tree_at m h2 r b" "tree_at m h2 k a" "ctx_at m h2 fs b"
    using t1 kab tk by (simp_all add: h2_def)
  have g: "p_left h2 a = ptr m l" "p_right h2 a = ptr m k" "p_right h2 b = ptr m r" "p_up h2 b = hp m fs" "color h2 = color h"
    "p_up h2 (nil m) = p_up h (nil m)" "p_next h2 = p_next h" "p_prev h2 = p_prev h" "key h2 = key h"
    using ab hpn kab kn by (auto simp: h2_def h1_def store_child f)
  show "zip_at m (cl_map_rot_left m a h) fs (Node d (Node c l a k) b r)"
    unfolding e zip_at_def using t2 g out ab d f by (simp add: dist_def)
  show "color (cl_map_rot_left m a h) = color h" "p_up (cl_map_rot_left m a h) (nil m) = p_up h (nil m)"
    unfolding e using g ab by simp_all
  have st: "p_left (store (pp_of m fs) b h) x = p_left h x" "p_right (store (pp_of m fs) b h) x = p_right h x"
    if "x \<notin> set (lctx fs)" "x \<notin> set (rctx fs)" "x \<noteq> root m" for x
  proof -
    have "hp m fs \<noteq> x" using that hpi by blast
    then show "p_left (store (pp_of m fs) b h) x = p_left h x" "p_right (store (pp_of m fs) b h) x = p_right h x" by (simp_all add: store_child)
  qed
  have ru: "p_up h2 (root m) = p_up h (root m)" using kab ab by (cases "k = Leaf") (auto simp: h2_def h1_def)
  show "only_tree m (zset fs (Node c l a (Node d k b r))) h (cl_map_rot_left m a h)"
    unfolding e only_tree_def zset_def using g ab ru kin by (auto simp: h2_def h1_def st)
qed

lemma rot_right_zip:
  assumes z: "zip_at m h fs (Node c (Node d l b k) a r)"
  shows "zip_at m (cl_map_rot_right m a h) fs (Node d l b (Node c k a r))"
    and "only_tree m (zset fs (Node c (Node d l b k) a r)) h (cl_map_rot_right m a h)"
    and "color (cl_map_rot_right m a h) = color h" and "p_up (cl_map_rot_right m a h) (nil m) = p_up h (nil m)"
proof -
  have pp: "cl_map_get_parent_ptr_to_item h a = pp_of m fs" using parent_ptr[OF z] z by (simp add: zip_at_def)
  have d: "distinct (root m # nil m # lctx fs @ inorder l @ b # inorder k @ a # inorder r @ rctx fs)" using z by (simp add: zip_at_def dist_def)
  have hpi: "hp m fs \<in> insert (root m) (set (lctx fs) \<union> set (rctx fs))" by (rule hp_in)
  have hpn: "hp m fs \<noteq> a" "hp m fs \<noteq> b" "hp m fs \<noteq> nil m" "hp m fs \<notin> set (inorder l)" "hp m fs \<notin> set (inorder k)" "hp m fs \<notin> set (inorder r)"
    using hp_notin[of m fs "inorder l @ b # inorder k @ a # inorder r"] d by simp_all
  have ab: "a \<noteq> b" "a \<noteq> nil m" "b \<noteq> nil m" "a \<noteq> root m" "b \<noteq> root m" "root m \<noteq> nil m" using d by auto
  have kn: "ptr m k = nil m \<longleftrightarrow> k = Leaf" using d by (cases k) auto
  have kin: "k \<noteq> Leaf \<Longrightarrow> ptr m k \<in> set (inorder k)" by (cases k) auto
  have kab: "k \<noteq> Leaf \<Longrightarrow> ptr m k \<noteq> a \<and> ptr m k \<noteq> b \<and> ptr m k \<noteq> root m \<and> ptr m k \<notin> set (inorder l) \<and> ptr m k \<notin> set (inorder r) \<and>
      ptr m k \<notin> set (lctx fs) \<and> ptr m k \<notin> set (rctx fs)" using kin d by auto
  have out: "a \<notin> set (inorder l)" "a \<notin> set (inorder k)" "a \<notin> set (inorder r)" "b \<notin> set (inorder l)" "b \<notin> set (inorder k)" "b \<notin> set (inorder r)"
    "a \<notin> set (lctx fs)" "a \<notin> set (rctx fs)" "b \<notin> set (lctx fs)" "b \<notin> set (rctx fs)" using d by auto
  have f: "p_right h a = ptr m r" "p_left h a = b" "p_up h a = hp m fs" "color h a = c"
    "p_right h b = ptr m k" "p_left h b = ptr m l" "color h b = d" "tree_at m h r a" "tree_at m h k b" "tree_at m h l b" "ctx_at m h fs a"
    using z by (simp_all add: zip_at_def)
  define h1 where "h1 = set_left a (ptr m k) (set_up b (hp m fs) (store (pp_of m fs) b h))"
  define h2 where "h2 = (if k \<noteq> Leaf then set_up (ptr m k) a h1 else h1)"
  have e: "cl_map_rot_right m a h = set_up a b (set_right b a h2)"
    using hpn kn ab unfolding cl_map_rot_right_def pp h2_def h1_def
    by (simp add: Let_def f load_frame_child store_child)
  have "dist m (lctx fs @ (inorder l @ b # inorder k @ a # inorder r) @ rctx fs)" using d by (simp add: dist_def)
  from store_pp[OF f(11) this] have c1: "ctx_at m (store (pp_of m fs) b h) fs b" .
  have t1: "tree_at m h1 r a" "tree_at m h1 l b" "tree_at m h1 k b" "ctx_at m h1 fs b"
    using c1 hpn out ab f by (simp_all add: h1_def tree_store)
  have tk: "tree_at m (set_up (ptr m k) a h1) k a" if "k \<noteq> Leaf" using that t1(3) d by (cases k) auto
  have t2: "tree_at m h2 r a" "tree_at m h2 l b" "tree_at m h2 k a" "ctx_at m h2 fs b"
    using t1 kab tk by (simp_all add: h2_def)
  have g: "p_right h2 a = ptr m r" "p_left h2 a = ptr m k" "p_left h2 b = ptr m l" "p_up h2 b = hp m fs" "color h2 = color h"
    "p_up h2 (nil m) = p_up h (nil m)" "p_next h2 = p_next h" "p_prev h2 = p_prev h" "key h2 = key h"
    using ab hpn kab kn by (auto simp: h2_def h1_def store_child f)
  show "zip_at m (cl_map_rot_right m a h) fs (Node d l b (Node c k a r))"
    unfolding e zip_at_def using t2 g out ab d f by (simp add: dist_def)
  show "color (cl_map_rot_right m a h) = color h" "p_up (cl_map_rot_right m a h) (nil m) = p_up h (nil m)"
    unfolding e using g ab by simp_all
  have st: "p_left (store (pp_of m fs) b h) x = p_left h x" "p_right (store (pp_of m fs) b h) x = p_right h x"
    if "x \<notin> set (lctx fs)" "x \<notin> set (rctx fs)" "x \<noteq> root m" for x
  proof -
    have "hp m fs \<noteq> x" using that hpi by blast
    then show "p_left (store (pp_of m fs) b h) x = p_left h x" "p_right (store (pp_of m fs) b h) x = p_right h x" by (simp_all add: store_child)
  qed
  have ru: "p_up h2 (root m) = p_up h (root m)" using kab ab by (cases "k = Leaf") (auto simp: h2_def h1_def)
  show "only_tree m (zset fs (Node c (Node d l b k) a r)) h (cl_map_rot_right m a h)"
    unfolding e only_tree_def zset_def using g ab ru kin by (auto simp: h2_def h1_def st)
qed


section \<open>Balance\<close>

lemma zipD:
  assumes "zip_at m h fs (Node c l a r)"
  shows "p_up h a = hp m fs" "color h a = c" "p_left h a = ptr m l" "p_right h a = ptr m r" "a \<noteq> nil m" "a \<noteq> root m"
  using assms by (simp_all add: zip_at_def dist_def)

lemma zip_left: "zip_at m h fs (Node c l a r) \<Longrightarrow> zip_at m h (FL c a r # fs) l"
  by (simp add: zip_FL)

lemma zip_right: "zip_at m h fs (Node c l a r) \<Longrightarrow> zip_at m h (FR c l a # fs) r"
  by (simp add: zip_FR)

lemma is_left_iff:
  assumes "zip_at m h fs (Node c l a r)"
  shows "cl_map_is_left_child h a \<longleftrightarrow> (\<forall>c l a fs'. fs \<noteq> FR c l a # fs')"
  using left_child_iff[OF assms] zipD[OF assms] by simp

fun tcol :: "ptree \<Rightarrow> cl_map_color" where
  "tcol Leaf = CL_MAP_BLACK"
| "tcol (Node c l a r) = c"

fun ctxc :: "frame list \<Rightarrow> cl_map_color" where
  "ctxc [] = CL_MAP_BLACK"
| "ctxc (FL c a r # fs) = c"
| "ctxc (FR c l a # fs) = c"

lemma color_ptr: "tree_at m h t u \<Longrightarrow> color h (nil m) = CL_MAP_BLACK \<Longrightarrow> color h (ptr m t) = tcol t"
  by (cases t) auto

lemma color_hp: "ctx_at m h fs q \<Longrightarrow> color h (root m) = CL_MAP_BLACK \<Longrightarrow> color h (hp m fs) = ctxc fs"
  by (cases "(m, fs)" rule: hp.cases) auto

text \<open>Red-black trees of a black height, and contexts that make one of a hole of a black height.\<close>

fun rbt :: "nat \<Rightarrow> ptree \<Rightarrow> bool" where
  "rbt n Leaf \<longleftrightarrow> n = 0"
| "rbt n (Node CL_MAP_RED l a r) \<longleftrightarrow> tcol l = CL_MAP_BLACK \<and> tcol r = CL_MAP_BLACK \<and> rbt n l \<and> rbt n r"
| "rbt n (Node CL_MAP_BLACK l a r) \<longleftrightarrow> (case n of 0 \<Rightarrow> False | Suc k \<Rightarrow> rbt k l \<and> rbt k r)"

fun rbc :: "nat \<Rightarrow> frame list \<Rightarrow> bool" where
  "rbc n [] \<longleftrightarrow> True"
| "rbc n (FL CL_MAP_RED a r # fs) \<longleftrightarrow> fs \<noteq> [] \<and> ctxc fs = CL_MAP_BLACK \<and> tcol r = CL_MAP_BLACK \<and> rbt n r \<and> rbc n fs"
| "rbc n (FR CL_MAP_RED l a # fs) \<longleftrightarrow> fs \<noteq> [] \<and> ctxc fs = CL_MAP_BLACK \<and> tcol l = CL_MAP_BLACK \<and> rbt n l \<and> rbc n fs"
| "rbc n (FL CL_MAP_BLACK a r # fs) \<longleftrightarrow> rbt n r \<and> rbc (Suc n) fs"
| "rbc n (FR CL_MAP_BLACK l a # fs) \<longleftrightarrow> rbt n l \<and> rbc (Suc n) fs"

lemma rbt_plug:
  assumes "rbc n fs" "rbt n t" "ctxc fs = CL_MAP_RED \<Longrightarrow> tcol t = CL_MAP_BLACK"
  shows "\<exists>k. rbt k (plug fs t)"
  using assms by (induction n fs arbitrary: t rule: rbc.induct) (auto split: nat.splits)

text \<open>The colour of a node of the tree, repainted.\<close>

lemma only_tree_color: "x \<in> X \<Longrightarrow> x \<noteq> root m \<Longrightarrow> only_tree m X h (set_color x c h)"
  by (auto simp: only_tree_def)

lemma zset_eq: "inorder (plug fs t) = inorder (plug fs' t') \<Longrightarrow> zset fs t = zset fs' t'"
  by (simp add: zset_def)

lemma ins_stop:
  assumes "zip_at m h fs (Node c l a r)" "ctxc fs = CL_MAP_BLACK" "color h (root m) = CL_MAP_BLACK"
  shows "cl_map_ins_bal m a h = Some h"
proof -
  have "color h (p_up h a) = CL_MAP_BLACK" using color_hp[of m h fs a] assms zipD(1)[OF assms(1)] by (simp add: zip_at_def)
  then show ?thesis by (subst cl_map_ins_bal.simps) simp
qed

lemmas cl_map_ins_bal_unfold = cl_map_ins_bal.simps

lemma ins_L_recolor:
  assumes z: "zip_at m h (FL CL_MAP_BLACK g (Node CL_MAP_RED ul ua ur) # fs) (Node CL_MAP_RED x p y)" and a: "p_up h a = p"
  shows "\<exists>h'. cl_map_ins_bal m a h = cl_map_ins_bal m g h' \<and>
    zip_at m h' fs (Node CL_MAP_RED (Node CL_MAP_BLACK x p y) g (Node CL_MAP_BLACK ul ua ur)) \<and> only_tree m (zset (FL CL_MAP_BLACK g (Node CL_MAP_RED ul ua ur) # fs) (Node CL_MAP_RED x p y)) h h' \<and>
    (color h' (nil m) = color h (nil m))"
proof -
  let ?X = "zset (FL CL_MAP_BLACK g (Node CL_MAP_RED ul ua ur) # fs) (Node CL_MAP_RED x p y)"
  have zg: "zip_at m h fs (Node CL_MAP_BLACK (Node CL_MAP_RED x p y) g (Node CL_MAP_RED ul ua ur))" using z by (simp add: zip_FL)
  note zu = zip_right[OF zg]
  have pf: "p_up h p = g" "color h p = CL_MAP_RED" "p_right h g = ua" "color h ua = CL_MAP_RED"
    using zipD[OF z] zipD[OF zg] zipD[OF zu] by simp_all
  have lc: "cl_map_is_left_child h p \<longleftrightarrow> True" using is_left_iff[OF z] by simp
  define h1 where "h1 = set_color ua CL_MAP_BLACK h"
  define h2 where "h2 = set_color p CL_MAP_BLACK h1"
  define h3 where "h3 = set_color g CL_MAP_RED h2"
  have "zip_at m h1 fs (Node CL_MAP_BLACK (Node CL_MAP_RED x p y) g (Node CL_MAP_BLACK ul ua ur))"
    using zip_color(1)[OF zu, of CL_MAP_BLACK] by (simp add: h1_def zip_FR)
  from zip_color(1)[OF zip_left[OF this], of CL_MAP_BLACK] have "zip_at m h2 fs (Node CL_MAP_BLACK (Node CL_MAP_BLACK x p y) g (Node CL_MAP_BLACK ul ua ur))"
    by (simp add: h2_def zip_FL)
  from zip_color(1)[OF this, of CL_MAP_RED] have z3: "zip_at m h3 fs (Node CL_MAP_RED (Node CL_MAP_BLACK x p y) g (Node CL_MAP_BLACK ul ua ur))" by (simp add: h3_def)
  have X: "ua \<in> ?X" "p \<in> ?X" "g \<in> ?X" by (simp_all add: zset_def)
  have o: "only_tree m ?X h h3" unfolding h3_def h2_def h1_def
    by (rule only_tree_trans[OF only_tree_trans[OF only_tree_color only_tree_color] only_tree_color])
      (use X zipD(6)[OF z] zipD(6)[OF zg] zipD(6)[OF zu] in simp_all)
  have "cl_map_ins_bal m a h = cl_map_ins_bal m g h3"
    unfolding h3_def h2_def h1_def using pf lc a by (subst cl_map_ins_bal_unfold) (simp add: Let_def)
  moreover have "color h3 (nil m) = color h (nil m)" using zipD(5)[OF z] zipD(5)[OF zg] zipD(5)[OF zu] by (simp add: h3_def h2_def h1_def)
  ultimately show ?thesis using z3 o by blast
qed

lemma ins_L_outer:
  assumes z: "zip_at m h (FL CL_MAP_BLACK g u # fs) (Node CL_MAP_RED (Node CL_MAP_RED l a r) p s)" and u: "tcol u = CL_MAP_BLACK"
    and n: "color h (nil m) = CL_MAP_BLACK"
  shows "\<exists>h'. cl_map_ins_bal m a h = Some h' \<and> zip_at m h' fs (Node CL_MAP_BLACK (Node CL_MAP_RED l a r) p (Node CL_MAP_RED s g u)) \<and>
    only_tree m (zset (FL CL_MAP_BLACK g u # fs) (Node CL_MAP_RED (Node CL_MAP_RED l a r) p s)) h h' \<and> (color h' (nil m) = color h (nil m))"
proof -
  let ?X = "zset (FL CL_MAP_BLACK g u # fs) (Node CL_MAP_RED (Node CL_MAP_RED l a r) p s)"
  have zg: "zip_at m h fs (Node CL_MAP_BLACK (Node CL_MAP_RED (Node CL_MAP_RED l a r) p s) g u)" using z by (simp add: zip_FL)
  note za = zip_left[OF z]
  have uc: "color h (ptr m u) = CL_MAP_BLACK" using color_ptr[of m h u g] zg n u by (simp add: zip_at_def)
  have pf: "p_up h a = p" "p_up h p = g" "color h p = CL_MAP_RED" "p_right h g = ptr m u"
    using zipD[OF z] zipD[OF zg] zipD[OF za] by simp_all
  have lc: "cl_map_is_left_child h p \<longleftrightarrow> True" "cl_map_is_left_child h a \<longleftrightarrow> True"
    using is_left_iff[OF z] is_left_iff[OF za] by simp_all
  define h1 where "h1 = set_color p CL_MAP_BLACK h"
  define h2 where "h2 = set_color g CL_MAP_RED h1"
  define h3 where "h3 = cl_map_rot_right m g h2"
  have "zip_at m h1 fs (Node CL_MAP_BLACK (Node CL_MAP_BLACK (Node CL_MAP_RED l a r) p s) g u)"
    using zip_color(1)[OF z, of CL_MAP_BLACK] by (simp add: h1_def zip_FL)
  from zip_color(1)[OF this, of CL_MAP_RED] have z2: "zip_at m h2 fs (Node CL_MAP_RED (Node CL_MAP_BLACK (Node CL_MAP_RED l a r) p s) g u)" by (simp add: h2_def)
  note rot = rot_right_zip[OF z2, folded h3_def]
  have X: "p \<in> ?X" "g \<in> ?X" "zset fs (Node CL_MAP_RED (Node CL_MAP_BLACK (Node CL_MAP_RED l a r) p s) g u) = ?X" by (simp_all add: zset_def)
  have "only_tree m ?X h h2" unfolding h2_def h1_def
    by (rule only_tree_trans[OF only_tree_color only_tree_color]) (use X zipD(6)[OF z] zipD(6)[OF zg] in simp_all)
  then have o: "only_tree m ?X h h3" using rot(2) X(3) only_tree_trans by metis
  have up3: "p_up h3 a = p" "color h3 p = CL_MAP_BLACK" using zipD[OF rot(1)] zipD[OF zip_left[OF rot(1)]] by simp_all
  have "cl_map_ins_bal m a h = cl_map_ins_bal m a h3"
    unfolding h3_def h2_def h1_def using pf lc uc by (subst cl_map_ins_bal_unfold) (simp add: Let_def)
  also have "\<dots> = Some h3" using up3 by (subst cl_map_ins_bal_unfold) simp
  finally have "cl_map_ins_bal m a h = Some h3" .
  moreover have "color h3 (nil m) = color h (nil m)" using zipD(5)[OF z] zipD(5)[OF zg] by (simp add: rot(3) h2_def h1_def)
  ultimately show ?thesis using rot(1) o by blast
qed

lemma ins_L_inner:
  assumes z: "zip_at m h (FL CL_MAP_BLACK g u # fs) (Node CL_MAP_RED s p (Node CL_MAP_RED l a r))" and u: "tcol u = CL_MAP_BLACK"
    and n: "color h (nil m) = CL_MAP_BLACK"
  shows "\<exists>h' l' r'. cl_map_ins_bal m a h = Some h' \<and> zip_at m h' fs (Node CL_MAP_BLACK (Node CL_MAP_RED l' p r') a (Node CL_MAP_RED r g u)) \<and>
    Node CL_MAP_RED l' p r' = Node CL_MAP_RED s p l \<and>
    only_tree m (zset (FL CL_MAP_BLACK g u # fs) (Node CL_MAP_RED s p (Node CL_MAP_RED l a r))) h h' \<and> (color h' (nil m) = color h (nil m))"
proof -
  let ?X = "zset (FL CL_MAP_BLACK g u # fs) (Node CL_MAP_RED s p (Node CL_MAP_RED l a r))"
  have zg: "zip_at m h fs (Node CL_MAP_BLACK (Node CL_MAP_RED s p (Node CL_MAP_RED l a r)) g u)" using z by (simp add: zip_FL)
  note za = zip_right[OF z]
  have uc: "color h (ptr m u) = CL_MAP_BLACK" using color_ptr[of m h u g] zg n u by (simp add: zip_at_def)
  have pf: "p_up h a = p" "p_up h p = g" "color h p = CL_MAP_RED" "p_right h g = ptr m u"
    using zipD[OF z] zipD[OF zg] zipD[OF za] by simp_all
  have lc: "cl_map_is_left_child h p \<longleftrightarrow> True" "cl_map_is_left_child h a \<longleftrightarrow> False"
    using is_left_iff[OF z] is_left_iff[OF za] by simp_all
  define h1 where "h1 = cl_map_rot_left m p h"
  note rot = rot_left_zip[OF z, folded h1_def]
  note z1 = rot(1)
  obtain l' r' where lr: "Node CL_MAP_RED l' p r' = Node CL_MAP_RED s p l" by simp
  have z1': "zip_at m h1 (FL CL_MAP_BLACK g u # fs) (Node CL_MAP_RED (Node CL_MAP_RED l' p r') a r)" using z1 lr by simp
  have n1: "color h1 (nil m) = CL_MAP_BLACK" using n rot(3) by simp
  from ins_L_outer[OF z1' u n1] obtain h' where h': "cl_map_ins_bal m p h1 = Some h'"
    "zip_at m h' fs (Node CL_MAP_BLACK (Node CL_MAP_RED l' p r') a (Node CL_MAP_RED r g u))"
    "only_tree m (zset (FL CL_MAP_BLACK g u # fs) (Node CL_MAP_RED (Node CL_MAP_RED l' p r') a r)) h1 h'" "color h' (nil m) = color h1 (nil m)"
    by blast
  have X: "zset (FL CL_MAP_BLACK g u # fs) (Node CL_MAP_RED (Node CL_MAP_RED l' p r') a r) = ?X" using lr by (auto simp: zset_def)
  have o: "only_tree m ?X h h'" using only_tree_trans[OF rot(2)] h'(3) X by simp
  have zg1: "zip_at m h1 fs (Node CL_MAP_BLACK (Node CL_MAP_RED (Node CL_MAP_RED l' p r') a r) g u)" using z1' by (simp add: zip_FL)
  have q: "p_up h1 p = a" "p_up h1 a = g" "color h1 a = CL_MAP_RED" "p_right h1 g = ptr m u"
    using zipD[OF z1'] zipD[OF zip_left[OF z1']] zipD[OF zg1] by simp_all
  have uc1: "color h1 (ptr m u) = CL_MAP_BLACK" using uc rot(3) by simp
  have lc1: "cl_map_is_left_child h1 p \<longleftrightarrow> True" "cl_map_is_left_child h1 a \<longleftrightarrow> True"
    using is_left_iff[OF z1'] is_left_iff[OF zip_left[OF z1']] by simp_all
  have "cl_map_ins_bal m a h = cl_map_ins_bal m p h1"
    using pf lc uc q uc1 lc1 by (subst (1 2) cl_map_ins_bal_unfold) (simp add: Let_def h1_def[symmetric])
  then show ?thesis using h' o lr rot(3) by auto
qed

lemma ins_R_recolor:
  assumes z: "zip_at m h (FR CL_MAP_BLACK (Node CL_MAP_RED ul ua ur) g # fs) (Node CL_MAP_RED x p y)" and a: "p_up h a = p"
  shows "\<exists>h'. cl_map_ins_bal m a h = cl_map_ins_bal m g h' \<and>
    zip_at m h' fs (Node CL_MAP_RED (Node CL_MAP_BLACK ul ua ur) g (Node CL_MAP_BLACK x p y)) \<and> only_tree m (zset (FR CL_MAP_BLACK (Node CL_MAP_RED ul ua ur) g # fs) (Node CL_MAP_RED x p y)) h h' \<and>
    (color h' (nil m) = color h (nil m))"
proof -
  let ?X = "zset (FR CL_MAP_BLACK (Node CL_MAP_RED ul ua ur) g # fs) (Node CL_MAP_RED x p y)"
  have zg: "zip_at m h fs (Node CL_MAP_BLACK (Node CL_MAP_RED ul ua ur) g (Node CL_MAP_RED x p y))" using z by (simp add: zip_FR)
  note zu = zip_left[OF zg]
  have pf: "p_up h p = g" "color h p = CL_MAP_RED" "p_left h g = ua" "color h ua = CL_MAP_RED"
    using zipD[OF z] zipD[OF zg] zipD[OF zu] by simp_all
  have lc: "cl_map_is_left_child h p \<longleftrightarrow> False" using is_left_iff[OF z] by simp
  define h1 where "h1 = set_color ua CL_MAP_BLACK h"
  define h2 where "h2 = set_color p CL_MAP_BLACK h1"
  define h3 where "h3 = set_color g CL_MAP_RED h2"
  have "zip_at m h1 fs (Node CL_MAP_BLACK (Node CL_MAP_BLACK ul ua ur) g (Node CL_MAP_RED x p y))"
    using zip_color(1)[OF zu, of CL_MAP_BLACK] by (simp add: h1_def zip_FL)
  from zip_color(1)[OF zip_right[OF this], of CL_MAP_BLACK] have "zip_at m h2 fs (Node CL_MAP_BLACK (Node CL_MAP_BLACK ul ua ur) g (Node CL_MAP_BLACK x p y))"
    by (simp add: h2_def zip_FR)
  from zip_color(1)[OF this, of CL_MAP_RED] have z3: "zip_at m h3 fs (Node CL_MAP_RED (Node CL_MAP_BLACK ul ua ur) g (Node CL_MAP_BLACK x p y))" by (simp add: h3_def)
  have X: "ua \<in> ?X" "p \<in> ?X" "g \<in> ?X" by (simp_all add: zset_def)
  have o: "only_tree m ?X h h3" unfolding h3_def h2_def h1_def
    by (rule only_tree_trans[OF only_tree_trans[OF only_tree_color only_tree_color] only_tree_color])
      (use X zipD(6)[OF z] zipD(6)[OF zg] zipD(6)[OF zu] in simp_all)
  have "cl_map_ins_bal m a h = cl_map_ins_bal m g h3"
    unfolding h3_def h2_def h1_def using pf lc a by (subst cl_map_ins_bal_unfold) (simp add: Let_def)
  moreover have "color h3 (nil m) = color h (nil m)" using zipD(5)[OF z] zipD(5)[OF zg] zipD(5)[OF zu] by (simp add: h3_def h2_def h1_def)
  ultimately show ?thesis using z3 o by blast
qed

lemma ins_R_outer:
  assumes z: "zip_at m h (FR CL_MAP_BLACK u g # fs) (Node CL_MAP_RED s p (Node CL_MAP_RED l a r))" and u: "tcol u = CL_MAP_BLACK"
    and n: "color h (nil m) = CL_MAP_BLACK"
  shows "\<exists>h'. cl_map_ins_bal m a h = Some h' \<and> zip_at m h' fs (Node CL_MAP_BLACK (Node CL_MAP_RED u g s) p (Node CL_MAP_RED l a r)) \<and>
    only_tree m (zset (FR CL_MAP_BLACK u g # fs) (Node CL_MAP_RED s p (Node CL_MAP_RED l a r))) h h' \<and> (color h' (nil m) = color h (nil m))"
proof -
  let ?X = "zset (FR CL_MAP_BLACK u g # fs) (Node CL_MAP_RED s p (Node CL_MAP_RED l a r))"
  have zg: "zip_at m h fs (Node CL_MAP_BLACK u g (Node CL_MAP_RED s p (Node CL_MAP_RED l a r)))" using z by (simp add: zip_FR)
  note za = zip_right[OF z]
  have uc: "color h (ptr m u) = CL_MAP_BLACK" using color_ptr[of m h u g] zg n u by (simp add: zip_at_def)
  have pf: "p_up h a = p" "p_up h p = g" "color h p = CL_MAP_RED" "p_left h g = ptr m u"
    using zipD[OF z] zipD[OF zg] zipD[OF za] by simp_all
  have lc: "cl_map_is_left_child h p \<longleftrightarrow> False" "cl_map_is_left_child h a \<longleftrightarrow> False"
    using is_left_iff[OF z] is_left_iff[OF za] by simp_all
  define h1 where "h1 = set_color p CL_MAP_BLACK h"
  define h2 where "h2 = set_color g CL_MAP_RED h1"
  define h3 where "h3 = cl_map_rot_left m g h2"
  have "zip_at m h1 fs (Node CL_MAP_BLACK u g (Node CL_MAP_BLACK s p (Node CL_MAP_RED l a r)))"
    using zip_color(1)[OF z, of CL_MAP_BLACK] by (simp add: h1_def zip_FR)
  from zip_color(1)[OF this, of CL_MAP_RED] have z2: "zip_at m h2 fs (Node CL_MAP_RED u g (Node CL_MAP_BLACK s p (Node CL_MAP_RED l a r)))" by (simp add: h2_def)
  note rot = rot_left_zip[OF z2, folded h3_def]
  have X: "p \<in> ?X" "g \<in> ?X" "zset fs (Node CL_MAP_RED u g (Node CL_MAP_BLACK s p (Node CL_MAP_RED l a r))) = ?X" by (simp_all add: zset_def)
  have "only_tree m ?X h h2" unfolding h2_def h1_def
    by (rule only_tree_trans[OF only_tree_color only_tree_color]) (use X zipD(6)[OF z] zipD(6)[OF zg] in simp_all)
  then have o: "only_tree m ?X h h3" using rot(2) X(3) only_tree_trans by metis
  have up3: "p_up h3 a = p" "color h3 p = CL_MAP_BLACK" using zipD[OF rot(1)] zipD[OF zip_right[OF rot(1)]] by simp_all
  have "cl_map_ins_bal m a h = cl_map_ins_bal m a h3"
    unfolding h3_def h2_def h1_def using pf lc uc by (subst cl_map_ins_bal_unfold) (simp add: Let_def)
  also have "\<dots> = Some h3" using up3 by (subst cl_map_ins_bal_unfold) simp
  finally have "cl_map_ins_bal m a h = Some h3" .
  moreover have "color h3 (nil m) = color h (nil m)" using zipD(5)[OF z] zipD(5)[OF zg] by (simp add: rot(3) h2_def h1_def)
  ultimately show ?thesis using rot(1) o by blast
qed

lemma ins_R_inner:
  assumes z: "zip_at m h (FR CL_MAP_BLACK u g # fs) (Node CL_MAP_RED (Node CL_MAP_RED l a r) p s)" and u: "tcol u = CL_MAP_BLACK"
    and n: "color h (nil m) = CL_MAP_BLACK"
  shows "\<exists>h' l' r'. cl_map_ins_bal m a h = Some h' \<and> zip_at m h' fs (Node CL_MAP_BLACK (Node CL_MAP_RED u g l) a (Node CL_MAP_RED l' p r')) \<and>
    Node CL_MAP_RED l' p r' = Node CL_MAP_RED r p s \<and>
    only_tree m (zset (FR CL_MAP_BLACK u g # fs) (Node CL_MAP_RED (Node CL_MAP_RED l a r) p s)) h h' \<and> (color h' (nil m) = color h (nil m))"
proof -
  let ?X = "zset (FR CL_MAP_BLACK u g # fs) (Node CL_MAP_RED (Node CL_MAP_RED l a r) p s)"
  have zg: "zip_at m h fs (Node CL_MAP_BLACK u g (Node CL_MAP_RED (Node CL_MAP_RED l a r) p s))" using z by (simp add: zip_FR)
  note za = zip_left[OF z]
  have uc: "color h (ptr m u) = CL_MAP_BLACK" using color_ptr[of m h u g] zg n u by (simp add: zip_at_def)
  have pf: "p_up h a = p" "p_up h p = g" "color h p = CL_MAP_RED" "p_left h g = ptr m u"
    using zipD[OF z] zipD[OF zg] zipD[OF za] by simp_all
  have lc: "cl_map_is_left_child h p \<longleftrightarrow> False" "cl_map_is_left_child h a \<longleftrightarrow> True"
    using is_left_iff[OF z] is_left_iff[OF za] by simp_all
  define h1 where "h1 = cl_map_rot_right m p h"
  note rot = rot_right_zip[OF z, folded h1_def]
  note z1 = rot(1)
  obtain l' r' where lr: "Node CL_MAP_RED l' p r' = Node CL_MAP_RED r p s" by simp
  have z1': "zip_at m h1 (FR CL_MAP_BLACK u g # fs) (Node CL_MAP_RED l a (Node CL_MAP_RED l' p r'))" using z1 lr by simp
  have n1: "color h1 (nil m) = CL_MAP_BLACK" using n rot(3) by simp
  from ins_R_outer[OF z1' u n1] obtain h' where h': "cl_map_ins_bal m p h1 = Some h'"
    "zip_at m h' fs (Node CL_MAP_BLACK (Node CL_MAP_RED u g l) a (Node CL_MAP_RED l' p r'))"
    "only_tree m (zset (FR CL_MAP_BLACK u g # fs) (Node CL_MAP_RED l a (Node CL_MAP_RED l' p r'))) h1 h'" "color h' (nil m) = color h1 (nil m)"
    by blast
  have X: "zset (FR CL_MAP_BLACK u g # fs) (Node CL_MAP_RED l a (Node CL_MAP_RED l' p r')) = ?X" using lr by (auto simp: zset_def)
  have o: "only_tree m ?X h h'" using only_tree_trans[OF rot(2)] h'(3) X by simp
  have zg1: "zip_at m h1 fs (Node CL_MAP_BLACK u g (Node CL_MAP_RED l a (Node CL_MAP_RED l' p r')))" using z1' by (simp add: zip_FR)
  have q: "p_up h1 p = a" "p_up h1 a = g" "color h1 a = CL_MAP_RED" "p_left h1 g = ptr m u"
    using zipD[OF z1'] zipD[OF zip_right[OF z1']] zipD[OF zg1] by simp_all
  have uc1: "color h1 (ptr m u) = CL_MAP_BLACK" using uc rot(3) by simp
  have lc1: "cl_map_is_left_child h1 p \<longleftrightarrow> False" "cl_map_is_left_child h1 a \<longleftrightarrow> False"
    using is_left_iff[OF z1'] is_left_iff[OF zip_right[OF z1']] by simp_all
  have "cl_map_ins_bal m a h = cl_map_ins_bal m p h1"
    using pf lc uc q uc1 lc1 by (subst (1 2) cl_map_ins_bal_unfold) (simp add: Let_def h1_def[symmetric])
  then show ?thesis using h' o lr rot(3) by auto
qed

lemma ins_done:
  assumes "zip_at m h' fs t" "rbt n t" "rbc n fs" "ctxc fs = CL_MAP_RED \<Longrightarrow> tcol t = CL_MAP_BLACK" "inorder t = xs"
  shows "\<exists>T k. zip_at m h' [] T \<and> inorder T = lctx fs @ xs @ rctx fs \<and> rbt k T"
  using rbt_plug[OF assms(3,2,4)] assms(1,5) zip_plug[of m h' fs t] by (metis inorder_plug)

lemma ins_bal_rotate:
  assumes z: "zip_at m h (f # f' # fs) (Node CL_MAP_RED l a r)" and f: "f = FL CL_MAP_RED p s \<or> f = FR CL_MAP_RED s p"
    and f': "f' = FL CL_MAP_BLACK g u \<or> f' = FR CL_MAP_BLACK u g" and t: "rbt n (Node CL_MAP_RED l a r)" "rbt n s" "tcol s = CL_MAP_BLACK"
    and u: "rbt n u" "tcol u = CL_MAP_BLACK" and n: "color h (nil m) = CL_MAP_BLACK"
  shows "\<exists>h' t'. cl_map_ins_bal m a h = Some h' \<and> zip_at m h' fs t' \<and>
        only_tree m (zset (f # f' # fs) (Node CL_MAP_RED l a r)) h h' \<and> color h' (nil m) = color h (nil m) \<and>
        inorder t' = inorder (plug [f, f'] (Node CL_MAP_RED l a r)) \<and> rbt (Suc n) t' \<and> tcol t' = CL_MAP_BLACK"
proof -
  have e: "zset (FL c b k # ks) t = zset ks (Node c t b k)" "zset (FR c k b # ks) t = zset ks (Node c k b t)" for c b k ks t
    by (simp_all add: zset_def)
  consider (LL) "f' = FL CL_MAP_BLACK g u" "f = FL CL_MAP_RED p s" | (LR) "f' = FL CL_MAP_BLACK g u" "f = FR CL_MAP_RED s p"
    | (RR) "f' = FR CL_MAP_BLACK u g" "f = FR CL_MAP_RED s p" | (RL) "f' = FR CL_MAP_BLACK u g" "f = FL CL_MAP_RED p s"
    using f f' by blast
  then show ?thesis
  proof cases
    case LL
    have "zip_at m h (FL CL_MAP_BLACK g u # fs) (Node CL_MAP_RED (Node CL_MAP_RED l a r) p s)" using z LL by (simp add: zip_FL)
    from ins_L_outer[OF this u(2) n] show ?thesis using LL t u by (fastforce simp: e)
  next
    case LR
    have "zip_at m h (FL CL_MAP_BLACK g u # fs) (Node CL_MAP_RED s p (Node CL_MAP_RED l a r))" using z LR by (simp add: zip_FR)
    from ins_L_inner[OF this u(2) n] show ?thesis using LR t u by (fastforce simp: e)
  next
    case RR
    have "zip_at m h (FR CL_MAP_BLACK u g # fs) (Node CL_MAP_RED s p (Node CL_MAP_RED l a r))" using z RR by (simp add: zip_FR)
    from ins_R_outer[OF this u(2) n] show ?thesis using RR t u by (fastforce simp: e)
  next
    case RL
    have "zip_at m h (FR CL_MAP_BLACK u g # fs) (Node CL_MAP_RED (Node CL_MAP_RED l a r) p s)" using z RL by (simp add: zip_FL)
    from ins_R_inner[OF this u(2) n] show ?thesis using RL t u by (fastforce simp: e)
  qed
qed

text \<open>Balancing after an insertion ends, keeps the order of the items and restores the colours.\<close>

lemma ins_bal_zip:
  assumes "zip_at m h fs (Node CL_MAP_RED l a r)" "rbt n (Node CL_MAP_RED l a r)" "rbc n fs"
    "color h (nil m) = CL_MAP_BLACK" "color h (root m) = CL_MAP_BLACK"
  shows "\<exists>h' T k. cl_map_ins_bal m a h = Some h' \<and> zip_at m h' [] T \<and> inorder T = inorder (plug fs (Node CL_MAP_RED l a r)) \<and> rbt k T \<and>
    only_tree m (zset fs (Node CL_MAP_RED l a r)) h h' \<and> color h' (nil m) = CL_MAP_BLACK"
  using assms
proof (induction "length fs" arbitrary: fs l a r n h rule: less_induct)
  case less
  note z = less.prems(1) and t = less.prems(2) and c = less.prems(3) and nb = less.prems(4) and rb = less.prems(5)
  show ?case
  proof (cases "ctxc fs = CL_MAP_BLACK")
    case True
    then show ?thesis using ins_stop[OF z True rb] ins_done[OF z t c _ refl] nb by auto
  next
    case False
    then have "ctxc fs = CL_MAP_RED" by (cases "ctxc fs") auto
    then obtain p s fs1 where pf: "fs = FL CL_MAP_RED p s # fs1 \<or> fs = FR CL_MAP_RED s p # fs1"
      by (cases fs rule: ctxc.cases) auto
    have fs1: "fs1 \<noteq> []" "ctxc fs1 = CL_MAP_BLACK" "rbt n s" "tcol s = CL_MAP_BLACK" "rbc n fs1" using c pf by auto
    then obtain g u fs2 where gf: "fs1 = FL CL_MAP_BLACK g u # fs2 \<or> fs1 = FR CL_MAP_BLACK u g # fs2"
      by (cases fs1 rule: ctxc.cases) auto
    have u: "rbt n u" "rbc (Suc n) fs2" using fs1 gf by auto
    obtain x y where xy: "zip_at m h fs1 (Node CL_MAP_RED x p y)" and ord: "inorder (Node CL_MAP_RED x p y) = inorder (plug [hd fs] (Node CL_MAP_RED l a r))"
      and rxy: "rbt n x" "rbt n y" and ap: "p_up h a = p"
      using pf z t fs1 zipD(1)[OF z] by (auto simp: zip_FL zip_FR)
    have X: "zset fs1 (Node CL_MAP_RED x p y) = zset fs (Node CL_MAP_RED l a r)" using pf ord by (auto simp: zset_def)
    show ?thesis
    proof (cases "tcol u")
      case CL_MAP_RED
      then obtain ul ua ur where uu: "u = Node CL_MAP_RED ul ua ur" by (cases u) auto
      have "\<exists>h' L R'. cl_map_ins_bal m a h = cl_map_ins_bal m g h' \<and> zip_at m h' fs2 (Node CL_MAP_RED L g R') \<and>
        only_tree m (zset fs (Node CL_MAP_RED l a r)) h h' \<and> color h' (nil m) = color h (nil m) \<and>
        inorder (Node CL_MAP_RED L g R') = inorder (plug [hd fs1] (Node CL_MAP_RED x p y)) \<and> rbt (Suc n) (Node CL_MAP_RED L g R')"
      proof (cases "fs1 = FL CL_MAP_BLACK g u # fs2")
        case True
        show ?thesis using ins_L_recolor[OF xy[unfolded True uu] ap] X rxy u uu True by fastforce
      next
        case F: False
        then have F: "fs1 = FR CL_MAP_BLACK u g # fs2" using gf by blast
        show ?thesis using ins_R_recolor[OF xy[unfolded F uu] ap] X rxy u uu F by fastforce
      qed
      then obtain h' L R' where h': "cl_map_ins_bal m a h = cl_map_ins_bal m g h'" "zip_at m h' fs2 (Node CL_MAP_RED L g R')"
        "only_tree m (zset fs (Node CL_MAP_RED l a r)) h h'" "color h' (nil m) = color h (nil m)"
        "inorder (Node CL_MAP_RED L g R') = inorder (plug [hd fs1] (Node CL_MAP_RED x p y))" "rbt (Suc n) (Node CL_MAP_RED L g R')" by blast
      have len: "length fs2 < length fs" using pf gf by auto
      have io: "inorder (plug fs2 (Node CL_MAP_RED L g R')) = inorder (plug fs (Node CL_MAP_RED l a r))"
        using h'(5) ord pf gf by auto
      have rb': "color h' (root m) = CL_MAP_BLACK" using h'(3) rb by (simp add: only_tree_def)
      have nb': "color h' (nil m) = CL_MAP_BLACK" using h'(4) nb by simp
      from less.hyps[OF len h'(2) h'(6) u(2) nb' rb'] obtain h'' T k where h'': "cl_map_ins_bal m g h' = Some h''" "zip_at m h'' [] T"
        "inorder T = inorder (plug fs2 (Node CL_MAP_RED L g R'))" "rbt k T" "only_tree m (zset fs2 (Node CL_MAP_RED L g R')) h' h''"
        "color h'' (nil m) = CL_MAP_BLACK" by blast
      have "only_tree m (zset fs (Node CL_MAP_RED l a r)) h h''"
        using only_tree_trans[OF h'(3)] h''(5) zset_eq[OF io] by simp
      then show ?thesis using h'(1) h'' io by auto
    next
      case CL_MAP_BLACK
      have "\<exists>h' t'. cl_map_ins_bal m a h = Some h' \<and> zip_at m h' fs2 t' \<and>
        only_tree m (zset fs (Node CL_MAP_RED l a r)) h h' \<and> color h' (nil m) = color h (nil m) \<and>
        inorder t' = inorder (plug [hd fs, hd fs1] (Node CL_MAP_RED l a r)) \<and> rbt (Suc n) t' \<and> tcol t' = CL_MAP_BLACK"
        using ins_bal_rotate[of m h "hd fs" "hd fs1" fs2 l a r p s g u n] z pf gf t fs1 u nb CL_MAP_BLACK by auto
      then obtain h' t' where h': "cl_map_ins_bal m a h = Some h'" "zip_at m h' fs2 t'" "only_tree m (zset fs (Node CL_MAP_RED l a r)) h h'"
        "color h' (nil m) = color h (nil m)" "inorder t' = inorder (plug [hd fs, hd fs1] (Node CL_MAP_RED l a r))" "rbt (Suc n) t'" "tcol t' = CL_MAP_BLACK"
        by blast
      have io: "inorder (plug fs2 t') = inorder (plug fs (Node CL_MAP_RED l a r))" using h'(5) ord pf gf by auto
      show ?thesis using ins_done[OF h'(2,6) u(2) h'(7) refl] h'(1,3,4) io nb by auto
    qed
  qed
qed

end
