(* ===== verification/Cl_Map_Ops.thy ===== *)
theory Cl_Map_Ops
  imports Cl_Map_Tree
begin

text \<open>
  Lookup and insertion of the quick map: the list of the items in key order, the invariant of a map, and the operations
  against it.
\<close>

section \<open>The list of items\<close>

fun links :: "cl_heap \<Rightarrow> addr list \<Rightarrow> bool" where
  "links h (a # b # xs) \<longleftrightarrow> p_next h a = b \<and> p_prev h b = a \<and> links h (b # xs)"
| "links h _ \<longleftrightarrow> True"

lemma links_join:
  "xs \<noteq> [] \<Longrightarrow> ys \<noteq> [] \<Longrightarrow> links h (xs @ ys) \<longleftrightarrow> links h xs \<and> links h ys \<and> p_next h (last xs) = hd ys \<and> p_prev h (hd ys) = last xs"
  by (induction h xs rule: links.induct) (auto simp: neq_Nil_conv)

lemma links_cong:
  assumes "\<And>x. x \<in> set (butlast xs) \<Longrightarrow> p_next h' x = p_next h x" "\<And>x. x \<in> set (tl xs) \<Longrightarrow> p_prev h' x = p_prev h x"
  shows "links h' xs = links h xs"
  using assms by (induction h xs rule: links.induct) auto

definition dll :: "cl_qmap \<Rightarrow> cl_heap \<Rightarrow> addr list \<Rightarrow> bool" where
  "dll m h xs \<longleftrightarrow> links h (nil m # xs @ [nil m])"

lemma dll_split:
  "dll m h (xs @ ys) \<longleftrightarrow> links h (nil m # xs) \<and> links h (ys @ [nil m]) \<and>
     p_next h (last (nil m # xs)) = hd (ys @ [nil m]) \<and> p_prev h (hd (ys @ [nil m])) = last (nil m # xs)"
  using links_join[of "nil m # xs" "ys @ [nil m]" h] by (simp add: dll_def)

lemma last_in: "last (a # xs) \<in> insert a (set xs)"
  by auto

lemma butlast_last: "distinct xs \<Longrightarrow> x \<in> set (butlast xs) \<Longrightarrow> x \<noteq> last xs"
  by (metis append_butlast_last_id butlast.simps(1) distinct_append distinct_butlast empty_iff in_set_butlastD list.set(1) disjoint_iff list.set_intros(1))

lemma tl_hd: "distinct xs \<Longrightarrow> x \<in> set (tl xs) \<Longrightarrow> x \<noteq> hd xs"
  by (cases xs) auto

lemma dll_ends:
  assumes "distinct (nil m # xs @ ys)"
  shows "\<And>x. x \<in> set (butlast (nil m # xs)) \<Longrightarrow> x \<noteq> last (nil m # xs)" "\<And>x. x \<in> set xs \<Longrightarrow> x \<noteq> hd (ys @ [nil m])"
    "\<And>x. x \<in> set ys \<Longrightarrow> x \<noteq> last (nil m # xs)" "\<And>x. x \<in> set (tl (ys @ [nil m])) \<Longrightarrow> x \<noteq> hd (ys @ [nil m])"
proof -
  show "x \<noteq> last (nil m # xs)" if "x \<in> set (butlast (nil m # xs))" for x by (rule butlast_last[OF _ that]) (use assms in auto)
  show "x \<noteq> hd (ys @ [nil m])" if "x \<in> set xs" for x using that assms by (cases ys) auto
  show "x \<noteq> last (nil m # xs)" if "x \<in> set ys" for x using that assms last_in[of "nil m" xs] by auto
  show "x \<noteq> hd (ys @ [nil m])" if "x \<in> set (tl (ys @ [nil m]))" for x by (rule tl_hd[OF _ that]) (use assms in auto)
qed

lemma dll_insert:
  assumes d: "dll m h (xs @ ys)" and dist: "distinct (nil m # xs @ ys)" and new: "a \<noteq> nil m" "a \<notin> set xs" "a \<notin> set ys"
  shows "dll m (cl_primitive_insert (hd (ys @ [nil m])) a h) (xs @ a # ys)"
proof -
  let ?p = "last (nil m # xs)" and ?b = "hd (ys @ [nil m])"
  note e = dll_ends[OF dist]
  have pa: "?p \<noteq> a" using new last_in[of "nil m" xs] by auto
  have ba: "?b \<noteq> a" using new by (cases ys) auto
  have l: "links h (nil m # xs)" "links h (ys @ [nil m])" "p_prev h ?b = ?p" using d dll_split by blast+
  define h' where "h' = cl_primitive_insert ?b a h"
  have n: "p_next h' = (p_next h)(a := ?b, ?p := a)" and pv: "p_prev h' = (p_prev h)(a := ?p, ?b := a)"
    using l(3) pa ba by (auto simp: h'_def cl_primitive_insert_def Let_def)
  have "links h' (nil m # xs) = links h (nil m # xs)"
  proof (rule links_cong)
    show "p_next h' x = p_next h x" if "x \<in> set (butlast (nil m # xs))" for x
      using e(1)[OF that] in_set_butlastD[OF that] new unfolding n by auto
    show "p_prev h' x = p_prev h x" if "x \<in> set (tl (nil m # xs))" for x
      using e(2)[of x] that new unfolding pv by auto
  qed
  moreover have "links h' (ys @ [nil m]) = links h (ys @ [nil m])"
  proof (rule links_cong)
    show "p_next h' x = p_next h x" if "x \<in> set (butlast (ys @ [nil m]))" for x
      using e(3)[of x] that new unfolding n by auto
    show "p_prev h' x = p_prev h x" if "x \<in> set (tl (ys @ [nil m]))" for x
      using e(4)[OF that] that new unfolding pv by (cases ys) auto
  qed
  moreover have "links h' (a # ys @ [nil m]) = (p_next h' a = ?b \<and> p_prev h' ?b = a \<and> links h' (ys @ [nil m]))"
    using links_join[of "[a]" "ys @ [nil m]" h'] by auto
  ultimately show ?thesis
    using l pa ba n pv unfolding h'_def[symmetric] dll_split[of m h' xs "a # ys"] by auto
qed

lemma dll_remove:
  assumes d: "dll m h (xs @ a # ys)" and dist: "distinct (nil m # xs @ a # ys)"
  shows "dll m (cl_primitive_remove a h) (xs @ ys)"
proof -
  let ?p = "last (nil m # xs)" and ?b = "hd (ys @ [nil m])"
  have dist': "distinct (nil m # xs @ ys)" using dist by auto
  note e = dll_ends[OF dist']
  have l: "links h (nil m # xs)" "links h (a # ys @ [nil m])" "p_next h ?p = a" "p_prev h a = ?p"
    using d dll_split[of m h xs "a # ys"] by auto
  have l2: "links h (ys @ [nil m])" "p_next h a = ?b" "p_prev h ?b = a"
    using l(2) links_join[of "[a]" "ys @ [nil m]" h] by auto
  define h' where "h' = cl_primitive_remove a h"
  have pa: "?p \<noteq> a" using dist last_in[of "nil m" xs] by auto
  have ba: "?b \<noteq> a" using dist by (cases ys) auto
  have n: "p_next h' = (p_next h)(?p := ?b)" and pv: "p_prev h' = (p_prev h)(?b := ?p)"
    using l l2 pa ba by (auto simp: h'_def cl_primitive_remove_def Let_def)
  have "links h' (nil m # xs) = links h (nil m # xs)"
  proof (rule links_cong)
    show "p_next h' x = p_next h x" if "x \<in> set (butlast (nil m # xs))" for x using e(1)[OF that] unfolding n by auto
    show "p_prev h' x = p_prev h x" if "x \<in> set (tl (nil m # xs))" for x using e(2)[of x] that unfolding pv by auto
  qed
  moreover have "links h' (ys @ [nil m]) = links h (ys @ [nil m])"
  proof (rule links_cong)
    show "p_next h' x = p_next h x" if "x \<in> set (butlast (ys @ [nil m]))" for x using e(3)[of x] that unfolding n by auto
    show "p_prev h' x = p_prev h x" if "x \<in> set (tl (ys @ [nil m]))" for x using e(4)[OF that] unfolding pv by auto
  qed
  ultimately show ?thesis using l l2 n pv unfolding h'_def[symmetric] dll_split[of m h' xs ys] by auto
qed


section \<open>The invariant\<close>

definition qmap_at :: "cl_qmap \<Rightarrow> cl_heap \<Rightarrow> ptree \<Rightarrow> bool" where
  "qmap_at m h T \<longleftrightarrow> zip_at m h [] T \<and> (\<exists>n. rbt n T) \<and> tcol T = CL_MAP_BLACK \<and> color h (nil m) = CL_MAP_BLACK \<and>
     color h (root m) = CL_MAP_BLACK \<and> dll m h (inorder T) \<and> sorted_wrt (<) (map (key h) (inorder T)) \<and>
     count m = of_nat (length (inorder T))"

definition outside :: "addr set \<Rightarrow> cl_heap \<Rightarrow> cl_heap \<Rightarrow> bool" where
  "outside X h h' \<longleftrightarrow> (\<forall>x. x \<notin> X \<longrightarrow> p_next h' x = p_next h x \<and> p_prev h' x = p_prev h x \<and> p_left h' x = p_left h x \<and>
     p_right h' x = p_right h x \<and> p_up h' x = p_up h x \<and> color h' x = color h x \<and> key h' x = key h x)"

lemma outside_trans: "outside X h h' \<Longrightarrow> outside X h' h'' \<Longrightarrow> outside X h h''"
  by (simp add: outside_def)

lemma outside_mono: "outside X h h' \<Longrightarrow> X \<subseteq> Y \<Longrightarrow> outside Y h h'"
  unfolding outside_def by blast

lemma outside_set [simp]:
  "a \<in> X \<Longrightarrow> outside X h (set_next a v h)" "a \<in> X \<Longrightarrow> outside X h (set_prev a v h)" "a \<in> X \<Longrightarrow> outside X h (set_left a v h)"
  "a \<in> X \<Longrightarrow> outside X h (set_right a v h)" "a \<in> X \<Longrightarrow> outside X h (set_up a v h)" "a \<in> X \<Longrightarrow> outside X h (set_color a c h)"
  "a \<in> X \<Longrightarrow> outside X h (set_key a k h)"
  by (auto simp: outside_def)

lemma outside_only_tree: "only_tree m X h h' \<Longrightarrow> outside (insert (root m) (insert (nil m) X)) h h'"
  by (auto simp: only_tree_def outside_def)

lemma rbt_unplug:
  assumes "rbt k (plug fs t)" "tcol (plug fs t) = CL_MAP_BLACK"
  shows "\<exists>n. rbc n fs \<and> rbt n t \<and> (ctxc fs = CL_MAP_RED \<longrightarrow> tcol t = CL_MAP_BLACK)"
  using assms
proof (induction fs t rule: plug.induct)
  case (2 c a r fs t)
  then obtain n where n: "rbc n fs" "rbt n (Node c t a r)" "ctxc fs = CL_MAP_RED \<longrightarrow> c = CL_MAP_BLACK" by auto
  show ?case
  proof (cases c)
    case CL_MAP_RED
    moreover have "fs \<noteq> []" using 2(3) CL_MAP_RED by auto
    moreover have "ctxc fs = CL_MAP_BLACK" using n(3) CL_MAP_RED by (cases "ctxc fs") auto
    ultimately show ?thesis using n by (intro exI[of _ n]) auto
  next
    case CL_MAP_BLACK
    then show ?thesis using n by (cases n) auto
  qed
next
  case (3 c l a fs t)
  then obtain n where n: "rbc n fs" "rbt n (Node c l a t)" "ctxc fs = CL_MAP_RED \<longrightarrow> c = CL_MAP_BLACK" by auto
  show ?case
  proof (cases c)
    case CL_MAP_RED
    moreover have "fs \<noteq> []" using 3(3) CL_MAP_RED by auto
    moreover have "ctxc fs = CL_MAP_BLACK" using n(3) CL_MAP_RED by (cases "ctxc fs") auto
    ultimately show ?thesis using n by (intro exI[of _ n]) auto
  next
    case CL_MAP_BLACK
    then show ?thesis using n by (cases n) auto
  qed
qed auto

section \<open>Lookup\<close>

lemma get_loop_spec:
  assumes "tree_at m h t u" "nil m \<notin> set (inorder t)" "sorted_wrt (<) (map (key h) (inorder t))"
  shows "\<exists>x. cl_qmap_get_loop m k h (ptr m t) = Some x \<and>
    (if k \<in> key h ` set (inorder t) then x \<in> set (inorder t) \<and> key h x = k else x = nil m)"
  using assms
proof (induction t arbitrary: u)
  case Leaf
  then show ?case by (subst cl_qmap_get_loop.simps) simp
next
  case (Node c l a r)
  have a: "a \<noteq> nil m" "p_left h a = ptr m l" "p_right h a = ptr m r" "tree_at m h l a" "tree_at m h r a" using Node.prems by auto
  have ord: "\<And>x. x \<in> set (inorder l) \<Longrightarrow> key h x < key h a" "\<And>x. x \<in> set (inorder r) \<Longrightarrow> key h a < key h x"
    "sorted_wrt (<) (map (key h) (inorder l))" "sorted_wrt (<) (map (key h) (inorder r))"
    using Node.prems(3) by (auto simp: sorted_wrt_append)
  consider "k = key h a" | "k < key h a" | "key h a < k" by fastforce
  then show ?case
  proof cases
    case 1
    then show ?thesis using a(1) by (subst cl_qmap_get_loop.simps) simp
  next
    case 2
    have "cl_qmap_get_loop m k h a = cl_qmap_get_loop m k h (ptr m l)" using 2 a by (subst cl_qmap_get_loop.simps) auto
    moreover have "k \<in> key h ` set (inorder (Node c l a r)) \<longleftrightarrow> k \<in> key h ` set (inorder l)" using 2 ord by force
    ultimately show ?thesis using Node.IH(1)[OF a(4) _ ord(3)] Node.prems(2) by (auto split: if_splits)
  next
    case 3
    have "cl_qmap_get_loop m k h a = cl_qmap_get_loop m k h (ptr m r)" using 3 a by (subst cl_qmap_get_loop.simps) auto
    moreover have "k \<in> key h ` set (inorder (Node c l a r)) \<longleftrightarrow> k \<in> key h ` set (inorder r)" using 3 ord by force
    ultimately show ?thesis using Node.IH(2)[OF a(5) _ ord(4)] Node.prems(2) by (auto split: if_splits)
  qed
qed

lemma get_spec:
  assumes "qmap_at m h T"
  shows "\<exists>x. cl_qmap_get m k h = Some x \<and>
    (if k \<in> key h ` set (inorder T) then x \<in> set (inorder T) \<and> key h x = k else x = nil m)"
proof -
  have z: "tree_at m h T (root m)" "nil m \<notin> set (inorder T)" "sorted_wrt (<) (map (key h) (inorder T))" "cl_map_root h m = ptr m T"
    using assms by (simp_all add: qmap_at_def zip_at_def dist_def cl_map_root_def)
  show ?thesis using get_loop_spec[OF z(1-3)] z(4) by (simp add: cl_qmap_get_def)
qed

section \<open>Insertion\<close>

text \<open>The search ends at the item with the key, or below the place of the key.\<close>

lemma insert_loop_spec:
  assumes "zip_at m h fs t" "sorted_wrt (<) (map (key h) (inorder t))"
    "\<forall>x\<in>set (lctx fs). key h x < k" "\<forall>x\<in>set (rctx fs). k < key h x"
  shows "if k \<in> key h ` set (inorder t)
    then \<exists>x. cl_qmap_insert_loop m k h (hp m fs) (ptr m t) = Some (Inl x) \<and> x \<in> set (inorder t) \<and> key h x = k
    else \<exists>fs'. cl_qmap_insert_loop m k h (hp m fs) (ptr m t) = Some (Inr (hp m fs')) \<and> plug fs' Leaf = plug fs t \<and>
      (\<forall>x\<in>set (lctx fs'). key h x < k) \<and> (\<forall>x\<in>set (rctx fs'). k < key h x)"
  using assms
proof (induction t arbitrary: fs)
  case Leaf
  then show ?case by (subst cl_qmap_insert_loop.simps) auto
next
  case (Node c l a r)
  note a = zipD[OF Node.prems(1)]
  have ord: "\<And>x. x \<in> set (inorder l) \<Longrightarrow> key h x < key h a" "\<And>x. x \<in> set (inorder r) \<Longrightarrow> key h a < key h x"
    "sorted_wrt (<) (map (key h) (inorder l))" "sorted_wrt (<) (map (key h) (inorder r))"
    using Node.prems(2) by (auto simp: sorted_wrt_append)
  consider "k = key h a" | "k < key h a" | "key h a < k" by fastforce
  then show ?case
  proof cases
    case 1
    then show ?thesis using a(5) by (subst (1 2) cl_qmap_insert_loop.simps) simp
  next
    case 2
    have e: "cl_qmap_insert_loop m k h (hp m fs) a = cl_qmap_insert_loop m k h a (ptr m l)" using 2 a by (subst cl_qmap_insert_loop.simps) auto
    have s: "k \<in> key h ` set (inorder (Node c l a r)) \<longleftrightarrow> k \<in> key h ` set (inorder l)" using 2 ord by force
    have r: "\<forall>x\<in>set (rctx (FL c a r # fs)). k < key h x" using 2 ord(2) Node.prems(4) by fastforce
    show ?thesis using Node.IH(1)[OF zip_left[OF Node.prems(1)] ord(3) _ r] Node.prems(3) e s by (auto split: if_splits)
  next
    case 3
    have e: "cl_qmap_insert_loop m k h (hp m fs) a = cl_qmap_insert_loop m k h a (ptr m r)" using 3 a by (subst cl_qmap_insert_loop.simps) auto
    have s: "k \<in> key h ` set (inorder (Node c l a r)) \<longleftrightarrow> k \<in> key h ` set (inorder r)" using 3 ord by force
    have r: "\<forall>x\<in>set (lctx (FR c l a # fs)). key h x < k" using 3 ord(1) Node.prems(3) by fastforce
    show ?thesis using Node.IH(2)[OF zip_right[OF Node.prems(1)] ord(4) r] Node.prems(4) e s by (auto split: if_splits)
  qed
qed

lemma count_irrel [simp]:
  "ptr (m\<lparr>count := c\<rparr>) t = ptr m t" "tree_at (m\<lparr>count := c\<rparr>) h t u = tree_at m h t u" "hp (m\<lparr>count := c\<rparr>) fs = hp m fs"
  "dist (m\<lparr>count := c\<rparr>) xs = dist m xs" "dll (m\<lparr>count := c\<rparr>) h xs = dll m h xs"
proof -
  show p: "ptr (m\<lparr>count := c\<rparr>) t = ptr m t" for t by (cases t) auto
  show "tree_at (m\<lparr>count := c\<rparr>) h t u = tree_at m h t u" by (induction t arbitrary: u) (auto simp: p)
  show "hp (m\<lparr>count := c\<rparr>) fs = hp m fs" by (cases "(m, fs)" rule: hp.cases) auto
qed (simp_all add: dist_def dll_def)

lemma count_irrel' [simp]: "zip_at (m\<lparr>count := c\<rparr>) h [] t = zip_at m h [] t" "only_tree (m\<lparr>count := c\<rparr>) X h h' = only_tree m X h h'"
  by (simp_all add: zip_at_def only_tree_def)

lemma qmap_at_outside:
  assumes Q: "qmap_at m h T" and o: "outside X h h'" and d: "X \<inter> insert (root m) (insert (nil m) (set (inorder T))) = {}"
  shows "qmap_at m h' T"
proof -
  have s: "p_next h' x = p_next h x \<and> p_prev h' x = p_prev h x \<and> p_left h' x = p_left h x \<and> p_right h' x = p_right h x \<and>
      p_up h' x = p_up h x \<and> color h' x = color h x \<and> key h' x = key h x" if "x \<in> insert (root m) (insert (nil m) (set (inorder T)))" for x
    using o d that unfolding outside_def by blast
  have "tree_at m h' T (root m) = tree_at m h T (root m)" by (rule tree_cong) (use s in auto)
  moreover have "dll m h' (inorder T) = dll m h (inorder T)"
    unfolding dll_def by (rule links_cong) (use s in \<open>auto dest: in_set_butlastD\<close>)
  moreover have "map (key h') (inorder T) = map (key h) (inorder T)" using s by simp
  then have "sorted_wrt (<) (map (key h') (inorder T)) = sorted_wrt (<) (map (key h) (inorder T))" by (rule arg_cong)
  ultimately show ?thesis using Q s[of "root m"] s[of "nil m"] by (simp add: qmap_at_def zip_at_def)
qed

text \<open>The new item linked under its parent and into the list.\<close>

definition insert_link :: "cl_qmap \<Rightarrow> u64 \<Rightarrow> addr \<Rightarrow> addr \<Rightarrow> cl_heap \<Rightarrow> cl_heap" where
  "insert_link m k item insert_at h =
     (if insert_at = root m then cl_primitive_insert (nil m) item (set_left insert_at item h)
      else if k < key h insert_at then cl_primitive_insert insert_at item (set_left insert_at item h)
      else let h = set_right insert_at item h in cl_primitive_insert (p_next h insert_at) item h)"

lemma primitive_insert_sel [simp]:
  "p_left (cl_primitive_insert b a h) = p_left h" "p_right (cl_primitive_insert b a h) = p_right h" "p_up (cl_primitive_insert b a h) = p_up h"
  "color (cl_primitive_insert b a h) = color h" "key (cl_primitive_insert b a h) = key h"
  "tree_at m (cl_primitive_insert b a h) t u = tree_at m h t u" "ctx_at m (cl_primitive_insert b a h) fs q = ctx_at m h fs q"
  by (simp_all add: cl_primitive_insert_def Let_def)

lemma dll_store [simp]: "dll m (store pp v h) xs = dll m h xs" "dll m (set_up a v h) xs = dll m h xs" "dll m (set_left a v h) xs = dll m h xs"
  "dll m (set_right a v h) xs = dll m h xs" "dll m (set_color a c h) xs = dll m h xs" "dll m (set_key a k h) xs = dll m h xs"
  unfolding dll_def by (rule links_cong; simp)+

lemma insert_link_eq:
  assumes z: "zip_at m h fs Leaf" and k: "\<forall>x\<in>set (lctx fs). key h x < k" "\<forall>x\<in>set (rctx fs). k < key h x"
    and l: "dll m h (lctx fs @ rctx fs)"
  shows "insert_link m k item (hp m fs) h = cl_primitive_insert (hd (rctx fs @ [nil m])) item (store (pp_of m fs) item h)"
proof (cases "(m, fs)" rule: hp.cases)
  case (2 m' c a r fs')
  then show ?thesis using z k by (auto simp: insert_link_def zip_at_def dist_def)
next
  case (3 m' c l a fs')
  have "p_next h a = hd (rctx fs @ [nil m])" using l 3 by (simp add: dll_split[of m h "lctx fs"])
  then show ?thesis using z k 3 by (auto simp: insert_link_def zip_at_def dist_def not_less_iff_gr_or_eq)
qed (simp add: insert_link_def)

lemma insert_link_zip:
  assumes z: "zip_at m h fs Leaf" and n: "item \<noteq> root m" "item \<noteq> nil m" "item \<notin> set (lctx fs)" "item \<notin> set (rctx fs)"
    and f: "p_left h item = nil m" "p_right h item = nil m" "color h item = CL_MAP_RED"
  shows "zip_at m (set_up item (hp m fs) (cl_primitive_insert b item (store (pp_of m fs) item h))) fs (Node CL_MAP_RED Leaf item Leaf)"
proof -
  have d: "dist m (lctx fs @ [] @ rctx fs)" and c: "ctx_at m h fs (nil m)" using z by (simp_all add: zip_at_def)
  have "hp m fs \<noteq> item" using hp_in[of m fs] n by auto
  then show ?thesis using store_pp[OF c d, of item] d n f by (simp add: zip_at_def dist_def store_child)
qed

lemma primitive_insert_outside:
  assumes "dll m h (xs @ ys)"
  shows "outside (insert item (insert (nil m) (set (xs @ ys)))) h (cl_primitive_insert (hd (ys @ [nil m])) item h)"
proof -
  have p: "p_prev h (hd (ys @ [nil m])) = last (nil m # xs)" using assms by (simp add: dll_split)
  have i: "hd (ys @ [nil m]) \<in> insert (nil m) (set ys)" "last (nil m # xs) \<in> insert (nil m) (set xs)" by (cases ys; auto)+
  show ?thesis unfolding cl_primitive_insert_def Let_def outside_def using p i by auto
qed

lemma store_outside: "outside (insert (root m) (set (lctx fs) \<union> set (rctx fs))) h (store (pp_of m fs) v h)"
  by (cases "(m, fs)" rule: hp.cases) auto

lemma ptr_in: "ptr m t \<in> insert (nil m) (set (inorder t))"
  by (cases t) auto

lemma paint_root:
  assumes z: "zip_at m h [] T" and r: "rbt n T" and nb: "color h (nil m) = CL_MAP_BLACK"
  shows "\<exists>T'. zip_at m (set_color (cl_map_root h m) CL_MAP_BLACK h) [] T' \<and> inorder T' = inorder T \<and> (\<exists>k. rbt k T') \<and> tcol T' = CL_MAP_BLACK"
proof (cases T)
  case Leaf
  have "zip_at m (set_color (nil m) CL_MAP_BLACK h) [] Leaf" using z Leaf by (simp add: zip_at_def)
  then show ?thesis using z Leaf r by (intro exI[of _ Leaf]) (auto simp: zip_at_def cl_map_root_def)
next
  case (Node c l a rt)
  have "cl_map_root h m = a" using z Node by (simp add: zip_at_def cl_map_root_def)
  moreover have "zip_at m (set_color a CL_MAP_BLACK h) [] (Node CL_MAP_BLACK l a rt)" using zip_color(1) z Node by blast
  moreover have "\<exists>k. rbt k (Node CL_MAP_BLACK l a rt)"
  proof (cases c)
    case CL_MAP_RED
    then show ?thesis using r Node by (intro exI[of _ "Suc n"]) simp
  next
    case CL_MAP_BLACK
    then show ?thesis using r Node by blast
  qed
  ultimately show ?thesis using Node by (intro exI[of _ "Node CL_MAP_BLACK l a rt"]) auto
qed

lemma cl_qmap_insert_eq:
  "cl_qmap_insert m k item h =
     (let h = set_color item CL_MAP_RED (set_key item k (set_right item (nil m) (set_left item (nil m) h)))
      in case cl_qmap_insert_loop m k h (root m) (cl_map_root h m) of
           None \<Rightarrow> None
         | Some (Inl found) \<Rightarrow> Some (found, m, h)
         | Some (Inr insert_at) \<Rightarrow>
             (case cl_map_ins_bal (m\<lparr>count := count m + 1\<rparr>) item (set_up item insert_at (insert_link m k item insert_at h)) of
                None \<Rightarrow> None
              | Some h \<Rightarrow> Some (item, m\<lparr>count := count m + 1\<rparr>, set_color (cl_map_root h m) CL_MAP_BLACK h)))"
  unfolding cl_qmap_insert_def insert_link_def Let_def cl_map_root_def by (simp cong: option.case_cong sum.case_cong)

lemma insert_spec:
  assumes Q: "qmap_at m h T" and n: "item \<noteq> root m" "item \<noteq> nil m" "item \<notin> set (inorder T)"
  shows "if k \<in> key h ` set (inorder T)
    then \<exists>x h'. cl_qmap_insert m k item h = Some (x, m, h') \<and> x \<in> set (inorder T) \<and> key h x = k \<and> qmap_at m h' T \<and>
      outside {item} h h'
    else \<exists>h' T' xs ys. cl_qmap_insert m k item h = Some (item, m\<lparr>count := count m + 1\<rparr>, h') \<and> qmap_at (m\<lparr>count := count m + 1\<rparr>) h' T' \<and>
      inorder T = xs @ ys \<and> inorder T' = xs @ item # ys \<and> key h' = (key h)(item := k) \<and>
      outside (insert item (insert (root m) (insert (nil m) (set (inorder T))))) h h'"
proof -
  define h1 where "h1 = set_color item CL_MAP_RED (set_key item k (set_right item (nil m) (set_left item (nil m) h)))"
  let ?m = "m\<lparr>count := count m + 1\<rparr>" and ?X = "insert item (insert (root m) (insert (nil m) (set (inorder T))))"
  have o1: "outside {item} h h1" by (auto simp: h1_def outside_def)
  have Q1: "qmap_at m h1 T" by (rule qmap_at_outside[OF Q o1]) (use n in auto)
  have z1: "zip_at m h1 [] T" "sorted_wrt (<) (map (key h1) (inorder T))" "dll m h1 (inorder T)" "cl_map_root h1 m = ptr m T"
    "color h1 (nil m) = CL_MAP_BLACK" "color h1 (root m) = CL_MAP_BLACK" "tcol T = CL_MAP_BLACK" "count m = of_nat (length (inorder T))"
    using Q1 by (auto simp: qmap_at_def zip_at_def cl_map_root_def)
  obtain nn where rb: "rbt nn T" using Q1 by (auto simp: qmap_at_def)
  have ke: "key h1 ` set (inorder T) = key h ` set (inorder T)" "\<And>x. x \<in> set (inorder T) \<Longrightarrow> key h1 x = key h x"
    using n(3) by (auto simp: h1_def image_iff)
  have k1: "key h1 = (key h)(item := k)" by (simp add: h1_def)
  note L = insert_loop_spec[OF z1(1,2), of k, simplified]
  show ?thesis
  proof (cases "k \<in> key h ` set (inorder T)")
    case True
    then obtain x where x: "cl_qmap_insert_loop m k h1 (root m) (ptr m T) = Some (Inl x)" "x \<in> set (inorder T)" "key h1 x = k"
      using L ke(1) by auto
    have "cl_qmap_insert m k item h = Some (x, m, h1)" using x z1(4) unfolding cl_qmap_insert_eq h1_def[symmetric] Let_def by simp
    then show ?thesis using True x ke(2) Q1 o1 by auto
  next
    case False
    then obtain fs where fs: "cl_qmap_insert_loop m k h1 (root m) (ptr m T) = Some (Inr (hp m fs))" "plug fs Leaf = T"
      "\<forall>x\<in>set (lctx fs). key h1 x < k" "\<forall>x\<in>set (rctx fs). k < key h1 x" using L ke(1) by auto
    have io: "inorder T = lctx fs @ rctx fs" using fs(2) inorder_plug[of fs Leaf] by simp
    have zl: "zip_at m h1 fs Leaf" using z1(1) fs(2) zip_plug[of m h1 fs Leaf] by simp
    define h2 where "h2 = store (pp_of m fs) item h1"
    define h3 where "h3 = cl_primitive_insert (hd (rctx fs @ [nil m])) item h2"
    define h4 where "h4 = set_up item (hp m fs) h3"
    have il: "insert_link m k item (hp m fs) h1 = h3"
      using insert_link_eq[OF zl fs(3,4)] z1(3) io by (simp add: h3_def h2_def)
    have z4: "zip_at m h4 fs (Node CL_MAP_RED Leaf item Leaf)" unfolding h4_def h3_def h2_def
      by (rule insert_link_zip[OF zl]) (use n io in \<open>auto simp: h1_def\<close>)
    have d3: "dll m h3 (lctx fs @ item # rctx fs)" unfolding h3_def
      by (rule dll_insert) (use z1(1,3) io n in \<open>auto simp: h2_def zip_at_def dist_def\<close>)
    have z4': "zip_at ?m h4 fs (Node CL_MAP_RED Leaf item Leaf)"
      using z4 zip_plug[of ?m h4 fs "Node CL_MAP_RED Leaf item Leaf"] zip_plug[of m h4 fs "Node CL_MAP_RED Leaf item Leaf"] by simp
    obtain n0 where n0: "rbc n0 fs" "rbt n0 Leaf" using rbt_unplug[of nn fs Leaf] rb z1(7) fs(2) by auto
    have nb: "color h4 (nil ?m) = CL_MAP_BLACK" "color h4 (root ?m) = CL_MAP_BLACK" using z1(5,6) by (simp_all add: h4_def h3_def h2_def)
    have "rbt n0 (Node CL_MAP_RED Leaf item Leaf)" using n0 by simp
    from ins_bal_zip[OF z4' this n0(1) nb] obtain h5 T5 k5 where h5: "cl_map_ins_bal ?m item h4 = Some h5" "zip_at ?m h5 [] T5"
      "inorder T5 = lctx fs @ item # rctx fs" "rbt k5 T5" "only_tree ?m (zset fs (Node CL_MAP_RED Leaf item Leaf)) h4 h5" "color h5 (nil m) = CL_MAP_BLACK"
      by auto
    define h6 where "h6 = set_color (cl_map_root h5 m) CL_MAP_BLACK h5"
    obtain T6 where T6: "zip_at m h6 [] T6" "inorder T6 = inorder T5" "\<exists>k. rbt k T6" "tcol T6 = CL_MAP_BLACK"
      using paint_root[of m h5 T5 k5] h5 by (auto simp: h6_def)
    have r: "cl_qmap_insert m k item h = Some (item, ?m, h6)"
      using fs(1) z1(4) il h5(1) unfolding cl_qmap_insert_eq h1_def[symmetric] Let_def by (simp add: h4_def h6_def)
    have ot: "p_next h5 = p_next h4" "p_prev h5 = p_prev h4" "key h5 = key h4" "color h5 (root m) = color h4 (root m)"
      using h5(5) by (simp_all add: only_tree_def)
    have k6: "key h6 = (key h)(item := k)" using ot k1 by (simp add: h6_def h4_def h3_def h2_def)
    have rt: "cl_map_root h5 m \<in> insert (nil m) (insert item (set (inorder T)))"
      using ptr_in[of m T5] h5(2,3) io by (simp add: zip_at_def cl_map_root_def)
    have d6: "dll m h6 (inorder T6)"
    proof -
      have "links h6 xs = links h3 xs" for xs by (rule links_cong) (simp_all add: h6_def ot h4_def)
      then show ?thesis using d3 T6(2) h5(3) by (simp add: dll_def)
    qed
    have s6: "sorted_wrt (<) (map (key h6) (inorder T6))"
    proof -
      have e: "map (key h6) (lctx fs) = map (key h1) (lctx fs)" "map (key h6) (rctx fs) = map (key h1) (rctx fs)" "key h6 item = k"
        using n(3) io k6 k1 by auto
      have "sorted_wrt (<) (map (key h1) (lctx fs) @ k # map (key h1) (rctx fs))"
        using z1(2) fs(3,4) io by (auto simp: sorted_wrt_append)
      then show ?thesis using T6(2) h5(3) e by (simp del: map_eq_conv)
    qed
    have c6: "color h6 (nil m) = CL_MAP_BLACK" "color h6 (root m) = CL_MAP_BLACK"
      using h5(6) ot nb by (simp_all add: h6_def)
    have Q6: "qmap_at ?m h6 T6"
      unfolding qmap_at_def using T6 d6 s6 c6 z1(8) h5(3) io by simp
    have o: "outside ?X h h6"
    proof -
      have "outside ?X h h1" by (rule outside_mono[OF o1]) auto
      have "outside ?X h1 h2" unfolding h2_def by (rule outside_mono[OF store_outside[of m fs]]) (use io in auto)
      have "outside ?X h2 h3" unfolding h3_def
        by (rule outside_mono[OF primitive_insert_outside[of m h2 "lctx fs" "rctx fs"]]) (use z1(3) io in \<open>auto simp: h2_def\<close>)
      have "outside ?X h3 h4" by (simp add: h4_def)
      have "outside ?X h4 h5"
        by (rule outside_mono[OF outside_only_tree[OF h5(5)]]) (use io in \<open>auto simp: zset_def\<close>)
      have "outside ?X h5 h6" using rt by (auto simp: h6_def outside_def)
      show ?thesis
        using \<open>outside ?X h h1\<close> \<open>outside ?X h1 h2\<close> \<open>outside ?X h2 h3\<close> \<open>outside ?X h3 h4\<close> \<open>outside ?X h4 h5\<close> \<open>outside ?X h5 h6\<close> outside_trans by meson
    qed
    show ?thesis using False r Q6 io T6(2) h5(3) k6 o by auto
  qed
qed

end
