(* ===== verification/Cl_Map_Del.thy ===== *)
theory Cl_Map_Del
  imports Cl_Map_Ops
begin

text \<open>
  Removal from the quick map: the repair of the colours above a hole that lacks a black node, the splicing of a node
  with at most one child, and the exchange of a removed item with its successor.
\<close>

section \<open>Balancing after a removal\<close>

lemma set_color_same: "color h x = c \<Longrightarrow> set_color x c h = h"
  by (cases h) (auto simp: set_color_def)

lemma zip_hole_up: "zip_at m h fs t \<Longrightarrow> t \<noteq> Leaf \<Longrightarrow> p_up h (ptr m t) = hp m fs"
  by (cases t) (auto simp: zip_at_def)

lemma zip_color_ptr: "zip_at m h fs t \<Longrightarrow> color h (nil m) = CL_MAP_BLACK \<Longrightarrow> color h (ptr m t) = tcol t"
  using color_ptr[of m h t "hp m fs"] by (simp add: zip_at_def)

lemma only_tree_eqI: "only_tree m X h h' \<Longrightarrow> X = Y \<Longrightarrow> only_tree m Y h h'"
  by simp

definition del_red_L :: "cl_qmap \<Rightarrow> addr \<Rightarrow> cl_heap \<Rightarrow> addr \<times> cl_heap" where
  "del_red_L m item h =
     (let uncle = p_right h (p_up h item)
      in if color h uncle = CL_MAP_RED
         then let h = set_color uncle CL_MAP_BLACK h;
                  h = set_color (p_up h item) CL_MAP_RED h;
                  h = cl_map_rot_left m (p_up h item) h
              in (p_right h (p_up h item), h)
         else (uncle, h))"

definition del_rest_L :: "cl_qmap \<Rightarrow> addr \<Rightarrow> addr \<Rightarrow> cl_heap \<Rightarrow> (addr \<times> cl_heap) option" where
  "del_rest_L m item uncle h =
     (if color h (p_right h uncle) \<noteq> CL_MAP_RED \<and> color h (p_left h uncle) \<noteq> CL_MAP_RED
      then let h = set_color uncle CL_MAP_RED h in cl_map_del_bal_loop m (p_up h item) h
      else let (uncle, h) = (if color h (p_right h uncle) \<noteq> CL_MAP_RED
                             then let h = set_color (p_left h uncle) CL_MAP_BLACK h;
                                      h = set_color uncle CL_MAP_RED h;
                                      h = cl_map_rot_right m uncle h
                                  in (p_right h (p_up h item), h)
                             else (uncle, h));
               h = set_color uncle (color h (p_up h item)) h;
               h = set_color (p_up h item) CL_MAP_BLACK h;
               h = set_color (p_right h uncle) CL_MAP_BLACK h;
               h = cl_map_rot_left m (p_up h item) h
           in Some (item, h))"

lemma del_L_red:
  assumes z: "zip_at m h (FL CL_MAP_BLACK p (Node CL_MAP_RED wl w wr) # fs) t" and u: "p_up h (ptr m t) = p"
  shows "\<exists>h'. del_red_L m (ptr m t) h = (ptr m wl, h') \<and> zip_at m h' (FL CL_MAP_RED p wl # FL CL_MAP_BLACK w wr # fs) t \<and>
    p_up h' (ptr m t) = p \<and> only_tree m (zset (FL CL_MAP_BLACK p (Node CL_MAP_RED wl w wr) # fs) t) h h' \<and> color h' (nil m) = color h (nil m)"
proof -
  let ?X = "zset (FL CL_MAP_BLACK p (Node CL_MAP_RED wl w wr) # fs) t"
  have zp: "zip_at m h fs (Node CL_MAP_BLACK t p (Node CL_MAP_RED wl w wr))" using z by (simp add: zip_FL)
  note zw = zip_right[OF zp]
  have pf: "p_right h p = w" "color h w = CL_MAP_RED" using zipD[OF zp] zipD[OF zw] by simp_all
  define h1 where "h1 = set_color w CL_MAP_BLACK h"
  define h2 where "h2 = set_color p CL_MAP_RED h1"
  define h3 where "h3 = cl_map_rot_left m p h2"
  have "zip_at m h1 fs (Node CL_MAP_BLACK t p (Node CL_MAP_BLACK wl w wr))" using zip_color(1)[OF zw, of CL_MAP_BLACK] by (simp add: h1_def zip_FR)
  from zip_color(1)[OF this, of CL_MAP_RED] have z2: "zip_at m h2 fs (Node CL_MAP_RED t p (Node CL_MAP_BLACK wl w wr))" by (simp add: h2_def)
  note rot = rot_left_zip[OF z2, folded h3_def]
  have z3: "zip_at m h3 (FL CL_MAP_RED p wl # FL CL_MAP_BLACK w wr # fs) t" using rot(1) by (simp add: zip_FL)
  have X: "p \<in> ?X" "w \<in> ?X" "zset fs (Node CL_MAP_RED t p (Node CL_MAP_BLACK wl w wr)) = ?X" by (simp_all add: zset_def)
  have "only_tree m ?X h h2" unfolding h2_def h1_def
    by (rule only_tree_trans[OF only_tree_color only_tree_color]) (use X zipD(6)[OF zp] zipD(6)[OF zw] in simp_all)
  then have o: "only_tree m ?X h h3" using rot(2) X(3) only_tree_trans by metis
  have up3: "p_up h3 (ptr m t) = p"
  proof (cases t)
    case Leaf
    then show ?thesis using rot(4) u by (simp add: h2_def h1_def)
  next
    case (Node c' l' a' r')
    then show ?thesis using zip_hole_up[OF z3] by simp
  qed
  have o3: "p_right h3 p = ptr m wl" using z3 by (simp add: zip_at_def)
  have "del_red_L m (ptr m t) h = (ptr m wl, h3)"
    using pf u up3 o3 unfolding del_red_L_def h3_def h2_def h1_def by (simp add: Let_def)
  moreover have "color h3 (nil m) = color h (nil m)" using zipD(5)[OF zp] zipD(5)[OF zw] by (simp add: rot(3) h2_def h1_def)
  ultimately show ?thesis using z3 up3 o by blast
qed

lemma del_L_both:
  assumes z: "zip_at m h (FL c p (Node CL_MAP_BLACK wl w wr) # fs) t" and u: "p_up h (ptr m t) = p" and n: "color h (nil m) = CL_MAP_BLACK"
    and b: "tcol wl = CL_MAP_BLACK" "tcol wr = CL_MAP_BLACK"
  shows "\<exists>h'. del_rest_L m (ptr m t) w h = cl_map_del_bal_loop m p h' \<and> zip_at m h' fs (Node c t p (Node CL_MAP_RED wl w wr)) \<and>
    only_tree m (zset (FL c p (Node CL_MAP_BLACK wl w wr) # fs) t) h h' \<and> color h' (nil m) = color h (nil m)"
proof -
  have zp: "zip_at m h fs (Node c t p (Node CL_MAP_BLACK wl w wr))" using z by (simp add: zip_FL)
  note zw = zip_right[OF zp]
  have cc: "color h (p_right h w) = CL_MAP_BLACK" "color h (p_left h w) = CL_MAP_BLACK"
    using zip_color_ptr[OF zip_left[OF zw] n] zip_color_ptr[OF zip_right[OF zw] n] b zipD[OF zw] by simp_all
  have z1: "zip_at m (set_color w CL_MAP_RED h) fs (Node c t p (Node CL_MAP_RED wl w wr))"
    using zip_color(1)[OF zw, of CL_MAP_RED] by (simp add: zip_FR)
  have "del_rest_L m (ptr m t) w h = cl_map_del_bal_loop m p (set_color w CL_MAP_RED h)"
    using cc u by (simp add: del_rest_L_def Let_def)
  moreover have "only_tree m (zset (FL c p (Node CL_MAP_BLACK wl w wr) # fs) t) h (set_color w CL_MAP_RED h)"
    by (rule only_tree_color) (use zipD(6)[OF zw] in \<open>simp_all add: zset_def\<close>)
  ultimately show ?thesis using z1 zipD(5)[OF zw] by (intro exI[of _ "set_color w CL_MAP_RED h"]) simp
qed

lemma del_L_outer:
  assumes z: "zip_at m h (FL c p (Node CL_MAP_BLACK wl w (Node CL_MAP_RED x v y)) # fs) t" and u: "p_up h (ptr m t) = p"
  shows "\<exists>h'. del_rest_L m (ptr m t) w h = Some (ptr m t, h') \<and> zip_at m h' fs (Node c (Node CL_MAP_BLACK t p wl) w (Node CL_MAP_BLACK x v y)) \<and>
    only_tree m (zset (FL c p (Node CL_MAP_BLACK wl w (Node CL_MAP_RED x v y)) # fs) t) h h' \<and> color h' (nil m) = color h (nil m)"
proof -
  let ?X = "zset (FL c p (Node CL_MAP_BLACK wl w (Node CL_MAP_RED x v y)) # fs) t"
  have zp: "zip_at m h fs (Node c t p (Node CL_MAP_BLACK wl w (Node CL_MAP_RED x v y)))" using z by (simp add: zip_FL)
  note zw = zip_right[OF zp]
  note zv = zip_right[OF zw]
  have pf: "p_right h w = v" "color h v = CL_MAP_RED" "color h p = c" using zipD[OF zp] zipD[OF zw] zipD[OF zv] by simp_all
  define h1 where "h1 = set_color w c h"
  define h2 where "h2 = set_color p CL_MAP_BLACK h1"
  define h3 where "h3 = set_color v CL_MAP_BLACK h2"
  define h4 where "h4 = cl_map_rot_left m p h3"
  have "zip_at m h1 fs (Node c t p (Node c wl w (Node CL_MAP_RED x v y)))" using zip_color(1)[OF zw, of c] by (simp add: h1_def zip_FR)
  from zip_color(1)[OF this, of CL_MAP_BLACK] have "zip_at m h2 fs (Node CL_MAP_BLACK t p (Node c wl w (Node CL_MAP_RED x v y)))" by (simp add: h2_def)
  from zip_color(1)[OF zip_right[OF zip_right[OF this]], of CL_MAP_BLACK]
  have z3: "zip_at m h3 fs (Node CL_MAP_BLACK t p (Node c wl w (Node CL_MAP_BLACK x v y)))" by (simp add: h3_def zip_FR)
  note rot = rot_left_zip[OF z3, folded h4_def]
  have X: "w \<in> ?X" "p \<in> ?X" "v \<in> ?X" "zset fs (Node CL_MAP_BLACK t p (Node c wl w (Node CL_MAP_BLACK x v y))) = ?X" by (simp_all add: zset_def)
  have "only_tree m ?X h h3" unfolding h3_def h2_def h1_def
    by (rule only_tree_trans[OF only_tree_trans[OF only_tree_color only_tree_color] only_tree_color])
      (use X zipD(6)[OF zp] zipD(6)[OF zw] zipD(6)[OF zv] in simp_all)
  then have o: "only_tree m ?X h h4" using rot(2) X(4) only_tree_trans by metis
  have "del_rest_L m (ptr m t) w h = Some (ptr m t, h4)"
    using pf u unfolding del_rest_L_def h4_def h3_def h2_def h1_def by (simp add: Let_def)
  moreover have "color h4 (nil m) = color h (nil m)" using zipD(5)[OF zp] zipD(5)[OF zw] zipD(5)[OF zv] by (simp add: rot(3) h3_def h2_def h1_def)
  ultimately show ?thesis using rot(1) o by blast
qed

lemma del_L_inner:
  assumes z: "zip_at m h (FL c p (Node CL_MAP_BLACK (Node CL_MAP_RED x v y) w wr) # fs) t" and u: "p_up h (ptr m t) = p"
    and n: "color h (nil m) = CL_MAP_BLACK" and b: "tcol wr = CL_MAP_BLACK"
  shows "\<exists>h'. del_rest_L m (ptr m t) w h = del_rest_L m (ptr m t) v h' \<and>
    zip_at m h' (FL c p (Node CL_MAP_BLACK x v (Node CL_MAP_RED y w wr)) # fs) t \<and> p_up h' (ptr m t) = p \<and>
    only_tree m (zset (FL c p (Node CL_MAP_BLACK (Node CL_MAP_RED x v y) w wr) # fs) t) h h' \<and> color h' (nil m) = color h (nil m)"
proof -
  let ?X = "zset (FL c p (Node CL_MAP_BLACK (Node CL_MAP_RED x v y) w wr) # fs) t"
  have zp: "zip_at m h fs (Node c t p (Node CL_MAP_BLACK (Node CL_MAP_RED x v y) w wr))" using z by (simp add: zip_FL)
  note zw = zip_right[OF zp]
  note zv = zip_left[OF zw]
  have pf: "p_left h w = v" "color h v = CL_MAP_RED" "color h (p_right h w) = CL_MAP_BLACK" "p_right h p = w"
    using zipD[OF zp] zipD[OF zw] zipD[OF zv] zip_color_ptr[OF zip_right[OF zw] n] b by simp_all
  define h1 where "h1 = set_color v CL_MAP_BLACK h"
  define h2 where "h2 = set_color w CL_MAP_RED h1"
  define h3 where "h3 = cl_map_rot_right m w h2"
  have "zip_at m h1 fs (Node c t p (Node CL_MAP_BLACK (Node CL_MAP_BLACK x v y) w wr))" using zip_color(1)[OF zv, of CL_MAP_BLACK] by (simp add: h1_def zip_FL zip_FR)
  from zip_color(1)[OF zip_right[OF this], of CL_MAP_RED]
  have "zip_at m h2 fs (Node c t p (Node CL_MAP_RED (Node CL_MAP_BLACK x v y) w wr))" by (simp add: h2_def zip_FR)
  note rot = rot_right_zip[OF zip_right[OF this], folded h3_def]
  have zp3: "zip_at m h3 fs (Node c t p (Node CL_MAP_BLACK x v (Node CL_MAP_RED y w wr)))" using rot(1) by (simp add: zip_FR)
  have z3: "zip_at m h3 (FL c p (Node CL_MAP_BLACK x v (Node CL_MAP_RED y w wr)) # fs) t" using zp3 by (simp add: zip_FL)
  note zv3 = zip_right[OF zp3]
  have X: "w \<in> ?X" "v \<in> ?X" by (simp_all add: zset_def)
  have "only_tree m ?X h h2" unfolding h2_def h1_def
    by (rule only_tree_trans[OF only_tree_color only_tree_color]) (use X zipD(6)[OF zw] zipD(6)[OF zv] in simp_all)
  moreover have "only_tree m ?X h2 h3" by (rule only_tree_eqI[OF rot(2)]) (simp add: zset_def)
  ultimately have o: "only_tree m ?X h h3" by (rule only_tree_trans)
  have up3: "p_up h3 (ptr m t) = p"
  proof (cases t)
    case Leaf
    then show ?thesis using rot(4) u by (simp add: h2_def h1_def)
  next
    case (Node c' l' a' r')
    then show ?thesis using zip_hole_up[OF z3] by simp
  qed
  have q: "p_right h3 p = v" "p_right h3 v = w" "color h3 w = CL_MAP_RED"
    using zipD[OF zp3] zipD[OF zv3] zipD[OF zip_right[OF zv3]] by simp_all
  have "del_rest_L m (ptr m t) w h = del_rest_L m (ptr m t) v h3"
    using pf u up3 q unfolding del_rest_L_def by (simp add: Let_def h1_def[symmetric] h2_def[symmetric] h3_def[symmetric])
  moreover have "color h3 (nil m) = color h (nil m)" using zipD(5)[OF zw] zipD(5)[OF zv] by (simp add: rot(3) h2_def h1_def)
  ultimately show ?thesis using z3 up3 o by blast
qed

definition del_red_R :: "cl_qmap \<Rightarrow> addr \<Rightarrow> cl_heap \<Rightarrow> addr \<times> cl_heap" where
  "del_red_R m item h =
     (let uncle = p_left h (p_up h item)
      in if color h uncle = CL_MAP_RED
         then let h = set_color uncle CL_MAP_BLACK h;
                  h = set_color (p_up h item) CL_MAP_RED h;
                  h = cl_map_rot_right m (p_up h item) h
              in (p_left h (p_up h item), h)
         else (uncle, h))"

definition del_rest_R :: "cl_qmap \<Rightarrow> addr \<Rightarrow> addr \<Rightarrow> cl_heap \<Rightarrow> (addr \<times> cl_heap) option" where
  "del_rest_R m item uncle h =
     (if color h (p_left h uncle) \<noteq> CL_MAP_RED \<and> color h (p_right h uncle) \<noteq> CL_MAP_RED
      then let h = set_color uncle CL_MAP_RED h in cl_map_del_bal_loop m (p_up h item) h
      else let (uncle, h) = (if color h (p_left h uncle) \<noteq> CL_MAP_RED
                             then let h = set_color (p_right h uncle) CL_MAP_BLACK h;
                                      h = set_color uncle CL_MAP_RED h;
                                      h = cl_map_rot_left m uncle h
                                  in (p_left h (p_up h item), h)
                             else (uncle, h));
               h = set_color uncle (color h (p_up h item)) h;
               h = set_color (p_up h item) CL_MAP_BLACK h;
               h = set_color (p_left h uncle) CL_MAP_BLACK h;
               h = cl_map_rot_right m (p_up h item) h
           in Some (item, h))"

lemma del_R_red:
  assumes z: "zip_at m h (FR CL_MAP_BLACK (Node CL_MAP_RED wr w wl) p # fs) t" and u: "p_up h (ptr m t) = p"
  shows "\<exists>h'. del_red_R m (ptr m t) h = (ptr m wl, h') \<and> zip_at m h' (FR CL_MAP_RED wl p # FR CL_MAP_BLACK wr w # fs) t \<and>
    p_up h' (ptr m t) = p \<and> only_tree m (zset (FR CL_MAP_BLACK (Node CL_MAP_RED wr w wl) p # fs) t) h h' \<and> color h' (nil m) = color h (nil m)"
proof -
  let ?X = "zset (FR CL_MAP_BLACK (Node CL_MAP_RED wr w wl) p # fs) t"
  have zp: "zip_at m h fs (Node CL_MAP_BLACK (Node CL_MAP_RED wr w wl) p t)" using z by (simp add: zip_FR)
  note zw = zip_left[OF zp]
  have pf: "p_left h p = w" "color h w = CL_MAP_RED" using zipD[OF zp] zipD[OF zw] by simp_all
  define h1 where "h1 = set_color w CL_MAP_BLACK h"
  define h2 where "h2 = set_color p CL_MAP_RED h1"
  define h3 where "h3 = cl_map_rot_right m p h2"
  have "zip_at m h1 fs (Node CL_MAP_BLACK (Node CL_MAP_BLACK wr w wl) p t)" using zip_color(1)[OF zw, of CL_MAP_BLACK] by (simp add: h1_def zip_FL)
  from zip_color(1)[OF this, of CL_MAP_RED] have z2: "zip_at m h2 fs (Node CL_MAP_RED (Node CL_MAP_BLACK wr w wl) p t)" by (simp add: h2_def)
  note rot = rot_right_zip[OF z2, folded h3_def]
  have z3: "zip_at m h3 (FR CL_MAP_RED wl p # FR CL_MAP_BLACK wr w # fs) t" using rot(1) by (simp add: zip_FR)
  have X: "p \<in> ?X" "w \<in> ?X" "zset fs (Node CL_MAP_RED (Node CL_MAP_BLACK wr w wl) p t) = ?X" by (simp_all add: zset_def)
  have "only_tree m ?X h h2" unfolding h2_def h1_def
    by (rule only_tree_trans[OF only_tree_color only_tree_color]) (use X zipD(6)[OF zp] zipD(6)[OF zw] in simp_all)
  then have o: "only_tree m ?X h h3" using rot(2) X(3) only_tree_trans by metis
  have up3: "p_up h3 (ptr m t) = p"
  proof (cases t)
    case Leaf
    then show ?thesis using rot(4) u by (simp add: h2_def h1_def)
  next
    case (Node c' l' a' r')
    then show ?thesis using zip_hole_up[OF z3] by simp
  qed
  have o3: "p_left h3 p = ptr m wl" using z3 by (simp add: zip_at_def)
  have "del_red_R m (ptr m t) h = (ptr m wl, h3)"
    using pf u up3 o3 unfolding del_red_R_def h3_def h2_def h1_def by (simp add: Let_def)
  moreover have "color h3 (nil m) = color h (nil m)" using zipD(5)[OF zp] zipD(5)[OF zw] by (simp add: rot(3) h2_def h1_def)
  ultimately show ?thesis using z3 up3 o by blast
qed

lemma del_R_both:
  assumes z: "zip_at m h (FR c (Node CL_MAP_BLACK wr w wl) p # fs) t" and u: "p_up h (ptr m t) = p" and n: "color h (nil m) = CL_MAP_BLACK"
    and b: "tcol wl = CL_MAP_BLACK" "tcol wr = CL_MAP_BLACK"
  shows "\<exists>h'. del_rest_R m (ptr m t) w h = cl_map_del_bal_loop m p h' \<and> zip_at m h' fs (Node c (Node CL_MAP_RED wr w wl) p t) \<and>
    only_tree m (zset (FR c (Node CL_MAP_BLACK wr w wl) p # fs) t) h h' \<and> color h' (nil m) = color h (nil m)"
proof -
  have zp: "zip_at m h fs (Node c (Node CL_MAP_BLACK wr w wl) p t)" using z by (simp add: zip_FR)
  note zw = zip_left[OF zp]
  have cc: "color h (p_left h w) = CL_MAP_BLACK" "color h (p_right h w) = CL_MAP_BLACK"
    using zip_color_ptr[OF zip_right[OF zw] n] zip_color_ptr[OF zip_left[OF zw] n] b zipD[OF zw] by simp_all
  have z1: "zip_at m (set_color w CL_MAP_RED h) fs (Node c (Node CL_MAP_RED wr w wl) p t)"
    using zip_color(1)[OF zw, of CL_MAP_RED] by (simp add: zip_FL)
  have "del_rest_R m (ptr m t) w h = cl_map_del_bal_loop m p (set_color w CL_MAP_RED h)"
    using cc u by (simp add: del_rest_R_def Let_def)
  moreover have "only_tree m (zset (FR c (Node CL_MAP_BLACK wr w wl) p # fs) t) h (set_color w CL_MAP_RED h)"
    by (rule only_tree_color) (use zipD(6)[OF zw] in \<open>simp_all add: zset_def\<close>)
  ultimately show ?thesis using z1 zipD(5)[OF zw] by (intro exI[of _ "set_color w CL_MAP_RED h"]) simp
qed

lemma del_R_outer:
  assumes z: "zip_at m h (FR c (Node CL_MAP_BLACK (Node CL_MAP_RED x v y) w wl) p # fs) t" and u: "p_up h (ptr m t) = p"
  shows "\<exists>h'. del_rest_R m (ptr m t) w h = Some (ptr m t, h') \<and> zip_at m h' fs (Node c (Node CL_MAP_BLACK x v y) w (Node CL_MAP_BLACK wl p t)) \<and>
    only_tree m (zset (FR c (Node CL_MAP_BLACK (Node CL_MAP_RED x v y) w wl) p # fs) t) h h' \<and> color h' (nil m) = color h (nil m)"
proof -
  let ?X = "zset (FR c (Node CL_MAP_BLACK (Node CL_MAP_RED x v y) w wl) p # fs) t"
  have zp: "zip_at m h fs (Node c (Node CL_MAP_BLACK (Node CL_MAP_RED x v y) w wl) p t)" using z by (simp add: zip_FR)
  note zw = zip_left[OF zp]
  note zv = zip_left[OF zw]
  have pf: "p_left h w = v" "color h v = CL_MAP_RED" "color h p = c" using zipD[OF zp] zipD[OF zw] zipD[OF zv] by simp_all
  define h1 where "h1 = set_color w c h"
  define h2 where "h2 = set_color p CL_MAP_BLACK h1"
  define h3 where "h3 = set_color v CL_MAP_BLACK h2"
  define h4 where "h4 = cl_map_rot_right m p h3"
  have "zip_at m h1 fs (Node c (Node c (Node CL_MAP_RED x v y) w wl) p t)" using zip_color(1)[OF zw, of c] by (simp add: h1_def zip_FL)
  from zip_color(1)[OF this, of CL_MAP_BLACK] have "zip_at m h2 fs (Node CL_MAP_BLACK (Node c (Node CL_MAP_RED x v y) w wl) p t)" by (simp add: h2_def)
  from zip_color(1)[OF zip_left[OF zip_left[OF this]], of CL_MAP_BLACK]
  have z3: "zip_at m h3 fs (Node CL_MAP_BLACK (Node c (Node CL_MAP_BLACK x v y) w wl) p t)" by (simp add: h3_def zip_FL)
  note rot = rot_right_zip[OF z3, folded h4_def]
  have X: "w \<in> ?X" "p \<in> ?X" "v \<in> ?X" "zset fs (Node CL_MAP_BLACK (Node c (Node CL_MAP_BLACK x v y) w wl) p t) = ?X" by (simp_all add: zset_def)
  have "only_tree m ?X h h3" unfolding h3_def h2_def h1_def
    by (rule only_tree_trans[OF only_tree_trans[OF only_tree_color only_tree_color] only_tree_color])
      (use X zipD(6)[OF zp] zipD(6)[OF zw] zipD(6)[OF zv] in simp_all)
  then have o: "only_tree m ?X h h4" using rot(2) X(4) only_tree_trans by metis
  have "del_rest_R m (ptr m t) w h = Some (ptr m t, h4)"
    using pf u unfolding del_rest_R_def h4_def h3_def h2_def h1_def by (simp add: Let_def)
  moreover have "color h4 (nil m) = color h (nil m)" using zipD(5)[OF zp] zipD(5)[OF zw] zipD(5)[OF zv] by (simp add: rot(3) h3_def h2_def h1_def)
  ultimately show ?thesis using rot(1) o by blast
qed

lemma del_R_inner:
  assumes z: "zip_at m h (FR c (Node CL_MAP_BLACK wr w (Node CL_MAP_RED y v x)) p # fs) t" and u: "p_up h (ptr m t) = p"
    and n: "color h (nil m) = CL_MAP_BLACK" and b: "tcol wr = CL_MAP_BLACK"
  shows "\<exists>h'. del_rest_R m (ptr m t) w h = del_rest_R m (ptr m t) v h' \<and>
    zip_at m h' (FR c (Node CL_MAP_BLACK (Node CL_MAP_RED wr w y) v x) p # fs) t \<and> p_up h' (ptr m t) = p \<and>
    only_tree m (zset (FR c (Node CL_MAP_BLACK wr w (Node CL_MAP_RED y v x)) p # fs) t) h h' \<and> color h' (nil m) = color h (nil m)"
proof -
  let ?X = "zset (FR c (Node CL_MAP_BLACK wr w (Node CL_MAP_RED y v x)) p # fs) t"
  have zp: "zip_at m h fs (Node c (Node CL_MAP_BLACK wr w (Node CL_MAP_RED y v x)) p t)" using z by (simp add: zip_FR)
  note zw = zip_left[OF zp]
  note zv = zip_right[OF zw]
  have pf: "p_right h w = v" "color h v = CL_MAP_RED" "color h (p_left h w) = CL_MAP_BLACK" "p_left h p = w"
    using zipD[OF zp] zipD[OF zw] zipD[OF zv] zip_color_ptr[OF zip_left[OF zw] n] b by simp_all
  define h1 where "h1 = set_color v CL_MAP_BLACK h"
  define h2 where "h2 = set_color w CL_MAP_RED h1"
  define h3 where "h3 = cl_map_rot_left m w h2"
  have "zip_at m h1 fs (Node c (Node CL_MAP_BLACK wr w (Node CL_MAP_BLACK y v x)) p t)" using zip_color(1)[OF zv, of CL_MAP_BLACK] by (simp add: h1_def zip_FL zip_FR)
  from zip_color(1)[OF zip_left[OF this], of CL_MAP_RED]
  have "zip_at m h2 fs (Node c (Node CL_MAP_RED wr w (Node CL_MAP_BLACK y v x)) p t)" by (simp add: h2_def zip_FL)
  note rot = rot_left_zip[OF zip_left[OF this], folded h3_def]
  have zp3: "zip_at m h3 fs (Node c (Node CL_MAP_BLACK (Node CL_MAP_RED wr w y) v x) p t)" using rot(1) by (simp add: zip_FL)
  have z3: "zip_at m h3 (FR c (Node CL_MAP_BLACK (Node CL_MAP_RED wr w y) v x) p # fs) t" using zp3 by (simp add: zip_FR)
  note zv3 = zip_left[OF zp3]
  have X: "w \<in> ?X" "v \<in> ?X" by (simp_all add: zset_def)
  have "only_tree m ?X h h2" unfolding h2_def h1_def
    by (rule only_tree_trans[OF only_tree_color only_tree_color]) (use X zipD(6)[OF zw] zipD(6)[OF zv] in simp_all)
  moreover have "only_tree m ?X h2 h3" by (rule only_tree_eqI[OF rot(2)]) (simp add: zset_def)
  ultimately have o: "only_tree m ?X h h3" by (rule only_tree_trans)
  have up3: "p_up h3 (ptr m t) = p"
  proof (cases t)
    case Leaf
    then show ?thesis using rot(4) u by (simp add: h2_def h1_def)
  next
    case (Node c' l' a' r')
    then show ?thesis using zip_hole_up[OF z3] by simp
  qed
  have q: "p_left h3 p = v" "p_left h3 v = w" "color h3 w = CL_MAP_RED"
    using zipD[OF zp3] zipD[OF zv3] zipD[OF zip_left[OF zv3]] by simp_all
  have "del_rest_R m (ptr m t) w h = del_rest_R m (ptr m t) v h3"
    using pf u up3 q unfolding del_rest_R_def by (simp add: Let_def h1_def[symmetric] h2_def[symmetric] h3_def[symmetric])
  moreover have "color h3 (nil m) = color h (nil m)" using zipD(5)[OF zw] zipD(5)[OF zv] by (simp add: rot(3) h2_def h1_def)
  ultimately show ?thesis using z3 up3 o by blast
qed

lemma del_loop_unfold:
  "cl_map_del_bal_loop m item h =
     (if \<not> (color h item \<noteq> CL_MAP_RED \<and> p_up h item \<noteq> root m) then Some (item, h)
      else if cl_map_is_left_child h item then (case del_red_L m item h of (uncle, h) \<Rightarrow> del_rest_L m item uncle h)
      else (case del_red_R m item h of (uncle, h) \<Rightarrow> del_rest_R m item uncle h))"
  by (subst cl_map_del_bal_loop.simps) (simp add: del_red_L_def del_red_R_def del_rest_L_def del_rest_R_def Let_def case_prod_beta)

fun hgt :: "cl_map_color \<Rightarrow> nat \<Rightarrow> nat" where
  "hgt CL_MAP_RED n = n"
| "hgt CL_MAP_BLACK n = Suc n"

fun paint :: "cl_map_color \<Rightarrow> ptree \<Rightarrow> ptree" where
  "paint c Leaf = Leaf"
| "paint c (Node d l a r) = Node c l a r"

lemma inorder_paint [simp]: "inorder (paint c t) = inorder t" and ptr_paint [simp]: "ptr m (paint c t) = ptr m t"
  and tcol_paint: "t \<noteq> Leaf \<Longrightarrow> tcol (paint c t) = c" and tcol_paint_black [simp]: "tcol (paint CL_MAP_BLACK t) = CL_MAP_BLACK"
  by (cases t; simp)+

lemma rbt_paint: "rbt n t \<Longrightarrow> tcol t = CL_MAP_RED \<Longrightarrow> rbt (Suc n) (paint CL_MAP_BLACK t)"
  by (cases t) auto

lemma rbc_frame:
  "rbc n (FL c a r # fs) \<longleftrightarrow> rbt n r \<and> rbc (hgt c n) fs \<and> (c = CL_MAP_RED \<longrightarrow> fs \<noteq> [] \<and> ctxc fs = CL_MAP_BLACK \<and> tcol r = CL_MAP_BLACK)"
  "rbc n (FR c l a # fs) \<longleftrightarrow> rbt n l \<and> rbc (hgt c n) fs \<and> (c = CL_MAP_RED \<longrightarrow> fs \<noteq> [] \<and> ctxc fs = CL_MAP_BLACK \<and> tcol l = CL_MAP_BLACK)"
  by (cases c; auto)+

lemma tcol_plug: "rbc n fs \<Longrightarrow> fs \<noteq> [] \<or> tcol t = CL_MAP_BLACK \<Longrightarrow> tcol (plug fs t) = CL_MAP_BLACK"
proof (induction fs t arbitrary: n rule: plug.induct)
  case (2 c a r fs t)
  then show ?case by (cases c) (auto simp: rbc_frame)
next
  case (3 c l a fs t)
  then show ?case by (cases c) (auto simp: rbc_frame)
qed auto

lemma hp_root: "zip_at m h fs t \<Longrightarrow> hp m fs = root m \<longleftrightarrow> fs = []"
  by (cases "(m, fs)" rule: hp.cases) (auto simp: zip_at_def dist_def)

lemma zip_paint: "zip_at m h fs t \<Longrightarrow> color h (nil m) = CL_MAP_BLACK \<Longrightarrow> zip_at m (set_color (ptr m t) CL_MAP_BLACK h) fs (paint CL_MAP_BLACK t)"
  using zip_color(1) by (cases t) (auto simp: set_color_same)

lemma paint_only_tree: "zip_at m h fs t \<Longrightarrow> only_tree m (zset fs t) h (set_color (ptr m t) CL_MAP_BLACK h)"
  by (cases t) (auto simp: only_tree_def zip_at_def dist_def zset_def)

text \<open>What one round does when the sibling is black: the tree is in order, or the hole has moved up.\<close>

definition del_round :: "cl_qmap \<Rightarrow> cl_heap \<Rightarrow> nat \<Rightarrow> frame list \<Rightarrow> cl_map_color \<Rightarrow> ptree \<Rightarrow> addr list \<Rightarrow> (addr \<times> cl_heap) option \<Rightarrow> bool" where
  "del_round m h n fs c t xs res \<longleftrightarrow>
     (\<exists>h' T'. zip_at m h' fs T' \<and> inorder T' = xs \<and> T' \<noteq> Leaf \<and> tcol T' = c \<and> only_tree m (set (lctx fs @ xs @ rctx fs)) h h' \<and>
        color h' (nil m) = CL_MAP_BLACK \<and>
        (res = Some (ptr m t, h') \<and> color h' (ptr m t) = CL_MAP_BLACK \<and> rbt (hgt c (Suc n)) T' \<or>
         res = cl_map_del_bal_loop m (ptr m T') h' \<and> rbt (Suc n) (paint CL_MAP_BLACK T')))"

text \<open>The same after a red sibling has been rotated up, if there is one; the round is over at a red parent.\<close>

definition del_step :: "cl_qmap \<Rightarrow> cl_heap \<Rightarrow> nat \<Rightarrow> frame list \<Rightarrow> ptree \<Rightarrow> bool" where
  "del_step m h n fs t \<longleftrightarrow>
     (\<exists>h2 c2 fs2 xs. del_round m h2 n fs2 c2 t xs (cl_map_del_bal_loop m (ptr m t) h) \<and> rbc (hgt c2 (Suc n)) fs2 \<and>
        (c2 = CL_MAP_RED \<longrightarrow> fs2 \<noteq> [] \<and> ctxc fs2 = CL_MAP_BLACK) \<and> lctx fs2 @ xs @ rctx fs2 = lctx fs @ inorder t @ rctx fs \<and>
        only_tree m (zset fs t) h h2 \<and> (c2 = CL_MAP_BLACK \<longrightarrow> length fs2 < length fs))"

lemma del_L_round_outer:
  assumes z: "zip_at m h (FL c p (Node CL_MAP_BLACK wl w (Node CL_MAP_RED x v y)) # fs) t" and u: "p_up h (ptr m t) = p" and n: "color h (nil m) = CL_MAP_BLACK"
    and r: "rbt n t" "tcol t = CL_MAP_BLACK" "rbt (Suc n) (Node CL_MAP_BLACK wl w (Node CL_MAP_RED x v y))"
  shows "del_round m h n fs c t (inorder t @ p # inorder (Node CL_MAP_BLACK wl w (Node CL_MAP_RED x v y))) (del_rest_L m (ptr m t) w h)"
proof -
  obtain h' where h': "del_rest_L m (ptr m t) w h = Some (ptr m t, h')"
    "zip_at m h' fs (Node c (Node CL_MAP_BLACK t p wl) w (Node CL_MAP_BLACK x v y))"
    "only_tree m (zset (FL c p (Node CL_MAP_BLACK wl w (Node CL_MAP_RED x v y)) # fs) t) h h'" "color h' (nil m) = color h (nil m)"
    using del_L_outer[OF z u] by blast
  have "color h' (ptr m t) = CL_MAP_BLACK" using zip_color_ptr[OF zip_left[OF zip_left[OF h'(2)]]] h'(4) n r(2) by simp
  moreover have "rbt (hgt c (Suc n)) (Node c (Node CL_MAP_BLACK t p wl) w (Node CL_MAP_BLACK x v y))" using r by (cases c) auto
  ultimately show ?thesis unfolding del_round_def using h' n
    by (intro exI[of _ h'] exI[of _ "Node c (Node CL_MAP_BLACK t p wl) w (Node CL_MAP_BLACK x v y)"]) (simp add: zset_def)
qed

lemma del_L_round:
  assumes z: "zip_at m h (FL c p s # fs) t" and u: "p_up h (ptr m t) = p" and n: "color h (nil m) = CL_MAP_BLACK"
    and r: "rbt n t" "tcol t = CL_MAP_BLACK" "rbt (Suc n) s" "tcol s = CL_MAP_BLACK"
  shows "del_round m h n fs c t (inorder t @ p # inorder s) (del_rest_L m (ptr m t) (ptr m s) h)"
proof -
  obtain wl w wr where s: "s = Node CL_MAP_BLACK wl w wr" using r(3,4) by (cases s) auto
  note z = z[unfolded s] and r = r[unfolded s]
  consider (both) "tcol wl = CL_MAP_BLACK" "tcol wr = CL_MAP_BLACK" | (outer) x v y where "wr = Node CL_MAP_RED x v y"
    | (inner) x v y where "wl = Node CL_MAP_RED x v y" "tcol wr = CL_MAP_BLACK"
    by (cases wl; cases wr) (metis cl_map_color.exhaust tcol.simps)+
  then show ?thesis
  proof cases
    case both
    obtain h' where h': "del_rest_L m (ptr m t) w h = cl_map_del_bal_loop m p h'" "zip_at m h' fs (Node c t p (Node CL_MAP_RED wl w wr))"
      "only_tree m (zset (FL c p (Node CL_MAP_BLACK wl w wr) # fs) t) h h'" "color h' (nil m) = color h (nil m)"
      using del_L_both[OF z u n both] by blast
    have "rbt (Suc n) (Node CL_MAP_BLACK t p (Node CL_MAP_RED wl w wr))" using r both by simp
    then show ?thesis unfolding del_round_def s using h' n
      by (intro exI[of _ h'] exI[of _ "Node c t p (Node CL_MAP_RED wl w wr)"]) (simp add: zset_def)
  next
    case outer
    show ?thesis using del_L_round_outer[OF z[unfolded outer] u n r(1,2)] r(3) outer s by simp
  next
    case inner
    obtain h' where h': "del_rest_L m (ptr m t) w h = del_rest_L m (ptr m t) v h'"
      "zip_at m h' (FL c p (Node CL_MAP_BLACK x v (Node CL_MAP_RED y w wr)) # fs) t" "p_up h' (ptr m t) = p"
      "only_tree m (zset (FL c p (Node CL_MAP_BLACK (Node CL_MAP_RED x v y) w wr) # fs) t) h h'" "color h' (nil m) = color h (nil m)"
      using del_L_inner[OF z[unfolded inner] u n inner(2)] by blast
    have n': "color h' (nil m) = CL_MAP_BLACK" using h'(5) n by simp
    have r': "rbt (Suc n) (Node CL_MAP_BLACK x v (Node CL_MAP_RED y w wr))" using r(3) inner by simp
    from del_L_round_outer[OF h'(2,3) n' r(1,2) r'] obtain h2 T2 where T2: "zip_at m h2 fs T2" "inorder T2 = inorder t @ p # inorder (Node CL_MAP_BLACK x v (Node CL_MAP_RED y w wr))"
      "T2 \<noteq> Leaf" "tcol T2 = c" "only_tree m (set (lctx fs @ (inorder t @ p # inorder (Node CL_MAP_BLACK x v (Node CL_MAP_RED y w wr))) @ rctx fs)) h' h2" "color h2 (nil m) = CL_MAP_BLACK"
      "del_rest_L m (ptr m t) v h' = Some (ptr m t, h2) \<and> color h2 (ptr m t) = CL_MAP_BLACK \<and> rbt (hgt c (Suc n)) T2 \<or>
       del_rest_L m (ptr m t) v h' = cl_map_del_bal_loop m (ptr m T2) h2 \<and> rbt (Suc n) (paint CL_MAP_BLACK T2)"
      unfolding del_round_def by blast
    have o1: "only_tree m (set (lctx fs @ (inorder t @ p # inorder s) @ rctx fs)) h h'"
      by (rule only_tree_eqI[OF h'(4)]) (auto simp: zset_def s inner)
    have o2: "only_tree m (set (lctx fs @ (inorder t @ p # inorder s) @ rctx fs)) h' h2"
      by (rule only_tree_eqI[OF T2(5)]) (auto simp: s inner)
    show ?thesis unfolding del_round_def
      using T2(1-4,6,7) only_tree_trans[OF o1 o2] h'(1) s inner by (intro exI[of _ h2] exI[of _ T2]) auto
  qed
qed

lemma del_R_round_outer:
  assumes z: "zip_at m h (FR c (Node CL_MAP_BLACK (Node CL_MAP_RED x v y) w wl) p # fs) t" and u: "p_up h (ptr m t) = p" and n: "color h (nil m) = CL_MAP_BLACK"
    and r: "rbt n t" "tcol t = CL_MAP_BLACK" "rbt (Suc n) (Node CL_MAP_BLACK (Node CL_MAP_RED x v y) w wl)"
  shows "del_round m h n fs c t (inorder (Node CL_MAP_BLACK (Node CL_MAP_RED x v y) w wl) @ p # inorder t) (del_rest_R m (ptr m t) w h)"
proof -
  obtain h' where h': "del_rest_R m (ptr m t) w h = Some (ptr m t, h')"
    "zip_at m h' fs (Node c (Node CL_MAP_BLACK x v y) w (Node CL_MAP_BLACK wl p t))"
    "only_tree m (zset (FR c (Node CL_MAP_BLACK (Node CL_MAP_RED x v y) w wl) p # fs) t) h h'" "color h' (nil m) = color h (nil m)"
    using del_R_outer[OF z u] by blast
  have "color h' (ptr m t) = CL_MAP_BLACK" using zip_color_ptr[OF zip_right[OF zip_right[OF h'(2)]]] h'(4) n r(2) by simp
  moreover have "rbt (hgt c (Suc n)) (Node c (Node CL_MAP_BLACK x v y) w (Node CL_MAP_BLACK wl p t))" using r by (cases c) auto
  ultimately show ?thesis unfolding del_round_def using h' n
    by (intro exI[of _ h'] exI[of _ "Node c (Node CL_MAP_BLACK x v y) w (Node CL_MAP_BLACK wl p t)"]) (simp add: zset_def)
qed

lemma del_R_round:
  assumes z: "zip_at m h (FR c s p # fs) t" and u: "p_up h (ptr m t) = p" and n: "color h (nil m) = CL_MAP_BLACK"
    and r: "rbt n t" "tcol t = CL_MAP_BLACK" "rbt (Suc n) s" "tcol s = CL_MAP_BLACK"
  shows "del_round m h n fs c t (inorder s @ p # inorder t) (del_rest_R m (ptr m t) (ptr m s) h)"
proof -
  obtain wl w wr where s: "s = Node CL_MAP_BLACK wr w wl" using r(3,4) by (cases s) auto
  note z = z[unfolded s] and r = r[unfolded s]
  consider (both) "tcol wl = CL_MAP_BLACK" "tcol wr = CL_MAP_BLACK" | (outer) x v y where "wr = Node CL_MAP_RED x v y"
    | (inner) x v y where "wl = Node CL_MAP_RED y v x" "tcol wr = CL_MAP_BLACK"
    by (cases wl; cases wr) (metis cl_map_color.exhaust tcol.simps)+
  then show ?thesis
  proof cases
    case both
    obtain h' where h': "del_rest_R m (ptr m t) w h = cl_map_del_bal_loop m p h'" "zip_at m h' fs (Node c (Node CL_MAP_RED wr w wl) p t)"
      "only_tree m (zset (FR c (Node CL_MAP_BLACK wr w wl) p # fs) t) h h'" "color h' (nil m) = color h (nil m)"
      using del_R_both[OF z u n both] by blast
    have "rbt (Suc n) (Node CL_MAP_BLACK (Node CL_MAP_RED wr w wl) p t)" using r both by simp
    then show ?thesis unfolding del_round_def s using h' n
      by (intro exI[of _ h'] exI[of _ "Node c (Node CL_MAP_RED wr w wl) p t"]) (simp add: zset_def)
  next
    case outer
    show ?thesis using del_R_round_outer[OF z[unfolded outer] u n r(1,2)] r(3) outer s by simp
  next
    case inner
    obtain h' where h': "del_rest_R m (ptr m t) w h = del_rest_R m (ptr m t) v h'"
      "zip_at m h' (FR c (Node CL_MAP_BLACK (Node CL_MAP_RED wr w y) v x) p # fs) t" "p_up h' (ptr m t) = p"
      "only_tree m (zset (FR c (Node CL_MAP_BLACK wr w (Node CL_MAP_RED y v x)) p # fs) t) h h'" "color h' (nil m) = color h (nil m)"
      using del_R_inner[OF z[unfolded inner] u n inner(2)] by blast
    have n': "color h' (nil m) = CL_MAP_BLACK" using h'(5) n by simp
    have r': "rbt (Suc n) (Node CL_MAP_BLACK (Node CL_MAP_RED wr w y) v x)" using r(3) inner by simp
    from del_R_round_outer[OF h'(2,3) n' r(1,2) r'] obtain h2 T2 where T2: "zip_at m h2 fs T2" "inorder T2 = inorder (Node CL_MAP_BLACK (Node CL_MAP_RED wr w y) v x) @ p # inorder t"
      "T2 \<noteq> Leaf" "tcol T2 = c" "only_tree m (set (lctx fs @ (inorder (Node CL_MAP_BLACK (Node CL_MAP_RED wr w y) v x) @ p # inorder t) @ rctx fs)) h' h2" "color h2 (nil m) = CL_MAP_BLACK"
      "del_rest_R m (ptr m t) v h' = Some (ptr m t, h2) \<and> color h2 (ptr m t) = CL_MAP_BLACK \<and> rbt (hgt c (Suc n)) T2 \<or>
       del_rest_R m (ptr m t) v h' = cl_map_del_bal_loop m (ptr m T2) h2 \<and> rbt (Suc n) (paint CL_MAP_BLACK T2)"
      unfolding del_round_def by blast
    have o1: "only_tree m (set (lctx fs @ (inorder s @ p # inorder t) @ rctx fs)) h h'"
      by (rule only_tree_eqI[OF h'(4)]) (auto simp: zset_def s inner)
    have o2: "only_tree m (set (lctx fs @ (inorder s @ p # inorder t) @ rctx fs)) h' h2"
      by (rule only_tree_eqI[OF T2(5)]) (auto simp: s inner)
    show ?thesis unfolding del_round_def
      using T2(1-4,6,7) only_tree_trans[OF o1 o2] h'(1) s inner by (intro exI[of _ h2] exI[of _ T2]) auto
  qed
qed

lemma del_L_first:
  assumes z: "zip_at m h (FL cc p s # fs) t" and u: "p_up h (ptr m t) = p" and n: "color h (nil m) = CL_MAP_BLACK"
    and r: "rbt n t" "tcol t = CL_MAP_BLACK" and c: "rbc (Suc n) (FL cc p s # fs)"
  shows "del_step m h n (FL cc p s # fs) t"
proof -
  have s: "rbt (Suc n) s" "rbc (hgt cc (Suc n)) fs" "cc = CL_MAP_RED \<longrightarrow> fs \<noteq> [] \<and> ctxc fs = CL_MAP_BLACK \<and> tcol s = CL_MAP_BLACK"
    using c by (simp_all add: rbc_frame)
  have sl: "s \<noteq> Leaf" using s(1) by auto
  have lc: "cl_map_is_left_child h (ptr m t) \<longleftrightarrow> True" using left_child_iff[OF z] u sl by simp
  have pr: "p \<noteq> root m" using z by (simp add: zip_at_def dist_def)
  have loop: "cl_map_del_bal_loop m (ptr m t) h = (case del_red_L m (ptr m t) h of (uncle, h) \<Rightarrow> del_rest_L m (ptr m t) uncle h)"
    using lc pr u zip_color_ptr[OF z n] r(2) by (subst del_loop_unfold) simp
  show ?thesis
  proof (cases "tcol s")
    case CL_MAP_BLACK
    have zp: "zip_at m h fs (Node cc t p s)" using z by (simp add: zip_FL)
    have "p_right h p = ptr m s" "color h (ptr m s) = CL_MAP_BLACK"
      using zipD[OF zp] zip_color_ptr[OF zip_right[OF zp] n] CL_MAP_BLACK by simp_all
    then have "del_red_L m (ptr m t) h = (ptr m s, h)" using u by (simp add: del_red_L_def Let_def)
    then show ?thesis unfolding del_step_def
      using del_L_round[OF z u n r s(1) CL_MAP_BLACK] loop s
      by (intro exI[of _ h] exI[of _ cc] exI[of _ fs] exI[of _ "inorder t @ p # inorder s"]) auto
  next
    case CL_MAP_RED
    then obtain wl w wr where w: "s = Node CL_MAP_RED wl w wr" using sl by (cases s) auto
    have cb: "cc = CL_MAP_BLACK" using s(3) CL_MAP_RED by (cases cc) auto
    obtain h' where h': "del_red_L m (ptr m t) h = (ptr m wl, h')" "zip_at m h' (FL CL_MAP_RED p wl # FL CL_MAP_BLACK w wr # fs) t"
      "p_up h' (ptr m t) = p" "only_tree m (zset (FL CL_MAP_BLACK p (Node CL_MAP_RED wl w wr) # fs) t) h h'" "color h' (nil m) = color h (nil m)"
      using del_L_red[OF z[unfolded w cb] u] by blast
    have n': "color h' (nil m) = CL_MAP_BLACK" using h'(5) n by simp
    have wl: "rbt (Suc n) wl" "tcol wl = CL_MAP_BLACK" "rbt (Suc n) wr" using s(1) w by auto
    show ?thesis unfolding del_step_def
      using del_L_round[OF h'(2,3) n' r wl(1,2)] loop h'(1,4) s(2) wl w cb
      by (intro exI[of _ h'] exI[of _ CL_MAP_RED] exI[of _ "FL CL_MAP_BLACK w wr # fs"] exI[of _ "inorder t @ p # inorder wl"]) (simp add: rbc_frame)
  qed
qed

lemma del_R_first:
  assumes z: "zip_at m h (FR cc s p # fs) t" and u: "p_up h (ptr m t) = p" and n: "color h (nil m) = CL_MAP_BLACK"
    and r: "rbt n t" "tcol t = CL_MAP_BLACK" and c: "rbc (Suc n) (FR cc s p # fs)"
  shows "del_step m h n (FR cc s p # fs) t"
proof -
  have s: "rbt (Suc n) s" "rbc (hgt cc (Suc n)) fs" "cc = CL_MAP_RED \<longrightarrow> fs \<noteq> [] \<and> ctxc fs = CL_MAP_BLACK \<and> tcol s = CL_MAP_BLACK"
    using c by (simp_all add: rbc_frame)
  have sl: "s \<noteq> Leaf" using s(1) by auto
  have lc: "cl_map_is_left_child h (ptr m t) \<longleftrightarrow> False" using left_child_iff[OF z] u sl by simp
  have pr: "p \<noteq> root m" using z by (simp add: zip_at_def dist_def)
  have loop: "cl_map_del_bal_loop m (ptr m t) h = (case del_red_R m (ptr m t) h of (uncle, h) \<Rightarrow> del_rest_R m (ptr m t) uncle h)"
    using lc pr u zip_color_ptr[OF z n] r(2) by (subst del_loop_unfold) simp
  show ?thesis
  proof (cases "tcol s")
    case CL_MAP_BLACK
    have zp: "zip_at m h fs (Node cc s p t)" using z by (simp add: zip_FR)
    have "p_left h p = ptr m s" "color h (ptr m s) = CL_MAP_BLACK"
      using zipD[OF zp] zip_color_ptr[OF zip_left[OF zp] n] CL_MAP_BLACK by simp_all
    then have "del_red_R m (ptr m t) h = (ptr m s, h)" using u by (simp add: del_red_R_def Let_def)
    then show ?thesis unfolding del_step_def
      using del_R_round[OF z u n r s(1) CL_MAP_BLACK] loop s
      by (intro exI[of _ h] exI[of _ cc] exI[of _ fs] exI[of _ "inorder s @ p # inorder t"]) auto
  next
    case CL_MAP_RED
    then obtain wl w wr where w: "s = Node CL_MAP_RED wr w wl" using sl by (cases s) auto
    have cb: "cc = CL_MAP_BLACK" using s(3) CL_MAP_RED by (cases cc) auto
    obtain h' where h': "del_red_R m (ptr m t) h = (ptr m wl, h')" "zip_at m h' (FR CL_MAP_RED wl p # FR CL_MAP_BLACK wr w # fs) t"
      "p_up h' (ptr m t) = p" "only_tree m (zset (FR CL_MAP_BLACK (Node CL_MAP_RED wr w wl) p # fs) t) h h'" "color h' (nil m) = color h (nil m)"
      using del_R_red[OF z[unfolded w cb] u] by blast
    have n': "color h' (nil m) = CL_MAP_BLACK" using h'(5) n by simp
    have wl: "rbt (Suc n) wl" "tcol wl = CL_MAP_BLACK" "rbt (Suc n) wr" using s(1) w by auto
    show ?thesis unfolding del_step_def
      using del_R_round[OF h'(2,3) n' r wl(1,2)] loop h'(1,4) s(2) wl w cb
      by (intro exI[of _ h'] exI[of _ CL_MAP_RED] exI[of _ "FR CL_MAP_BLACK wr w # fs"] exI[of _ "inorder wl @ p # inorder t"]) (simp add: rbc_frame)
  qed
qed

lemma round_finish:
  assumes z: "zip_at m h fs T" and i: "inorder T = xs" and b: "rbc k fs" "rbt k T'" "T' = T \<or> T' = paint CL_MAP_BLACK T" "ctxc fs = CL_MAP_RED \<Longrightarrow> tcol T' = CL_MAP_BLACK"
    "fs \<noteq> [] \<or> tcol T' = CL_MAP_BLACK" and z': "zip_at m h' fs T'"
  shows "\<exists>T j. zip_at m h' [] T \<and> inorder T = lctx fs @ xs @ rctx fs \<and> rbt j T \<and> tcol T = CL_MAP_BLACK"
proof -
  have "inorder T' = xs" using b(3) i by auto
  then show ?thesis using rbt_plug[OF b(1,2,4)] tcol_plug[OF b(1,5)] z' zip_plug[of m h' fs T'] inorder_plug[of fs T'] by metis
qed

text \<open>Balancing after a removal ends, keeps the order of the items and makes up for the missing black node above the hole.\<close>

lemma del_bal_zip:
  assumes "zip_at m h fs t" "p_up h (ptr m t) = hp m fs" "rbt n t" "rbc (Suc n) fs" "color h (nil m) = CL_MAP_BLACK"
  shows "\<exists>h' T k. cl_map_del_bal m (ptr m t) h = Some h' \<and> zip_at m h' [] T \<and> inorder T = lctx fs @ inorder t @ rctx fs \<and> rbt k T \<and>
    tcol T = CL_MAP_BLACK \<and> only_tree m (zset fs t) h h' \<and> color h' (nil m) = CL_MAP_BLACK"
  using assms
proof (induction "length fs" arbitrary: fs t n h rule: less_induct)
  case less
  note z = less.prems(1) and u = less.prems(2) and t = less.prems(3) and c = less.prems(4) and nb = less.prems(5)
  have col: "color h (ptr m t) = tcol t" by (rule zip_color_ptr[OF z nb])
  show ?case
  proof (cases "tcol t = CL_MAP_RED \<or> fs = []")
    case True
    let ?h = "set_color (ptr m t) CL_MAP_BLACK h"
    have stop: "cl_map_del_bal_loop m (ptr m t) h = Some (ptr m t, h)" using True col u hp_root[OF z] by (subst del_loop_unfold) auto
    have "\<exists>k. rbc k fs \<and> rbt k (paint CL_MAP_BLACK t)"
    proof (cases "tcol t = CL_MAP_RED")
      case True
      then show ?thesis using rbt_paint[OF t] c by blast
    next
      case F: False
      then have "paint CL_MAP_BLACK t = t" by (cases t; cases "tcol t") auto
      then show ?thesis using F True t by auto
    qed
    then obtain k where k: "rbc k fs" "rbt k (paint CL_MAP_BLACK t)" by blast
    have "color ?h (nil m) = CL_MAP_BLACK" using nb by simp
    then show ?thesis
      using stop round_finish[OF z refl k _ _ _ zip_paint[OF z nb]] paint_only_tree[OF z] by (auto simp: cl_map_del_bal_def)
  next
    case False
    then have tb: "tcol t = CL_MAP_BLACK" and fn: "fs \<noteq> []" by (cases "tcol t"; simp)+
    have "del_step m h n fs t"
    proof (cases "(m, fs)" rule: hp.cases)
      case (2 m' cc p s fs')
      then show ?thesis using del_L_first[of m h cc p s fs' t n] z u nb t tb c by simp
    next
      case (3 m' cc s p fs')
      then show ?thesis using del_R_first[of m h cc s p fs' t n] z u nb t tb c by simp
    qed (use fn in simp)
    then obtain h2 c2 fs2 xs where d: "del_round m h2 n fs2 c2 t xs (cl_map_del_bal_loop m (ptr m t) h)" "rbc (hgt c2 (Suc n)) fs2"
      "c2 = CL_MAP_RED \<longrightarrow> fs2 \<noteq> [] \<and> ctxc fs2 = CL_MAP_BLACK" "lctx fs2 @ xs @ rctx fs2 = lctx fs @ inorder t @ rctx fs"
      "only_tree m (zset fs t) h h2" "c2 = CL_MAP_BLACK \<longrightarrow> length fs2 < length fs" unfolding del_step_def by blast
    have X: "set (lctx fs2 @ xs @ rctx fs2) = zset fs t" using d(4) by (simp add: zset_def)
    from d(1) obtain h' T' where T': "zip_at m h' fs2 T'" "inorder T' = xs" "T' \<noteq> Leaf" "tcol T' = c2" "color h' (nil m) = CL_MAP_BLACK"
      and o: "only_tree m (zset fs t) h2 h'"
      and res: "cl_map_del_bal_loop m (ptr m t) h = Some (ptr m t, h') \<and> color h' (ptr m t) = CL_MAP_BLACK \<and> rbt (hgt c2 (Suc n)) T' \<or>
         cl_map_del_bal_loop m (ptr m t) h = cl_map_del_bal_loop m (ptr m T') h' \<and> rbt (Suc n) (paint CL_MAP_BLACK T')"
      unfolding del_round_def X by blast
    have ot: "only_tree m (zset fs t) h h'" using only_tree_trans[OF d(5) o] .
    have Z: "zset fs2 T' = zset fs t" using X T'(2) by (simp add: zset_def)
    from res show ?thesis
    proof (elim disjE conjE)
      assume l: "cl_map_del_bal_loop m (ptr m t) h = Some (ptr m t, h')" "color h' (ptr m t) = CL_MAP_BLACK" "rbt (hgt c2 (Suc n)) T'"
      have "cl_map_del_bal m (ptr m t) h = Some h'" using l by (simp add: cl_map_del_bal_def set_color_same)
      moreover have "\<exists>T j. zip_at m h' [] T \<and> inorder T = lctx fs2 @ xs @ rctx fs2 \<and> rbt j T \<and> tcol T = CL_MAP_BLACK"
        by (rule round_finish[OF T'(1,2) d(2) l(3) _ _ _ T'(1)]) (use d(3) T'(4) in \<open>cases c2; auto\<close>)+
      ultimately show ?thesis using d(4) ot T'(5) by auto
    next
      assume l: "cl_map_del_bal_loop m (ptr m t) h = cl_map_del_bal_loop m (ptr m T') h'" "rbt (Suc n) (paint CL_MAP_BLACK T')"
      have e: "cl_map_del_bal m (ptr m t) h = cl_map_del_bal m (ptr m T') h'" using l(1) by (simp add: cl_map_del_bal_def)
      show ?thesis
      proof (cases c2)
        case CL_MAP_BLACK
        have "paint CL_MAP_BLACK T' = T'" using T'(4) CL_MAP_BLACK by (cases T') auto
        moreover have "p_up h' (ptr m T') = hp m fs2" by (rule zip_hole_up[OF T'(1,3)])
        ultimately show ?thesis using less.hyps[OF _ T'(1) _ _ _ T'(5), of "Suc n"] d(2,4,6) CL_MAP_BLACK l(2) e T'(2) only_tree_trans[OF ot] Z by auto
      next
        case CL_MAP_RED
        let ?h = "set_color (ptr m T') CL_MAP_BLACK h'"
        have "color h' (ptr m T') = CL_MAP_RED" using zip_color_ptr[OF T'(1,5)] T'(4) CL_MAP_RED by simp
        then have "cl_map_del_bal_loop m (ptr m T') h' = Some (ptr m T', h')" by (subst del_loop_unfold) simp
        then have "cl_map_del_bal m (ptr m t) h = Some ?h" using e by (simp add: cl_map_del_bal_def)
        moreover have "\<exists>T j. zip_at m ?h [] T \<and> inorder T = lctx fs2 @ xs @ rctx fs2 \<and> rbt j T \<and> tcol T = CL_MAP_BLACK"
          by (rule round_finish[OF T'(1,2) _ l(2) _ _ _ zip_paint[OF T'(1,5)]]) (use d(2) CL_MAP_RED in auto)
        moreover have "only_tree m (zset fs t) h ?h" using only_tree_trans[OF ot] paint_only_tree[OF T'(1)] Z by simp
        moreover have "color ?h (nil m) = CL_MAP_BLACK" using T'(5) by simp
        ultimately show ?thesis using d(4) by metis
      qed
    qed
  qed
qed

section \<open>Splicing and exchanging nodes\<close>

lemma plug_append [simp]: "plug (fs @ gs) t = plug gs (plug fs t)"
  by (induction fs t rule: plug.induct) auto

lemma ctx_append [simp]: "lctx (fs @ gs) = lctx gs @ lctx fs" "rctx (fs @ gs) = rctx fs @ rctx gs"
  by (induction fs rule: lctx.induct) auto

lemma zip_append: "zip_at m h (fs @ gs) t \<longleftrightarrow> zip_at m h gs (plug fs t)"
  by (induction fs t rule: plug.induct) (simp_all add: zip_FL zip_FR)

lemma leftmost:
  assumes "t \<noteq> Leaf"
  obtains fs d y r where "t = plug fs (Node d Leaf y r)" "lctx fs = []"
  using assms
proof (induction t arbitrary: thesis)
  case (Node c l a r)
  show ?case
  proof (cases "l = Leaf")
    case True
    then show ?thesis using Node.prems(1)[of "[]"] by auto
  next
    case False
    then obtain fs d y r' where "l = plug fs (Node d Leaf y r')" "lctx fs = []" using Node.IH(1) by blast
    then show ?thesis using Node.prems(1)[of "fs @ [FL c a r]"] by auto
  qed
qed simp

lemma find_node:
  assumes "a \<in> set (inorder t)"
  obtains fs c l r where "t = plug fs (Node c l a r)"
  using assms
proof (induction t arbitrary: thesis)
  case (Node c l b r)
  consider "a = b" | "a \<in> set (inorder l)" | "a \<in> set (inorder r)" using Node.prems(2) by auto
  then show ?case
  proof cases
    case 1
    then show ?thesis using Node.prems(1)[of "[]"] by auto
  next
    case 2
    then obtain fs c' l' r' where "l = plug fs (Node c' l' a r')" using Node.IH(1) by blast
    then show ?thesis using Node.prems(1)[of "fs @ [FL c b r]"] by auto
  next
    case 3
    then obtain fs c' l' r' where "r = plug fs (Node c' l' a r')" using Node.IH(2) by blast
    then show ?thesis using Node.prems(1)[of "fs @ [FR c l b]"] by auto
  qed
qed simp

lemma store_only_tree:
  assumes "set (lctx fs) \<union> set (rctx fs) \<subseteq> X"
  shows "only_tree m X h (store (pp_of m fs) v h)"
  using assms by (cases "(m, fs)" rule: hp.cases) (auto simp: only_tree_def)

lemma set_up_only_tree: "a \<in> insert (nil m) X \<Longrightarrow> a \<noteq> root m \<Longrightarrow> only_tree m X h (set_up a v h)"
  by (auto simp: only_tree_def)

definition splice :: "cl_qmap \<Rightarrow> addr \<Rightarrow> cl_heap \<Rightarrow> addr \<times> cl_heap" where
  "splice m a h =
     (let child = (if p_left h a \<noteq> nil m then p_left h a else p_right h a);
          h = set_up child (p_up h a) h
      in (child, store (cl_map_get_parent_ptr_to_item h a) child h))"

lemma ptr_notin: "nil m \<notin> S \<Longrightarrow> set (inorder t) \<inter> S = {} \<Longrightarrow> ptr m t \<notin> S"
  by (cases t) auto

lemma splice_zip:
  assumes z: "zip_at m h fs (Node c l a r)" and e: "l = Leaf \<or> r = Leaf" and t: "t = (if l \<noteq> Leaf then l else r)"
  shows "\<exists>h'. splice m a h = (ptr m t, h') \<and> zip_at m h' fs t \<and> p_up h' (ptr m t) = hp m fs \<and> color h' = color h \<and>
    only_tree m (zset fs (Node c l a r)) h h'"
proof -
  define h1 where "h1 = set_up (ptr m t) (hp m fs) h"
  define h2 where "h2 = store (pp_of m fs) (ptr m t) h1"
  have d: "distinct (root m # nil m # lctx fs @ inorder t @ rctx fs)" "a \<noteq> nil m" "a \<noteq> root m" "a \<notin> set (lctx fs)" "a \<notin> set (rctx fs)" "a \<notin> set (inorder t)"
    using z e t by (auto simp: zip_at_def dist_def)
  have sub: "set (inorder t) \<subseteq> set (inorder l) \<union> set (inorder r)" using t by auto
  have ln: "ptr m l = nil m \<longleftrightarrow> l = Leaf" using z by (cases l) (auto simp: zip_at_def dist_def)
  have f: "p_left h a = ptr m l" "p_right h a = ptr m r" "p_up h a = hp m fs" "ctx_at m h fs a" using z by (simp_all add: zip_at_def)
  have ch: "(if p_left h a \<noteq> nil m then p_left h a else p_right h a) = ptr m t" using f ln t by auto
  have pt: "ptr m t \<in> insert (nil m) (set (inorder t))" by (rule ptr_in)
  have pa: "ptr m t \<noteq> a" "ptr m t \<noteq> root m" using pt d by auto
  have po: "ptr m t \<notin> set (lctx fs)" "ptr m t \<notin> set (rctx fs)" using pt d(1) by auto
  have hpt: "hp m fs \<notin> set (inorder t)" "hp m fs \<noteq> nil m" "hp m fs \<noteq> a" using hp_notin[OF d(1)] hp_in[of m fs] d by auto
  have pp: "cl_map_get_parent_ptr_to_item h1 a = pp_of m fs"
  proof -
    have "cl_map_get_parent_ptr_to_item h1 a = cl_map_get_parent_ptr_to_item h a"
      using pa by (simp add: cl_map_get_parent_ptr_to_item_def cl_map_is_left_child_def h1_def)
    then show ?thesis using parent_ptr[OF z] f by simp
  qed
  have c1: "ctx_at m h1 fs a" using f(4) po by (simp add: h1_def)
  have c2: "ctx_at m h2 fs (ptr m t)" unfolding h2_def by (rule store_pp[where xs = "inorder t", OF c1]) (use d in \<open>simp add: dist_def\<close>)
  have t1: "tree_at m h1 t (hp m fs)"
  proof (cases t)
    case (Node c' l' b r')
    have "tree_at m h t a" using z t by (auto simp: zip_at_def)
    then show ?thesis using Node d(1) by (auto simp: h1_def)
  qed simp
  have t2: "tree_at m h2 t (hp m fs)" using t1 hpt by (simp add: h2_def tree_store)
  have z2: "zip_at m h2 fs t" unfolding zip_at_def using c2 t2 d(1) by (simp add: dist_def)
  have o: "only_tree m (zset fs (Node c l a r)) h h2"
    by (rule only_tree_trans[of m _ h h1]; (unfold h2_def h1_def)?; rule set_up_only_tree store_only_tree)
      (use pt pa sub in \<open>auto simp: zset_def\<close>)
  have "splice m a h = (ptr m t, h2)" unfolding splice_def Let_def ch f(3) h1_def[symmetric] pp h2_def by simp
  moreover have "p_up h2 (ptr m t) = hp m fs" by (simp add: h2_def h1_def)
  ultimately show ?thesis using z2 o by (auto simp: h2_def h1_def)
qed

definition exchange :: "addr \<Rightarrow> addr \<Rightarrow> cl_heap \<Rightarrow> cl_heap" where
  "exchange del_item item h =
     (let h = set_up del_item (p_up h item) h;
          h = set_left del_item (p_left h item) h;
          h = set_right del_item (p_right h item) h;
          h = store (cl_map_get_parent_ptr_to_item h item) del_item h;
          h = set_up (p_right h item) del_item h;
          h = set_up (p_left h item) del_item h
      in set_color del_item (color h item) h)"

lemma tree_new_parent:
  assumes "tree_at m h t u" "distinct (inorder t)"
  shows "tree_at m (set_up (ptr m t) v h) t v"
  using assms by (cases t) auto

lemma exchange_zip:
  assumes z: "zip_at m h fs (Node c l a r)" and y: "y \<noteq> root m" "y \<noteq> nil m" "y \<noteq> a" "y \<notin> set (lctx fs)" "y \<notin> set (rctx fs)"
    "y \<notin> set (inorder l)" "y \<notin> set (inorder r)"
  shows "zip_at m (exchange y a h) fs (Node c l y r)" "only_tree m (insert y (zset fs (Node c l a r))) h (exchange y a h)"
    "color (exchange y a h) = (color h)(y := color h a)"
proof -
  have f: "p_left h a = ptr m l" "p_right h a = ptr m r" "p_up h a = hp m fs" "color h a = c" "ctx_at m h fs a" "tree_at m h l a" "tree_at m h r a"
    using z by (simp_all add: zip_at_def)
  have d: "distinct (root m # nil m # lctx fs @ inorder l @ a # inorder r @ rctx fs)" using z by (simp add: zip_at_def dist_def)
  have hpi: "hp m fs \<in> insert (root m) (set (lctx fs) \<union> set (rctx fs))" by (rule hp_in)
  have hpn: "hp m fs \<noteq> a" "hp m fs \<noteq> nil m" "hp m fs \<notin> set (inorder l)" "hp m fs \<notin> set (inorder r)" "hp m fs \<noteq> y"
    using hp_notin[of m fs "inorder l @ a # inorder r"] d hpi y by auto
  define h1 where "h1 = set_right y (ptr m r) (set_left y (ptr m l) (set_up y (hp m fs) h))"
  define h2 where "h2 = store (pp_of m fs) y h1"
  define h3 where "h3 = set_up (ptr m l) y (set_up (ptr m r) y h2)"
  have z1: "zip_at m h1 fs (Node c l a r)" using z y by (simp add: zip_at_def h1_def)
  have f1: "p_up h1 a = hp m fs" using f y by (simp add: h1_def)
  have pp: "cl_map_get_parent_ptr_to_item h1 a = pp_of m fs" using parent_ptr[OF z1] f1 by simp
  have g2: "p_right h2 a = ptr m r" "p_left h2 a = ptr m l" using f y hpn by (simp_all add: h2_def h1_def store_child)
  have e: "exchange y a h = set_color y (color h a) h3"
    unfolding exchange_def Let_def using f f1 pp g2 y by (simp add: h1_def[symmetric] h2_def[symmetric] h3_def) (simp add: h2_def h1_def)
  have li: "ptr m l \<in> insert (nil m) (set (inorder l))" "ptr m r \<in> insert (nil m) (set (inorder r))" by (rule ptr_in)+
  have lo: "ptr m l \<notin> set (lctx fs)" "ptr m l \<notin> set (rctx fs)" "ptr m r \<notin> set (lctx fs)" "ptr m r \<notin> set (rctx fs)"
    "ptr m l \<notin> set (inorder r)" "ptr m r \<notin> set (inorder l)" "ptr m l \<notin> {y, root m}" "ptr m r \<notin> {y, root m}"
    by (rule ptr_notin; use d y in auto)+
  have c2: "ctx_at m h2 fs y" unfolding h2_def by (rule store_pp[where q = a and xs = "inorder l @ a # inorder r"]) (use z1 in \<open>simp_all add: zip_at_def\<close>)
  have c3: "ctx_at m h3 fs y" using c2 lo by (simp add: h3_def)
  have t2: "tree_at m h2 l a" "tree_at m h2 r a" using z1 hpn by (simp_all add: zip_at_def h2_def tree_store)
  have tr: "tree_at m h3 l y" "tree_at m h3 r y"
    using tree_new_parent[of m "set_up (ptr m r) y h2" l a y] tree_new_parent[of m h2 r a y] t2 lo d by (simp_all add: h3_def)
  have g3: "p_left h3 y = ptr m l" "p_right h3 y = ptr m r" "p_up h3 y = hp m fs"
    using lo hpn by (simp_all add: h3_def h2_def h1_def store_child)
  show "zip_at m (exchange y a h) fs (Node c l y r)"
    unfolding e zip_at_def using c3 tr g3 y d f(4) by (simp add: dist_def)
  show "color (exchange y a h) = (color h)(y := color h a)" unfolding e by (simp add: h3_def h2_def h1_def)
  let ?X = "insert y (zset fs (Node c l a r))"
  have "only_tree m ?X h h1" using y by (auto simp: only_tree_def h1_def)
  moreover have "only_tree m ?X h1 h2" unfolding h2_def by (rule store_only_tree) (auto simp: zset_def)
  moreover have "only_tree m ?X h2 h3" unfolding h3_def
    by (rule only_tree_trans[OF set_up_only_tree set_up_only_tree]) (use li lo in \<open>auto simp: zset_def\<close>)
  moreover have "only_tree m ?X h3 (exchange y a h)" unfolding e by (rule only_tree_color) (use y in auto)
  ultimately show "only_tree m ?X h (exchange y a h)" using only_tree_trans by blast
qed

section \<open>Removal\<close>

text \<open>Taking out a node with at most one child.\<close>

definition del_node :: "cl_qmap \<Rightarrow> addr \<Rightarrow> cl_heap \<Rightarrow> cl_heap option" where
  "del_node m a h = (case splice m a h of (child, h) \<Rightarrow> if color h a \<noteq> CL_MAP_RED then cl_map_del_bal m child h else Some h)"

lemma del_node_zip:
  assumes z: "zip_at m h fs (Node c l a r)" and e: "l = Leaf \<or> r = Leaf" and T: "rbt k (plug fs (Node c l a r))" "tcol (plug fs (Node c l a r)) = CL_MAP_BLACK"
    and n: "color h (nil m) = CL_MAP_BLACK"
  shows "\<exists>h' T k. del_node m a h = Some h' \<and> zip_at m h' [] T \<and> inorder T = lctx fs @ inorder l @ inorder r @ rctx fs \<and> rbt k T \<and>
    tcol T = CL_MAP_BLACK \<and> only_tree m (zset fs (Node c l a r)) h h' \<and> color h' (nil m) = CL_MAP_BLACK"
proof -
  define t where "t = (if l \<noteq> Leaf then l else r)"
  have it: "inorder t = inorder l @ inorder r" using e by (auto simp: t_def)
  obtain h1 where h1: "splice m a h = (ptr m t, h1)" "zip_at m h1 fs t" "p_up h1 (ptr m t) = hp m fs" "color h1 = color h"
    "only_tree m (zset fs (Node c l a r)) h h1" using splice_zip[OF z e t_def] by blast
  obtain n0 where r: "rbc n0 fs" "rbt n0 (Node c l a r)" "ctxc fs = CL_MAP_RED \<longrightarrow> c = CL_MAP_BLACK" using rbt_unplug[OF T] by auto
  have nb: "color h1 (nil m) = CL_MAP_BLACK" using n h1(4) by simp
  show ?thesis
  proof (cases c)
    case CL_MAP_RED
    then have t: "rbt n0 t" "tcol t = CL_MAP_BLACK" "fs \<noteq> []" using r(2) T(2) by (auto simp: t_def)
    have "del_node m a h = Some h1" using h1 zipD(2)[OF z] CL_MAP_RED by (simp add: del_node_def)
    moreover have "\<exists>T j. zip_at m h1 [] T \<and> inorder T = lctx fs @ inorder t @ rctx fs \<and> rbt j T \<and> tcol T = CL_MAP_BLACK"
      by (rule round_finish[OF h1(2) refl r(1) t(1) _ _ _ h1(2)]) (use t in auto)
    ultimately show ?thesis using h1(5) nb it by auto
  next
    case CL_MAP_BLACK
    then obtain j where j: "n0 = Suc j" "rbt j t" using r(2) by (cases n0) (auto simp: t_def)
    have del: "del_node m a h = cl_map_del_bal m (ptr m t) h1" using h1 zipD(2)[OF z] CL_MAP_BLACK by (simp add: del_node_def)
    have sub: "only_tree m (zset fs (Node c l a r)) x y" if "only_tree m (zset fs t) x y" for x y
      using that it by (auto simp: only_tree_def zset_def)
    show ?thesis using del_bal_zip[OF h1(2,3) j(2) _ nb] r(1) j(1) del it only_tree_trans[OF h1(5) sub] by (fastforce simp: zset_def)
  qed
qed

lemma cl_qmap_remove_item_eq:
  assumes "item \<noteq> nil m"
  shows "cl_qmap_remove_item m item h =
     (let del_item = (if p_right h item = nil m \<or> p_left h item = nil m then item else p_next h item);
          m' = m\<lparr>count := count m - 1\<rparr>
      in case del_node m' del_item (cl_primitive_remove item h) of
           None \<Rightarrow> None
         | Some h \<Rightarrow> Some (m', if del_item = item then h else exchange del_item item h))"
  using assms unfolding cl_qmap_remove_item_def del_node_def splice_def exchange_def cl_qmap_next_def
  by (simp add: Let_def if_distrib[of Some] if_distrib[of "Pair _"] cong: option.case_cong if_cong)

lemma primitive_remove_sel [simp]:
  "p_left (cl_primitive_remove a h) = p_left h" "p_right (cl_primitive_remove a h) = p_right h" "p_up (cl_primitive_remove a h) = p_up h"
  "color (cl_primitive_remove a h) = color h" "key (cl_primitive_remove a h) = key h"
  "tree_at m (cl_primitive_remove a h) t u = tree_at m h t u" "ctx_at m (cl_primitive_remove a h) fs q = ctx_at m h fs q"
  "zip_at m (cl_primitive_remove a h) fs t = zip_at m h fs t"
  by (simp_all add: cl_primitive_remove_def Let_def zip_at_def)

lemma primitive_remove_outside:
  assumes "dll m h (xs @ a # ys)"
  shows "outside (insert (nil m) (set (xs @ a # ys))) h (cl_primitive_remove a h)"
proof -
  have "p_prev h a = last (nil m # xs)" "p_next h a = hd (ys @ [nil m])"
    using assms dll_split[of m h xs "a # ys"] dll_split[of m h "xs @ [a]" ys] by simp_all
  moreover have "last (nil m # xs) \<in> insert (nil m) (set xs)" "hd (ys @ [nil m]) \<in> insert (nil m) (set ys)" by (cases ys; auto)+
  ultimately show ?thesis unfolding cl_primitive_remove_def Let_def outside_def by auto
qed

lemma dll_only_tree: "only_tree m X h h' \<Longrightarrow> dll m h' xs = dll m h xs"
  unfolding dll_def by (rule links_cong) (simp_all add: only_tree_def)

lemma count_del_node [simp]: "zip_at (m\<lparr>count := c\<rparr>) h fs t = zip_at m h fs t"
  using zip_plug[of "m\<lparr>count := c\<rparr>" h fs t] zip_plug[of m h fs t] by simp

lemma ptr_nil: "nil m \<notin> set (inorder t) \<Longrightarrow> ptr m t = nil m \<longleftrightarrow> t = Leaf"
  by (cases t) auto

lemma distinct_split: "distinct (xs @ a # ys) \<Longrightarrow> xs @ a # ys = xs' @ a # ys' \<Longrightarrow> xs = xs' \<and> ys = ys'"
proof (induction xs arbitrary: xs')
  case Nil
  then show ?case by (cases xs') auto
next
  case (Cons x xs)
  then obtain zs where "xs' = x # zs" "xs @ a # ys = zs @ a # ys'" by (cases xs') auto
  then show ?case using Cons.IH[of zs] Cons.prems(1) by simp
qed

text \<open>The node that leaves the tree is the item itself or, when it has two children, its successor, which then takes its place.\<close>

lemma remove_tree:
  assumes z: "zip_at m h fs (Node c l item r)" and T: "rbt k (plug fs (Node c l item r))" "tcol (plug fs (Node c l item r)) = CL_MAP_BLACK"
    and n: "color h (nil m) = CL_MAP_BLACK" and nx: "r \<noteq> Leaf \<Longrightarrow> s = hd (inorder r)"
    and d: "d = (if p_right h item = nil m \<or> p_left h item = nil m then item else s)"
  shows "\<exists>h1 T' k. del_node m d h = Some h1 \<and> zip_at m (if d = item then h1 else exchange d item h1) [] T' \<and>
    inorder T' = lctx fs @ inorder l @ inorder r @ rctx fs \<and> rbt k T' \<and> tcol T' = CL_MAP_BLACK \<and>
    only_tree m (zset fs (Node c l item r)) h (if d = item then h1 else exchange d item h1) \<and>
    color (if d = item then h1 else exchange d item h1) (nil m) = CL_MAP_BLACK"
proof -
  have ln: "p_left h item = nil m \<longleftrightarrow> l = Leaf" "p_right h item = nil m \<longleftrightarrow> r = Leaf"
    using zipD(3,4)[OF z] ptr_nil[of m l] ptr_nil[of m r] z by (simp_all add: zip_at_def dist_def)
  show ?thesis
  proof (cases "l = Leaf \<or> r = Leaf")
    case True
    then have di: "d = item" using ln d by auto
    show ?thesis using del_node_zip[OF z True T n] di by simp
  next
    case False
    then obtain rfs e y ry where y: "r = plug rfs (Node e Leaf y ry)" "lctx rfs = []" using leftmost by blast
    have ir: "inorder r = y # inorder ry @ rctx rfs" using y by simp
    have dy: "d = y" using False ln d nx ir by auto
    let ?fs = "rfs @ FR c l item # fs"
    have zy: "zip_at m h ?fs (Node e Leaf y ry)" using z y by (simp add: zip_append zip_FR)
    have pl: "plug ?fs (Node e Leaf y ry) = plug fs (Node c l item r)" using y by simp
    obtain h1 T1 k1 where h1: "del_node m y h = Some h1" "zip_at m h1 [] T1" "rbt k1 T1" "tcol T1 = CL_MAP_BLACK" "color h1 (nil m) = CL_MAP_BLACK"
      "inorder T1 = lctx fs @ inorder l @ item # inorder ry @ rctx rfs @ rctx fs" "only_tree m (zset ?fs (Node e Leaf y ry)) h h1"
      using del_node_zip[OF zy disjI1[OF refl] T[folded pl] n] y(2) by auto
    have Z: "zset ?fs (Node e Leaf y ry) = zset fs (Node c l item r)" using pl by (simp add: zset_def)
    have "item \<in> set (inorder T1)" using h1(6) by simp
    then obtain fs2 c2 l2 r2 where p2: "T1 = plug fs2 (Node c2 l2 item r2)" by (rule find_node)
    have z2: "zip_at m h1 fs2 (Node c2 l2 item r2)" using h1(2) p2 zip_plug by metis
    have dd: "distinct (root m # nil m # lctx fs @ inorder l @ item # y # inorder ry @ rctx rfs @ rctx fs)"
      using z ir by (simp add: zip_at_def dist_def)
    have "(lctx fs2 @ inorder l2) @ item # (inorder r2 @ rctx fs2) = (lctx fs @ inorder l) @ item # (inorder ry @ rctx rfs @ rctx fs)"
      using h1(6) p2 by simp
    then have sp: "lctx fs2 @ inorder l2 = lctx fs @ inorder l" "inorder r2 @ rctx fs2 = inorder ry @ rctx rfs @ rctx fs"
      using distinct_split[of "lctx fs @ inorder l" item "inorder ry @ rctx rfs @ rctx fs" "lctx fs2 @ inorder l2" "inorder r2 @ rctx fs2"] dd by auto
    have s1: "set (lctx fs2) \<union> set (inorder l2) = set (lctx fs) \<union> set (inorder l)" using arg_cong[OF sp(1), of set] by simp
    have s2: "set (inorder r2) \<union> set (rctx fs2) = set (inorder ry) \<union> set (rctx rfs) \<union> set (rctx fs)" using arg_cong[OF sp(2), of set] by (simp add: Un_assoc)
    have yn: "y \<noteq> root m" "y \<noteq> nil m" "y \<noteq> item" "y \<notin> set (lctx fs2) \<union> set (inorder l2)" "y \<notin> set (inorder r2) \<union> set (rctx fs2)"
      unfolding s1 s2 using dd by auto
    note ex = exchange_zip[OF z2 yn(1-3)]
    have z3: "zip_at m (exchange y item h1) [] (plug fs2 (Node c2 l2 y r2))" using ex(1) yn zip_plug by auto
    have rc: "\<exists>k. rbt k (plug fs2 (Node c2 l2 y r2))" "tcol (plug fs2 (Node c2 l2 y r2)) = CL_MAP_BLACK"
    proof -
      obtain n1 where n1: "rbc n1 fs2" "rbt n1 (Node c2 l2 item r2)" "ctxc fs2 = CL_MAP_RED \<longrightarrow> c2 = CL_MAP_BLACK"
        using rbt_unplug[of k1 fs2 "Node c2 l2 item r2"] h1(3,4) p2 by auto
      have "rbt n1 (Node c2 l2 y r2)" using n1(2) by (cases c2) auto
      then show "\<exists>k. rbt k (plug fs2 (Node c2 l2 y r2))" using rbt_plug[OF n1(1)] n1(3) by simp
      show "tcol (plug fs2 (Node c2 l2 y r2)) = CL_MAP_BLACK" using tcol_plug[OF n1(1)] h1(4) p2 by (cases "fs2 = []") auto
    qed
    have io: "inorder (plug fs2 (Node c2 l2 y r2)) = lctx fs @ inorder l @ inorder r @ rctx fs"
      using sp ir append_assoc[of "lctx fs2" "inorder l2"] by simp
    have "insert y (zset fs2 (Node c2 l2 item r2)) = zset fs (Node c l item r)" using s1 s2 ir by (auto simp: zset_def)
    then have o: "only_tree m (zset fs (Node c l item r)) h (exchange y item h1)"
      using only_tree_trans[OF h1(7)[unfolded Z]] ex(2) yn by simp
    have "color (exchange y item h1) (nil m) = CL_MAP_BLACK" using ex(3) yn h1(5) by simp
    then show ?thesis using h1(1) z3 rc io o dy yn(3) by auto
  qed
qed

lemma remove_spec:
  assumes Q: "qmap_at m h T" and i: "item \<in> set (inorder T)"
  shows "\<exists>h' T' xs ys. cl_qmap_remove_item m item h = Some (m\<lparr>count := count m - 1\<rparr>, h') \<and> qmap_at (m\<lparr>count := count m - 1\<rparr>) h' T' \<and>
    inorder T = xs @ item # ys \<and> inorder T' = xs @ ys \<and> key h' = key h \<and>
    outside (insert (root m) (insert (nil m) (set (inorder T)))) h h'"
proof -
  let ?m = "m\<lparr>count := count m - 1\<rparr>"
  obtain fs c l r where T: "T = plug fs (Node c l item r)" using find_node[OF i] by blast
  define xs where "xs = lctx fs @ inorder l"
  define ys where "ys = inorder r @ rctx fs"
  have io: "inorder T = xs @ item # ys" using T by (simp add: xs_def ys_def)
  define h0 where "h0 = cl_primitive_remove item h"
  have q: "zip_at m h [] T" "tcol T = CL_MAP_BLACK" "color h (nil m) = CL_MAP_BLACK" "color h (root m) = CL_MAP_BLACK" "dll m h (xs @ item # ys)"
    "sorted_wrt (<) (map (key h) (xs @ item # ys))" "count m = of_nat (length (xs @ item # ys))"
    using Q io by (simp_all add: qmap_at_def)
  obtain k where k: "rbt k T" using Q by (auto simp: qmap_at_def)
  have d: "distinct (root m # nil m # xs @ item # ys)" using q(1) io by (simp add: zip_at_def dist_def)
  have z0: "zip_at ?m h0 fs (Node c l item r)" using q(1) T zip_plug[of m h fs] by (simp add: h0_def)
  have nx: "p_next h item = hd (inorder r)" if "r \<noteq> Leaf"
  proof -
    have "p_next h item = hd (ys @ [nil m])" using q(5) dll_split[of m h "xs @ [item]" ys] by simp
    then show ?thesis using that by (cases r) (auto simp: ys_def hd_append)
  qed
  define dl where "dl = (if p_right h0 item = nil ?m \<or> p_left h0 item = nil ?m then item else p_next h item)"
  obtain h1 T' k' where R: "del_node ?m dl h0 = Some h1" "zip_at ?m (if dl = item then h1 else exchange dl item h1) [] T'"
    "inorder T' = lctx fs @ inorder l @ inorder r @ rctx fs" "rbt k' T'" "tcol T' = CL_MAP_BLACK"
    "only_tree ?m (zset fs (Node c l item r)) h0 (if dl = item then h1 else exchange dl item h1)"
    "color (if dl = item then h1 else exchange dl item h1) (nil ?m) = CL_MAP_BLACK"
    using remove_tree[OF z0 k[unfolded T] q(2)[unfolded T] _ nx dl_def] q(3) by (auto simp: h0_def)
  define h' where "h' = (if dl = item then h1 else exchange dl item h1)"
  note R = R[folded h'_def]
  have res: "cl_qmap_remove_item m item h = Some (?m, h')"
  proof -
    have ne: "item \<noteq> nil m" using d by auto
    have dl': "(if p_right h item = nil m \<or> p_left h item = nil m then item else p_next h item) = dl" by (simp add: dl_def h0_def)
    show ?thesis unfolding cl_qmap_remove_item_eq[OF ne] Let_def dl' h0_def[symmetric] R(1) h'_def by simp
  qed
  have ot: "only_tree m (set (inorder T)) h0 h'" using R(6) T by (simp add: zset_def)
  have kk: "key h' = key h" using ot by (simp add: only_tree_def h0_def)
  have d0: "dll m h0 (xs @ ys)" unfolding h0_def by (rule dll_remove[OF q(5)]) (use d in auto)
  have i': "inorder T' = xs @ ys" using R(3) by (simp add: xs_def ys_def)
  have "color h' (root m) = CL_MAP_BLACK" using ot q(4) by (simp add: only_tree_def h0_def)
  moreover have "sorted_wrt (<) (map (key h') (xs @ ys))" using q(6) kk by (auto simp: sorted_wrt_append)
  moreover have "dll m h' (xs @ ys)" using d0 dll_only_tree[OF ot] by simp
  ultimately have Q': "qmap_at ?m h' T'"
    unfolding qmap_at_def i' using R(2,4,5,7) q(7) by auto
  have "outside (insert (root m) (insert (nil m) (set (inorder T)))) h h0"
    unfolding h0_def by (rule outside_mono[OF primitive_remove_outside[OF q(5)]]) (use io in auto)
  then have "outside (insert (root m) (insert (nil m) (set (inorder T)))) h h'" using outside_trans outside_only_tree[OF ot] by blast
  then show ?thesis using res Q' io i' kk by blast
qed

end
