(* ===== verification/Keyed_Table.thy ===== *)
theory Keyed_Table
  imports OFED_Prelude
begin

text \<open>
  Tables of objects under 64-bit keys, the interface between the component library's map and its clients.  The abstract
  table is the list of its entries in ascending key order.  An insertion that finds the key taken returns the object already
  there and changes nothing; a lookup or removal that finds nothing returns an end marker.
\<close>

fun qmap_insert :: "u64 \<Rightarrow> 'v \<Rightarrow> (u64 \<times> 'v) list \<Rightarrow> (u64 \<times> 'v) list" where
  "qmap_insert k v [] = [(k, v)]"
| "qmap_insert k v ((k', v') # m) =
     (if k < k' then (k, v) # (k', v') # m else if k = k' then (k, v) # m else (k', v') # qmap_insert k v m)"

lemma qmap_insert_set: "sorted_wrt (<) (map fst m) \<Longrightarrow> set (qmap_insert k v m) = insert (k, v) {(k', v') \<in> set m. k' \<noteq> k}"
  by (induction k v m rule: qmap_insert.induct) auto

lemma qmap_insert_sorted: "sorted_wrt (<) (map fst m) \<Longrightarrow> sorted_wrt (<) (map fst (qmap_insert k v m))"
proof (induction k v m rule: qmap_insert.induct)
  case (2 k v k' v' m)
  have s: "sorted_wrt (<) (map fst m)" using 2(2) by simp
  show ?case using 2 qmap_insert_set[OF s, of k v] by auto
qed simp

lemma qmap_insert_lookup: "map_of (qmap_insert k v m) k' = (if k' = k then Some v else map_of m k')" if "sorted_wrt (<) (map fst m)"
  using that by (induction k v m rule: qmap_insert.induct) auto

lemma qmap_insert_split:
  "\<forall>x\<in>set (map fst xs). x < k \<Longrightarrow> \<forall>y\<in>set (map fst ys). k < y \<Longrightarrow> qmap_insert k v (xs @ ys) = xs @ (k, v) # ys"
proof (induction xs)
  case Nil
  then show ?case by (cases ys) auto
qed auto

lemma qmap_insert_map: "map (\<lambda>(k, v). (k, f v)) (qmap_insert k v m) = qmap_insert k (f v) (map (\<lambda>(k, v). (k, f v)) m)"
  by (induction k v m rule: qmap_insert.induct) auto

lemma map_of_drop: "map_of (filter (\<lambda>(k, v). k \<noteq> g) xs) k = (if k = g then None else map_of xs k)"
  by (induction xs) auto

lemma sorted_keys_distinct: "sorted_wrt (<) (map fst m) \<Longrightarrow> distinct (map fst (m :: (u64 \<times> 'v) list))"
  by (simp add: strict_sorted_iff)

text \<open>A client's history: the entries of the table after a sequence of calls.\<close>

inductive tbl_trace ::
  "('s \<Rightarrow> u64 \<Rightarrow> 'a \<Rightarrow> ('a \<times> 's) option) \<Rightarrow> ('s \<Rightarrow> u64 \<Rightarrow> ('a \<times> 's) option) \<Rightarrow> 'a set \<Rightarrow> 's \<Rightarrow> 's \<Rightarrow> (u64 \<times> 'a) list \<Rightarrow> bool"
  for ins :: "'s \<Rightarrow> u64 \<Rightarrow> 'a \<Rightarrow> ('a \<times> 's) option" and rem :: "'s \<Rightarrow> u64 \<Rightarrow> ('a \<times> 's) option" and bad :: "'a set" and s0 :: 's where
  tbl_start: "tbl_trace ins rem bad s0 s0 []"
| tbl_insert: "tbl_trace ins rem bad s0 s al \<Longrightarrow> a \<notin> bad \<Longrightarrow> a \<notin> snd ` set al \<Longrightarrow> ins s k a = Some (x, s') \<Longrightarrow>
    tbl_trace ins rem bad s0 s' (if map_of al k = None then qmap_insert k a al else al)"
| tbl_remove: "tbl_trace ins rem bad s0 s al \<Longrightarrow> rem s k = Some (x, s') \<Longrightarrow> tbl_trace ins rem bad s0 s' (filter (\<lambda>(k', _). k' \<noteq> k) al)"

locale keyed_table =
  fixes rel :: "'s \<Rightarrow> (u64 \<times> 'a) list \<Rightarrow> bool"
    and fin :: 'a
    and bad :: "'a set"
    and get :: "'s \<Rightarrow> u64 \<Rightarrow> 'a option"
    and ins :: "'s \<Rightarrow> u64 \<Rightarrow> 'a \<Rightarrow> ('a \<times> 's) option"
    and rem :: "'s \<Rightarrow> u64 \<Rightarrow> ('a \<times> 's) option"
  assumes rel_sorted: "rel s al \<Longrightarrow> sorted_wrt (<) (map fst al)"
    and rel_objects: "rel s al \<Longrightarrow> distinct (map snd al) \<and> fin \<notin> snd ` set al"
    and get_law: "rel s al \<Longrightarrow> get s k = Some (case map_of al k of None \<Rightarrow> fin | Some a \<Rightarrow> a)"
    and ins_new: "rel s al \<Longrightarrow> a \<notin> bad \<Longrightarrow> a \<notin> snd ` set al \<Longrightarrow> map_of al k = None \<Longrightarrow>
      \<exists>s'. ins s k a = Some (a, s') \<and> rel s' (qmap_insert k a al)"
    and ins_taken: "rel s al \<Longrightarrow> a \<notin> bad \<Longrightarrow> a \<notin> snd ` set al \<Longrightarrow> map_of al k = Some b \<Longrightarrow>
      \<exists>s'. ins s k a = Some (b, s') \<and> rel s' al"
    and rem_law: "rel s al \<Longrightarrow>
      \<exists>s'. rem s k = Some (case map_of al k of None \<Rightarrow> fin | Some a \<Rightarrow> a, s') \<and> rel s' (filter (\<lambda>(k', _). k' \<noteq> k) al)"
begin

lemma trace_rel:
  assumes "tbl_trace ins rem bad s0 s al" "rel s0 []"
  shows "rel s al"
  using assms
proof (induction rule: tbl_trace.induct)
  case (tbl_insert s al a k x s')
  show ?case
  proof (cases "map_of al k")
    case None
    then show ?thesis using ins_new[OF _ tbl_insert.hyps(2,3), of s k] tbl_insert by auto
  next
    case (Some b)
    then show ?thesis using ins_taken[OF _ tbl_insert.hyps(2,3), of s k b] tbl_insert by auto
  qed
next
  case (tbl_remove s al k x s')
  then show ?case using rem_law[of s al k] by auto
qed

lemma trace_total:
  assumes "tbl_trace ins rem bad s0 s al" "rel s0 []"
  shows "get s k = Some (case map_of al k of None \<Rightarrow> fin | Some a \<Rightarrow> a)"
    and "a \<notin> bad \<Longrightarrow> a \<notin> snd ` set al \<Longrightarrow> \<exists>s'. ins s k a = Some (case map_of al k of None \<Rightarrow> a | Some b \<Rightarrow> b, s')"
    and "\<exists>s'. rem s k = Some (case map_of al k of None \<Rightarrow> fin | Some a \<Rightarrow> a, s')"
proof -
  note R = trace_rel[OF assms]
  show "get s k = Some (case map_of al k of None \<Rightarrow> fin | Some a \<Rightarrow> a)" by (rule get_law[OF R])
  show "\<exists>s'. ins s k a = Some (case map_of al k of None \<Rightarrow> a | Some b \<Rightarrow> b, s')" if "a \<notin> bad" "a \<notin> snd ` set al"
    using ins_new[OF R that, of k] ins_taken[OF R that, of k] by (cases "map_of al k") auto
  show "\<exists>s'. rem s k = Some (case map_of al k of None \<Rightarrow> fin | Some a \<Rightarrow> a, s')" using rem_law[OF R, of k] by blast
qed

text \<open>What an insertion stores is found again, and removing it restores the table.\<close>

lemma insert_get_remove:
  assumes R: "rel s al" and a: "a \<notin> bad" "a \<notin> snd ` set al" and k: "map_of al k = None"
  shows "\<exists>s' s''. ins s k a = Some (a, s') \<and> get s' k = Some a \<and> rem s' k = Some (a, s'') \<and> rel s'' al"
proof -
  have so: "sorted_wrt (<) (map fst al)" by (rule rel_sorted[OF R])
  obtain s' where s': "ins s k a = Some (a, s')" "rel s' (qmap_insert k a al)" using ins_new[OF R a k] by blast
  have l: "map_of (qmap_insert k a al) k = Some a" using qmap_insert_lookup[OF so] by simp
  obtain s'' where s'': "rem s' k = Some (a, s'')" "rel s'' (filter (\<lambda>(k', _). k' \<noteq> k) (qmap_insert k a al))"
    using rem_law[OF s'(2), of k] l by auto
  have "filter (\<lambda>(k', _). k' \<noteq> k) (qmap_insert k a al) = al" using k
    by (induction k a al rule: qmap_insert.induct) (auto simp: filter_id_conv map_of_eq_None_iff split: if_splits intro: rev_image_eqI)
  then show ?thesis using s' s'' get_law[OF s'(2), of k] l by auto
qed

end

end
