(* ===== verification/Cl_Map_Spec.thy ===== *)
theory Cl_Map_Spec
  imports Cl_Map_Del Keyed_Table
begin

text \<open>
  What the quick map promises: it refines the table of \<open>Keyed_Table\<close>, it stays balanced, and merging and comparing maps
  distribute the entries by key.
\<close>

section \<open>The abstract table of a map\<close>

definition entries :: "cl_heap \<Rightarrow> addr list \<Rightarrow> (u64 \<times> addr) list" where
  "entries h xs = map (\<lambda>a. (key h a, a)) xs"

definition qmap_rel :: "cl_qmap \<Rightarrow> cl_heap \<Rightarrow> (u64 \<times> addr) list \<Rightarrow> bool" where
  "qmap_rel m h al \<longleftrightarrow> (\<exists>T. qmap_at m h T \<and> al = entries h (inorder T))"

lemma entries_simps [simp]: "map snd (entries h xs) = xs" "map fst (entries h xs) = map (key h) xs" "entries h (xs @ ys) = entries h xs @ entries h ys"
  "entries h (x # xs) = (key h x, x) # entries h xs" "entries h [] = []" "length (entries h xs) = length xs" "snd ` set (entries h xs) = set xs"
  by (auto simp: entries_def comp_def image_image)

lemma entries_cong: "(\<And>x. x \<in> set xs \<Longrightarrow> key h' x = key h x) \<Longrightarrow> entries h' xs = entries h xs"
  by (simp add: entries_def)

lemma map_of_entries_None: "map_of (entries h xs) k = None \<longleftrightarrow> k \<notin> key h ` set xs"
  by (auto simp: entries_def map_of_eq_None_iff image_image)

lemma map_of_entries_Some: "sorted_wrt (<) (map (key h) xs) \<Longrightarrow> map_of (entries h xs) k = Some a \<longleftrightarrow> a \<in> set xs \<and> key h a = k"
proof -
  assume "sorted_wrt (<) (map (key h) xs)"
  then have d: "distinct (map fst (entries h xs))" by (simp add: strict_sorted_iff)
  have "(k, a) \<in> set (entries h xs) \<longleftrightarrow> a \<in> set xs \<and> key h a = k" by (auto simp: entries_def)
  then show ?thesis using map_of_eq_Some_iff[OF d, of k a] by blast
qed

lemma rel_facts:
  assumes "qmap_rel m h al"
  shows "sorted_wrt (<) (map fst al)" "distinct (map snd al)" "nil m \<notin> snd ` set al" "root m \<notin> snd ` set al" "root m \<noteq> nil m"
    "count m = of_nat (length al)" "dll m h (map snd al)" "\<And>k a. (k, a) \<in> set al \<Longrightarrow> key h a = k"
proof -
  obtain T where T: "qmap_at m h T" "al = entries h (inorder T)" using assms by (auto simp: qmap_rel_def)
  then show "sorted_wrt (<) (map fst al)" "distinct (map snd al)" "nil m \<notin> snd ` set al" "root m \<notin> snd ` set al" "root m \<noteq> nil m"
    "count m = of_nat (length al)" "dll m h (map snd al)"
    by (simp_all add: qmap_at_def zip_at_def dist_def)
  show "key h a = k" if "(k, a) \<in> set al" for k a using that T(2) by (auto simp: entries_def)
qed

lemma qmap_rel_get: "qmap_rel m h al \<Longrightarrow> cl_qmap_get m k h = Some (case map_of al k of None \<Rightarrow> nil m | Some a \<Rightarrow> a)"
proof -
  assume "qmap_rel m h al"
  then obtain T where T: "qmap_at m h T" "al = entries h (inorder T)" by (auto simp: qmap_rel_def)
  have s: "sorted_wrt (<) (map (key h) (inorder T))" using T by (simp add: qmap_at_def)
  obtain x where x: "cl_qmap_get m k h = Some x" "if k \<in> key h ` set (inorder T) then x \<in> set (inorder T) \<and> key h x = k else x = nil m"
    using get_spec[OF T(1)] by blast
  show ?thesis
  proof (cases "k \<in> key h ` set (inorder T)")
    case True
    then have "map_of al k = Some x" using map_of_entries_Some[OF s] x(2) T(2) by simp
    then show ?thesis using x(1) by simp
  next
    case False
    then have "map_of al k = None" using map_of_entries_None[of h "inorder T" k] T(2) by simp
    then show ?thesis using x False by simp
  qed
qed

lemma rel_outside:
  assumes r: "qmap_rel m h al" and o: "outside X h h'" and d: "root m \<notin> X" "nil m \<notin> X" "X \<inter> snd ` set al = {}"
  shows "qmap_rel m h' al"
proof -
  obtain T where T: "qmap_at m h T" "al = entries h (inorder T)" using r by (auto simp: qmap_rel_def)
  have "qmap_at m h' T" by (rule qmap_at_outside[OF T(1) o]) (use d T in auto)
  moreover have "entries h' (inorder T) = al" unfolding T(2) by (rule entries_cong) (use o d T in \<open>auto simp: outside_def\<close>)
  ultimately show ?thesis by (auto simp: qmap_rel_def)
qed

lemma qmap_rel_init:
  assumes "root m \<noteq> nil m"
  shows "\<exists>m' h'. cl_qmap_init m h = (m', h') \<and> qmap_rel m' h' [] \<and> m' = m\<lparr>count := 0\<rparr> \<and> outside {root m, nil m} h h'"
proof -
  obtain h' where h': "cl_qmap_init m h = (m\<lparr>count := 0\<rparr>, h')" by (simp add: cl_qmap_init_def cl_qmap_remove_all_def Let_def)
  have f: "p_left h' (root m) = nil m" "color h' (root m) = CL_MAP_BLACK" "color h' (nil m) = CL_MAP_BLACK" "p_next h' (nil m) = nil m" "p_prev h' (nil m) = nil m"
    using h' assms unfolding cl_qmap_init_def cl_qmap_remove_all_def Let_def by auto
  have o: "outside {root m, nil m} h h'" using h' unfolding cl_qmap_init_def cl_qmap_remove_all_def Let_def by (auto simp: outside_def)
  have "qmap_at (m\<lparr>count := 0\<rparr>) h' Leaf"
    using f assms by (simp add: qmap_at_def zip_at_def dist_def dll_def)
  then show ?thesis using h' o by (auto simp: qmap_rel_def intro!: exI[of _ Leaf])
qed

lemma qmap_rel_clear:
  assumes "qmap_rel m h al"
  shows "\<exists>h'. cl_qmap_remove_all m h = (m\<lparr>count := 0\<rparr>, h') \<and> qmap_rel (m\<lparr>count := 0\<rparr>) h' [] \<and> outside {root m, nil m} h h'"
proof -
  have c: "color h (root m) = CL_MAP_BLACK" "color h (nil m) = CL_MAP_BLACK" using assms by (auto simp: qmap_rel_def qmap_at_def)
  obtain h' where h': "cl_qmap_remove_all m h = (m\<lparr>count := 0\<rparr>, h')" by (simp add: cl_qmap_remove_all_def Let_def)
  have f: "p_left h' (root m) = nil m" "p_next h' (nil m) = nil m" "p_prev h' (nil m) = nil m" "color h' = color h"
    using h' unfolding cl_qmap_remove_all_def Let_def by auto
  have o: "outside {root m, nil m} h h'" using h' unfolding cl_qmap_remove_all_def Let_def by (auto simp: outside_def)
  have "qmap_at (m\<lparr>count := 0\<rparr>) h' Leaf" using f c rel_facts(5)[OF assms] by (simp add: qmap_at_def zip_at_def dist_def dll_def)
  then show ?thesis using h' o by (auto simp: qmap_rel_def intro!: exI[of _ Leaf])
qed

definition items :: "cl_qmap \<Rightarrow> (u64 \<times> addr) list \<Rightarrow> addr set" where
  "items m al = insert (root m) (insert (nil m) (snd ` set al))"

lemma entries_insert:
  assumes s: "sorted_wrt (<) (map (key h') (xs @ a # ys))" and k: "key h' = (key h)(a := k)" and a: "a \<notin> set xs" "a \<notin> set ys"
  shows "entries h' (xs @ a # ys) = qmap_insert k a (entries h (xs @ ys))"
proof -
  have e: "entries h' xs = entries h xs" "entries h' ys = entries h ys" by (rule entries_cong; use a k in auto)+
  have "qmap_insert k a (entries h' xs @ entries h' ys) = entries h' xs @ (k, a) # entries h' ys"
    by (rule qmap_insert_split) (use s k in \<open>auto simp: sorted_wrt_append\<close>)
  then show ?thesis using e k by simp
qed

lemma qmap_rel_insert:
  assumes r: "qmap_rel m h al" and a: "a \<noteq> root m" "a \<noteq> nil m" "a \<notin> snd ` set al"
  shows "case map_of al k of
     None \<Rightarrow> \<exists>h'. cl_qmap_insert m k a h = Some (a, m\<lparr>count := count m + 1\<rparr>, h') \<and>
       qmap_rel (m\<lparr>count := count m + 1\<rparr>) h' (qmap_insert k a al) \<and> outside (insert a (items m al)) h h'
   | Some b \<Rightarrow> \<exists>h'. cl_qmap_insert m k a h = Some (b, m, h') \<and> qmap_rel m h' al \<and> outside {a} h h' \<and> key h' a = k"
proof -
  obtain T where T: "qmap_at m h T" "al = entries h (inorder T)" using r by (auto simp: qmap_rel_def)
  have s: "sorted_wrt (<) (map (key h) (inorder T))" using T by (simp add: qmap_at_def)
  have aT: "a \<notin> set (inorder T)" using a(3) T(2) by simp
  note S = insert_spec[OF T(1) a(1,2) aT, of k]
  show ?thesis
  proof (cases "map_of al k")
    case None
    then have k: "k \<notin> key h ` set (inorder T)" using map_of_entries_None T(2) by simp
    obtain h' T' xs ys where R: "cl_qmap_insert m k a h = Some (a, m\<lparr>count := count m + 1\<rparr>, h')" "qmap_at (m\<lparr>count := count m + 1\<rparr>) h' T'"
      "inorder T = xs @ ys" "inorder T' = xs @ a # ys" "key h' = (key h)(a := k)"
      "outside (insert a (insert (root m) (insert (nil m) (set (inorder T))))) h h'" using S k by auto
    have s': "sorted_wrt (<) (map (key h') (xs @ a # ys))" using R(2,4) by (simp add: qmap_at_def)
    have "entries h' (inorder T') = qmap_insert k a al" using entries_insert[OF s' R(5)] aT R(3,4) T(2) by simp
    moreover have "items m al = insert (root m) (insert (nil m) (set (inorder T)))" using T(2) by (simp add: items_def)
    ultimately show ?thesis using None R(1,2,6) by (auto simp: qmap_rel_def)
  next
    case (Some b)
    then have b: "b \<in> set (inorder T)" "key h b = k" using map_of_entries_Some[OF s] T(2) by auto
    obtain x h' where R: "cl_qmap_insert m k a h = Some (x, m, h')" "x \<in> set (inorder T)" "key h x = k" "qmap_at m h' T" "outside {a} h h'"
      using S b by auto
    have "x = b" using map_of_entries_Some[OF s, of k] R(2,3) b by (metis option.inject)
    moreover have "entries h' (inorder T) = al" unfolding T(2) by (rule entries_cong) (use R(5) aT in \<open>auto simp: outside_def\<close>)
    moreover have "key h' a = k"
    proof -
      have "h' = set_color a CL_MAP_RED (set_key a k (set_right a (nil m) (set_left a (nil m) h)))"
        using R(1) b(1) R(2) aT unfolding cl_qmap_insert_eq Let_def by (auto split: option.splits sum.splits)
      then show ?thesis by simp
    qed
    ultimately show ?thesis using Some R(1,4,5) by (auto simp: qmap_rel_def)
  qed
qed

lemma qmap_rel_remove_item:
  assumes r: "qmap_rel m h (xs @ (k, a) # ys)"
  shows "\<exists>h'. cl_qmap_remove_item m a h = Some (m\<lparr>count := count m - 1\<rparr>, h') \<and> qmap_rel (m\<lparr>count := count m - 1\<rparr>) h' (xs @ ys) \<and>
    key h' = key h \<and> outside (items m (xs @ (k, a) # ys)) h h'"
proof -
  obtain T where T: "qmap_at m h T" "xs @ (k, a) # ys = entries h (inorder T)" using r by (auto simp: qmap_rel_def)
  have io: "inorder T = map snd xs @ a # map snd ys" using arg_cong[OF T(2), of "map snd"] by simp
  have e: "xs = entries h (map snd xs)" "ys = entries h (map snd ys)" using T(2) io by (simp_all add: entries_def)
  have "a \<in> set (inorder T)" using io by simp
  then obtain h' T' xs' ys' where R: "cl_qmap_remove_item m a h = Some (m\<lparr>count := count m - 1\<rparr>, h')" "qmap_at (m\<lparr>count := count m - 1\<rparr>) h' T'"
    "inorder T = xs' @ a # ys'" "inorder T' = xs' @ ys'" "key h' = key h" "outside (insert (root m) (insert (nil m) (set (inorder T)))) h h'"
    using remove_spec[OF T(1)] by blast
  have d: "distinct (inorder T)" using rel_facts(2)[OF r] io by simp
  have "xs' = map snd xs \<and> ys' = map snd ys" using distinct_split[OF d[unfolded R(3)]] R(3) io by metis
  then have "entries h' (inorder T') = xs @ ys" using R(4,5) e by (simp add: entries_def)
  moreover have "items m (xs @ (k, a) # ys) = insert (root m) (insert (nil m) (set (inorder T)))" using io by (simp add: items_def image_Un)
  ultimately show ?thesis using R(1,2,5,6) by (auto simp: qmap_rel_def)
qed

section \<open>The map as a keyed table\<close>

text \<open>The operations on the map together with the heap.\<close>

abbreviation qmap_get :: "cl_qmap \<times> cl_heap \<Rightarrow> u64 \<Rightarrow> addr option" where
  "qmap_get s k \<equiv> cl_qmap_get (fst s) k (snd s)"

abbreviation qmap_ins :: "cl_qmap \<times> cl_heap \<Rightarrow> u64 \<Rightarrow> addr \<Rightarrow> (addr \<times> cl_qmap \<times> cl_heap) option" where
  "qmap_ins s k a \<equiv> cl_qmap_insert (fst s) k a (snd s)"

abbreviation qmap_rem :: "cl_qmap \<times> cl_heap \<Rightarrow> u64 \<Rightarrow> (addr \<times> cl_qmap \<times> cl_heap) option" where
  "qmap_rem s k \<equiv> cl_qmap_remove (fst s) k (snd s)"

definition table_rel :: "addr \<Rightarrow> addr \<Rightarrow> cl_qmap \<times> cl_heap \<Rightarrow> (u64 \<times> addr) list \<Rightarrow> bool" where
  "table_rel R N s al \<longleftrightarrow> root (fst s) = R \<and> nil (fst s) = N \<and> qmap_rel (fst s) (snd s) al"

lemma qmap_rel_remove:
  assumes r: "qmap_rel m h al"
  shows "\<exists>m' h'. cl_qmap_remove m k h = Some (case map_of al k of None \<Rightarrow> nil m | Some a \<Rightarrow> a, m', h') \<and> root m' = root m \<and> nil m' = nil m \<and>
    qmap_rel m' h' (filter (\<lambda>(k', _). k' \<noteq> k) al) \<and> outside (items m al) h h'"
proof (cases "map_of al k")
  case None
  have "cl_qmap_remove m k h = Some (nil m, m, h)" using qmap_rel_get[OF r, of k] None by (simp add: cl_qmap_remove_def cl_qmap_remove_item_def)
  moreover have "filter (\<lambda>(k', _). k' \<noteq> k) al = al" using None by (auto simp: filter_id_conv map_of_eq_None_iff intro: rev_image_eqI)
  ultimately show ?thesis using None r by (auto simp: outside_def)
next
  case (Some a)
  then obtain xs ys where al: "al = xs @ (k, a) # ys" using split_list[OF map_of_SomeD] by metis
  obtain h' where h': "cl_qmap_remove_item m a h = Some (m\<lparr>count := count m - 1\<rparr>, h')" "qmap_rel (m\<lparr>count := count m - 1\<rparr>) h' (xs @ ys)"
    "outside (items m al) h h'" using qmap_rel_remove_item[OF r[unfolded al]] al by auto
  have "distinct (map fst al)" by (rule sorted_keys_distinct[OF rel_facts(1)[OF r]])
  then have "k \<notin> fst ` set xs" "k \<notin> fst ` set ys" using al by auto
  then have "filter (\<lambda>(k', _). k' \<noteq> k) xs = xs" "filter (\<lambda>(k', _). k' \<noteq> k) ys = ys" by (auto simp: filter_id_conv intro: rev_image_eqI)
  then have "filter (\<lambda>(k', _). k' \<noteq> k) al = xs @ ys" using al by simp
  moreover have "cl_qmap_remove m k h = Some (a, m\<lparr>count := count m - 1\<rparr>, h')" using qmap_rel_get[OF r, of k] Some h'(1) by (simp add: cl_qmap_remove_def)
  ultimately show ?thesis using Some h' by auto
qed

interpretation qm: keyed_table "table_rel R N" N "{R, N}" qmap_get qmap_ins qmap_rem
  for R :: addr and N :: addr
proof
  fix s al k a b
  assume r: "table_rel R N s al"
  then have q: "root (fst s) = R" "nil (fst s) = N" "qmap_rel (fst s) (snd s) al" by (simp_all add: table_rel_def)
  note f = rel_facts[OF q(3)]
  show "sorted_wrt (<) (map fst al)" by (rule f(1))
  show "distinct (map snd al) \<and> N \<notin> snd ` set al" using f(2,3) q by simp
  show "qmap_get s k = Some (case map_of al k of None \<Rightarrow> N | Some a \<Rightarrow> a)" using qmap_rel_get[OF q(3), of k] unfolding q(2) .
  show "\<exists>s'. qmap_rem s k = Some (case map_of al k of None \<Rightarrow> N | Some a \<Rightarrow> a, s') \<and> table_rel R N s' (filter (\<lambda>(k', _). k' \<noteq> k) al)"
    using qmap_rel_remove[OF q(3), of k] unfolding q(1,2) by (auto simp: table_rel_def)
  assume a: "a \<notin> {R, N}" "a \<notin> snd ` set al"
  then have I: "case map_of al k of
     None \<Rightarrow> \<exists>h'. qmap_ins s k a = Some (a, (fst s)\<lparr>count := count (fst s) + 1\<rparr>, h') \<and>
       qmap_rel ((fst s)\<lparr>count := count (fst s) + 1\<rparr>) h' (qmap_insert k a al) \<and> outside (insert a (items (fst s) al)) (snd s) h'
   | Some b \<Rightarrow> \<exists>h'. qmap_ins s k a = Some (b, fst s, h') \<and> qmap_rel (fst s) h' al \<and> outside {a} (snd s) h' \<and> key h' a = k"
    using qmap_rel_insert[OF q(3), of a k] q by simp
  show "\<exists>s'. qmap_ins s k a = Some (a, s') \<and> table_rel R N s' (qmap_insert k a al)" if "map_of al k = None"
    using I that q by (auto simp: table_rel_def)
  show "\<exists>s'. qmap_ins s k a = Some (b, s') \<and> table_rel R N s' al" if "map_of al k = Some b"
    using I that q by (auto simp: table_rel_def)
qed

section \<open>Traversal\<close>

lemma apply_loop_links:
  "links h (xs @ [nil m]) \<Longrightarrow> nil m \<notin> set xs \<Longrightarrow> cl_qmap_apply_loop m f h (hd (xs @ [nil m])) c = Some (fold f xs c)"
proof (induction xs arbitrary: c)
  case Nil
  then show ?case by (subst cl_qmap_apply_loop.simps) simp
next
  case (Cons x xs)
  have "p_next h x = hd (xs @ [nil m])" "links h (xs @ [nil m])" using Cons.prems(1) links_join[of "[x]" "xs @ [nil m]" h] by auto
  then show ?case using Cons.IH[of "f x c"] Cons.prems(2) by (subst cl_qmap_apply_loop.simps) (simp add: cl_qmap_next_def)
qed

lemma qmap_rel_apply:
  assumes "qmap_rel m h al"
  shows "cl_qmap_apply_func m f c h = Some (fold f (map snd al) c)"
proof -
  have d: "dll m h ([] @ map snd al)" using rel_facts(7)[OF assms] by simp
  have "cl_qmap_head m h = hd (map snd al @ [nil m])" "links h (map snd al @ [nil m])"
    using d dll_split[of m h "[]" "map snd al"] by (simp_all add: cl_qmap_head_def)
  then show ?thesis using apply_loop_links[of h "map snd al" m f c] rel_facts(3)[OF assms] by (simp add: cl_qmap_apply_func_def)
qed

lemma rel_head: "qmap_rel m h al \<Longrightarrow> cl_qmap_head m h = (case al of [] \<Rightarrow> nil m | (k, a) # _ \<Rightarrow> a)"
  using rel_facts(7)[of m h al] dll_split[of m h "[]" "map snd al"] by (auto simp: cl_qmap_head_def split: list.splits)

lemma rel_next: "qmap_rel m h (xs @ (k, a) # ys) \<Longrightarrow> cl_qmap_next h a = (case ys of [] \<Rightarrow> nil m | (k', b) # _ \<Rightarrow> b)"
  using rel_facts(7)[of m h "xs @ (k, a) # ys"] dll_split[of m h "map snd xs @ [a]" "map snd ys"] by (auto simp: cl_qmap_next_def split: list.splits)

section \<open>Balance\<close>

fun height :: "ptree \<Rightarrow> nat" where
  "height Leaf = 0"
| "height (Node c l a r) = Suc (max (height l) (height r))"

lemma rbt_height: "rbt n t \<Longrightarrow> height t \<le> 2 * n + (if tcol t = CL_MAP_RED then 1 else 0)"
proof (induction t arbitrary: n)
  case (Node c l a r)
  show ?case
  proof (cases c)
    case CL_MAP_RED
    then show ?thesis using Node.prems Node.IH(1)[of n] Node.IH(2)[of n] by simp
  next
    case CL_MAP_BLACK
    then obtain k where k: "n = Suc k" "rbt k l" "rbt k r" using Node.prems by (cases n) auto
    then show ?thesis using CL_MAP_BLACK Node.IH(1)[of k] Node.IH(2)[of k] by (simp split: if_splits)
  qed
qed simp

lemma rbt_size: "rbt n t \<Longrightarrow> 2 ^ n \<le> length (inorder t) + 1"
proof (induction t arbitrary: n)
  case (Node c l a r)
  show ?case
  proof (cases c)
    case CL_MAP_RED
    then show ?thesis using Node.prems Node.IH(1)[of n] by simp
  next
    case CL_MAP_BLACK
    then obtain k where k: "n = Suc k" "rbt k l" "rbt k r" using Node.prems by (cases n) auto
    then show ?thesis using Node.IH(1)[of k] Node.IH(2)[of k] by simp
  qed
qed simp

text \<open>The lookup with a bound on the number of items it compares.\<close>

fun get_bounded :: "cl_qmap \<Rightarrow> u64 \<Rightarrow> cl_heap \<Rightarrow> addr \<Rightarrow> nat \<Rightarrow> addr option" where
  "get_bounded m k h item 0 = (if item = nil m then Some item else None)"
| "get_bounded m k h item (Suc n) =
     (if item = nil m then Some item
      else if k = key h item then Some item
      else if k < key h item then get_bounded m k h (p_left h item) n
      else get_bounded m k h (p_right h item) n)"

lemma get_bounded_height: "tree_at m h t u \<Longrightarrow> height t \<le> n \<Longrightarrow> get_bounded m k h (ptr m t) n = cl_qmap_get_loop m k h (ptr m t)"
proof (induction t arbitrary: n u)
  case Leaf
  then show ?case by (subst cl_qmap_get_loop.simps) (cases n; simp)
next
  case (Node c l a r)
  obtain i where n: "n = Suc i" "height l \<le> i" "height r \<le> i" using Node.prems(2) by (cases n) auto
  have "get_bounded m k h (p_left h a) i = cl_qmap_get_loop m k h (p_left h a)" "get_bounded m k h (p_right h a) i = cl_qmap_get_loop m k h (p_right h a)"
    using Node.IH(1)[of a i] Node.IH(2)[of a i] Node.prems(1) n by simp_all
  then show ?case unfolding n(1) by (subst cl_qmap_get_loop.simps) simp
qed

lemma rel_search_bound:
  assumes "qmap_rel m h al"
  shows "\<exists>b. 2 ^ b \<le> length al + 1 \<and> (\<forall>k. get_bounded m k h (cl_map_root h m) (2 * b) = cl_qmap_get m k h)"
proof -
  obtain T where T: "qmap_at m h T" "al = entries h (inorder T)" using assms by (auto simp: qmap_rel_def)
  then obtain b where b: "rbt b T" "tcol T = CL_MAP_BLACK" "tree_at m h T (root m)" "cl_map_root h m = ptr m T"
    by (auto simp: qmap_at_def zip_at_def cl_map_root_def)
  have "height T \<le> 2 * b" using rbt_height[OF b(1)] b(2) by simp
  then show ?thesis using get_bounded_height[OF b(3)] rbt_size[OF b(1)] b(4) T(2) by (auto simp: cl_qmap_get_def)
qed

section \<open>Properties\<close>

lemma init_rel:
  assumes "root m \<noteq> nil m"
  shows "table_rel (root m) (nil m) (cl_qmap_init m h) []"
  using qmap_rel_init[OF assms, of h] by (auto simp: table_rel_def)

text \<open>C3. The quick map refines a table.  After any sequence of insertions of items not in the map and of removals, starting
  from an initialised map in any heap, the entries are in ascending key order and counted, a traversal visits exactly them in
  that order, a lookup finds the item with the key or the end, and the next insertion or removal ends and returns what the
  table says: an insertion the new item, or the old one if the key is taken.\<close>

theorem qmap_history:
  assumes "root m \<noteq> nil m" "tbl_trace qmap_ins qmap_rem {root m, nil m} (cl_qmap_init m h) s al"
  shows "sorted_wrt (<) (map fst al) \<and> count (fst s) = of_nat (length al) \<and>
    cl_qmap_apply_func (fst s) (\<lambda>item visited. visited @ [item]) [] (snd s) = Some (map snd al) \<and>
    cl_qmap_get (fst s) k (snd s) = Some (case map_of al k of None \<Rightarrow> nil m | Some a \<Rightarrow> a) \<and>
    (a \<notin> {root m, nil m} \<and> a \<notin> snd ` set al \<longrightarrow>
       (\<exists>s'. cl_qmap_insert (fst s) k a (snd s) = Some (case map_of al k of None \<Rightarrow> a | Some b \<Rightarrow> b, s'))) \<and>
    (\<exists>s'. cl_qmap_remove (fst s) k (snd s) = Some (case map_of al k of None \<Rightarrow> nil m | Some a \<Rightarrow> a, s'))"
proof -
  note R = init_rel[OF assms(1), of h]
  have q: "qmap_rel (fst s) (snd s) al" using qm.trace_rel[OF assms(2) R] by (simp add: table_rel_def)
  have f: "fold (\<lambda>item visited. visited @ [item]) xs ys = ys @ xs" for xs ys :: "addr list" by (induction xs arbitrary: ys) auto
  have ap: "cl_qmap_apply_func (fst s) (\<lambda>item visited. visited @ [item]) [] (snd s) = Some (map snd al)"
    using f[of "map snd al" "[]"] by (simp add: qmap_rel_apply[OF q])
  show ?thesis using rel_facts(1,6)[OF q] ap qm.trace_total[OF assms(2) R] by simp
qed

definition qmap_example :: cl_qmap where
  "qmap_example = \<lparr>root = 1, nil = 2, count = 0\<rparr>"

definition heap_example :: cl_heap where
  "heap_example = \<lparr>p_next = (\<lambda>_. 0), p_prev = (\<lambda>_. 0), p_left = (\<lambda>_. 0), p_right = (\<lambda>_. 0), p_up = (\<lambda>_. 0), color = (\<lambda>_. CL_MAP_RED), key = (\<lambda>_. 0)\<rparr>"

lemma trace_example: "\<exists>s. tbl_trace qmap_ins qmap_rem {1, 2} (cl_qmap_init qmap_example heap_example) s [(3, 11), (5, 10)]"
proof -
  let ?t = "tbl_trace qmap_ins qmap_rem {1, 2} (cl_qmap_init qmap_example heap_example)"
  have R: "table_rel 1 2 (cl_qmap_init qmap_example heap_example) []"
    using init_rel[of qmap_example heap_example] by (simp add: qmap_example_def)
  have t0: "?t (cl_qmap_init qmap_example heap_example) []" by (rule tbl_start)
  obtain s1 where s1: "qmap_ins (cl_qmap_init qmap_example heap_example) 5 10 = Some (10, s1)" using qm.trace_total(2)[OF t0 R, of 10 5] by auto
  have t1: "?t s1 [(5, 10)]" using tbl_insert[OF t0 _ _ s1] by simp
  obtain s2 where s2: "qmap_ins s1 3 11 = Some (11, s2)" using qm.trace_total(2)[OF t1 R, of 11 3] by auto
  have t2: "?t s2 [(3, 11), (5, 10)]" using tbl_insert[OF t1 _ _ s2] by simp
  obtain s3 where s3: "qmap_ins s2 9 12 = Some (12, s3)" using qm.trace_total(2)[OF t2 R, of 12 9] by auto
  have t3: "?t s3 [(3, 11), (5, 10), (9, 12)]" using tbl_insert[OF t2 _ _ s3] by simp
  obtain s4 where s4: "qmap_rem s3 9 = Some (12, s4)" using qm.trace_total(3)[OF t3 R, of 9] by auto
  have t4: "?t s4 [(3, 11), (5, 10)]" using tbl_remove[OF t3 s4] by simp
  then show ?thesis by blast
qed

theorem qmap_history_witness:
  "\<exists>m h x. cl_qmap_get m 5 h = Some 10 \<and> cl_qmap_get m 4 h = Some 2 \<and> count m = 2 \<and> cl_qmap_insert m 3 13 h = Some (11, x)"
proof -
  obtain s where s: "tbl_trace qmap_ins qmap_rem {root qmap_example, nil qmap_example} (cl_qmap_init qmap_example heap_example) s [(3, 11), (5, 10)]"
    using trace_example by (auto simp: qmap_example_def)
  have ne: "root qmap_example \<noteq> nil qmap_example" by (simp add: qmap_example_def)
  show ?thesis using qmap_history[OF ne s, of 5] qmap_history[OF ne s, of 4] qmap_history[OF ne s, of 3 13]
    by (auto simp: qmap_example_def)
qed

text \<open>C19. The tree stays balanced: after any such sequence a lookup compares at most \<open>2 * b\<close> items, where \<open>2 ^ b\<close> is at
  most one more than the number of items in the map.\<close>

theorem qmap_lookup_bound:
  assumes "root m \<noteq> nil m" "tbl_trace qmap_ins qmap_rem {root m, nil m} (cl_qmap_init m h) s al"
  shows "\<exists>b. 2 ^ b \<le> length al + 1 \<and> (\<forall>k. get_bounded (fst s) k (snd s) (cl_map_root (snd s) (fst s)) (2 * b) = cl_qmap_get (fst s) k (snd s))"
proof -
  have q: "qmap_rel (fst s) (snd s) al" using qm.trace_rel[OF assms(2) init_rel[OF assms(1)]] by (simp add: table_rel_def)
  show ?thesis by (rule rel_search_bound[OF q])
qed

theorem qmap_lookup_bound_witness:
  "\<exists>m h b. 2 ^ b \<le> (3 :: nat) \<and> get_bounded m 5 h (cl_map_root h m) (2 * b) = cl_qmap_get m 5 h"
proof -
  obtain s where s: "tbl_trace qmap_ins qmap_rem {root qmap_example, nil qmap_example} (cl_qmap_init qmap_example heap_example) s [(3, 11), (5, 10)]"
    using trace_example by (auto simp: qmap_example_def)
  have ne: "root qmap_example \<noteq> nil qmap_example" by (simp add: qmap_example_def)
  show ?thesis using qmap_lookup_bound[OF ne s] by (auto simp: numeral_eq_Suc)
qed

end
