(* ===== verification/Cl_Map_Merge.thy ===== *)
theory Cl_Map_Merge
  imports Cl_Map_Spec
begin

text \<open>
  Several quick maps in one heap: merging one into another and comparing two, which move items between maps while the loops
  follow the list of the map that shrinks.
\<close>

section \<open>Several maps in one heap\<close>

definition maps_at :: "cl_heap \<Rightarrow> (cl_qmap \<times> (u64 \<times> addr) list) list \<Rightarrow> bool" where
  "maps_at h ps \<longleftrightarrow> (\<forall>(m, al)\<in>set ps. qmap_rel m h al) \<and> sorted_wrt (\<lambda>(m, al) (m', al'). items m al \<inter> items m' al' = {}) ps"

lemma maps_at_Cons:
  "maps_at h ((m, al) # ps) \<longleftrightarrow> qmap_rel m h al \<and> (\<forall>(m', al')\<in>set ps. items m al \<inter> items m' al' = {}) \<and> maps_at h ps"
  by (auto simp: maps_at_def)

lemma maps_at_rotate: "maps_at h (p # ps) \<longleftrightarrow> maps_at h (ps @ [p])"
  by (cases p) (auto simp: maps_at_def sorted_wrt_append Int_commute)

lemma maps_at_swap: "maps_at h (p # q # ps) \<longleftrightarrow> maps_at h (q # p # ps)"
  by (cases p; cases q) (auto simp: maps_at_def Int_commute)

lemma maps_at_perm4:
  "maps_at h [p, q, r, s] \<longleftrightarrow> maps_at h [p, s, q, r]" "maps_at h [p, q, r, s] \<longleftrightarrow> maps_at h [q, r, p, s]"
proof -
  define R where "R = (\<lambda>(m, al) (m', al' :: (u64 \<times> addr) list). items m al \<inter> items m' al' = {})"
  have c: "R x y = R y x" for x y by (auto simp: R_def)
  show "maps_at h [p, q, r, s] \<longleftrightarrow> maps_at h [p, s, q, r]" "maps_at h [p, q, r, s] \<longleftrightarrow> maps_at h [q, r, p, s]"
    unfolding maps_at_def R_def[symmetric] using c[of p q] c[of p r] c[of q s] c[of r s] by auto
qed

lemma maps_at_outside:
  assumes "maps_at h ps" "outside X h h'" "\<forall>(m, al)\<in>set ps. items m al \<inter> X = {}"
  shows "maps_at h' ps"
proof -
  have "qmap_rel m h' al" if "(m, al) \<in> set ps" for m al
  proof (rule rel_outside[OF _ assms(2)])
    show "qmap_rel m h al" using assms(1) that by (auto simp: maps_at_def)
    have "items m al \<inter> X = {}" using assms(3) that by blast
    then show "root m \<notin> X" "nil m \<notin> X" "X \<inter> snd ` set al = {}" by (auto simp: items_def)
  qed
  then show ?thesis using assms(1) by (auto simp: maps_at_def)
qed

lemma items_cong: "root m' = root m \<Longrightarrow> nil m' = nil m \<Longrightarrow> items m' al = items m al"
  by (simp add: items_def)

lemma items_insert: "sorted_wrt (<) (map fst al) \<Longrightarrow> map_of al k = None \<Longrightarrow> items m (qmap_insert k a al) = insert a (items m al)"
  by (auto simp: items_def qmap_insert_set map_of_eq_None_iff image_iff)

lemma items_split: "items m (xs @ (k, a) # ys) = insert a (items m (xs @ ys))"
  by (auto simp: items_def)

lemma rel_notin: "qmap_rel m h (xs @ (k, a) # ys) \<Longrightarrow> a \<notin> items m (xs @ ys)"
  using rel_facts(2,3,4)[of m h "xs @ (k, a) # ys"] by (auto simp: items_def)

abbreviation same_map :: "cl_qmap \<Rightarrow> cl_qmap \<Rightarrow> bool" where
  "same_map m m' \<equiv> root m' = root m \<and> nil m' = nil m"

text \<open>Taking an item out of one map, then putting it into another, leaves the rest of the maps alone.\<close>

lemma maps_remove:
  assumes "maps_at h ((src, ks @ (k, a) # rs) # ps)"
  shows "\<exists>src' h'. cl_qmap_remove_item src a h = Some (src', h') \<and> same_map src src' \<and> key h' = key h \<and>
    maps_at h' ((src', ks @ rs) # ps) \<and> a \<notin> items src' (ks @ rs) \<and> (\<forall>(m, al)\<in>set ps. a \<notin> items m al)"
proof -
  have r: "qmap_rel src h (ks @ (k, a) # rs)" and d: "\<forall>(m', al')\<in>set ps. items src (ks @ (k, a) # rs) \<inter> items m' al' = {}" and p: "maps_at h ps"
    using assms by (auto simp: maps_at_Cons)
  obtain h' where h': "cl_qmap_remove_item src a h = Some (src\<lparr>count := count src - 1\<rparr>, h')"
    "qmap_rel (src\<lparr>count := count src - 1\<rparr>) h' (ks @ rs)" "key h' = key h" "outside (items src (ks @ (k, a) # rs)) h h'"
    using qmap_rel_remove_item[OF r] by blast
  have "maps_at h' ps" by (rule maps_at_outside[OF p h'(4)]) (use d in blast)
  moreover have "items (src\<lparr>count := count src - 1\<rparr>) (ks @ rs) = items src (ks @ rs)" by (simp add: items_def)
  ultimately show ?thesis using h' d rel_notin[OF r] items_split[of src ks k a rs]
    by (intro exI[of _ "src\<lparr>count := count src - 1\<rparr>"] exI[of _ h']) (auto simp: maps_at_Cons)
qed

lemma maps_insert:
  assumes m: "maps_at h ((dest, dl) # ps)" and a: "a \<notin> items dest dl" "\<forall>(m, al)\<in>set ps. a \<notin> items m al"
  shows "case map_of dl k of
     None \<Rightarrow> \<exists>dest' h'. cl_qmap_insert dest k a h = Some (a, dest', h') \<and> same_map dest dest' \<and> maps_at h' ((dest', qmap_insert k a dl) # ps)
   | Some b \<Rightarrow> \<exists>h'. cl_qmap_insert dest k a h = Some (b, dest, h') \<and> b \<noteq> a \<and> key h' a = k \<and> maps_at h' ((dest, dl) # ps)"
proof -
  have r: "qmap_rel dest h dl" and d: "\<forall>(m', al')\<in>set ps. items dest dl \<inter> items m' al' = {}" and p: "maps_at h ps"
    using m by (auto simp: maps_at_Cons)
  have an: "a \<noteq> root dest" "a \<noteq> nil dest" "a \<notin> snd ` set dl" using a(1) by (auto simp: items_def)
  note I = qmap_rel_insert[OF r an, of k]
  show ?thesis
  proof (cases "map_of dl k")
    case None
    let ?d = "dest\<lparr>count := count dest + 1\<rparr>"
    obtain h' where h': "cl_qmap_insert dest k a h = Some (a, ?d, h')" "qmap_rel ?d h' (qmap_insert k a dl)" "outside (insert a (items dest dl)) h h'"
      using I None by auto
    have "maps_at h' ps" by (rule maps_at_outside[OF p h'(3)]) (use d a in blast)
    moreover have "items ?d (qmap_insert k a dl) = insert a (items dest dl)"
      using items_insert[OF rel_facts(1)[OF r] None, of dest a] items_cong[of ?d dest] by simp
    ultimately have "maps_at h' ((?d, qmap_insert k a dl) # ps)" using h'(2) d a by (auto simp: maps_at_Cons)
    then show ?thesis using None h'(1) by auto
  next
    case (Some b)
    obtain h' where h': "cl_qmap_insert dest k a h = Some (b, dest, h')" "qmap_rel dest h' dl" "outside {a} h h'" "key h' a = k" using I Some by auto
    have "maps_at h' ps" by (rule maps_at_outside[OF p h'(3)]) (use a in blast)
    moreover have "b \<noteq> a" using map_of_SomeD[OF Some] an(3) by (auto intro: rev_image_eqI)
    ultimately show ?thesis using Some h' d by (auto simp: maps_at_Cons)
  qed
qed

definition first :: "cl_qmap \<Rightarrow> (u64 \<times> addr) list \<Rightarrow> addr" where
  "first m al = (case al of [] \<Rightarrow> nil m | (k, a) # _ \<Rightarrow> a)"

lemma first_simps [simp]: "first m [] = nil m" "first m ((k, a) # al) = a"
  by (simp_all add: first_def)

lemma first_cong: "nil m' = nil m \<Longrightarrow> first m' al = first m al"
  by (simp add: first_def split: list.splits)

lemma maps_next: "maps_at h ((src, ks @ (k, a) # rs) # ps) \<Longrightarrow> cl_qmap_next h a = first src rs \<and> a \<noteq> nil src \<and> key h a = k"
  using rel_next[of src h ks k a rs] rel_facts(3,8)[of src h "ks @ (k, a) # rs"] by (auto simp: maps_at_Cons first_def)

lemma reinsert: "sorted_wrt (<) (map fst (ks @ (k, a) # rs)) \<Longrightarrow> qmap_insert k a (ks @ rs) = ks @ (k, a) # rs"
  by (rule qmap_insert_split) (auto simp: sorted_wrt_append)

lemma sorted_None: "sorted_wrt (<) (map fst (ks @ (k, a) # rs)) \<Longrightarrow> map_of (ks @ rs) k = None" for k :: u64
  by (force simp: map_of_eq_None_iff sorted_wrt_append)

section \<open>Merging\<close>

lemma merge_loop_spec:
  assumes "maps_at h ((dest, dl) # (src, ks @ rs) # ps)"
  shows "\<exists>dest' src' h' dl'. cl_qmap_merge_loop dest src (first src rs) h = Some (dest', src', h') \<and>
    maps_at h' ((dest', dl') # (src', ks @ filter (\<lambda>(k, _). map_of dl k \<noteq> None) rs) # ps) \<and> map_of dl' = map_of rs ++ map_of dl"
  using assms
proof (induction rs arbitrary: h dest dl src ks)
  case Nil
  then show ?case by (subst cl_qmap_merge_loop.simps) auto
next
  case (Cons r rs)
  obtain k a where r: "r = (k, a)" by (cases r)
  have M: "maps_at h ((src, ks @ (k, a) # rs) # (dest, dl) # ps)" using Cons.prems r maps_at_swap by metis
  have so: "sorted_wrt (<) (map fst (ks @ (k, a) # rs))" "sorted_wrt (<) (map fst dl)"
    using M rel_facts(1)[of src h "ks @ (k, a) # rs"] rel_facts(1)[of dest h dl] by (simp_all add: maps_at_Cons)
  obtain src1 h1 where R: "cl_qmap_remove_item src a h = Some (src1, h1)" "same_map src src1" "key h1 = key h"
    "maps_at h1 ((src1, ks @ rs) # (dest, dl) # ps)" "a \<notin> items src1 (ks @ rs)" "a \<notin> items dest dl" "\<forall>(m, al)\<in>set ps. a \<notin> items m al"
    using maps_remove[OF M] by auto
  have nx: "cl_qmap_next h a = first src rs" "a \<noteq> nil src" "key h a = k" using maps_next[OF M] by auto
  have M1: "maps_at h1 ((dest, dl) # (src1, ks @ rs) # ps)" using R(4) maps_at_swap by metis
  have kr: "k \<notin> fst ` set rs" using so(1) by (force simp: sorted_wrt_append)
  have fc: "first src rs = first m rs" if "nil m = nil src" for m using that by (simp add: first_def split: list.splits)
  note I = maps_insert[OF M1 R(6), of k]
  show ?case
  proof (cases "map_of dl k")
    case None
    obtain dest2 h2 where I2: "cl_qmap_insert dest k a h1 = Some (a, dest2, h2)" "same_map dest dest2"
      "maps_at h2 ((dest2, qmap_insert k a dl) # (src1, ks @ rs) # ps)" using I None R(5,7) by auto
    have e: "cl_qmap_merge_loop dest src a h = cl_qmap_merge_loop dest2 src1 (first src1 rs) h2"
      using R(1,3) nx I2(1) fc[of src1] R(2) by (subst cl_qmap_merge_loop.simps) (simp add: Let_def)
    have fl: "filter (\<lambda>(k, _). map_of (qmap_insert k' a dl) k \<noteq> None) rs = filter (\<lambda>(k, _). map_of dl k \<noteq> None) rs" if "k' = k" for k'
      using that kr qmap_insert_lookup[OF so(2)] by (intro filter_cong) (auto intro: rev_image_eqI split: if_splits)
    have mp: "map_of rs ++ map_of (qmap_insert k a dl) = map_of (r # rs) ++ map_of dl"
      using qmap_insert_lookup[OF so(2)] None r by (auto simp: map_add_def fun_eq_iff split: option.splits)
    show ?thesis using Cons.IH[OF I2(3)] e fl[OF refl] mp None r by (auto simp del: map_of.simps)
  next
    case (Some b)
    obtain h2 where I2: "cl_qmap_insert dest k a h1 = Some (b, dest, h2)" "b \<noteq> a" "key h2 a = k"
      "maps_at h2 ((dest, dl) # (src1, ks @ rs) # ps)" using I Some R(5,7) by auto
    have M2: "maps_at h2 ((src1, ks @ rs) # (dest, dl) # ps)" using I2(4) maps_at_swap by metis
    obtain src3 h3 where I3: "cl_qmap_insert src1 k a h2 = Some (a, src3, h3)" "same_map src1 src3"
      "maps_at h3 ((src3, qmap_insert k a (ks @ rs)) # (dest, dl) # ps)"
      using maps_insert[OF M2 R(5), of k] R(6,7) by (auto simp: sorted_None[OF so(1)] simp del: map_of_append)
    have M3: "maps_at h3 ((dest, dl) # (src3, (ks @ [(k, a)]) @ rs) # ps)" using I3(3) reinsert[OF so(1)] maps_at_swap by (metis append_Cons append_Nil append_assoc)
    have e: "cl_qmap_merge_loop dest src a h = cl_qmap_merge_loop dest src3 (first src3 rs) h3"
      using R(1,2,3) nx I2(1-3) I3(1,2) fc[of src3] by (subst cl_qmap_merge_loop.simps) (simp add: Let_def)
    have mp: "map_of rs ++ map_of dl = map_of (r # rs) ++ map_of dl" using Some r by (auto simp: map_add_def fun_eq_iff split: option.splits)
    show ?thesis using Cons.IH[OF M3] e mp Some r by (auto simp del: map_of.simps)
  qed
qed

section \<open>Comparing\<close>

lemma delta_move_spec:
  assumes M: "maps_at h ((src, ks @ (k, a) # rs) # (dest, dl) # ps)" and g: "\<forall>x\<in>set (map fst dl). x < k"
  shows "\<exists>dest' src' h'. cl_qmap_delta_move dest src a h = Some (dest', src', first src rs, h') \<and> same_map src src' \<and> same_map dest dest' \<and>
    maps_at h' ((src', ks @ rs) # (dest', dl @ [(k, a)]) # ps)"
proof -
  obtain src1 h1 where R: "cl_qmap_remove_item src a h = Some (src1, h1)" "same_map src src1" "key h1 = key h"
    "maps_at h1 ((src1, ks @ rs) # (dest, dl) # ps)" "a \<notin> items src1 (ks @ rs)" "a \<notin> items dest dl" "\<forall>(m, al)\<in>set ps. a \<notin> items m al"
    using maps_remove[OF M] by auto
  have nx: "cl_qmap_next h a = first src rs" "key h a = k" using maps_next[OF M] by auto
  have M1: "maps_at h1 ((dest, dl) # (src1, ks @ rs) # ps)" using R(4) maps_at_swap by metis
  have n: "map_of dl k = None" using g by (force simp: map_of_eq_None_iff)
  have ap: "qmap_insert k a dl = dl @ [(k, a)]" using qmap_insert_split[of dl k "[]" a] g by simp
  obtain dest2 h2 where I: "cl_qmap_insert dest k a h1 = Some (a, dest2, h2)" "same_map dest dest2"
    "maps_at h2 ((dest2, dl @ [(k, a)]) # (src1, ks @ rs) # ps)" using maps_insert[OF M1 R(6), of k] n R(5,7) ap by auto
  have "cl_qmap_delta_move dest src a h = Some (dest2, src1, first src rs, h2)"
    using R(1,3) nx I(1) by (simp add: cl_qmap_delta_move_def Let_def)
  then show ?thesis using R(2) I(2,3) maps_at_swap by metis
qed

lemma delta_rest_spec:
  assumes "maps_at h ((src, ks @ rs) # (dest, dl) # ps)" "sorted_wrt (<) (map fst (dl @ rs))"
  shows "\<exists>dest' src' h'. cl_qmap_delta_rest dest src (first src rs) h = Some (dest', src', h') \<and>
    maps_at h' ((src', ks) # (dest', dl @ rs) # ps)"
  using assms
proof (induction rs arbitrary: h src dest dl)
  case Nil
  then show ?case by (subst cl_qmap_delta_rest.simps) simp
next
  case (Cons r rs)
  obtain k a where r: "r = (k, a)" by (cases r)
  have M: "maps_at h ((src, ks @ (k, a) # rs) # (dest, dl) # ps)" using Cons.prems(1) r by simp
  have g: "\<forall>x\<in>set (map fst dl). x < k" using Cons.prems(2) r by (auto simp: sorted_wrt_append)
  obtain dest' src' h' where D: "cl_qmap_delta_move dest src a h = Some (dest', src', first src rs, h')" "same_map src src'"
    "maps_at h' ((src', ks @ rs) # (dest', dl @ [(k, a)]) # ps)" using delta_move_spec[OF M g] by blast
  have s: "sorted_wrt (<) (map fst ((dl @ [(k, a)]) @ rs))" using Cons.prems(2) r by simp
  have "a \<noteq> nil src" using maps_next[OF M] by blast
  then have "cl_qmap_delta_rest dest src (first src (r # rs)) h = cl_qmap_delta_rest dest' src' (first src' rs) h'"
    using D(1,2) r first_cong[of src' src rs] by (subst cl_qmap_delta_rest.simps) simp
  then show ?case using Cons.IH[OF D(3) s] r by simp
qed

definition in_keys :: "(u64 \<times> 'b) list \<Rightarrow> u64 \<times> 'a \<Rightarrow> bool" where
  "in_keys al e \<longleftrightarrow> fst e \<in> fst ` set al"

lemma in_keys_Cons: "in_keys ((k, a) # al) e \<longleftrightarrow> fst e = k \<or> in_keys al e" and in_keys_Nil: "\<not> in_keys [] e"
  by (auto simp: in_keys_def)

lemma filter_keys:
  assumes "\<forall>e\<in>set xs. fst e \<noteq> k"
  shows "filter (in_keys ((k, a) # ys)) xs = filter (in_keys ys) xs" "filter (\<lambda>e. \<not> in_keys ((k, a) # ys) e) xs = filter (\<lambda>e. \<not> in_keys ys e) xs"
  using assms by (auto simp: in_keys_Cons intro!: filter_cong)

lemma not_in_keys: "\<forall>e\<in>set xs. fst e \<noteq> k \<Longrightarrow> \<not> in_keys xs (k, a)"
  by (auto simp: in_keys_def)

text \<open>The common loop stops when one of the lists is used up; what is left of the other belongs to no key of the first.\<close>

definition delta_post where
  "delta_post ks1 ks2 nl ol rs1 rs2 res \<longleftrightarrow>
     (\<exists>m1 m2 n o' h' t1 t2 d1 d2. res = Some (m1, m2, n, o', first m1 t1, first m2 t2, h') \<and>
        maps_at h' [(m1, ks1 @ filter (in_keys rs2) rs1 @ t1), (m2, ks2 @ filter (in_keys rs1) rs2 @ t2), (n, nl @ d2), (o', ol @ d1)] \<and>
        d1 @ t1 = filter (\<lambda>e. \<not> in_keys rs2 e) rs1 \<and> d2 @ t2 = filter (\<lambda>e. \<not> in_keys rs1 e) rs2)"

lemma delta_postI:
  assumes "res = Some (m1, m2, n, o', first m1 t1, first m2 t2, h')"
    "maps_at h' [(m1, ks1 @ filter (in_keys rs2) rs1 @ t1), (m2, ks2 @ filter (in_keys rs1) rs2 @ t2), (n, nl @ d2), (o', ol @ d1)]"
    "d1 @ t1 = filter (\<lambda>e. \<not> in_keys rs2 e) rs1" "d2 @ t2 = filter (\<lambda>e. \<not> in_keys rs1 e) rs2"
  shows "delta_post ks1 ks2 nl ol rs1 rs2 res"
  using assms unfolding delta_post_def by blast

lemma delta_post_lt:
  assumes P: "delta_post ks1 ks2 nl (ol @ [(k, a)]) rs1 rs2 res" and n: "\<forall>e\<in>set rs2. fst e \<noteq> k"
  shows "delta_post ks1 ks2 nl ol ((k, a) # rs1) rs2 res"
proof -
  from P obtain m1 m2 n o' h' t1 t2 d1 d2 where d: "res = Some (m1, m2, n, o', first m1 t1, first m2 t2, h')"
    "maps_at h' [(m1, ks1 @ filter (in_keys rs2) rs1 @ t1), (m2, ks2 @ filter (in_keys rs1) rs2 @ t2), (n, nl @ d2), (o', (ol @ [(k, a)]) @ d1)]"
    "d1 @ t1 = filter (\<lambda>e. \<not> in_keys rs2 e) rs1" "d2 @ t2 = filter (\<lambda>e. \<not> in_keys rs1 e) rs2" unfolding delta_post_def by blast
  show ?thesis by (rule delta_postI[where ?d1.0 = "(k, a) # d1", OF d(1)]) (use d(2-4) not_in_keys[OF n, of a] in \<open>simp_all add: filter_keys[OF n]\<close>)
qed

lemma delta_post_gt:
  assumes P: "delta_post ks1 ks2 (nl @ [(k, a)]) ol rs1 rs2 res" and n: "\<forall>e\<in>set rs1. fst e \<noteq> k"
  shows "delta_post ks1 ks2 nl ol rs1 ((k, a) # rs2) res"
proof -
  from P obtain m1 m2 n o' h' t1 t2 d1 d2 where d: "res = Some (m1, m2, n, o', first m1 t1, first m2 t2, h')"
    "maps_at h' [(m1, ks1 @ filter (in_keys rs2) rs1 @ t1), (m2, ks2 @ filter (in_keys rs1) rs2 @ t2), (n, (nl @ [(k, a)]) @ d2), (o', ol @ d1)]"
    "d1 @ t1 = filter (\<lambda>e. \<not> in_keys rs2 e) rs1" "d2 @ t2 = filter (\<lambda>e. \<not> in_keys rs1 e) rs2" unfolding delta_post_def by blast
  show ?thesis by (rule delta_postI[where ?d2.0 = "(k, a) # d2", OF d(1)]) (use d(2-4) not_in_keys[OF n, of a] in \<open>simp_all add: filter_keys[OF n]\<close>)
qed

lemma delta_post_eq:
  assumes P: "delta_post (ks1 @ [(k, a)]) (ks2 @ [(k, b)]) nl ol rs1 rs2 res" and n: "\<forall>e\<in>set rs1. fst e \<noteq> k" "\<forall>e\<in>set rs2. fst e \<noteq> k"
  shows "delta_post ks1 ks2 nl ol ((k, a) # rs1) ((k, b) # rs2) res"
proof -
  have "filter (in_keys ((k, b) # rs2)) ((k, a) # rs1) = (k, a) # filter (in_keys rs2) rs1"
    "filter (in_keys ((k, a) # rs1)) ((k, b) # rs2) = (k, b) # filter (in_keys rs1) rs2"
    "filter (\<lambda>e. \<not> in_keys ((k, b) # rs2) e) ((k, a) # rs1) = filter (\<lambda>e. \<not> in_keys rs2 e) rs1"
    "filter (\<lambda>e. \<not> in_keys ((k, a) # rs1) e) ((k, b) # rs2) = filter (\<lambda>e. \<not> in_keys rs1 e) rs2"
    using filter_keys[OF n(1)] filter_keys[OF n(2)] by (simp_all add: in_keys_Cons[of k _ _ "(k, _)"])
  then show ?thesis using P unfolding delta_post_def by simp
qed

lemma delta_loop_spec:
  assumes "maps_at h [(p_map1, ks1 @ rs1), (p_map2, ks2 @ rs2), (new, nl), (old, ol)]"
    "sorted_wrt (<) (map fst (ol @ rs1))" "sorted_wrt (<) (map fst (nl @ rs2))"
  shows "delta_post ks1 ks2 nl ol rs1 rs2 (cl_qmap_delta_loop p_map1 p_map2 new old (first p_map1 rs1) (first p_map2 rs2) h)"
  using assms
proof (induction "length rs1 + length rs2" arbitrary: rs1 rs2 ks1 ks2 nl ol p_map1 p_map2 new old h rule: less_induct)
  case less
  show ?case
  proof (cases "rs1 = [] \<or> rs2 = []")
    case True
    have "first p_map1 rs1 = nil p_map1 \<or> first p_map2 rs2 = nil p_map2" using True by auto
    then have e: "cl_qmap_delta_loop p_map1 p_map2 new old (first p_map1 rs1) (first p_map2 rs2) h =
      Some (p_map1, p_map2, new, old, first p_map1 rs1, first p_map2 rs2, h)" by (subst cl_qmap_delta_loop.simps) simp
    have f: "filter (in_keys rs2) rs1 = []" "filter (in_keys rs1) rs2 = []" "filter (\<lambda>e. \<not> in_keys rs2 e) rs1 = [] @ rs1" "filter (\<lambda>e. \<not> in_keys rs1 e) rs2 = [] @ rs2"
      using True by (auto simp: in_keys_Nil)
    have "maps_at h [(p_map1, ks1 @ [] @ rs1), (p_map2, ks2 @ [] @ rs2), (new, nl @ []), (old, ol @ [])]" using less.prems(1) by simp
    then show ?thesis unfolding delta_post_def e f by blast
  next
    case False
    then obtain k1 a1 r1 k2 a2 r2 where rs: "rs1 = (k1, a1) # r1" "rs2 = (k2, a2) # r2" by (cases rs1; cases rs2) auto
    note M = less.prems(1)[unfolded rs]
    have g1: "\<forall>x\<in>set (map fst ol). x < k1" "\<forall>x\<in>set (map fst nl). x < k2" using less.prems(2,3) rs by (auto simp: sorted_wrt_append)
    have s1: "sorted_wrt (<) (map fst ((ol @ [(k1, a1)]) @ r1))" "sorted_wrt (<) (map fst ((nl @ [(k2, a2)]) @ r2))"
      "sorted_wrt (<) (map fst (ol @ r1))" "sorted_wrt (<) (map fst (nl @ r2))"
      using less.prems(2,3) rs by (auto simp: sorted_wrt_append)
    have b1: "\<forall>e\<in>set r1. k1 < fst e" "\<forall>e\<in>set r2. k2 < fst e" using less.prems(2,3) rs by (auto simp: sorted_wrt_append)
    have n1: "a1 \<noteq> nil p_map1" "key h a1 = k1" "cl_qmap_next h a1 = first p_map1 r1" using maps_next[OF M] by auto
    have M2: "maps_at h [(p_map2, ks2 @ (k2, a2) # r2), (new, nl), (p_map1, ks1 @ (k1, a1) # r1), (old, ol)]"
      using M maps_at_perm4(2) by metis
    have n2: "a2 \<noteq> nil p_map2" "key h a2 = k2" "cl_qmap_next h a2 = first p_map2 r2" using maps_next[OF M2] by auto
    consider (lt) "k1 < k2" | (gt) "k2 < k1" | (eq) "k1 = k2" by (rule linorder_cases)
    then show ?thesis
    proof cases
      case lt
      have M1: "maps_at h [(p_map1, ks1 @ (k1, a1) # r1), (old, ol), (p_map2, ks2 @ rs2), (new, nl)]"
        using M rs maps_at_perm4(1) by metis
      obtain o1 m1 h1 where D: "cl_qmap_delta_move old p_map1 a1 h = Some (o1, m1, first p_map1 r1, h1)" "same_map p_map1 m1"
        "maps_at h1 [(m1, ks1 @ r1), (o1, ol @ [(k1, a1)]), (p_map2, ks2 @ rs2), (new, nl)]" using delta_move_spec[OF M1 g1(1)] by blast
      have D': "maps_at h1 [(m1, ks1 @ r1), (p_map2, ks2 @ rs2), (new, nl), (o1, ol @ [(k1, a1)])]" using D(3) maps_at_perm4 by metis
      have e: "cl_qmap_delta_loop p_map1 p_map2 new old (first p_map1 rs1) (first p_map2 rs2) h =
        cl_qmap_delta_loop m1 p_map2 new o1 (first m1 r1) (first p_map2 rs2) h1"
        using n1 n2 lt D(1,2) rs first_cong[of m1 p_map1 r1] by (subst cl_qmap_delta_loop.simps) simp
      have "\<forall>e\<in>set rs2. fst e \<noteq> k1" using lt b1(2) rs by auto
      moreover have "length r1 + length rs2 < length rs1 + length rs2" using rs by simp
      ultimately show ?thesis using delta_post_lt[OF less.hyps[OF _ D' s1(1) less.prems(3)]] e rs(1) by simp
    next
      case gt
      have M2': "maps_at h [(p_map2, ks2 @ (k2, a2) # r2), (new, nl), (p_map1, ks1 @ rs1), (old, ol)]" using M2 rs by simp
      obtain n0 m2 h1 where D: "cl_qmap_delta_move new p_map2 a2 h = Some (n0, m2, first p_map2 r2, h1)" "same_map p_map2 m2"
        "maps_at h1 [(m2, ks2 @ r2), (n0, nl @ [(k2, a2)]), (p_map1, ks1 @ rs1), (old, ol)]" using delta_move_spec[OF M2' g1(2)] by blast
      have D': "maps_at h1 [(p_map1, ks1 @ rs1), (m2, ks2 @ r2), (n0, nl @ [(k2, a2)]), (old, ol)]" using D(3) maps_at_perm4(2) by metis
      have e: "cl_qmap_delta_loop p_map1 p_map2 new old (first p_map1 rs1) (first p_map2 rs2) h =
        cl_qmap_delta_loop p_map1 m2 n0 old (first p_map1 rs1) (first m2 r2) h1"
        using n1 n2 gt order_less_not_sym[OF gt] D(1,2) rs first_cong[of m2 p_map2 r2] by (subst cl_qmap_delta_loop.simps) simp
      have "\<forall>e\<in>set rs1. fst e \<noteq> k2" using gt b1(1) rs by auto
      moreover have "length rs1 + length r2 < length rs1 + length rs2" using rs by simp
      ultimately show ?thesis using delta_post_gt[OF less.hyps[OF _ D' less.prems(2) s1(2)]] e rs(2) by simp
    next
      case eq
      have D': "maps_at h [(p_map1, (ks1 @ [(k1, a1)]) @ r1), (p_map2, (ks2 @ [(k2, a2)]) @ r2), (new, nl), (old, ol)]" using M by simp
      have e: "cl_qmap_delta_loop p_map1 p_map2 new old (first p_map1 rs1) (first p_map2 rs2) h =
        cl_qmap_delta_loop p_map1 p_map2 new old (first p_map1 r1) (first p_map2 r2) h"
        using n1 n2 eq rs by (subst cl_qmap_delta_loop.simps) simp
      have "\<forall>e\<in>set r1. fst e \<noteq> k1" "\<forall>e\<in>set r2. fst e \<noteq> k1" using b1 eq by auto
      moreover have "length r1 + length r2 < length rs1 + length rs2" using rs by simp
      ultimately show ?thesis using delta_post_eq[OF less.hyps[OF _ D'[unfolded eq] s1(3,4)]] e rs eq by simp
    qed
  qed
qed

lemma maps_head: "maps_at h ((m, al) # ps) \<Longrightarrow> cl_qmap_head m h = first m al"
  using rel_head[of m h al] by (simp add: maps_at_Cons first_def)

lemma delta_spec:
  assumes M: "maps_at h [(p_map1, al), (p_map2, bl), (new, []), (old, [])]"
  shows "\<exists>m1 m2 n o' h'. cl_qmap_delta p_map1 p_map2 new old h = Some (m1, m2, n, o', h') \<and>
    maps_at h' [(m1, filter (in_keys bl) al), (m2, filter (in_keys al) bl), (n, filter (\<lambda>e. \<not> in_keys al e) bl), (o', filter (\<lambda>e. \<not> in_keys bl e) al)]"
proof -
  have hd: "cl_qmap_head p_map1 h = first p_map1 al" "cl_qmap_head p_map2 h = first p_map2 bl"
    using M maps_head[of h p_map1 al "[]"] maps_head[of h p_map2 bl "[]"] by (auto simp: maps_at_Cons maps_at_def[of h "[]"])
  have s: "sorted_wrt (<) (map fst ([] @ al))" "sorted_wrt (<) (map fst ([] @ bl))"
    using M rel_facts(1)[of p_map1 h al] rel_facts(1)[of p_map2 h bl] by (simp_all add: maps_at_Cons)
  define c1 where "c1 = filter (in_keys bl) al"
  define c2 where "c2 = filter (in_keys al) bl"
  have "delta_post [] [] [] [] al bl (cl_qmap_delta_loop p_map1 p_map2 new old (first p_map1 al) (first p_map2 bl) h)"
    by (rule delta_loop_spec[OF _ s]) (use M in simp)
  then obtain m1 m2 n o' h1 t1 t2 d1 d2 where L:
    "cl_qmap_delta_loop p_map1 p_map2 new old (first p_map1 al) (first p_map2 bl) h = Some (m1, m2, n, o', first m1 t1, first m2 t2, h1)"
    "maps_at h1 [(m1, c1 @ t1), (m2, c2 @ t2), (n, d2), (o', d1)]"
    "d1 @ t1 = filter (\<lambda>e. \<not> in_keys bl e) al" "d2 @ t2 = filter (\<lambda>e. \<not> in_keys al e) bl"
    unfolding delta_post_def c1_def c2_def append_Nil by blast
  have so: "sorted_wrt (<) (map fst (d1 @ t1))" "sorted_wrt (<) (map fst (d2 @ t2))"
    unfolding L(3,4) using s by (auto simp: sorted_wrt_map intro: sorted_wrt_filter)
  have "maps_at h1 [(m2, c2 @ t2), (n, d2), (m1, c1 @ t1), (o', d1)]" using L(2) maps_at_perm4(2) by metis
  from delta_rest_spec[OF this so(2)] obtain n2 m2' h2 where R1: "cl_qmap_delta_rest n m2 (first m2 t2) h1 = Some (n2, m2', h2)"
    "maps_at h2 [(m2', c2), (n2, d2 @ t2), (m1, c1 @ t1), (o', d1)]" by blast
  have "maps_at h2 [(m1, c1 @ t1), (o', d1), (m2', c2), (n2, d2 @ t2)]" using R1(2) by (simp add: maps_at_rotate[of h2 "(m2', c2)"] maps_at_rotate[of h2 "(n2, d2 @ t2)"])
  from delta_rest_spec[OF this so(1)] obtain o2 m1' h3 where R2: "cl_qmap_delta_rest o' m1 (first m1 t1) h2 = Some (o2, m1', h3)"
    "maps_at h3 [(m1', c1), (o2, d1 @ t1), (m2', c2), (n2, d2 @ t2)]" by blast
  have "maps_at h3 [(m1', c1), (m2', c2), (n2, d2 @ t2), (o2, d1 @ t1)]" using R2(2) maps_at_perm4 by metis
  moreover have "cl_qmap_delta p_map1 p_map2 new old h = Some (m1', m2', n2, o2, h3)"
    using L(1) R1(1) R2(1) hd by (simp add: cl_qmap_delta_def)
  ultimately show ?thesis using L(3,4) by (simp add: c1_def c2_def)
qed

section \<open>Properties\<close>

text \<open>C30. Merging ends and distributes the items by key: the destination holds its own items and those of the source under keys
  that it did not have, the source keeps exactly the items whose keys were taken, in order, and every other map in the heap is
  unchanged.\<close>

theorem qmap_merge_correct:
  assumes "maps_at h ((p_dest_map, al) # (p_src_map, bl) # others)"
  shows "\<exists>dest src h' cl. cl_qmap_merge p_dest_map p_src_map h = Some (dest, src, h') \<and>
    maps_at h' ((dest, cl) # (src, filter (\<lambda>(k, _). map_of al k \<noteq> None) bl) # others) \<and> map_of cl = map_of bl ++ map_of al"
proof -
  have M: "maps_at h ((p_dest_map, al) # (p_src_map, [] @ bl) # others)" using assms by simp
  have "cl_qmap_head p_src_map h = first p_src_map bl" using assms maps_head[of h p_src_map bl others] by (simp add: maps_at_Cons)
  then show ?thesis using merge_loop_spec[OF M] by (simp add: cl_qmap_merge_def)
qed

text \<open>Adding an empty map, or an item to the first map, of a heap.\<close>

lemma maps_new:
  assumes "maps_at h ps" "R \<noteq> N" "\<forall>(m, al)\<in>set ps. R \<notin> items m al \<and> N \<notin> items m al"
  shows "\<exists>h' c. maps_at h' ((\<lparr>root = R, nil = N, count = c\<rparr>, []) # ps)"
proof -
  let ?m = "\<lparr>root = R, nil = N, count = 0\<rparr>"
  obtain h' where h': "qmap_rel ?m h' []" "outside {R, N} h h'" using qmap_rel_init[of ?m h] assms(2) by auto
  have "maps_at h' ps" by (rule maps_at_outside[OF assms(1) h'(2)]) (use assms(3) in auto)
  then show ?thesis using h'(1) assms(3) by (intro exI[of _ h'] exI[of _ 0]) (auto simp: maps_at_Cons items_def)
qed

lemma maps_add:
  assumes "maps_at h ((\<lparr>root = R, nil = N, count = c\<rparr>, al) # ps)" "a \<notin> items \<lparr>root = R, nil = N, count = c\<rparr> al" "\<forall>(m, al)\<in>set ps. a \<notin> items m al"
    "map_of al k = None"
  shows "\<exists>h' c. maps_at h' ((\<lparr>root = R, nil = N, count = c\<rparr>, qmap_insert k a al) # ps)"
proof -
  obtain d h' where "root d = R" "nil d = N" "maps_at h' ((d, qmap_insert k a al) # ps)" using maps_insert[OF assms(1-3), of k] assms(4) by auto
  moreover from this have "d = \<lparr>root = R, nil = N, count = count d\<rparr>" by simp
  ultimately show ?thesis by metis
qed

lemma maps_example:
  "\<exists>h m1 m2 m3 m4. maps_at h [(m1, [(1, 10), (2, 11)]), (m2, [(2, 20), (3, 21)]), (m3, []), (m4, [])]"
proof -
  have "maps_at heap_example []" by (simp add: maps_at_def)
  from maps_new[OF this, of 101 102] obtain h1 c1 where 1: "maps_at h1 [(\<lparr>root = 101, nil = 102, count = c1\<rparr>, [])]" by auto
  from maps_new[OF 1, of 103 104] obtain h2 c2 where 2: "maps_at h2 [(\<lparr>root = 103, nil = 104, count = c2\<rparr>, []), (\<lparr>root = 101, nil = 102, count = c1\<rparr>, [])]"
    by (auto simp: items_def)
  from maps_new[OF 2, of 105 106] obtain h3 c3 where 3: "maps_at h3 [(\<lparr>root = 105, nil = 106, count = c3\<rparr>, []), (\<lparr>root = 103, nil = 104, count = c2\<rparr>, []), (\<lparr>root = 101, nil = 102, count = c1\<rparr>, [])]"
    by (auto simp: items_def)
  from maps_add[OF 3, of 20 2] obtain h4 c4 where 4: "maps_at h4 [(\<lparr>root = 105, nil = 106, count = c4\<rparr>, [(2, 20)]), (\<lparr>root = 103, nil = 104, count = c2\<rparr>, []), (\<lparr>root = 101, nil = 102, count = c1\<rparr>, [])]"
    by (auto simp: items_def)
  from maps_add[OF 4, of 21 3] obtain h5 c5 where 5: "maps_at h5 [(\<lparr>root = 105, nil = 106, count = c5\<rparr>, [(2, 20), (3, 21)]), (\<lparr>root = 103, nil = 104, count = c2\<rparr>, []), (\<lparr>root = 101, nil = 102, count = c1\<rparr>, [])]"
    by (auto simp: items_def)
  from maps_new[OF 5, of 107 108] obtain h6 c6 where 6: "maps_at h6 [(\<lparr>root = 107, nil = 108, count = c6\<rparr>, []), (\<lparr>root = 105, nil = 106, count = c5\<rparr>, [(2, 20), (3, 21)]), (\<lparr>root = 103, nil = 104, count = c2\<rparr>, []), (\<lparr>root = 101, nil = 102, count = c1\<rparr>, [])]"
    by (auto simp: items_def)
  from maps_add[OF 6, of 10 1] obtain h7 c7 where 7: "maps_at h7 [(\<lparr>root = 107, nil = 108, count = c7\<rparr>, [(1, 10)]), (\<lparr>root = 105, nil = 106, count = c5\<rparr>, [(2, 20), (3, 21)]), (\<lparr>root = 103, nil = 104, count = c2\<rparr>, []), (\<lparr>root = 101, nil = 102, count = c1\<rparr>, [])]"
    by (auto simp: items_def)
  from maps_add[OF 7, of 11 2] obtain h8 c8 where "maps_at h8 [(\<lparr>root = 107, nil = 108, count = c8\<rparr>, [(1, 10), (2, 11)]), (\<lparr>root = 105, nil = 106, count = c5\<rparr>, [(2, 20), (3, 21)]), (\<lparr>root = 103, nil = 104, count = c2\<rparr>, []), (\<lparr>root = 101, nil = 102, count = c1\<rparr>, [])]"
    by (auto simp: items_def)
  then show ?thesis by blast
qed

theorem qmap_merge_correct_witness:
  "\<exists>m1 m2 h dest src h' cl. cl_qmap_merge m1 m2 h = Some (dest, src, h') \<and> qmap_rel dest h' cl \<and> qmap_rel src h' [(2, 20)] \<and>
    map_of cl 1 = Some 10 \<and> map_of cl 2 = Some 11 \<and> map_of cl 3 = Some 21"
proof -
  obtain h m1 m2 m3 m4 where M: "maps_at h [(m1, [(1, 10), (2, 11)]), (m2, [(2, 20), (3, 21)]), (m3, []), (m4, [])]" using maps_example by blast
  obtain dest src h' cl where R: "cl_qmap_merge m1 m2 h = Some (dest, src, h')"
    "maps_at h' ((dest, cl) # (src, filter (\<lambda>(k, _). map_of [(1, 10 :: addr), (2, 11)] k \<noteq> None) [(2, 20), (3, 21)]) # [(m3, []), (m4, [])])"
    "map_of cl = map_of [(2, 20), (3, 21)] ++ map_of [(1, 10), (2, 11)]" using qmap_merge_correct[OF M] by blast
  then have "qmap_rel dest h' cl" "qmap_rel src h' [(2, 20)]" by (auto simp: maps_at_Cons)
  moreover have "map_of cl 1 = Some 10" "map_of cl 2 = Some 11" "map_of cl 3 = Some 21" unfolding R(3) by (simp_all add: map_add_def)
  ultimately show ?thesis using R(1) by blast
qed

text \<open>C32. Comparing two maps ends and splits their items by key: the two maps keep the items under common keys, the items only in the
  second are moved to the map of new items and those only in the first to the map of old items, each in order.\<close>

theorem qmap_delta_correct:
  assumes "maps_at h [(p_map1, al), (p_map2, bl), (p_new, []), (p_old, [])]"
  shows "\<exists>m1 m2 new old h'. cl_qmap_delta p_map1 p_map2 p_new p_old h = Some (m1, m2, new, old, h') \<and>
    maps_at h' [(m1, filter (in_keys bl) al), (m2, filter (in_keys al) bl), (new, filter (\<lambda>e. \<not> in_keys al e) bl), (old, filter (\<lambda>e. \<not> in_keys bl e) al)]"
  by (rule delta_spec[OF assms])

theorem qmap_delta_correct_witness:
  "\<exists>m1 m2 m3 m4 h m1' m2' new old h'. cl_qmap_delta m1 m2 m3 m4 h = Some (m1', m2', new, old, h') \<and>
    maps_at h' [(m1', [(2, 11)]), (m2', [(2, 20)]), (new, [(3, 21)]), (old, [(1, 10)])]"
proof -
  obtain h m1 m2 m3 m4 where M: "maps_at h [(m1, [(1, 10), (2, 11)]), (m2, [(2, 20), (3, 21)]), (m3, []), (m4, [])]" using maps_example by blast
  have f: "filter (in_keys [(2, 20 :: addr), (3, 21)]) [(1, 10 :: addr), (2, 11)] = [(2, 11)]" "filter (in_keys [(1, 10 :: addr), (2, 11)]) [(2, 20 :: addr), (3, 21)] = [(2, 20)]"
    "filter (\<lambda>e. \<not> in_keys [(1, 10 :: addr), (2, 11)] e) [(2, 20 :: addr), (3, 21)] = [(3, 21)]" "filter (\<lambda>e. \<not> in_keys [(2, 20 :: addr), (3, 21)] e) [(1, 10 :: addr), (2, 11)] = [(1, 10)]"
    by (simp_all add: in_keys_def)
  show ?thesis using qmap_delta_correct[OF M] unfolding f by blast
qed

end
