(* ===== verification/Cl_Byteswap.thy ===== *)
theory Cl_Byteswap
  imports OFED_Prelude
begin

text \<open>
  Byte order conversion of the component library (\<open>inc/complib/cl_byteswap.h\<close>) on a little-endian
  machine: the constant macros and the byte-array function, which also works in place.  An array is given by its
  bytes in address order; its size, an 8-bit value in the code, is the length of the source, and the destination, a separate
  buffer, may be longer.
\<close>

section \<open>The macros\<close>

definition CL_NTOH16 :: "u16 \<Rightarrow> u16" where
  "CL_NTOH16 x = push_bit 8 (x AND 0x00FF) OR drop_bit 8 (x AND 0xFF00)"

definition CL_NTOH32 :: "u32 \<Rightarrow> u32" where
  "CL_NTOH32 x = push_bit 24 (x AND 0x000000FF) OR push_bit 8 (x AND 0x0000FF00) OR
     drop_bit 8 (x AND 0x00FF0000) OR drop_bit 24 (x AND 0xFF000000)"

definition CL_NTOH64 :: "u64 \<Rightarrow> u64" where
  "CL_NTOH64 x =
     push_bit 56 (x AND 0x00000000000000FF) OR push_bit 40 (x AND 0x000000000000FF00) OR
     push_bit 24 (x AND 0x0000000000FF0000) OR push_bit 8 (x AND 0x00000000FF000000) OR
     drop_bit 8 (x AND 0x000000FF00000000) OR drop_bit 24 (x AND 0x0000FF0000000000) OR
     drop_bit 40 (x AND 0x00FF000000000000) OR drop_bit 56 (x AND 0xFF00000000000000)"

section \<open>The byte-array function\<close>

fun cl_ntoh_swap :: "nat \<Rightarrow> nat \<Rightarrow> u8 list \<Rightarrow> u8 list" where
  "cl_ntoh_swap i 0 p = p"
| "cl_ntoh_swap i (Suc k) p =
     (let temp = p ! i; p = p[i := p ! (length p - 1 - i)]; p = p[length p - 1 - i := temp]
      in cl_ntoh_swap (i + 1) k p)"

definition cl_ntoh_in_place :: "u8 list \<Rightarrow> u8 list" where
  "cl_ntoh_in_place p = cl_ntoh_swap 0 (length p div 2) p"

definition cl_ntoh_copy :: "u8 list \<Rightarrow> u8 list \<Rightarrow> u8 list" where
  "cl_ntoh_copy dest src = fold (\<lambda>i d. d[i := src ! (length src - 1 - i)]) [0..<length src] dest"

section \<open>Bytes of a word\<close>

text \<open>The bytes of a little-endian word in address order.\<close>

definition bytes_of :: "nat \<Rightarrow> 'a::len word \<Rightarrow> u8 list" where
  "bytes_of n x = map (\<lambda>i. ucast (drop_bit (8 * i) x)) [0..<n]"

lemma bit_byte_mask: "bit (push_bit k (mask 8 :: 'a::len word)) n \<longleftrightarrow> k \<le> n \<and> n < k + 8 \<and> n < LENGTH('a)"
  by (auto simp: bit_push_bit_iff bit_mask_iff possible_bit_def)

lemmas byte_bits = bit_or_iff bit_and_iff bit_push_bit_iff bit_drop_bit_eq comp_def bit_byte_mask

text \<open>Each macro exchanges byte \<open>q\<close> with byte \<open>n - 1 - q\<close>.\<close>

lemma bit_NTOH16:
  assumes "q < 2" "r < 8"
  shows "bit (CL_NTOH16 x) (8 * q + r) \<longleftrightarrow> bit x (8 * (1 - q) + r)"
proof -
  have m: "(0xFF00 :: u16) = push_bit 8 (mask 8)" "(0xFF :: u16) = push_bit 0 (mask 8)" by (simp_all add: mask_eq_exp_minus_1)
  have "q = 0 \<or> q = 1" using assms(1) by arith
  then show ?thesis unfolding CL_NTOH16_def m byte_bits using assms(2) by (elim disjE) (auto simp: bit_mask_iff possible_bit_def)
qed

lemma bit_NTOH32:
  assumes "q < 4" "r < 8"
  shows "bit (CL_NTOH32 x) (8 * q + r) \<longleftrightarrow> bit x (8 * (3 - q) + r)"
proof -
  have m: "(0xFF000000 :: u32) = push_bit 24 (mask 8)" "(0xFF0000 :: u32) = push_bit 16 (mask 8)"
    "(0xFF00 :: u32) = push_bit 8 (mask 8)" "(0xFF :: u32) = push_bit 0 (mask 8)" by (simp_all add: mask_eq_exp_minus_1)
  have "q = 0 \<or> q = 1 \<or> q = 2 \<or> q = 3" using assms(1) by arith
  then show ?thesis unfolding CL_NTOH32_def m byte_bits using assms(2) by (elim disjE) (auto simp: bit_mask_iff possible_bit_def)
qed

lemma bit_NTOH64:
  assumes "q < 8" "r < 8"
  shows "bit (CL_NTOH64 x) (8 * q + r) \<longleftrightarrow> bit x (8 * (7 - q) + r)"
proof -
  have m: "(0xFF00000000000000 :: u64) = push_bit 56 (mask 8)" "(0xFF000000000000 :: u64) = push_bit 48 (mask 8)"
    "(0xFF0000000000 :: u64) = push_bit 40 (mask 8)" "(0xFF00000000 :: u64) = push_bit 32 (mask 8)"
    "(0xFF000000 :: u64) = push_bit 24 (mask 8)" "(0xFF0000 :: u64) = push_bit 16 (mask 8)"
    "(0xFF00 :: u64) = push_bit 8 (mask 8)" "(0xFF :: u64) = push_bit 0 (mask 8)" by (simp_all add: mask_eq_exp_minus_1)
  have "q = 0 \<or> q = 1 \<or> q = 2 \<or> q = 3 \<or> q = 4 \<or> q = 5 \<or> q = 6 \<or> q = 7" using assms(1) by arith
  then show ?thesis unfolding CL_NTOH64_def m byte_bits using assms(2) by (elim disjE) (auto simp: bit_mask_iff possible_bit_def)
qed

lemma bytes_nth: "i < n \<Longrightarrow> bytes_of n x ! i = ucast (drop_bit (8 * i) x)"
  by (simp add: bytes_of_def)

lemma bytes_rev:
  fixes x y :: "'a::len word"
  assumes "\<And>q r. q < n \<Longrightarrow> r < 8 \<Longrightarrow> bit y (8 * q + r) \<longleftrightarrow> bit x (8 * (n - 1 - q) + r)"
  shows "bytes_of n y = rev (bytes_of n x)"
proof (rule nth_equalityI)
  show "length (bytes_of n y) = length (rev (bytes_of n x))" by (simp add: bytes_of_def)
  fix i assume "i < length (bytes_of n y)"
  then have i: "i < n" by (simp add: bytes_of_def)
  then have l: "n - Suc i < n" by simp
  have "rev (bytes_of n x) ! i = bytes_of n x ! (n - 1 - i)" using i by (simp add: rev_nth bytes_of_def)
  moreover have "(ucast (drop_bit (8 * i) y) :: u8) = ucast (drop_bit (8 * (n - 1 - i)) x)"
  proof (rule bit_word_eqI)
    fix r assume "r < LENGTH(8)"
    then show "bit (ucast (drop_bit (8 * i) y) :: u8) r = bit (ucast (drop_bit (8 * (n - 1 - i)) x) :: u8) r"
      using assms[OF i, of r] by (simp add: bit_ucast_iff bit_drop_bit_eq)
  qed
  ultimately show "bytes_of n y ! i = rev (bytes_of n x) ! i" using i l by (simp add: bytes_nth)
qed

lemma bytes_inj:
  fixes x y :: "'a::len word"
  assumes "bytes_of n x = bytes_of n y" "LENGTH('a) = 8 * n"
  shows "x = y"
proof (rule bit_word_eqI)
  fix k assume k: "k < LENGTH('a)"
  then have q: "k div 8 < n" using assms(2) by simp
  have b: "bit z k \<longleftrightarrow> bit (bytes_of n z ! (k div 8)) (k mod 8)" for z :: "'a word"
    using q by (simp add: bytes_nth bit_ucast_iff bit_drop_bit_eq)
  show "bit x k = bit y k" unfolding b[of x] b[of y] assms(1) ..
qed

lemma ntoh_copy_eq:
  assumes l: "length src \<le> length dest"
  shows "cl_ntoh_copy dest src = rev src @ drop (length src) dest"
proof -
  have "k \<le> length src \<Longrightarrow> length (fold (\<lambda>i d. d[i := src ! (length src - 1 - i)]) [0..<k] dest) = length dest \<and>
    (\<forall>i < length dest. fold (\<lambda>i d. d[i := src ! (length src - 1 - i)]) [0..<k] dest ! i = (if i < k then src ! (length src - 1 - i) else dest ! i))" for k
    by (induction k) (use l in \<open>auto simp: nth_list_update less_Suc_eq\<close>)
  from this[of "length src"] l show ?thesis
    unfolding cl_ntoh_copy_def by (intro nth_equalityI) (auto simp: rev_nth nth_append)
qed

lemma ntoh_swap_length [simp]: "length (cl_ntoh_swap i k p) = length p"
  by (induction i k p rule: cl_ntoh_swap.induct) (simp_all add: Let_def)

lemma ntoh_swap_nth:
  assumes "2 * (i + k) \<le> length p" "j < length p"
  shows "cl_ntoh_swap i k p ! j = (if i \<le> j \<and> j < i + k \<or> i \<le> length p - 1 - j \<and> length p - 1 - j < i + k then p ! (length p - 1 - j) else p ! j)"
  using assms
proof (induction k arbitrary: i p)
  case (Suc k)
  let ?p = "p[i := p ! (length p - 1 - i), length p - 1 - i := p ! i]"
  have step: "cl_ntoh_swap i (Suc k) p = cl_ntoh_swap (i + 1) k ?p" by (simp add: Let_def)
  have l: "length ?p = length p" by simp
  have IH: "cl_ntoh_swap (i + 1) k ?p ! j = (if i + 1 \<le> j \<and> j < i + 1 + k \<or> i + 1 \<le> length p - 1 - j \<and> length p - 1 - j < i + 1 + k
      then ?p ! (length p - 1 - j) else ?p ! j)"
    using Suc.IH[of "i + 1" ?p] Suc.prems by simp
  have i: "i < length p" "length p - 1 - i < length p" "i \<noteq> length p - 1 - i" using Suc.prems by auto
  consider (a) "j = i" | (b) "j = length p - 1 - i" | (c) "j \<noteq> i" "j \<noteq> length p - 1 - i" by blast
  then show ?case
  proof cases
    case a
    then show ?thesis unfolding step IH using i Suc.prems by (auto simp: nth_list_update)
  next
    case b
    then have "length p - 1 - j = i" using i by simp
    then show ?thesis unfolding step IH using i Suc.prems b by (auto simp: nth_list_update)
  next
    case c
    have "length p - 1 - j \<noteq> i" using c Suc.prems by auto
    then have "?p ! j = p ! j" "?p ! (length p - 1 - j) = p ! (length p - 1 - j)"
      using c Suc.prems by (auto simp: nth_list_update)
    then show ?thesis unfolding step IH using c Suc.prems by auto
  qed
qed auto

lemma ntoh_in_place_eq: "cl_ntoh_in_place p = rev p"
proof (cases "p = []")
  case False
  have h: "2 * (0 + length p div 2) \<le> length p" by simp
  show ?thesis unfolding cl_ntoh_in_place_def
  proof (rule nth_equalityI)
    show "length (cl_ntoh_swap 0 (length p div 2) p) = length (rev p)" by simp
    fix j assume "j < length (cl_ntoh_swap 0 (length p div 2) p)"
    then have j: "j < length p" by simp
    have "j < length p div 2 \<or> length p - 1 - j < length p div 2 \<or> j = length p - 1 - j" using j by linarith
    then show "cl_ntoh_swap 0 (length p div 2) p ! j = rev p ! j"
      using ntoh_swap_nth[OF h j] j by (auto simp: rev_nth)
  qed
qed (simp add: cl_ntoh_in_place_def)

text \<open>C40. Byte order conversion reverses bytes.  The bytes of a word swapped by one of the three macros are those of the word in
  reverse order; \<open>cl_ntoh\<close> reverses an array in place, and into a destination of any contents it writes the reversed source and
  leaves the bytes after it alone, so that macros and function agree; and each conversion undoes itself.\<close>

theorem byteswap_correct:
  assumes "length p \<le> length dest"
  shows "bytes_of 2 (CL_NTOH16 v) = rev (bytes_of 2 v) \<and> CL_NTOH16 (CL_NTOH16 v) = v \<and>
   bytes_of 4 (CL_NTOH32 w) = rev (bytes_of 4 w) \<and> CL_NTOH32 (CL_NTOH32 w) = w \<and>
   bytes_of 8 (CL_NTOH64 x) = rev (bytes_of 8 x) \<and> CL_NTOH64 (CL_NTOH64 x) = x \<and>
   cl_ntoh_in_place p = rev p \<and> cl_ntoh_in_place (cl_ntoh_in_place p) = p \<and>
   cl_ntoh_copy dest p = rev p @ drop (length p) dest"
proof -
  have b: "bytes_of 2 (CL_NTOH16 v) = rev (bytes_of 2 v)" for v by (rule bytes_rev) (simp add: bit_NTOH16)
  have c: "bytes_of 4 (CL_NTOH32 w) = rev (bytes_of 4 w)" for w by (rule bytes_rev) (simp add: bit_NTOH32)
  have d: "bytes_of 8 (CL_NTOH64 x) = rev (bytes_of 8 x)" for x by (rule bytes_rev) (simp add: bit_NTOH64)
  have "CL_NTOH16 (CL_NTOH16 v) = v" by (rule bytes_inj[of 2]) (simp_all add: b)
  moreover have "CL_NTOH32 (CL_NTOH32 w) = w" by (rule bytes_inj[of 4]) (simp_all add: c)
  moreover have "CL_NTOH64 (CL_NTOH64 x) = x" by (rule bytes_inj[of 8]) (simp_all add: d)
  ultimately show ?thesis by (simp add: ntoh_in_place_eq ntoh_copy_eq[OF assms] b c d)
qed

theorem byteswap_correct_witness:
  "bytes_of 4 (CL_NTOH32 0x12345678) = [0x12, 0x34, 0x56, 0x78] \<and> cl_ntoh_copy [9, 9, 9, 7] [1, 2, 3] = [3, 2, 1, 7]"
proof -
  have "bytes_of 4 (0x12345678 :: u32) = [0x78, 0x56, 0x34, 0x12]" by code_simp
  then show ?thesis using byteswap_correct[of "[1, 2, 3]" "[9, 9, 9, 7]" 0 "0x12345678" 0] by simp
qed

end
