(* ===== verification/Osm_Sm.thy ===== *)
theory Osm_Sm
  imports Cl_Byteswap Keyed_Table
begin

text \<open>
  Mastership of the OpenSM subnet manager: the state machine (\<open>osm_sm_state_mgr.c\<close>), the SMInfo
  messages that drive it (\<open>osm_sminfo_rcv.c\<close>) and the part of the sweep that elects a master
  (\<open>osm_state_mgr.c\<close>), all under \<open>ulp/opensm/user/opensm\<close>.  Identifiers are in network byte order, as in
  the code.  The tables of ports and of remote managers, balanced trees in the code, are lists in ascending key order;
  a port is represented by its identifier and a pointer to a remote manager by its key, dangling when the key is
  not in the table.  What the manager sends is recorded in \<open>sm_outs\<close>, latest first.  The result \<open>None\<close> is
  an access through a null or dangling pointer.  Log output is left out, save for the two messages that are all a
  failure to start the poll timer leaves behind.
\<close>

section \<open>Data\<close>

definition IB_SMINFO_STATE_NOTACTIVE :: u8 where "IB_SMINFO_STATE_NOTACTIVE = 0"
definition IB_SMINFO_STATE_DISCOVERING :: u8 where "IB_SMINFO_STATE_DISCOVERING = 1"
definition IB_SMINFO_STATE_STANDBY :: u8 where "IB_SMINFO_STATE_STANDBY = 2"
definition IB_SMINFO_STATE_MASTER :: u8 where "IB_SMINFO_STATE_MASTER = 3"

definition IB_SMINFO_ATTR_MOD_HANDOVER :: u32 where "IB_SMINFO_ATTR_MOD_HANDOVER = CL_NTOH32 1"
definition IB_SMINFO_ATTR_MOD_ACKNOWLEDGE :: u32 where "IB_SMINFO_ATTR_MOD_ACKNOWLEDGE = CL_NTOH32 2"
definition IB_SMINFO_ATTR_MOD_DISABLE :: u32 where "IB_SMINFO_ATTR_MOD_DISABLE = CL_NTOH32 3"
definition IB_SMINFO_ATTR_MOD_STANDBY :: u32 where "IB_SMINFO_ATTR_MOD_STANDBY = CL_NTOH32 4"
definition IB_SMINFO_ATTR_MOD_DISCOVER :: u32 where "IB_SMINFO_ATTR_MOD_DISCOVER = CL_NTOH32 5"

definition IB_MAD_METHOD_GET :: u8 where "IB_MAD_METHOD_GET = 0x01"
definition IB_MAD_METHOD_SET :: u8 where "IB_MAD_METHOD_SET = 0x02"
definition IB_MAD_METHOD_GET_RESP :: u8 where "IB_MAD_METHOD_GET_RESP = 0x81"
definition IB_MAD_METHOD_TRAP_REPRESS :: u8 where "IB_MAD_METHOD_TRAP_REPRESS = 0x07"

datatype osm_sm_signal =
    OSM_SM_SIGNAL_NONE | OSM_SM_SIGNAL_DISCOVERY_COMPLETED | OSM_SM_SIGNAL_POLLING_TIMEOUT | OSM_SM_SIGNAL_DISCOVER
  | OSM_SM_SIGNAL_DISABLE | OSM_SM_SIGNAL_HANDOVER | OSM_SM_SIGNAL_HANDOVER_SENT | OSM_SM_SIGNAL_ACKNOWLEDGE
  | OSM_SM_SIGNAL_STANDBY | OSM_SM_SIGNAL_MASTER_OR_HIGHER_SM_DETECTED | OSM_SM_SIGNAL_WAIT_FOR_HANDOVER | OSM_SM_SIGNAL_MAX

datatype ib_api_status = IB_SUCCESS | IB_INVALID_PARAMETER

record ib_sm_info =
  smi_guid :: u64
  smi_sm_key :: u64
  smi_act_count :: u32
  smi_pri_state :: u8

definition ib_sminfo_get_priority :: "ib_sm_info \<Rightarrow> u8" where
  "ib_sminfo_get_priority smi = drop_bit 4 (smi_pri_state smi AND 0xF0)"

definition ib_sminfo_get_state :: "ib_sm_info \<Rightarrow> u8" where
  "ib_sminfo_get_state smi = smi_pri_state smi AND 0x0F"

record osm_remote_sm =
  rs_port_guid :: u64
  rs_smi :: ib_sm_info

record ib_smp =
  smp_method :: u8
  smp_attr_mod :: u32
  smp_smi :: ib_sm_info

definition ib_smp_is_response :: "ib_smp \<Rightarrow> bool" where
  "ib_smp_is_response smp \<longleftrightarrow> smp_method smp AND 0x80 \<noteq> 0 \<or> smp_method smp = IB_MAD_METHOD_TRAP_REPRESS"

record osm_madw =
  mw_smp :: ib_smp
  mw_port_guid :: u64
  mw_set_method :: bool
  mw_light_sweep :: bool

datatype sm_out =
    Out_get_sminfo u64
  | Out_set_sminfo u64 u32 ib_sm_info
  | Out_resp u16 ib_sm_info
  | Out_trap144 u16
  | Out_log u16

record osm_sm =
  sm_state :: u8
  first_time_master_sweep :: bool
  force_heavy_sweep :: bool
  coming_out_of_standby :: bool
  ignore_existing_lfts :: bool
  master_sm_base_lid :: u16
  sm_base_lid :: u16
  sm_port_guid :: u64
  opt_sm_priority :: u8
  opt_sm_key :: u64
  opt_polling_retry_number :: u32
  port_guid_tbl :: "u64 list"
  sm_guid_tbl :: "(u64 \<times> osm_remote_sm) list"
  master_sm_found :: bool
  retry_number :: u32
  master_sm_guid :: u64
  p_polling_sm :: "u64 option"
  polling_timer :: bool
  timer_starts :: bool
  sweep_signalled :: bool
  vendor_is_sm :: bool
  qp0_mads_sent :: u32
  subnet_up_event :: bool
  osm_exit_flag :: bool
  sm_outs :: "sm_out list"

definition osm_sm_is_greater_than :: "u8 \<Rightarrow> u64 \<Rightarrow> u8 \<Rightarrow> u64 \<Rightarrow> bool" where
  "osm_sm_is_greater_than l_priority l_guid r_priority r_guid \<longleftrightarrow>
     r_priority < l_priority \<or> l_priority = r_priority \<and> CL_NTOH64 l_guid < CL_NTOH64 r_guid"

definition osm_get_port_by_guid :: "osm_sm \<Rightarrow> u64 \<Rightarrow> u64 option" where
  "osm_get_port_by_guid sm guid = (if List.member (port_guid_tbl sm) guid then Some guid else None)"

definition sm_send :: "sm_out \<Rightarrow> osm_sm \<Rightarrow> osm_sm" where
  "sm_send out sm = sm\<lparr>sm_outs := out # sm_outs sm\<rparr>"

section \<open>The poll timer\<close>

text \<open>\<open>polling_timer\<close> tells whether the timer is running (a nonzero \<open>timeout_time\<close> in the code) and \<open>timer_starts\<close>
  whether the system's timer queue currently accepts a timer.  Every start asks for the same period, so that one of a
  running timer, which expires earlier, leaves it alone and succeeds.  Expiry stops the timer and then makes the call.\<close>

datatype cl_status = CL_SUCCESS | CL_ERROR

definition cl_timer_start :: "osm_sm \<Rightarrow> cl_status \<times> osm_sm" where
  "cl_timer_start sm =
     (if polling_timer sm then (CL_SUCCESS, sm)
      else if timer_starts sm then (CL_SUCCESS, sm\<lparr>polling_timer := True\<rparr>)
      else (CL_ERROR, sm))"

text \<open>What both callers do: start the timer and log a failure under the given number.\<close>

definition start_poll_timer :: "u16 \<Rightarrow> osm_sm \<Rightarrow> osm_sm" where
  "start_poll_timer err sm = (case cl_timer_start sm of (status, sm) \<Rightarrow> if status \<noteq> CL_SUCCESS then sm_send (Out_log err) sm else sm)"

section \<open>The state machine\<close>

definition sm_state_mgr_send_master_sm_info_req :: "osm_sm \<Rightarrow> osm_sm option" where
  "sm_state_mgr_send_master_sm_info_req sm =
     (if sm_state sm = IB_SMINFO_STATE_STANDBY
      then (case osm_get_port_by_guid sm (master_sm_guid sm) of
              None \<Rightarrow> Some sm
            | Some guid \<Rightarrow> Some (sm_send (Out_get_sminfo guid) sm))
      else case p_polling_sm sm of
             None \<Rightarrow> None
           | Some key \<Rightarrow> (case map_of (sm_guid_tbl sm) key of
                            None \<Rightarrow> None
                          | Some rs \<Rightarrow> Some (sm_send (Out_get_sminfo (rs_port_guid rs)) sm)))"

definition sm_state_mgr_start_polling :: "osm_sm \<Rightarrow> osm_sm option" where
  "sm_state_mgr_start_polling sm =
     (case sm_state_mgr_send_master_sm_info_req (sm\<lparr>retry_number := 0\<rparr>) of
        None \<Rightarrow> None
      | Some sm \<Rightarrow> Some (start_poll_timer 0x3210 sm))"

definition osm_sm_state_mgr_signal_master_is_alive :: "osm_sm \<Rightarrow> osm_sm" where
  "osm_sm_state_mgr_signal_master_is_alive sm = sm\<lparr>retry_number := 0\<rparr>"

definition process_discovering :: "osm_sm \<Rightarrow> osm_sm_signal \<Rightarrow> (ib_api_status \<times> osm_sm) option" where
  "process_discovering sm signal =
     (case signal of
        OSM_SM_SIGNAL_DISCOVERY_COMPLETED \<Rightarrow>
          Some (IB_SUCCESS, sm\<lparr>first_time_master_sweep := True, sm_state := IB_SMINFO_STATE_MASTER, master_sm_base_lid := sm_base_lid sm\<rparr>)
      | OSM_SM_SIGNAL_MASTER_OR_HIGHER_SM_DETECTED \<Rightarrow>
          map_option (Pair IB_SUCCESS)
            (sm_state_mgr_start_polling (sm\<lparr>sm_state := IB_SMINFO_STATE_STANDBY, ignore_existing_lfts := False\<rparr>))
      | OSM_SM_SIGNAL_HANDOVER \<Rightarrow> Some (IB_SUCCESS, sm)
      | _ \<Rightarrow> Some (IB_INVALID_PARAMETER, sm))"

definition process_standby :: "osm_sm \<Rightarrow> osm_sm_signal \<Rightarrow> (ib_api_status \<times> osm_sm) option" where
  "process_standby sm signal =
     (if signal = OSM_SM_SIGNAL_POLLING_TIMEOUT \<or> signal = OSM_SM_SIGNAL_DISCOVER
      then Some (IB_SUCCESS, sm\<lparr>sm_state := IB_SMINFO_STATE_DISCOVERING, coming_out_of_standby := True, sweep_signalled := True\<rparr>)
      else case signal of
        OSM_SM_SIGNAL_DISABLE \<Rightarrow> Some (IB_SUCCESS, sm\<lparr>sm_state := IB_SMINFO_STATE_NOTACTIVE, vendor_is_sm := False\<rparr>)
      | OSM_SM_SIGNAL_HANDOVER \<Rightarrow>
          Some (IB_SUCCESS, sm\<lparr>first_time_master_sweep := True, force_heavy_sweep := True, sm_state := IB_SMINFO_STATE_MASTER,
            master_sm_base_lid := sm_base_lid sm, coming_out_of_standby := True, sweep_signalled := True\<rparr>)
      | OSM_SM_SIGNAL_ACKNOWLEDGE \<Rightarrow> Some (IB_SUCCESS, sm)
      | _ \<Rightarrow> Some (IB_INVALID_PARAMETER, sm))"

definition process_notactive :: "osm_sm \<Rightarrow> osm_sm_signal \<Rightarrow> (ib_api_status \<times> osm_sm) option" where
  "process_notactive sm signal =
     (case signal of
        OSM_SM_SIGNAL_STANDBY \<Rightarrow>
          map_option (Pair IB_SUCCESS) (sm_state_mgr_start_polling (sm\<lparr>sm_state := IB_SMINFO_STATE_STANDBY\<rparr>))
      | _ \<Rightarrow> Some (IB_INVALID_PARAMETER, sm))"

definition process_master :: "osm_sm \<Rightarrow> osm_sm_signal \<Rightarrow> (ib_api_status \<times> osm_sm) option" where
  "process_master sm signal =
     (if signal = OSM_SM_SIGNAL_POLLING_TIMEOUT \<or> signal = OSM_SM_SIGNAL_HANDOVER
      then Some (IB_SUCCESS, sm\<lparr>p_polling_sm := None, force_heavy_sweep := True, sweep_signalled := True\<rparr>)
      else case signal of
        OSM_SM_SIGNAL_HANDOVER_SENT \<Rightarrow>
          map_option (Pair IB_SUCCESS) (sm_state_mgr_start_polling (sm\<lparr>sm_state := IB_SMINFO_STATE_STANDBY\<rparr>))
      | OSM_SM_SIGNAL_WAIT_FOR_HANDOVER \<Rightarrow> map_option (Pair IB_SUCCESS) (sm_state_mgr_start_polling sm)
      | OSM_SM_SIGNAL_DISCOVER \<Rightarrow> Some (IB_SUCCESS, sm\<lparr>sm_state := IB_SMINFO_STATE_DISCOVERING\<rparr>)
      | _ \<Rightarrow> Some (IB_INVALID_PARAMETER, sm))"

definition osm_sm_state_mgr_process :: "osm_sm \<Rightarrow> osm_sm_signal \<Rightarrow> (ib_api_status \<times> osm_sm) option" where
  "osm_sm_state_mgr_process sm signal =
     (if sm_state sm = IB_SMINFO_STATE_DISCOVERING then process_discovering sm signal
      else if sm_state sm = IB_SMINFO_STATE_STANDBY then process_standby sm signal
      else if sm_state sm = IB_SMINFO_STATE_NOTACTIVE then process_notactive sm signal
      else if sm_state sm = IB_SMINFO_STATE_MASTER then process_master sm signal
      else Some (IB_SUCCESS, sm))"

definition osm_sm_state_mgr_polling_callback :: "osm_sm \<Rightarrow> osm_sm option" where
  "osm_sm_state_mgr_polling_callback sm =
     (if \<not> (sm_state sm = IB_SMINFO_STATE_MASTER \<and> p_polling_sm sm \<noteq> None \<or> sm_state sm = IB_SMINFO_STATE_STANDBY) then Some sm
      else if sm_state sm = IB_SMINFO_STATE_STANDBY \<and> osm_exit_flag sm then Some (sm\<lparr>subnet_up_event := True\<rparr>)
      else let sm = sm\<lparr>retry_number := retry_number sm + 1\<rparr>
           in if opt_polling_retry_number sm \<le> retry_number sm
              then map_option snd (osm_sm_state_mgr_process sm OSM_SM_SIGNAL_POLLING_TIMEOUT)
              else map_option (start_poll_timer 0x3211) (sm_state_mgr_send_master_sm_info_req sm))"

definition osm_sm_state_mgr_check_legality :: "osm_sm \<Rightarrow> osm_sm_signal \<Rightarrow> ib_api_status" where
  "osm_sm_state_mgr_check_legality sm signal =
     (if sm_state sm = IB_SMINFO_STATE_DISCOVERING
      then if signal \<in> {OSM_SM_SIGNAL_DISCOVERY_COMPLETED, OSM_SM_SIGNAL_MASTER_OR_HIGHER_SM_DETECTED, OSM_SM_SIGNAL_HANDOVER}
           then IB_SUCCESS else IB_INVALID_PARAMETER
      else if sm_state sm = IB_SMINFO_STATE_STANDBY
      then if signal \<in> {OSM_SM_SIGNAL_POLLING_TIMEOUT, OSM_SM_SIGNAL_DISCOVER, OSM_SM_SIGNAL_DISABLE, OSM_SM_SIGNAL_HANDOVER,
             OSM_SM_SIGNAL_ACKNOWLEDGE}
           then IB_SUCCESS else IB_INVALID_PARAMETER
      else if sm_state sm = IB_SMINFO_STATE_NOTACTIVE
      then if signal = OSM_SM_SIGNAL_STANDBY then IB_SUCCESS else IB_INVALID_PARAMETER
      else if sm_state sm = IB_SMINFO_STATE_MASTER
      then if signal \<in> {OSM_SM_SIGNAL_HANDOVER, OSM_SM_SIGNAL_HANDOVER_SENT} then IB_SUCCESS else IB_INVALID_PARAMETER
      else IB_INVALID_PARAMETER)"

text \<open>Expiry of the poll timer.\<close>

definition timer_callback :: "osm_sm \<Rightarrow> osm_sm option" where
  "timer_callback sm = (if polling_timer sm then osm_sm_state_mgr_polling_callback (sm\<lparr>polling_timer := False\<rparr>) else Some sm)"

section \<open>SMInfo messages\<close>

definition smi_rcv_remote_sm_is_higher :: "osm_sm \<Rightarrow> ib_sm_info \<Rightarrow> bool" where
  "smi_rcv_remote_sm_is_higher sm smi =
     osm_sm_is_greater_than (ib_sminfo_get_priority smi) (smi_guid smi) (opt_sm_priority sm) (sm_port_guid sm)"

text \<open>The manager's own SMInfo; the key is disclosed to a manager that says it is master.\<close>

definition sm_own_smi :: "osm_sm \<Rightarrow> ib_sm_info \<Rightarrow> ib_sm_info" where
  "sm_own_smi sm remote =
     \<lparr>smi_guid = sm_port_guid sm,
      smi_sm_key = (if ib_sminfo_get_state remote = IB_SMINFO_STATE_MASTER then opt_sm_key sm else 0),
      smi_act_count = CL_NTOH32 (qp0_mads_sent sm),
      smi_pri_state = sm_state sm OR push_bit 4 (opt_sm_priority sm)\<rparr>"

definition smi_rcv_process_get_request :: "osm_sm \<Rightarrow> osm_madw \<Rightarrow> osm_sm" where
  "smi_rcv_process_get_request sm madw = sm_send (Out_resp 0 (sm_own_smi sm (smp_smi (mw_smp madw)))) sm"

definition smi_rcv_check_set_req_legality :: "ib_smp \<Rightarrow> ib_api_status" where
  "smi_rcv_check_set_req_legality smp =
     (if smp_attr_mod smp = IB_SMINFO_ATTR_MOD_ACKNOWLEDGE
      then if ib_sminfo_get_state (smp_smi smp) = IB_SMINFO_STATE_STANDBY then IB_SUCCESS else IB_INVALID_PARAMETER
      else if smp_attr_mod smp \<in> {IB_SMINFO_ATTR_MOD_HANDOVER, IB_SMINFO_ATTR_MOD_DISABLE, IB_SMINFO_ATTR_MOD_STANDBY,
             IB_SMINFO_ATTR_MOD_DISCOVER}
      then if ib_sminfo_get_state (smp_smi smp) = IB_SMINFO_STATE_MASTER then IB_SUCCESS else IB_INVALID_PARAMETER
      else IB_INVALID_PARAMETER)"

definition signal_of_attr_mod :: "u32 \<Rightarrow> osm_sm_signal option" where
  "signal_of_attr_mod m =
     (if m = IB_SMINFO_ATTR_MOD_HANDOVER then Some OSM_SM_SIGNAL_HANDOVER
      else if m = IB_SMINFO_ATTR_MOD_ACKNOWLEDGE then Some OSM_SM_SIGNAL_ACKNOWLEDGE
      else if m = IB_SMINFO_ATTR_MOD_DISABLE then Some OSM_SM_SIGNAL_DISABLE
      else if m = IB_SMINFO_ATTR_MOD_STANDBY then Some OSM_SM_SIGNAL_STANDBY
      else if m = IB_SMINFO_ATTR_MOD_DISCOVER then Some OSM_SM_SIGNAL_DISCOVER
      else None)"

definition smi_rcv_process_set_request :: "osm_sm \<Rightarrow> osm_madw \<Rightarrow> osm_sm option" where
  "smi_rcv_process_set_request sm madw =
     (let smp = mw_smp madw; payload = sm_own_smi sm (smp_smi smp)
      in if smp_method smp \<noteq> IB_MAD_METHOD_SET then Some sm
         else if smi_rcv_check_set_req_legality smp \<noteq> IB_SUCCESS then Some (sm_send (Out_resp 7 payload) sm)
         else case signal_of_attr_mod (smp_attr_mod smp) of
                None \<Rightarrow> Some sm
              | Some signal \<Rightarrow>
                  if osm_sm_state_mgr_check_legality sm signal \<noteq> IB_SUCCESS then Some (sm_send (Out_resp 7 payload) sm)
                  else let sm = sm_send (Out_resp 0 payload) sm;
                           sm = (if smp_attr_mod smp = IB_SMINFO_ATTR_MOD_STANDBY
                                 then sm\<lparr>master_sm_guid := smi_guid (smp_smi smp)\<rparr> else sm)
                       in map_option snd (osm_sm_state_mgr_process sm signal))"

definition smi_rcv_process_get_sm :: "osm_sm \<Rightarrow> osm_remote_sm \<Rightarrow> bool \<Rightarrow> osm_sm" where
  "smi_rcv_process_get_sm sm rs light_sweep =
     (let smi = rs_smi rs; rstate = ib_sminfo_get_state smi
      in if sm_state sm = IB_SMINFO_STATE_NOTACTIVE then sm
         else if sm_state sm = IB_SMINFO_STATE_DISCOVERING
         then if rstate = IB_SMINFO_STATE_MASTER \<or>
                 (rstate = IB_SMINFO_STATE_DISCOVERING \<or> rstate = IB_SMINFO_STATE_STANDBY) \<and> smi_rcv_remote_sm_is_higher sm smi
              then sm\<lparr>master_sm_found := True, master_sm_guid := rs_port_guid rs\<rparr>
              else sm
         else if sm_state sm = IB_SMINFO_STATE_STANDBY
         then if rstate = IB_SMINFO_STATE_MASTER
              then let sm = osm_sm_state_mgr_signal_master_is_alive sm
                   in if \<not> smi_rcv_remote_sm_is_higher sm smi then sm_send (Out_trap144 (CL_NTOH16 0x0008)) sm else sm
              else if rstate = IB_SMINFO_STATE_STANDBY \<and> master_sm_guid sm = rs_port_guid rs \<and> smi_rcv_remote_sm_is_higher sm smi
              then osm_sm_state_mgr_signal_master_is_alive sm
              else sm
         else if sm_state sm = IB_SMINFO_STATE_MASTER
         then if rstate = IB_SMINFO_STATE_MASTER
              then if p_polling_sm sm \<noteq> None then osm_sm_state_mgr_signal_master_is_alive sm else sm
              else if rstate = IB_SMINFO_STATE_STANDBY \<and> light_sweep \<and> smi_rcv_remote_sm_is_higher sm smi
              then sm\<lparr>force_heavy_sweep := True\<rparr>
              else sm
         else sm)"

definition smi_rcv_process_get_response :: "bool \<Rightarrow> osm_sm \<Rightarrow> osm_madw \<Rightarrow> osm_sm" where
  "smi_rcv_process_get_response mem sm madw =
     (let smp = mw_smp madw; smi = smp_smi smp; port_guid = smi_guid smi
      in if smp_method smp \<noteq> IB_MAD_METHOD_GET_RESP then sm
         else if smi_sm_key smi \<noteq> 0 \<and> smi_sm_key smi \<noteq> opt_sm_key sm then sm\<lparr>osm_exit_flag := True\<rparr>
         else case osm_get_port_by_guid sm port_guid of
                None \<Rightarrow> sm
              | Some p \<Rightarrow>
                  if p \<noteq> smi_guid smi then sm
                  else if port_guid = sm_port_guid sm then sm
                  else case map_of (sm_guid_tbl sm) port_guid of
                         None \<Rightarrow>
                           if \<not> mem then sm
                           else let rs = \<lparr>rs_port_guid = p, rs_smi = smi\<rparr>
                                in smi_rcv_process_get_sm (sm\<lparr>sm_guid_tbl := qmap_insert port_guid rs (sm_guid_tbl sm)\<rparr>) rs (mw_light_sweep madw)
                       | Some rs \<Rightarrow>
                           let rs = rs\<lparr>rs_smi := smi\<rparr>
                           in smi_rcv_process_get_sm (sm\<lparr>sm_guid_tbl := qmap_insert port_guid rs (sm_guid_tbl sm)\<rparr>) rs (mw_light_sweep madw))"

text \<open>A response to a Set request needs no action.\<close>

definition osm_sminfo_rcv_process :: "bool \<Rightarrow> osm_sm \<Rightarrow> osm_madw \<Rightarrow> osm_sm option" where
  "osm_sminfo_rcv_process mem sm madw =
     (let smp = mw_smp madw
      in if ib_smp_is_response smp
         then if mw_port_guid madw \<noteq> smi_guid (smp_smi smp) then Some sm
              else if \<not> mw_set_method madw then Some (smi_rcv_process_get_response mem sm madw)
              else Some sm
         else if smp_method smp = IB_MAD_METHOD_GET then Some (smi_rcv_process_get_request sm madw)
         else smi_rcv_process_set_request sm madw)"

section \<open>Election during a sweep\<close>

definition state_mgr_exists_other_master_sm :: "osm_sm \<Rightarrow> (u64 \<times> osm_remote_sm) option" where
  "state_mgr_exists_other_master_sm sm =
     find (\<lambda>(k, rs). ib_sminfo_get_state (rs_smi rs) = IB_SMINFO_STATE_MASTER) (sm_guid_tbl sm)"

fun highest_loop :: "(u64 \<times> osm_remote_sm) option \<Rightarrow> u8 \<Rightarrow> u64 \<Rightarrow> (u64 \<times> osm_remote_sm) list \<Rightarrow> (u64 \<times> osm_remote_sm) option" where
  "highest_loop best prio guid [] = best"
| "highest_loop best prio guid ((k, rs) # tbl) =
     (if ib_sminfo_get_state (rs_smi rs) = IB_SMINFO_STATE_NOTACTIVE then highest_loop best prio guid tbl
      else if osm_sm_is_greater_than (ib_sminfo_get_priority (rs_smi rs)) (smi_guid (rs_smi rs)) prio guid
      then highest_loop (Some (k, rs)) (ib_sminfo_get_priority (rs_smi rs)) (smi_guid (rs_smi rs)) tbl
      else highest_loop best prio guid tbl)"

definition state_mgr_get_highest_sm :: "osm_sm \<Rightarrow> (u64 \<times> osm_remote_sm) option" where
  "state_mgr_get_highest_sm sm = highest_loop None (opt_sm_priority sm) (sm_port_guid sm) (sm_guid_tbl sm)"

definition state_mgr_send_handover :: "osm_sm \<Rightarrow> osm_remote_sm \<Rightarrow> osm_sm" where
  "state_mgr_send_handover sm rs =
     (let sm = sm\<lparr>master_sm_guid := rs_port_guid rs\<rparr>
      in sm_send (Out_set_sminfo (rs_port_guid rs) IB_SMINFO_ATTR_MOD_HANDOVER (sm_own_smi sm (rs_smi rs))) sm)"

text \<open>The start of a sweep, its exit when the own port is down, and what follows discovery up to the
  configuration of the subnet.  The first tells whether to go on.  The code runs the drop manager just before a
  completed discovery makes the manager master; here the removal of a remote manager is a step of its own, which may come before
  or after the election, since completing a discovery neither reads nor changes the table (\<open>elect_drop_commute\<close>).\<close>

definition do_sweep_begin :: "osm_sm \<Rightarrow> bool \<times> osm_sm" where
  "do_sweep_begin sm =
     (if sm_state sm \<noteq> IB_SMINFO_STATE_MASTER \<and> sm_state sm \<noteq> IB_SMINFO_STATE_DISCOVERING then (False, sm)
      else (True, sm\<lparr>master_sm_found := False\<rparr>))"

definition drop_mgr_remove_sm :: "osm_sm \<Rightarrow> u64 \<Rightarrow> osm_sm" where
  "drop_mgr_remove_sm sm port_guid = sm\<lparr>sm_guid_tbl := filter (\<lambda>(k, rs). k \<noteq> port_guid) (sm_guid_tbl sm)\<rparr>"

definition do_sweep_port_down :: "osm_sm \<Rightarrow> osm_sm option" where
  "do_sweep_port_down sm =
     (if sm_state sm \<noteq> IB_SMINFO_STATE_DISCOVERING then map_option snd (osm_sm_state_mgr_process sm OSM_SM_SIGNAL_DISCOVER)
      else Some sm)"

datatype sweep_next = Sweep_repeat | Sweep_return | Sweep_configure

definition do_sweep_elect :: "osm_sm \<Rightarrow> (sweep_next \<times> osm_sm) option" where
  "do_sweep_elect sm =
     (if master_sm_found sm
      then map_option (\<lambda>(_, sm). (Sweep_return, sm_send (Out_trap144 0) sm))
             (osm_sm_state_mgr_process sm OSM_SM_SIGNAL_MASTER_OR_HIGHER_SM_DETECTED)
      else if force_heavy_sweep sm then Some (Sweep_repeat, sm)
      else if sm_state sm = IB_SMINFO_STATE_MASTER
      then (case state_mgr_get_highest_sm sm of
              Some (k, rs) \<Rightarrow>
                map_option (\<lambda>(_, sm). (Sweep_return, sm))
                  (osm_sm_state_mgr_process (state_mgr_send_handover sm rs) OSM_SM_SIGNAL_HANDOVER_SENT)
            | None \<Rightarrow>
                (case state_mgr_exists_other_master_sm sm of
                   Some (k, rs) \<Rightarrow>
                     map_option (\<lambda>(_, sm). (Sweep_return, sm))
                       (osm_sm_state_mgr_process (sm\<lparr>p_polling_sm := Some k\<rparr>) OSM_SM_SIGNAL_WAIT_FOR_HANDOVER)
                 | None \<Rightarrow> Some (Sweep_configure, sm)))
      else if sm_state sm = IB_SMINFO_STATE_DISCOVERING
      then map_option (\<lambda>(_, sm). (Sweep_configure, sm)) (osm_sm_state_mgr_process sm OSM_SM_SIGNAL_DISCOVERY_COMPLETED)
      else Some (Sweep_configure, sm))"

end
