(* ===== verification/Osm_Mastership.thy ===== *)
theory Osm_Mastership
  imports Osm_Sm
begin

text \<open>
  Runs of a subnet manager: its state machine, receiver and sweep composed into the handling of one event at a time, an
  invariant of every run, and what follows for mastership: nothing fails, a silent master is replaced, the greatest
  manager is elected, a handover moves mastership from one manager to another.
\<close>

section \<open>Runs of a manager\<close>

text \<open>What can happen to a manager: a message, a tick of the running poll timer, the phases of a sweep, a
  remote manager dropped, a changed port table, the flags reset when discovery starts over, a request to exit, a change of
  whether the system's timer queue accepts timers.\<close>

datatype sm_event =
    Ev_recv bool osm_madw | Ev_timer | Ev_sweep | Ev_elect | Ev_port_down | Ev_drop u64 | Ev_ports "u64 list" | Ev_repeat | Ev_exit
  | Ev_timer_queue bool

fun sm_handle :: "osm_sm \<Rightarrow> sm_event \<Rightarrow> osm_sm option" where
  "sm_handle sm (Ev_recv mem madw) = osm_sminfo_rcv_process mem sm madw"
| "sm_handle sm Ev_timer = timer_callback sm"
| "sm_handle sm Ev_sweep = Some (snd (do_sweep_begin sm))"
| "sm_handle sm Ev_elect = map_option snd (do_sweep_elect sm)"
| "sm_handle sm Ev_port_down = do_sweep_port_down sm"
| "sm_handle sm (Ev_drop g) = Some (drop_mgr_remove_sm sm g)"
| "sm_handle sm (Ev_ports ps) = Some (sm\<lparr>port_guid_tbl := ps\<rparr>)"
| "sm_handle sm Ev_repeat = Some (sm\<lparr>force_heavy_sweep := False\<rparr>)"
| "sm_handle sm Ev_exit = Some (sm\<lparr>osm_exit_flag := True\<rparr>)"
| "sm_handle sm (Ev_timer_queue ok) = Some (sm\<lparr>timer_starts := ok\<rparr>)"

text \<open>Runs in which the remote manager being polled is not dropped.\<close>

inductive sm_run :: "osm_sm \<Rightarrow> osm_sm \<Rightarrow> bool" for sm0 where
  sm_start: "sm_run sm0 sm0"
| sm_step: "sm_run sm0 sm \<Longrightarrow> (\<forall>g. e = Ev_drop g \<longrightarrow> p_polling_sm sm \<noteq> Some g) \<Longrightarrow> sm_handle sm e = Some sm' \<Longrightarrow> sm_run sm0 sm'"

definition sm_boot :: "osm_sm \<Rightarrow> bool" where
  "sm_boot sm \<longleftrightarrow> sm_state sm \<in> {IB_SMINFO_STATE_NOTACTIVE, IB_SMINFO_STATE_DISCOVERING} \<and> sm_guid_tbl sm = [] \<and> p_polling_sm sm = None"

lemmas sm_states = IB_SMINFO_STATE_NOTACTIVE_def IB_SMINFO_STATE_DISCOVERING_def IB_SMINFO_STATE_STANDBY_def IB_SMINFO_STATE_MASTER_def

text \<open>No start of the poll timer has failed so far.\<close>

definition timer_never_failed :: "sm_out list \<Rightarrow> bool" where
  "timer_never_failed outs \<longleftrightarrow> (\<forall>err. Out_log err \<notin> set outs)"

lemma timer_never_failed_Cons [simp]: "timer_never_failed (out # outs) \<longleftrightarrow> (\<forall>err. out \<noteq> Out_log err) \<and> timer_never_failed outs"
  by (auto simp: timer_never_failed_def)

definition tbl_ok :: "(u64 \<times> osm_remote_sm) list \<Rightarrow> bool" where
  "tbl_ok tbl \<longleftrightarrow> sorted_wrt (<) (map fst tbl) \<and> (\<forall>(k, rs)\<in>set tbl. rs_port_guid rs = k \<and> smi_guid (rs_smi rs) = k)"

definition sm_inv :: "osm_sm \<Rightarrow> bool" where
  "sm_inv sm \<longleftrightarrow> sm_state sm \<le> IB_SMINFO_STATE_MASTER \<and> tbl_ok (sm_guid_tbl sm) \<and>
     (\<forall>k. p_polling_sm sm = Some k \<longrightarrow> map_of (sm_guid_tbl sm) k \<noteq> None) \<and>
     (sm_state sm = IB_SMINFO_STATE_STANDBY \<longrightarrow>
        (retry_number sm = 0 \<or> retry_number sm < opt_polling_retry_number sm) \<and> (\<not> osm_exit_flag sm \<and> timer_never_failed (sm_outs sm) \<longrightarrow> polling_timer sm))"

lemma sm_send_sel [simp]:
  "sm_state (sm_send x sm) = sm_state sm" "sm_guid_tbl (sm_send x sm) = sm_guid_tbl sm" "p_polling_sm (sm_send x sm) = p_polling_sm sm"
  "retry_number (sm_send x sm) = retry_number sm" "opt_polling_retry_number (sm_send x sm) = opt_polling_retry_number sm"
  "osm_exit_flag (sm_send x sm) = osm_exit_flag sm" "polling_timer (sm_send x sm) = polling_timer sm"
  "master_sm_guid (sm_send x sm) = master_sm_guid sm" "sm_port_guid (sm_send x sm) = sm_port_guid sm"
  "opt_sm_priority (sm_send x sm) = opt_sm_priority sm" "sweep_signalled (sm_send x sm) = sweep_signalled sm"
  "master_sm_found (sm_send x sm) = master_sm_found sm" "timer_starts (sm_send x sm) = timer_starts sm"
  "sm_outs (sm_send x sm) = x # sm_outs sm"
  by (simp_all add: sm_send_def)

lemma sm_send_inv [simp]: "sm_inv sm \<Longrightarrow> sm_inv (sm_send x sm)"
  by (simp add: sm_inv_def)

lemma start_poll_timer_eq: "start_poll_timer err sm = sm\<lparr>polling_timer := polling_timer sm \<or> timer_starts sm,
  sm_outs := (if polling_timer sm \<or> timer_starts sm then sm_outs sm else Out_log err # sm_outs sm)\<rparr>"
  by (auto simp: start_poll_timer_def cl_timer_start_def sm_send_def)

lemma start_poll_timer_inv:
  assumes "sm_state sm \<le> IB_SMINFO_STATE_MASTER" "tbl_ok (sm_guid_tbl sm)"
    "\<forall>k. p_polling_sm sm = Some k \<longrightarrow> map_of (sm_guid_tbl sm) k \<noteq> None"
    "sm_state sm = IB_SMINFO_STATE_STANDBY \<longrightarrow> retry_number sm = 0 \<or> retry_number sm < opt_polling_retry_number sm"
  shows "sm_inv (start_poll_timer err sm)"
  using assms by (auto simp: sm_inv_def start_poll_timer_eq)

lemma send_req_some:
  assumes "sm_state sm = IB_SMINFO_STATE_STANDBY \<or> (\<exists>k rs. p_polling_sm sm = Some k \<and> map_of (sm_guid_tbl sm) k = Some rs)"
  shows "sm_state_mgr_send_master_sm_info_req sm = Some sm \<or> (\<exists>out. sm_state_mgr_send_master_sm_info_req sm = Some (sm_send out sm))"
  using assms by (auto simp: sm_state_mgr_send_master_sm_info_req_def split: option.splits)

lemma start_polling_some:
  assumes "sm_state sm = IB_SMINFO_STATE_STANDBY \<or> (\<exists>k rs. p_polling_sm sm = Some k \<and> map_of (sm_guid_tbl sm) k = Some rs)"
  shows "\<exists>outs. sm_state_mgr_start_polling sm =
      Some (sm\<lparr>retry_number := 0, sm_outs := outs, polling_timer := polling_timer sm \<or> timer_starts sm\<rparr>) \<and>
    (polling_timer sm \<or> timer_starts sm \<or> (\<exists>err. Out_log err \<in> set outs))"
proof -
  let ?s = "sm\<lparr>retry_number := 0\<rparr>"
  obtain y where y: "sm_state_mgr_send_master_sm_info_req ?s = Some y" "y = ?s \<or> (\<exists>out. y = sm_send out ?s)"
    using send_req_some[of ?s] assms by auto
  show ?thesis using y by (intro exI[of _ "sm_outs (start_poll_timer 0x3210 y)"], cases sm)
    (auto simp: sm_state_mgr_start_polling_def start_poll_timer_eq sm_send_def)
qed

text \<open>Every signal but the wait for a handover is safe in every state; that one needs a manager to poll.\<close>

lemma process_inv:
  assumes I: "sm_inv sm" and w: "signal = OSM_SM_SIGNAL_WAIT_FOR_HANDOVER \<Longrightarrow> p_polling_sm sm \<noteq> None"
  obtains st sm' where "osm_sm_state_mgr_process sm signal = Some (st, sm')" "sm_inv sm'" "sm_guid_tbl sm' = sm_guid_tbl sm"
    "osm_exit_flag sm' = osm_exit_flag sm"
proof -
  let ?t = "polling_timer sm \<or> timer_starts sm"
  have sb: "\<exists>outs. sm_state_mgr_start_polling (sm\<lparr>sm_state := IB_SMINFO_STATE_STANDBY\<rparr>) =
      Some (sm\<lparr>sm_state := IB_SMINFO_STATE_STANDBY, retry_number := 0, sm_outs := outs, polling_timer := ?t\<rparr>) \<and>
      (?t \<or> (\<exists>err. Out_log err \<in> set outs))"
    using start_polling_some[of "sm\<lparr>sm_state := IB_SMINFO_STATE_STANDBY\<rparr>"] by simp
  have sb': "\<exists>outs. sm_state_mgr_start_polling (sm\<lparr>sm_state := IB_SMINFO_STATE_STANDBY, ignore_existing_lfts := False\<rparr>) =
      Some (sm\<lparr>sm_state := IB_SMINFO_STATE_STANDBY, ignore_existing_lfts := False, retry_number := 0, sm_outs := outs, polling_timer := ?t\<rparr>) \<and>
      (?t \<or> (\<exists>err. Out_log err \<in> set outs))"
    using start_polling_some[of "sm\<lparr>sm_state := IB_SMINFO_STATE_STANDBY, ignore_existing_lfts := False\<rparr>"] by simp
  have wt: "\<exists>outs. sm_state_mgr_start_polling sm = Some (sm\<lparr>retry_number := 0, sm_outs := outs, polling_timer := ?t\<rparr>) \<and>
      (?t \<or> (\<exists>err. Out_log err \<in> set outs))"
    if "p_polling_sm sm \<noteq> None" using start_polling_some[of sm] I that by (auto simp: sm_inv_def)
  have "\<exists>st sm'. osm_sm_state_mgr_process sm signal = Some (st, sm') \<and> sm_inv sm' \<and> sm_guid_tbl sm' = sm_guid_tbl sm \<and>
    osm_exit_flag sm' = osm_exit_flag sm"
    unfolding osm_sm_state_mgr_process_def process_discovering_def process_standby_def process_notactive_def process_master_def
    using I sb sb' wt w by (cases signal) (auto simp: sm_inv_def sm_states timer_never_failed_def)
  then show ?thesis using that by blast
qed

lemma callback_inv:
  assumes I: "sm_inv sm"
  obtains sm' where "osm_sm_state_mgr_polling_callback (sm\<lparr>polling_timer := False\<rparr>) = Some sm'" "sm_inv sm'"
proof -
  let ?s = "sm\<lparr>polling_timer := False, retry_number := retry_number sm + 1\<rparr>"
  have "\<exists>sm'. osm_sm_state_mgr_polling_callback (sm\<lparr>polling_timer := False\<rparr>) = Some sm' \<and> sm_inv sm'"
  proof (cases "sm_state sm = IB_SMINFO_STATE_STANDBY")
    case True
    show ?thesis
    proof (cases "osm_exit_flag sm")
      case e: True
      then show ?thesis using I True by (auto simp: osm_sm_state_mgr_polling_callback_def sm_inv_def)
    next
      case e: False
      show ?thesis
      proof (cases "opt_polling_retry_number sm \<le> retry_number sm + 1")
        case r: True
        then show ?thesis using I True e
          by (auto simp: osm_sm_state_mgr_polling_callback_def Let_def osm_sm_state_mgr_process_def process_standby_def sm_inv_def sm_states)
      next
        case r: False
        have "sm_state_mgr_send_master_sm_info_req ?s = Some ?s \<or> (\<exists>out. sm_state_mgr_send_master_sm_info_req ?s = Some (sm_send out ?s))"
          using True by (intro send_req_some) simp
        then obtain y where y: "sm_state_mgr_send_master_sm_info_req ?s = Some y" "y = ?s \<or> (\<exists>out. y = sm_send out ?s)" by blast
        have "osm_sm_state_mgr_polling_callback (sm\<lparr>polling_timer := False\<rparr>) = Some (start_poll_timer 0x3211 y)"
          using True e r y(1) by (simp add: osm_sm_state_mgr_polling_callback_def Let_def)
        moreover have "sm_inv (start_poll_timer 0x3211 y)"
          by (rule start_poll_timer_inv) (use y(2) I r in \<open>auto simp: sm_inv_def not_le\<close>)
        ultimately show ?thesis by blast
      qed
    qed
  next
    case False
    show ?thesis
    proof (cases "sm_state sm = IB_SMINFO_STATE_MASTER \<and> p_polling_sm sm \<noteq> None")
      case True
      have "sm_state_mgr_send_master_sm_info_req ?s = Some ?s \<or> (\<exists>out. sm_state_mgr_send_master_sm_info_req ?s = Some (sm_send out ?s))"
        using True I by (intro send_req_some) (auto simp: sm_inv_def)
      then obtain y where y: "sm_state_mgr_send_master_sm_info_req ?s = Some y" "y = ?s \<or> (\<exists>out. y = sm_send out ?s)" by blast
      have "sm_inv (start_poll_timer 0x3211 y)"
        by (rule start_poll_timer_inv) (use y(2) I True in \<open>auto simp: sm_inv_def sm_states\<close>)
      then show ?thesis using I True y(1)
        by (auto simp: osm_sm_state_mgr_polling_callback_def Let_def osm_sm_state_mgr_process_def process_master_def sm_inv_def sm_states)
    next
      case F: False
      then show ?thesis using I False by (auto simp: osm_sm_state_mgr_polling_callback_def sm_inv_def)
    qed
  qed
  then show ?thesis using that by blast
qed

lemma tbl_ok_insert:
  assumes "tbl_ok m" "rs_port_guid rs = k" "smi_guid (rs_smi rs) = k"
  shows "tbl_ok (qmap_insert k rs m)"
  using assms qmap_insert_set[of m k rs] qmap_insert_sorted[of m k rs] unfolding tbl_ok_def by auto

lemma get_sm_inv: "sm_inv sm \<Longrightarrow> sm_inv (smi_rcv_process_get_sm sm rs ls)"
  by (auto simp: smi_rcv_process_get_sm_def Let_def osm_sm_state_mgr_signal_master_is_alive_def sm_inv_def sm_states)

lemma table_inv:
  assumes "sm_inv sm" "rs_port_guid rs = k" "smi_guid (rs_smi rs) = k"
  shows "sm_inv (sm\<lparr>sm_guid_tbl := qmap_insert k rs (sm_guid_tbl sm)\<rparr>)"
  using assms tbl_ok_insert[OF _ assms(2,3), of "sm_guid_tbl sm"] by (auto simp: sm_inv_def tbl_ok_def qmap_insert_lookup)

lemma tbl_ok_lookup: "tbl_ok m \<Longrightarrow> map_of m k = Some rs \<Longrightarrow> rs_port_guid rs = k \<and> smi_guid (rs_smi rs) = k"
  by (auto simp: tbl_ok_def dest: map_of_SomeD)

lemma get_response_inv:
  assumes I: "sm_inv sm"
  shows "sm_inv (smi_rcv_process_get_response mem sm madw)"
proof -
  have ex: "sm_inv (sm\<lparr>osm_exit_flag := True\<rparr>)" using I by (simp add: sm_inv_def)
  have new: "sm_inv (smi_rcv_process_get_sm (sm\<lparr>sm_guid_tbl := qmap_insert k rs (sm_guid_tbl sm)\<rparr>) rs ls)"
    if "rs_port_guid rs = k" "smi_guid (rs_smi rs) = k" for k rs ls
    by (rule get_sm_inv[OF table_inv[OF I that]])
  have old: "rs_port_guid rs = k" if "map_of (sm_guid_tbl sm) k = Some rs" for k rs
    using I that tbl_ok_lookup by (auto simp: sm_inv_def)
  show ?thesis unfolding smi_rcv_process_get_response_def osm_get_port_by_guid_def
    using I ex by (auto simp: Let_def intro!: new dest: old split: option.split)
qed

lemma set_request_inv:
  assumes I: "sm_inv sm"
  obtains sm' where "smi_rcv_process_set_request sm madw = Some sm'" "sm_inv sm'"
proof -
  have sig: "signal \<noteq> OSM_SM_SIGNAL_WAIT_FOR_HANDOVER" if "signal_of_attr_mod m = Some signal" for m signal
    using that by (auto simp: signal_of_attr_mod_def split: if_splits)
  have ok: "\<exists>sm''. (\<exists>st. osm_sm_state_mgr_process sm' signal = Some (st, sm'')) \<and> sm_inv sm''"
    if "signal_of_attr_mod m = Some signal" "sm_inv sm'" for sm' m signal
    using process_inv[OF that(2), of signal] sig[OF that(1)] by metis
  have g: "sm_inv (sm_send x sm\<lparr>master_sm_guid := y\<rparr>)" for x y using I by (simp add: sm_inv_def sm_send_def)
  have "\<exists>sm'. smi_rcv_process_set_request sm madw = Some sm' \<and> sm_inv sm'"
  proof (cases "signal_of_attr_mod (smp_attr_mod (mw_smp madw))")
    case None
    then show ?thesis using I by (simp add: smi_rcv_process_set_request_def Let_def)
  next
    case (Some signal)
    define s where "s = sm_send (Out_resp 0 (sm_own_smi sm (smp_smi (mw_smp madw)))) sm"
    define s' where "s' = (if smp_attr_mod (mw_smp madw) = IB_SMINFO_ATTR_MOD_STANDBY
      then s\<lparr>master_sm_guid := smi_guid (smp_smi (mw_smp madw))\<rparr> else s)"
    have "sm_inv s'" using I g by (auto simp: s'_def s_def)
    then obtain st sm'' where "osm_sm_state_mgr_process s' signal = Some (st, sm'')" "sm_inv sm''" using ok[OF Some] by blast
    then show ?thesis using I Some unfolding s'_def s_def by (simp add: smi_rcv_process_set_request_def Let_def)
  qed
  then show ?thesis using that by blast
qed

lemma recv_inv:
  assumes I: "sm_inv sm"
  obtains sm' where "osm_sminfo_rcv_process mem sm madw = Some sm'" "sm_inv sm'"
proof -
  obtain s where S: "smi_rcv_process_set_request sm madw = Some s" "sm_inv s" by (rule set_request_inv[OF I])
  have "\<exists>sm'. osm_sminfo_rcv_process mem sm madw = Some sm' \<and> sm_inv sm'"
    using S I get_response_inv[OF I, of mem madw] by (simp add: osm_sminfo_rcv_process_def Let_def smi_rcv_process_get_request_def)
  then show ?thesis using that by blast
qed

lemma elect_inv:
  assumes I: "sm_inv sm"
  obtains nx sm' where "do_sweep_elect sm = Some (nx, sm')" "sm_inv sm'"
proof -
  have P: "\<exists>st sm'. osm_sm_state_mgr_process s signal = Some (st, sm') \<and> sm_inv sm'"
    if "sm_inv s" "signal \<noteq> OSM_SM_SIGNAL_WAIT_FOR_HANDOVER \<or> p_polling_sm s \<noteq> None" for s signal
    using process_inv[OF that(1), of signal] that(2) by metis
  have h: "sm_inv (state_mgr_send_handover sm rs)" for rs
    using I by (simp add: state_mgr_send_handover_def Let_def sm_inv_def sm_send_def)
  have w: "sm_inv (sm\<lparr>p_polling_sm := Some k\<rparr>)" if "state_mgr_exists_other_master_sm sm = Some (k, rs)" for k rs
  proof -
    have "(k, rs) \<in> set (sm_guid_tbl sm)" using that
      unfolding state_mgr_exists_other_master_sm_def find_Some_iff by (metis nth_mem)
    then have "map_of (sm_guid_tbl sm) k \<noteq> None" by (simp add: map_of_eq_None_iff image_iff) (metis fst_conv)
    then show ?thesis using I by (simp add: sm_inv_def)
  qed
  have "\<exists>nx sm'. do_sweep_elect sm = Some (nx, sm') \<and> sm_inv sm'"
  proof (cases "master_sm_found sm")
    case True
    then show ?thesis using P[OF I, of OSM_SM_SIGNAL_MASTER_OR_HIGHER_SM_DETECTED] by (auto simp: do_sweep_elect_def)
  next
    case F: False
    show ?thesis
    proof (cases "sm_state sm = IB_SMINFO_STATE_MASTER \<and> \<not> force_heavy_sweep sm")
      case M: True
      show ?thesis
      proof (cases "state_mgr_get_highest_sm sm")
        case (Some kr)
        obtain k rs where kr: "kr = (k, rs)" by (cases kr)
        show ?thesis using F M Some kr P[OF h, of OSM_SM_SIGNAL_HANDOVER_SENT rs] by (auto simp: do_sweep_elect_def)
      next
        case None
        show ?thesis
        proof (cases "state_mgr_exists_other_master_sm sm")
          case (Some kr)
          obtain k rs where kr: "kr = (k, rs)" by (cases kr)
          show ?thesis using F M None Some kr P[OF w, of k rs OSM_SM_SIGNAL_WAIT_FOR_HANDOVER] by (auto simp: do_sweep_elect_def)
        qed (use F M None I in \<open>simp add: do_sweep_elect_def\<close>)
      qed
    next
      case M: False
      then show ?thesis using F I P[OF I, of OSM_SM_SIGNAL_DISCOVERY_COMPLETED] by (auto simp: do_sweep_elect_def)
    qed
  qed
  then show ?thesis using that by blast
qed

lemma handle_inv:
  assumes I: "sm_inv sm" and d: "\<forall>g. e = Ev_drop g \<longrightarrow> p_polling_sm sm \<noteq> Some g"
  obtains sm' where "sm_handle sm e = Some sm'" "sm_inv sm'"
proof -
  have "\<exists>sm'. sm_handle sm e = Some sm' \<and> sm_inv sm'"
  proof (cases e)
    case (Ev_recv mem madw)
    then show ?thesis using recv_inv[OF I, of mem madw] by auto
  next
    case Ev_timer
    then show ?thesis using callback_inv[OF I] I by (auto simp: timer_callback_def)
  next
    case Ev_elect
    then show ?thesis using elect_inv[OF I] by (metis option.simps(9) sm_handle.simps(4) snd_conv)
  next
    case Ev_port_down
    then show ?thesis using process_inv[OF I, of OSM_SM_SIGNAL_DISCOVER] I
      by (simp add: do_sweep_port_down_def) (metis option.simps(9) osm_sm_signal.simps snd_conv)
  next
    case (Ev_drop g)
    let ?m = "filter (\<lambda>(k, rs). k \<noteq> g) (sm_guid_tbl sm)"
    have "tbl_ok ?m" using I by (auto simp: sm_inv_def tbl_ok_def sorted_wrt_filter sorted_wrt_map)
    moreover have "map_of ?m k = (if k = g then None else map_of (sm_guid_tbl sm) k)" for k
      by (rule map_of_drop)
    ultimately have "sm_inv (drop_mgr_remove_sm sm g)" using I d Ev_drop by (auto simp: drop_mgr_remove_sm_def sm_inv_def)
    then show ?thesis using Ev_drop by simp
  qed (use I in \<open>auto simp: do_sweep_begin_def sm_inv_def\<close>)
  then show ?thesis using that by blast
qed

text \<open>A manager dropped before a completed discovery makes this one master, as in the code, or after it: the result is the same.\<close>

lemma elect_drop_commute:
  assumes "sm_state sm = IB_SMINFO_STATE_DISCOVERING" "\<not> master_sm_found sm"
  shows "do_sweep_elect (drop_mgr_remove_sm sm g) = map_option (\<lambda>(next, sm). (next, drop_mgr_remove_sm sm g)) (do_sweep_elect sm)"
  using assms by (simp add: do_sweep_elect_def drop_mgr_remove_sm_def osm_sm_state_mgr_process_def process_discovering_def sm_states)

lemma sm_boot_inv: "sm_boot sm \<Longrightarrow> sm_inv sm"
  by (auto simp: sm_boot_def sm_inv_def tbl_ok_def sm_states)

lemma sm_run_inv: "sm_run sm0 sm \<Longrightarrow> sm_boot sm0 \<Longrightarrow> sm_inv sm"
proof (induction rule: sm_run.induct)
  case (sm_step sm e sm')
  then obtain s where "sm_handle sm e = Some s" "sm_inv s" using handle_inv[of sm e] by blast
  then show ?case using sm_step.hyps(3) by simp
qed (rule sm_boot_inv)


fun sm_handles :: "osm_sm \<Rightarrow> sm_event list \<Rightarrow> osm_sm option" where
  "sm_handles sm [] = Some sm"
| "sm_handles sm (e # es) = (case sm_handle sm e of None \<Rightarrow> None | Some sm' \<Rightarrow> sm_handles sm' es)"

section \<open>Taking over\<close>

text \<open>A tick in the standby state either counts up or, when the retries are used up, starts discovery.\<close>

lemma standby_tick:
  assumes I: "sm_inv sm" and s: "sm_state sm = IB_SMINFO_STATE_STANDBY" and e: "\<not> osm_exit_flag sm"
    and t: "polling_timer sm" "timer_starts sm"
  shows "\<exists>sm'. sm_handle sm Ev_timer = Some sm' \<and> sm_inv sm' \<and> \<not> osm_exit_flag sm' \<and> timer_starts sm' \<and>
    opt_polling_retry_number sm' = opt_polling_retry_number sm \<and>
    (if opt_polling_retry_number sm \<le> retry_number sm + 1
     then sm_state sm' = IB_SMINFO_STATE_DISCOVERING \<and> coming_out_of_standby sm' \<and> sweep_signalled sm'
     else sm_state sm' = IB_SMINFO_STATE_STANDBY \<and> retry_number sm' = retry_number sm + 1 \<and> polling_timer sm')"
proof -
  obtain sm' where c: "osm_sm_state_mgr_polling_callback (sm\<lparr>polling_timer := False\<rparr>) = Some sm'" "sm_inv sm'" by (rule callback_inv[OF I])
  let ?s = "sm\<lparr>polling_timer := False, retry_number := retry_number sm + 1\<rparr>"
  have r: "sm_state_mgr_send_master_sm_info_req ?s = Some ?s \<or> (\<exists>out. sm_state_mgr_send_master_sm_info_req ?s = Some (sm_send out ?s))"
    using send_req_some[of ?s] s by simp
  show ?thesis using c t r s e
    by (auto simp: timer_callback_def osm_sm_state_mgr_polling_callback_def osm_sm_state_mgr_process_def process_standby_def sm_states
        start_poll_timer_eq)
qed

lemma discovering_ticks:
  assumes "sm_state sm = IB_SMINFO_STATE_DISCOVERING"
  shows "\<exists>t. sm_handles sm (replicate n Ev_timer) = Some (sm\<lparr>polling_timer := t\<rparr>)"
  using assms
proof (induction n arbitrary: sm)
  case 0
  show ?case by (rule exI[of _ "polling_timer sm"]) simp
next
  case (Suc n)
  have "sm_handle sm Ev_timer = Some (sm\<lparr>polling_timer := False\<rparr>)"
    using Suc.prems by (simp add: timer_callback_def osm_sm_state_mgr_polling_callback_def sm_states)
  then show ?case using Suc.IH[of "sm\<lparr>polling_timer := False\<rparr>"] Suc.prems by simp
qed

lemma retry_Suc: "sm_inv sm \<Longrightarrow> sm_state sm = IB_SMINFO_STATE_STANDBY \<Longrightarrow> unat (retry_number sm + 1) = unat (retry_number sm) + 1"
proof (cases "retry_number sm = 0")
  case False
  assume "sm_inv sm" "sm_state sm = IB_SMINFO_STATE_STANDBY"
  then have "unat (retry_number sm) < unat (opt_polling_retry_number sm)" using False by (simp add: sm_inv_def word_less_nat_alt)
  moreover have "unat (opt_polling_retry_number sm) < 2 ^ LENGTH(32)" by (rule unsigned_less)
  ultimately show ?thesis by (subst unat_add_lem[THEN iffD1]) auto
qed simp

text \<open>Ticks left before a standby manager starts discovery.\<close>

definition ticks_left :: "osm_sm \<Rightarrow> nat" where
  "ticks_left sm = max 1 (unat (opt_polling_retry_number sm) - unat (retry_number sm))"

lemma standby_ticks:
  assumes "sm_inv sm" "sm_state sm = IB_SMINFO_STATE_STANDBY" "\<not> osm_exit_flag sm" "polling_timer sm" "timer_starts sm"
  shows "\<exists>sm'. sm_handles sm (replicate n Ev_timer) = Some sm' \<and>
    (if n < ticks_left sm
     then sm_state sm' = IB_SMINFO_STATE_STANDBY \<and> unat (retry_number sm') = unat (retry_number sm) + n \<and> polling_timer sm'
     else sm_state sm' = IB_SMINFO_STATE_DISCOVERING \<and> coming_out_of_standby sm' \<and> sweep_signalled sm')"
  using assms
proof (induction n arbitrary: sm)
  case 0
  then show ?case by (simp add: ticks_left_def)
next
  case (Suc n)
  obtain sm' where t: "sm_handle sm Ev_timer = Some sm'" "sm_inv sm'" "\<not> osm_exit_flag sm'" "timer_starts sm'"
    "opt_polling_retry_number sm' = opt_polling_retry_number sm"
    and d: "if opt_polling_retry_number sm \<le> retry_number sm + 1
     then sm_state sm' = IB_SMINFO_STATE_DISCOVERING \<and> coming_out_of_standby sm' \<and> sweep_signalled sm'
     else sm_state sm' = IB_SMINFO_STATE_STANDBY \<and> retry_number sm' = retry_number sm + 1 \<and> polling_timer sm'"
    using standby_tick[OF Suc.prems] by blast
  have u: "unat (retry_number sm + 1) = unat (retry_number sm) + 1" by (rule retry_Suc[OF Suc.prems(1,2)])
  show ?case
  proof (cases "opt_polling_retry_number sm \<le> retry_number sm + 1")
    case True
    then have "ticks_left sm = 1" using u by (simp add: ticks_left_def word_le_nat_alt)
    then show ?thesis using t(1) d True discovering_ticks[of sm' n] by auto
  next
    case False
    then have "ticks_left sm = Suc (ticks_left sm')" using u d t(5) by (simp add: ticks_left_def word_le_nat_alt)
    then show ?thesis using t d False u Suc.IH[of sm'] by auto
  qed
qed

section \<open>Order on managers\<close>

lemma greater_trans: "osm_sm_is_greater_than p g p' g' \<Longrightarrow> osm_sm_is_greater_than p' g' p'' g'' \<Longrightarrow> osm_sm_is_greater_than p g p'' g''"
  unfolding osm_sm_is_greater_than_def by (metis order_less_trans)

lemma greater_irrefl: "\<not> osm_sm_is_greater_than p g p g"
  by (simp add: osm_sm_is_greater_than_def)

definition rs_greater :: "osm_remote_sm \<Rightarrow> u8 \<Rightarrow> u64 \<Rightarrow> bool" where
  "rs_greater rs p g \<longleftrightarrow> osm_sm_is_greater_than (ib_sminfo_get_priority (rs_smi rs)) (smi_guid (rs_smi rs)) p g"

definition rs_active :: "osm_remote_sm \<Rightarrow> bool" where
  "rs_active rs \<longleftrightarrow> ib_sminfo_get_state (rs_smi rs) \<noteq> IB_SMINFO_STATE_NOTACTIVE"

lemma greater_cotrans: "\<not> osm_sm_is_greater_than p g p' g' \<Longrightarrow> osm_sm_is_greater_than p'' g'' p' g' \<Longrightarrow> \<not> osm_sm_is_greater_than p g p'' g''"
  using greater_trans by blast

lemma highest_loop_spec:
  "case highest_loop best p g tbl of
     None \<Rightarrow> best = None \<and> (\<forall>(k, rs)\<in>set tbl. rs_active rs \<longrightarrow> \<not> rs_greater rs p g)
   | Some (k, rs) \<Rightarrow>
       (best = Some (k, rs) \<and> (\<forall>(k', rs')\<in>set tbl. rs_active rs' \<longrightarrow> \<not> rs_greater rs' p g)) \<or>
       ((k, rs) \<in> set tbl \<and> rs_active rs \<and> rs_greater rs p g \<and>
        (\<forall>(k', rs')\<in>set tbl. rs_active rs' \<longrightarrow> \<not> rs_greater rs' (ib_sminfo_get_priority (rs_smi rs)) (smi_guid (rs_smi rs))))"
proof (induction best p g tbl rule: highest_loop.induct)
  case (2 best p g k rs tbl)
  show ?case
  proof (cases "rs_active rs \<and> rs_greater rs p g")
    case True
    have tr: "rs_greater x p g" if "rs_greater x (ib_sminfo_get_priority (rs_smi rs)) (smi_guid (rs_smi rs))" for x
      using that True greater_trans unfolding rs_greater_def by blast
    have ir: "\<not> rs_greater rs (ib_sminfo_get_priority (rs_smi rs)) (smi_guid (rs_smi rs))" by (simp add: rs_greater_def greater_irrefl)
    have no: "\<not> rs_greater rs (ib_sminfo_get_priority (rs_smi x)) (smi_guid (rs_smi x))"
      if "rs_greater x (ib_sminfo_get_priority (rs_smi rs)) (smi_guid (rs_smi rs))" for x
      using that greater_trans greater_irrefl unfolding rs_greater_def by blast
    have step: "highest_loop best p g ((k, rs) # tbl) =
      highest_loop (Some (k, rs)) (ib_sminfo_get_priority (rs_smi rs)) (smi_guid (rs_smi rs)) tbl"
      using True by (simp add: rs_active_def rs_greater_def)
    have IH: "case highest_loop (Some (k, rs)) (ib_sminfo_get_priority (rs_smi rs)) (smi_guid (rs_smi rs)) tbl of
       None \<Rightarrow> False
     | Some (k'', rs'') \<Rightarrow>
         ((k, rs) = (k'', rs'') \<and> (\<forall>(k', rs')\<in>set tbl. rs_active rs' \<longrightarrow> \<not> rs_greater rs' (ib_sminfo_get_priority (rs_smi rs)) (smi_guid (rs_smi rs)))) \<or>
         ((k'', rs'') \<in> set tbl \<and> rs_active rs'' \<and> rs_greater rs'' (ib_sminfo_get_priority (rs_smi rs)) (smi_guid (rs_smi rs)) \<and>
          (\<forall>(k', rs')\<in>set tbl. rs_active rs' \<longrightarrow> \<not> rs_greater rs' (ib_sminfo_get_priority (rs_smi rs'')) (smi_guid (rs_smi rs''))))"
      using 2(2) True by (auto simp: rs_active_def rs_greater_def split: option.splits)
    show ?thesis unfolding step using IH True ir tr no by (auto split: option.splits)
  next
    case False
    then have step: "highest_loop best p g ((k, rs) # tbl) = highest_loop best p g tbl" by (auto simp: rs_active_def rs_greater_def)
    have IH: "case highest_loop best p g tbl of
     None \<Rightarrow> best = None \<and> (\<forall>(k, rs)\<in>set tbl. rs_active rs \<longrightarrow> \<not> rs_greater rs p g)
   | Some (k, rs) \<Rightarrow>
       (best = Some (k, rs) \<and> (\<forall>(k', rs')\<in>set tbl. rs_active rs' \<longrightarrow> \<not> rs_greater rs' p g)) \<or>
       ((k, rs) \<in> set tbl \<and> rs_active rs \<and> rs_greater rs p g \<and>
        (\<forall>(k', rs')\<in>set tbl. rs_active rs' \<longrightarrow> \<not> rs_greater rs' (ib_sminfo_get_priority (rs_smi rs)) (smi_guid (rs_smi rs))))"
      using 2(1,3) False by (cases "rs_active rs") (auto simp: rs_active_def rs_greater_def)
    have no: "\<not> (rs_active rs \<and> rs_greater rs (ib_sminfo_get_priority (rs_smi x)) (smi_guid (rs_smi x)))" if "rs_greater x p g" for x
      using that False greater_trans unfolding rs_greater_def by blast
    show ?thesis unfolding step using IH False no by (auto split: option.splits)
  qed
qed (auto split: option.split)

section \<open>Mastership\<close>

lemma own_smi_state: "s \<le> IB_SMINFO_STATE_MASTER \<Longrightarrow> (s OR push_bit 4 p) AND 0x0F = (s :: u8)"
proof -
  assume "s \<le> IB_SMINFO_STATE_MASTER"
  then have "unat s \<le> 3" by (simp add: sm_states word_le_nat_alt)
  then have "unat s < 4" by simp
  then have s: "take_bit 4 s = s" by (simp add: word_unat_eq_iff unsigned_take_bit_eq take_bit_nat_eq_self)
  have "(0x0F :: u8) = mask 4" by (simp add: mask_eq_exp_minus_1)
  then have "(s OR push_bit 4 p) AND 0x0F = take_bit 4 (s OR push_bit 4 p)" by (simp add: take_bit_eq_mask)
  also have "\<dots> = take_bit 4 s" by (simp add: take_bit_push_bit)
  finally show ?thesis using s by simp
qed

text \<open>The Set(SMInfo) request that carries a handover, as its addressee receives it.\<close>

definition handover_mad :: "u64 \<Rightarrow> ib_sm_info \<Rightarrow> osm_madw" where
  "handover_mad from payload =
     \<lparr>mw_smp = \<lparr>smp_method = IB_MAD_METHOD_SET, smp_attr_mod = IB_SMINFO_ATTR_MOD_HANDOVER, smp_smi = payload\<rparr>,
      mw_port_guid = from, mw_set_method = False, mw_light_sweep = False\<rparr>"

lemma handover_received:
  assumes p: "ib_sminfo_get_state payload = IB_SMINFO_STATE_MASTER" and b: "sm_state b = IB_SMINFO_STATE_STANDBY"
  shows "\<exists>b'. osm_sminfo_rcv_process mem b (handover_mad from payload) = Some b' \<and> sm_state b' = IB_SMINFO_STATE_MASTER \<and>
     master_sm_base_lid b' = sm_base_lid b \<and> force_heavy_sweep b' \<and> sweep_signalled b' \<and>
     sm_outs b' = Out_resp 0 (sm_own_smi b payload) # sm_outs b"
proof -
  have m: "IB_SMINFO_ATTR_MOD_HANDOVER \<noteq> IB_SMINFO_ATTR_MOD_ACKNOWLEDGE" "IB_SMINFO_ATTR_MOD_HANDOVER \<noteq> IB_SMINFO_ATTR_MOD_STANDBY"
    by (simp_all add: IB_SMINFO_ATTR_MOD_HANDOVER_def IB_SMINFO_ATTR_MOD_ACKNOWLEDGE_def IB_SMINFO_ATTR_MOD_STANDBY_def CL_NTOH32_def)
  show ?thesis using p b m
    by (simp add: osm_sminfo_rcv_process_def handover_mad_def ib_smp_is_response_def IB_MAD_METHOD_SET_def IB_MAD_METHOD_GET_def
        IB_MAD_METHOD_TRAP_REPRESS_def smi_rcv_process_set_request_def smi_rcv_check_set_req_legality_def signal_of_attr_mod_def
        osm_sm_state_mgr_check_legality_def osm_sm_state_mgr_process_def process_standby_def Let_def sm_states sm_send_def)
qed

lemma handover_sent:
  assumes "sm_state a = IB_SMINFO_STATE_MASTER" "\<not> master_sm_found a" "\<not> force_heavy_sweep a"
    "state_mgr_get_highest_sm a = Some (k, rs)"
  shows "\<exists>a' payload. do_sweep_elect a = Some (Sweep_return, a') \<and> sm_state a' = IB_SMINFO_STATE_STANDBY \<and>
     master_sm_guid a' = rs_port_guid rs \<and> (polling_timer a' \<longleftrightarrow> polling_timer a \<or> timer_starts a) \<and> retry_number a' = 0 \<and>
     Out_set_sminfo (rs_port_guid rs) IB_SMINFO_ATTR_MOD_HANDOVER payload \<in> set (sm_outs a') \<and>
     ib_sminfo_get_state payload = IB_SMINFO_STATE_MASTER"
proof -
  let ?h = "state_mgr_send_handover a rs"
  have s: "(IB_SMINFO_STATE_MASTER OR push_bit 4 (opt_sm_priority a)) AND 0x0F = IB_SMINFO_STATE_MASTER" by (rule own_smi_state) simp
  obtain sm where sm: "sm_state_mgr_send_master_sm_info_req (?h\<lparr>sm_state := IB_SMINFO_STATE_STANDBY, retry_number := 0\<rparr>) = Some sm"
    "sm = ?h\<lparr>sm_state := IB_SMINFO_STATE_STANDBY, retry_number := 0\<rparr> \<or> (\<exists>out. sm = sm_send out (?h\<lparr>sm_state := IB_SMINFO_STATE_STANDBY, retry_number := 0\<rparr>))"
    using send_req_some[of "?h\<lparr>sm_state := IB_SMINFO_STATE_STANDBY, retry_number := 0\<rparr>"] by auto
  have h: "sm_state ?h = IB_SMINFO_STATE_MASTER" using assms by (simp add: state_mgr_send_handover_def Let_def)
  have p: "osm_sm_state_mgr_process ?h OSM_SM_SIGNAL_HANDOVER_SENT = Some (IB_SUCCESS, start_poll_timer 0x3210 sm)"
    unfolding osm_sm_state_mgr_process_def h process_master_def sm_state_mgr_start_polling_def using sm(1) by (simp add: sm_states)
  have e: "do_sweep_elect a = Some (Sweep_return, start_poll_timer 0x3210 sm)" using assms p by (simp add: do_sweep_elect_def)
  show ?thesis
    apply (rule exI[of _ "start_poll_timer 0x3210 sm"], rule exI[of _ "sm_own_smi (a\<lparr>master_sm_guid := rs_port_guid rs\<rparr>) (rs_smi rs)"])
    using e sm(2) s assms(1)
    by (auto simp: state_mgr_send_handover_def Let_def sm_send_def sm_own_smi_def ib_sminfo_get_state_def start_poll_timer_eq)
qed

text \<open>How a manager becomes master.\<close>

lemma process_master_from:
  assumes "osm_sm_state_mgr_process sm signal = Some (st, sm')" "sm_state sm \<noteq> IB_SMINFO_STATE_MASTER" "sm_state sm' = IB_SMINFO_STATE_MASTER"
  shows "sm_state sm = IB_SMINFO_STATE_DISCOVERING \<and> signal = OSM_SM_SIGNAL_DISCOVERY_COMPLETED \<or>
         sm_state sm = IB_SMINFO_STATE_STANDBY \<and> signal = OSM_SM_SIGNAL_HANDOVER"
proof -
  have s: "sm_state y = sm_state x" if "sm_state_mgr_start_polling x = Some y" for x y
    using that unfolding sm_state_mgr_start_polling_def sm_state_mgr_send_master_sm_info_req_def
    by (auto simp: start_poll_timer_eq split: option.splits if_splits)
  show ?thesis using assms s unfolding osm_sm_state_mgr_process_def process_discovering_def process_standby_def process_notactive_def
    by (cases signal) (auto simp: sm_states split: if_splits dest!: s)
qed

lemma handle_master_from:
  assumes h: "sm_handle sm e = Some sm'" and n: "sm_state sm \<noteq> IB_SMINFO_STATE_MASTER" and m: "sm_state sm' = IB_SMINFO_STATE_MASTER"
  shows "sm_state sm = IB_SMINFO_STATE_DISCOVERING \<and> e = Ev_elect \<and> \<not> master_sm_found sm \<and> \<not> force_heavy_sweep sm \<or>
    sm_state sm = IB_SMINFO_STATE_STANDBY \<and>
      (\<exists>mem madw. e = Ev_recv mem madw \<and> smp_method (mw_smp madw) = IB_MAD_METHOD_SET \<and>
         smp_attr_mod (mw_smp madw) = IB_SMINFO_ATTR_MOD_HANDOVER \<and>
         ib_sminfo_get_state (smp_smi (mw_smp madw)) = IB_SMINFO_STATE_MASTER)"
proof (cases e)
  case (Ev_recv mem madw)
  have G: "sm_state (smi_rcv_process_get_sm s rs l) = sm_state s" for s rs l
    by (simp add: smi_rcv_process_get_sm_def Let_def osm_sm_state_mgr_signal_master_is_alive_def)
  have R: "sm_state (smi_rcv_process_get_response mem sm madw) = sm_state sm"
    by (auto simp: smi_rcv_process_get_response_def Let_def G split: option.splits)
  have S: "smi_rcv_process_set_request sm madw = Some sm'"
    using h n m Ev_recv R by (auto simp: osm_sminfo_rcv_process_def Let_def smi_rcv_process_get_request_def split: if_splits)
  then have set: "smp_method (mw_smp madw) = IB_MAD_METHOD_SET" "smi_rcv_check_set_req_legality (mw_smp madw) = IB_SUCCESS"
    using n m by (auto simp: smi_rcv_process_set_request_def Let_def split: if_splits)
  then obtain signal where sg: "signal_of_attr_mod (smp_attr_mod (mw_smp madw)) = Some signal"
    using S n m by (auto simp: smi_rcv_process_set_request_def Let_def split: option.splits)
  define s where "s = (if smp_attr_mod (mw_smp madw) = IB_SMINFO_ATTR_MOD_STANDBY
    then (sm_send (Out_resp 0 (sm_own_smi sm (smp_smi (mw_smp madw)))) sm)\<lparr>master_sm_guid := smi_guid (smp_smi (mw_smp madw))\<rparr>
    else sm_send (Out_resp 0 (sm_own_smi sm (smp_smi (mw_smp madw)))) sm)"
  have "osm_sm_state_mgr_check_legality sm signal = IB_SUCCESS"
    using S n m set sg by (auto simp: smi_rcv_process_set_request_def Let_def split: if_split_asm)
  then have "map_option snd (osm_sm_state_mgr_process s signal) = Some sm'" unfolding s_def
    using S set sg by (simp add: smi_rcv_process_set_request_def Let_def split: if_split_asm)
  then obtain st where ss: "sm_state s = sm_state sm" "osm_sm_state_mgr_process s signal = Some (st, sm')" by (auto simp: s_def)
  have dc: "signal \<noteq> OSM_SM_SIGNAL_DISCOVERY_COMPLETED" using sg by (auto simp: signal_of_attr_mod_def split: if_splits)
  have "sm_state sm = IB_SMINFO_STATE_STANDBY" "signal = OSM_SM_SIGNAL_HANDOVER"
    using process_master_from[OF ss(2)] ss(1) n m dc by auto
  moreover from this have a: "smp_attr_mod (mw_smp madw) = IB_SMINFO_ATTR_MOD_HANDOVER"
    using sg by (auto simp: signal_of_attr_mod_def split: if_splits)
  moreover have "IB_SMINFO_ATTR_MOD_HANDOVER \<noteq> IB_SMINFO_ATTR_MOD_ACKNOWLEDGE"
    by (simp add: IB_SMINFO_ATTR_MOD_HANDOVER_def IB_SMINFO_ATTR_MOD_ACKNOWLEDGE_def CL_NTOH32_def)
  then have "ib_sminfo_get_state (smp_smi (mw_smp madw)) = IB_SMINFO_STATE_MASTER"
    using set(2) a by (auto simp: smi_rcv_check_set_req_legality_def split: if_splits)
  ultimately show ?thesis using Ev_recv set by blast
next
  case Ev_timer
  have q: "sm_state y = sm_state x" if "sm_state_mgr_send_master_sm_info_req x = Some y" for x y
    using that unfolding sm_state_mgr_send_master_sm_info_req_def by (auto split: option.splits if_splits)
  have False using h n m Ev_timer
    by (auto simp: timer_callback_def osm_sm_state_mgr_polling_callback_def Let_def start_poll_timer_eq split: if_splits dest!: q process_master_from)
  then show ?thesis ..
next
  case Ev_elect
  then show ?thesis using h n m
    by (auto simp: do_sweep_elect_def split: if_splits dest!: process_master_from)
next
  case Ev_port_down
  then show ?thesis using h n m by (auto simp: do_sweep_port_down_def split: if_splits dest!: process_master_from)
qed (use h n m in \<open>auto simp: do_sweep_begin_def drop_mgr_remove_sm_def split: if_splits\<close>)

lemma sm_state_cases:
  assumes "s \<le> IB_SMINFO_STATE_MASTER"
  shows "s \<in> {0, 1, 2, 3}"
proof -
  have "unat s \<le> 3" using assms by (simp add: sm_states word_le_nat_alt)
  then have "unat s \<in> {0, 1, 2, 3}" by auto
  then show ?thesis by (auto simp: word_unat_eq_iff)
qed

section \<open>Properties\<close>

text \<open>C11. The state machine of a subnet manager never fails.  In every run from start-up, whatever messages arrive and
  whenever the timer ticks or a sweep elects, the state is one of the four of the protocol, the table of remote managers is
  sorted and holds each under its own identifier, a standby manager that was not asked to exit has its poll timer running
  unless a start of that timer failed, which is logged, and the next event is handled without an access through a null or
  dangling pointer, provided the drop manager never frees the remote manager being polled.\<close>

theorem sm_run_safe:
  assumes b: "sm_boot sm0" and r: "sm_run sm0 sm" and d: "\<forall>g. e = Ev_drop g \<longrightarrow> p_polling_sm sm \<noteq> Some g"
  shows "sm_state sm \<in> {IB_SMINFO_STATE_NOTACTIVE, IB_SMINFO_STATE_DISCOVERING, IB_SMINFO_STATE_STANDBY, IB_SMINFO_STATE_MASTER} \<and>
    sorted_wrt (<) (map fst (sm_guid_tbl sm)) \<and>
    (\<forall>(k, rs)\<in>set (sm_guid_tbl sm). rs_port_guid rs = k \<and> smi_guid (rs_smi rs) = k) \<and>
    (sm_state sm = IB_SMINFO_STATE_STANDBY \<and> \<not> osm_exit_flag sm \<longrightarrow>
       polling_timer sm \<or> (\<exists>err. Out_log err \<in> set (sm_outs sm))) \<and>
    (\<exists>sm'. sm_handle sm e = Some sm')"
proof -
  have I: "sm_inv sm" by (rule sm_run_inv[OF r b])
  have "sm_state sm \<in> {0, 1, 2, 3}" by (rule sm_state_cases) (use I in \<open>simp add: sm_inv_def\<close>)
  moreover have "\<exists>sm'. sm_handle sm e = Some sm'" using handle_inv[OF I d] by blast
  ultimately show ?thesis using I by (auto simp: sm_inv_def tbl_ok_def timer_never_failed_def sm_states)
qed

definition sm_example :: osm_sm where
  "sm_example = \<lparr>sm_state = IB_SMINFO_STATE_DISCOVERING, first_time_master_sweep = False, force_heavy_sweep = False,
     coming_out_of_standby = False, ignore_existing_lfts = True, master_sm_base_lid = 0, sm_base_lid = 0x0100, sm_port_guid = 0x0500,
     opt_sm_priority = 4, opt_sm_key = 1, opt_polling_retry_number = 4, port_guid_tbl = [0x0500, 0x0700], sm_guid_tbl = [],
     master_sm_found = False, retry_number = 0, master_sm_guid = 0, p_polling_sm = None, polling_timer = False, timer_starts = True,
     sweep_signalled = False, vendor_is_sm = True, qp0_mads_sent = 0, subnet_up_event = False, osm_exit_flag = False, sm_outs = []\<rparr>"

definition smi_example :: "u8 \<Rightarrow> osm_madw" where
  "smi_example ps = \<lparr>mw_smp = \<lparr>smp_method = IB_MAD_METHOD_GET_RESP, smp_attr_mod = 0,
     smp_smi = \<lparr>smi_guid = 0x0700, smi_sm_key = 0, smi_act_count = 0, smi_pri_state = ps\<rparr>\<rparr>,
     mw_port_guid = 0x0700, mw_set_method = False, mw_light_sweep = False\<rparr>"

lemma sm_run_handles:
  assumes "sm_run sm0 sm" "sm_handles sm es = Some sm'" "\<forall>e\<in>set es. \<forall>g. e \<noteq> Ev_drop g"
  shows "sm_run sm0 sm'"
  using assms
proof (induction es arbitrary: sm)
  case (Cons e es)
  then obtain s where s: "sm_handle sm e = Some s" "sm_handles s es = Some sm'" by (auto split: option.splits)
  have "sm_run sm0 s" by (rule sm_step[OF Cons.prems(1) _ s(1)]) (use Cons.prems(3) in auto)
  then show ?case using Cons.IH s(2) Cons.prems(3) by simp
qed simp

lemmas sm_eval = sm_example_def smi_example_def osm_sminfo_rcv_process_def ib_smp_is_response_def smi_rcv_process_get_response_def
  smi_rcv_process_get_sm_def osm_get_port_by_guid_def do_sweep_elect_def osm_sm_state_mgr_process_def process_discovering_def
  process_standby_def process_master_def sm_state_mgr_start_polling_def sm_state_mgr_send_master_sm_info_req_def
  osm_sm_state_mgr_polling_callback_def state_mgr_get_highest_sm_def state_mgr_exists_other_master_sm_def
  smi_rcv_remote_sm_is_higher_def osm_sm_is_greater_than_def ib_sminfo_get_state_def ib_sminfo_get_priority_def CL_NTOH64_def
  timer_callback_def start_poll_timer_eq drop_mgr_remove_sm_def sm_send_def sm_states IB_MAD_METHOD_GET_RESP_def IB_MAD_METHOD_TRAP_REPRESS_def Let_def

text \<open>The manager of the example has learned of a master and gone to standby.\<close>

definition sm_standby :: osm_sm where
  "sm_standby = the (sm_handles sm_example [Ev_recv True (smi_example 0x53), Ev_elect])"

lemma sm_standby_eq: "sm_handles sm_example [Ev_recv True (smi_example 0x53), Ev_elect] = Some sm_standby"
  by (simp add: sm_standby_def sm_eval)

lemma sm_standby_sel: "sm_state sm_standby = IB_SMINFO_STATE_STANDBY" "\<not> osm_exit_flag sm_standby" "p_polling_sm sm_standby = None"
  "opt_polling_retry_number sm_standby = 4" "retry_number sm_standby = 0" "master_sm_guid sm_standby = 0x0700"
  "timer_starts sm_standby" "timer_never_failed (sm_outs sm_standby)"
  by (simp_all add: sm_standby_def sm_eval timer_never_failed_def)

lemma sm_standby_run: "sm_boot sm_example" "sm_run sm_example sm_standby"
proof -
  show "sm_run sm_example sm_standby" by (rule sm_run_handles[OF sm_start sm_standby_eq]) simp
qed (simp add: sm_boot_def sm_example_def)

theorem sm_run_safe_witness: "polling_timer sm_standby \<and> (\<exists>sm'. sm_handle sm_standby Ev_timer = Some sm')"
  using sm_run_safe[OF sm_standby_run, of Ev_timer] sm_standby_sel(1,2,8) unfolding timer_never_failed_def by blast

text \<open>C13. A standby manager takes over when the master falls silent, at an exact tick.  In every run from start-up in which no start
  of the poll timer failed, consider a standby manager that was not asked to exit and hears nothing more, while
  the timer can be restarted.  It is still in standby, with its timer running and one retry more at every tick, after any number of
  ticks below the number of retries left, or below one if none is left, and from that tick on it is discovering, with a sweep
  signalled.\<close>

theorem standby_takes_over:
  assumes b: "sm_boot sm0" and r: "sm_run sm0 sm" and s: "sm_state sm = IB_SMINFO_STATE_STANDBY" and e: "\<not> osm_exit_flag sm"
    and t: "\<forall>err. Out_log err \<notin> set (sm_outs sm)" "timer_starts sm"
  shows "\<exists>sm'. sm_handles sm (replicate n Ev_timer) = Some sm' \<and>
    (if n < max 1 (unat (opt_polling_retry_number sm) - unat (retry_number sm))
     then sm_state sm' = IB_SMINFO_STATE_STANDBY \<and> unat (retry_number sm') = unat (retry_number sm) + n \<and> polling_timer sm'
     else sm_state sm' = IB_SMINFO_STATE_DISCOVERING \<and> coming_out_of_standby sm' \<and> sweep_signalled sm')"
proof -
  have I: "sm_inv sm" by (rule sm_run_inv[OF r b])
  then have "polling_timer sm" using s e t by (simp add: sm_inv_def timer_never_failed_def)
  then show ?thesis using standby_ticks[OF I s e _ t(2), of n] unfolding ticks_left_def by simp
qed

theorem standby_takes_over_witness:
  "(\<exists>sm'. sm_handles sm_standby (replicate 3 Ev_timer) = Some sm' \<and> sm_state sm' = IB_SMINFO_STATE_STANDBY \<and> unat (retry_number sm') = 3) \<and>
   (\<exists>sm'. sm_handles sm_standby (replicate 4 Ev_timer) = Some sm' \<and> sm_state sm' = IB_SMINFO_STATE_DISCOVERING \<and>
      coming_out_of_standby sm' \<and> sweep_signalled sm')"
proof -
  note T = standby_takes_over[OF sm_standby_run sm_standby_sel(1,2) sm_standby_sel(8)[unfolded timer_never_failed_def] sm_standby_sel(7)]
  show ?thesis using T[of 3] T[of 4] sm_standby_sel(4,5) by auto
qed

text \<open>C17. The election finds the greatest manager: the one returned is in the table, not inactive, greater than the local
  manager (higher priority or, at equal priority, lower identifier in host order) and no other active one is greater; none is
  returned only if no active manager is greater than the local one.\<close>

theorem get_highest_sm_correct:
  "case state_mgr_get_highest_sm sm of
     None \<Rightarrow> \<forall>(k, rs)\<in>set (sm_guid_tbl sm). rs_active rs \<longrightarrow> \<not> rs_greater rs (opt_sm_priority sm) (sm_port_guid sm)
   | Some (k, rs) \<Rightarrow> (k, rs) \<in> set (sm_guid_tbl sm) \<and> rs_active rs \<and> rs_greater rs (opt_sm_priority sm) (sm_port_guid sm) \<and>
       (\<forall>(k', rs')\<in>set (sm_guid_tbl sm). rs_active rs' \<longrightarrow>
          \<not> rs_greater rs' (ib_sminfo_get_priority (rs_smi rs)) (smi_guid (rs_smi rs)))"
  using highest_loop_spec[where best = None and p = "opt_sm_priority sm" and g = "sm_port_guid sm" and tbl = "sm_guid_tbl sm"]
  unfolding state_mgr_get_highest_sm_def by (auto split: option.splits)

definition sm_tbl_example :: osm_sm where
  "sm_tbl_example = sm_example\<lparr>sm_guid_tbl :=
     [(0x0700, \<lparr>rs_port_guid = 0x0700, rs_smi = \<lparr>smi_guid = 0x0700, smi_sm_key = 0, smi_act_count = 0, smi_pri_state = 0x51\<rparr>\<rparr>),
      (0x0900, \<lparr>rs_port_guid = 0x0900, rs_smi = \<lparr>smi_guid = 0x0900, smi_sm_key = 0, smi_act_count = 0, smi_pri_state = 0x62\<rparr>\<rparr>)],
     sm_state := IB_SMINFO_STATE_MASTER\<rparr>"

lemma sm_tbl_example_highest: "state_mgr_get_highest_sm sm_tbl_example =
  Some (0x0900, \<lparr>rs_port_guid = 0x0900, rs_smi = \<lparr>smi_guid = 0x0900, smi_sm_key = 0, smi_act_count = 0, smi_pri_state = 0x62\<rparr>\<rparr>)"
  by (simp add: sm_tbl_example_def sm_eval)

theorem get_highest_sm_correct_witness:
  "\<exists>rs. state_mgr_get_highest_sm sm_tbl_example = Some (0x0900, rs) \<and> rs_active rs \<and> rs_greater rs 4 0x0500"
  using get_highest_sm_correct[of sm_tbl_example] unfolding sm_tbl_example_highest
  by (auto simp: sm_tbl_example_def sm_example_def)

text \<open>C15. Handover between two managers.  A master whose sweep finds a greater manager sends it a Set(SMInfo) HANDOVER that
  still names the sender as master, goes to standby and polls the receiver, its poll timer running if it was or can be started;
  the receiver, in standby, accepts exactly that
  message, answers it with status zero and becomes master with a heavy sweep signalled.\<close>

theorem handover_transfers_mastership:
  assumes "sm_state a = IB_SMINFO_STATE_MASTER" "\<not> master_sm_found a" "\<not> force_heavy_sweep a"
    "state_mgr_get_highest_sm a = Some (k, rs)" "sm_state b = IB_SMINFO_STATE_STANDBY"
  shows "\<exists>a' b' payload. do_sweep_elect a = Some (Sweep_return, a') \<and>
    Out_set_sminfo (rs_port_guid rs) IB_SMINFO_ATTR_MOD_HANDOVER payload \<in> set (sm_outs a') \<and>
    sm_state a' = IB_SMINFO_STATE_STANDBY \<and> master_sm_guid a' = rs_port_guid rs \<and>
    (polling_timer a' \<longleftrightarrow> polling_timer a \<or> timer_starts a) \<and> retry_number a' = 0 \<and>
    osm_sminfo_rcv_process mem b (handover_mad from payload) = Some b' \<and>
    sm_state b' = IB_SMINFO_STATE_MASTER \<and> force_heavy_sweep b' \<and> sweep_signalled b' \<and>
    sm_outs b' = Out_resp 0 (sm_own_smi b payload) # sm_outs b"
  using handover_sent[OF assms(1-4)] handover_received[OF _ assms(5)] by blast

theorem handover_transfers_mastership_witness:
  "\<exists>a' b' payload. do_sweep_elect sm_tbl_example = Some (Sweep_return, a') \<and>
    Out_set_sminfo 0x0900 IB_SMINFO_ATTR_MOD_HANDOVER payload \<in> set (sm_outs a') \<and> sm_state a' = IB_SMINFO_STATE_STANDBY \<and>
    osm_sminfo_rcv_process True sm_standby (handover_mad 0x0500 payload) = Some b' \<and> sm_state b' = IB_SMINFO_STATE_MASTER"
  using handover_transfers_mastership[of sm_tbl_example, OF _ _ _ sm_tbl_example_highest sm_standby_sel(1), of True "0x0500"]
  by (simp add: sm_tbl_example_def sm_example_def) blast

text \<open>C28. Legality of signals.  The check made before a Set(SMInfo) request is acknowledged agrees with what the state
  machine then does: a signal passes it exactly if the state machine accepts it, except for three that only the manager itself
  raises in the master state, and a signal the state machine refuses changes nothing.\<close>

theorem check_legality_agrees:
  assumes "sm_state sm \<le> IB_SMINFO_STATE_MASTER" and "osm_sm_state_mgr_process sm signal = Some (st, sm')"
  shows "(st = IB_SUCCESS \<longleftrightarrow> osm_sm_state_mgr_check_legality sm signal = IB_SUCCESS \<or>
      sm_state sm = IB_SMINFO_STATE_MASTER \<and>
        signal \<in> {OSM_SM_SIGNAL_POLLING_TIMEOUT, OSM_SM_SIGNAL_DISCOVER, OSM_SM_SIGNAL_WAIT_FOR_HANDOVER}) \<and>
    (st \<noteq> IB_SUCCESS \<longrightarrow> sm' = sm)"
proof -
  have "sm_state sm \<in> {0, 1, 2, 3}" by (rule sm_state_cases[OF assms(1)])
  then show ?thesis using assms(2)
    by (cases signal) (auto simp: osm_sm_state_mgr_process_def osm_sm_state_mgr_check_legality_def process_discovering_def
      process_standby_def process_notactive_def process_master_def sm_states)
qed

theorem check_legality_agrees_witness:
  "osm_sm_state_mgr_process sm_example OSM_SM_SIGNAL_DISABLE = Some (IB_INVALID_PARAMETER, sm_example) \<and>
   osm_sm_state_mgr_check_legality sm_example OSM_SM_SIGNAL_DISABLE \<noteq> IB_SUCCESS"
proof -
  have p: "osm_sm_state_mgr_process sm_example OSM_SM_SIGNAL_DISABLE = Some (IB_INVALID_PARAMETER, sm_example)"
    by (simp add: sm_eval)
  have s: "sm_state sm_example \<le> IB_SMINFO_STATE_MASTER" by (simp add: sm_eval)
  show ?thesis using check_legality_agrees[OF s p] p by simp
qed

text \<open>C25. There are two ways to become master: an election at the end of a discovery that found neither a master nor a greater
  manager and asked for no new sweep, and, in standby, a Set(SMInfo) HANDOVER from a manager that says it is master.\<close>

theorem master_only_by_election_or_handover:
  assumes "sm_handle sm e = Some sm'" "sm_state sm \<noteq> IB_SMINFO_STATE_MASTER" "sm_state sm' = IB_SMINFO_STATE_MASTER"
  shows "sm_state sm = IB_SMINFO_STATE_DISCOVERING \<and> e = Ev_elect \<and> \<not> master_sm_found sm \<and> \<not> force_heavy_sweep sm \<or>
    sm_state sm = IB_SMINFO_STATE_STANDBY \<and>
      (\<exists>mem madw. e = Ev_recv mem madw \<and> smp_method (mw_smp madw) = IB_MAD_METHOD_SET \<and>
         smp_attr_mod (mw_smp madw) = IB_SMINFO_ATTR_MOD_HANDOVER \<and>
         ib_sminfo_get_state (smp_smi (mw_smp madw)) = IB_SMINFO_STATE_MASTER)"
  by (rule handle_master_from[OF assms])

theorem master_only_by_election_or_handover_witness:
  "\<exists>sm'. sm_handle sm_example Ev_elect = Some sm' \<and> sm_state sm' = IB_SMINFO_STATE_MASTER \<and> \<not> master_sm_found sm_example"
proof -
  obtain sm' where h: "sm_handle sm_example Ev_elect = Some sm'" and m: "sm_state sm' = IB_SMINFO_STATE_MASTER"
    by (simp add: sm_eval)
  have n: "sm_state sm_example \<noteq> IB_SMINFO_STATE_MASTER" by (simp add: sm_eval)
  show ?thesis using master_only_by_election_or_handover[OF h n m] h m by (auto simp: sm_eval)
qed

text \<open>C39. The pointer to the polled manager can dangle.  The drop manager frees a remote manager without looking whether it is
  being polled: once that happens to a master that waits for a handover with retries left, the next tick of the poll timer
  reads the freed object.  The witness reaches such a state: the polled manager answers that it is no longer master, so
  that the next sweep goes on to the drop manager.\<close>

theorem polled_sm_dropped_crash:
  assumes "sm_state sm = IB_SMINFO_STATE_MASTER" "p_polling_sm sm = Some k" "polling_timer sm"
    "retry_number sm + 1 < opt_polling_retry_number sm"
  shows "sm_handles sm [Ev_drop k, Ev_timer] = None"
  using assms by (simp add: timer_callback_def drop_mgr_remove_sm_def osm_sm_state_mgr_polling_callback_def Let_def
      sm_state_mgr_send_master_sm_info_req_def sm_states map_of_drop not_le[symmetric])

definition sm_waiting :: osm_sm where
  "sm_waiting = the (sm_handles sm_example [Ev_elect, Ev_recv True (smi_example 0x33), Ev_elect, Ev_recv True (smi_example 0x32)])"

theorem polled_sm_dropped_crash_witness:
  "sm_run sm_example sm_waiting \<and> do_sweep_elect sm_waiting = Some (Sweep_configure, sm_waiting) \<and>
   sm_handles sm_waiting [Ev_drop 0x0700, Ev_timer] = None"
proof -
  have e: "sm_handles sm_example [Ev_elect, Ev_recv True (smi_example 0x33), Ev_elect, Ev_recv True (smi_example 0x32)] = Some sm_waiting"
    by (simp add: sm_waiting_def sm_eval)
  have r: "sm_run sm_example sm_waiting" by (rule sm_run_handles[OF sm_start e]) simp
  have f: "sm_state sm_waiting = IB_SMINFO_STATE_MASTER" "p_polling_sm sm_waiting = Some 0x0700" "polling_timer sm_waiting"
    "retry_number sm_waiting + 1 < opt_polling_retry_number sm_waiting"
    by (simp_all add: sm_waiting_def sm_eval)
  have g: "do_sweep_elect sm_waiting = Some (Sweep_configure, sm_waiting)"
    by (simp add: sm_waiting_def sm_eval)
  show ?thesis using r g polled_sm_dropped_crash[OF f] by simp
qed

end
