(* ===== verification/Osm_Table.thy ===== *)
theory Osm_Table
  imports Osm_Mastership Cl_Map_Spec
begin

text \<open>
  The subnet manager's table of remote managers kept in a quick map: the lists \<open>Osm_Sm\<close> uses for it are what the map
  implements.  An item of the map is the first member of the remote manager's object, so that the object is found by the
  item's address.
\<close>

definition sm_table :: "cl_qmap \<Rightarrow> cl_heap \<Rightarrow> (addr \<Rightarrow> osm_remote_sm) \<Rightarrow> (u64 \<times> addr) list \<Rightarrow> (u64 \<times> osm_remote_sm) list \<Rightarrow> bool" where
  "sm_table m h obj al tbl \<longleftrightarrow> qmap_rel m h al \<and> tbl = map (\<lambda>(k, a). (k, obj a)) al"

lemma sm_table_lookup: "sm_table m h obj al tbl \<Longrightarrow> map_of tbl k = map_option obj (map_of al k)"
  by (simp add: sm_table_def map_of_map)

lemma filter_objects: "filter (\<lambda>(k, rs). k \<noteq> g) (map (\<lambda>(k, a). (k, obj a)) al) = map (\<lambda>(k, a). (k, obj a)) (filter (\<lambda>(k, _). k \<noteq> g) al)"
  by (induction al) auto

lemma sm_table_drop: "sm_table m h obj al tbl \<Longrightarrow> filter (\<lambda>(k, rs). k \<noteq> g) tbl = map (\<lambda>(k, a). (k, obj a)) (filter (\<lambda>(k, _). k \<noteq> g) al)"
  by (simp add: sm_table_def filter_objects)

lemma other_objects: "a \<notin> snd ` set al \<Longrightarrow> map (\<lambda>(k, x). (k, (obj(a := rs)) x)) al = map (\<lambda>(k, x). (k, obj x)) al"
  by (induction al) auto

text \<open>Overwriting an object in place is what the list sees as an insertion under its key.\<close>

lemma update_in_place:
  "sorted_wrt (<) (map fst al) \<Longrightarrow> distinct (map snd al) \<Longrightarrow> map_of al k = Some a \<Longrightarrow>
   map (\<lambda>(k, x). (k, (obj(a := rs)) x)) al = qmap_insert k rs (map (\<lambda>(k, x). (k, obj x)) al)"
proof (induction al)
  case (Cons e al)
  obtain k' b where e: "e = (k', b)" by (cases e)
  show ?case
  proof (cases "k' = k")
    case True
    then have "a = b" "a \<notin> snd ` set al" using Cons.prems e by auto
    then show ?thesis using True e other_objects[of a al obj rs] by simp
  next
    case False
    then have m: "map_of al k = Some a" using Cons.prems(3) e by simp
    then have "k \<in> fst ` set al" "a \<in> snd ` set al" using map_of_SomeD by force+
    then have "k' < k" "k \<noteq> k'" "b \<noteq> a" using Cons.prems(1,2) e by auto
    then show ?thesis using Cons.IH Cons.prems(1,2) m e by (simp add: order_less_not_sym)
  qed
qed simp

lemma insert_object:
  "a \<notin> snd ` set al \<Longrightarrow> map (\<lambda>(k, x). (k, (obj(a := rs)) x)) (qmap_insert k a al) = qmap_insert k rs (map (\<lambda>(k, x). (k, obj x)) al)"
  unfolding qmap_insert_map other_objects by simp

section \<open>Properties\<close>

text \<open>C20. The list of remote managers in the model of the subnet manager is refined by the quick map the code keeps: the lookup finds
  the manager's object or the end; inserting the object of a new manager, overwriting the object of a known one in place and
  dropping a port give maps that hold the tables of the model; and a walk over the map meets the managers in the order of the
  list, so that the election loops see them alike.\<close>

theorem sm_table_refines:
  assumes T: "sm_table m h obj al (sm_guid_tbl sm)" and a: "a \<notin> {root m, nil m}" "a \<notin> snd ` set al"
  shows "cl_qmap_get m k h = Some (case map_of al k of None \<Rightarrow> nil m | Some x \<Rightarrow> x) \<and>
    map_of (sm_guid_tbl sm) k = map_option obj (map_of al k) \<and>
    (map_of al k = None \<longrightarrow>
       (\<exists>m' h'. cl_qmap_insert m k a h = Some (a, m', h') \<and>
          sm_table m' h' (obj(a := rs)) (qmap_insert k a al) (qmap_insert k rs (sm_guid_tbl sm)))) \<and>
    (\<forall>x. map_of al k = Some x \<longrightarrow> sm_table m h (obj(x := rs)) al (qmap_insert k rs (sm_guid_tbl sm))) \<and>
    (\<exists>x m' h'. cl_qmap_remove m k h = Some (x, m', h') \<and>
       sm_table m' h' obj (filter (\<lambda>(k', _). k' \<noteq> k) al) (sm_guid_tbl (drop_mgr_remove_sm sm k))) \<and>
    cl_qmap_apply_func m (\<lambda>x seen. seen @ [obj x]) [] h = Some (map snd (sm_guid_tbl sm))"
proof (intro conjI impI allI)
  have q: "qmap_rel m h al" and t: "sm_guid_tbl sm = map (\<lambda>(k, a). (k, obj a)) al" using T by (simp_all add: sm_table_def)
  show "cl_qmap_get m k h = Some (case map_of al k of None \<Rightarrow> nil m | Some x \<Rightarrow> x)" by (rule qmap_rel_get[OF q])
  show "map_of (sm_guid_tbl sm) k = map_option obj (map_of al k)" by (rule sm_table_lookup[OF T])
  show "\<exists>m' h'. cl_qmap_insert m k a h = Some (a, m', h') \<and> sm_table m' h' (obj(a := rs)) (qmap_insert k a al) (qmap_insert k rs (sm_guid_tbl sm))"
    if "map_of al k = None"
    using qmap_rel_insert[OF q, of a k] a that insert_object[OF a(2), of obj rs k] by (auto simp: sm_table_def t)
  show "sm_table m h (obj(x := rs)) al (qmap_insert k rs (sm_guid_tbl sm))" if "map_of al k = Some x" for x
    using q update_in_place[OF rel_facts(1,2)[OF q] that, of obj rs] by (simp add: sm_table_def t)
  show "\<exists>x m' h'. cl_qmap_remove m k h = Some (x, m', h') \<and>
      sm_table m' h' obj (filter (\<lambda>(k', _). k' \<noteq> k) al) (sm_guid_tbl (drop_mgr_remove_sm sm k))"
    using qmap_rel_remove[OF q, of k] sm_table_drop[OF T, of k] by (auto simp: sm_table_def drop_mgr_remove_sm_def)
  have "fold (\<lambda>x seen. seen @ [obj x]) xs ys = ys @ map obj xs" for xs ys by (induction xs arbitrary: ys) auto
  then show "cl_qmap_apply_func m (\<lambda>x seen. seen @ [obj x]) [] h = Some (map snd (sm_guid_tbl sm))"
    by (simp add: qmap_rel_apply[OF q] t comp_def split_beta)
qed

definition rs_example :: osm_remote_sm where
  "rs_example = \<lparr>rs_port_guid = 0x0700, rs_smi = \<lparr>smi_guid = 0x0700, smi_sm_key = 0, smi_act_count = 0, smi_pri_state = 0x51\<rparr>\<rparr>"

lemma sm_table_example:
  "\<exists>m h. root m = 1 \<and> nil m = 2 \<and> sm_table m h (\<lambda>_. rs_example) [(0x0700, 10)] (sm_guid_tbl (sm_example\<lparr>sm_guid_tbl := [(0x0700, rs_example)]\<rparr>))"
proof -
  obtain m h where q: "qmap_rel m h []" "root m = 1" "nil m = 2"
    using init_rel[of qmap_example heap_example] by (auto simp: table_rel_def qmap_example_def)
  obtain h' where "qmap_rel (m\<lparr>count := count m + 1\<rparr>) h' [(0x0700, 10)]" using qmap_rel_insert[OF q(1), of 10 "0x0700"] q(2,3) by auto
  then show ?thesis using q(2,3) by (intro exI[of _ "m\<lparr>count := count m + 1\<rparr>"] exI[of _ h']) (simp add: sm_table_def)
qed

theorem sm_table_refines_witness:
  "\<exists>m h m' h'. cl_qmap_get m 0x0700 h = Some 10 \<and> cl_qmap_insert m 0x0900 11 h = Some (11, m', h') \<and>
     sm_table m' h' ((\<lambda>_. rs_example)(11 := rs_example)) [(0x0700, 10), (0x0900, 11)] [(0x0700, rs_example), (0x0900, rs_example)]"
proof -
  obtain m h where M: "root m = 1" "nil m = 2" "sm_table m h (\<lambda>_. rs_example) [(0x0700, 10)] (sm_guid_tbl (sm_example\<lparr>sm_guid_tbl := [(0x0700, rs_example)]\<rparr>))"
    using sm_table_example by blast
  have f: "11 \<notin> {root m, nil m}" "11 \<notin> snd ` set [(0x0700 :: u64, 10 :: addr)]" using M by simp_all
  show ?thesis using sm_table_refines[OF M(3) f, of "0x0700" rs_example] sm_table_refines[OF M(3) f, of "0x0900" rs_example] by auto
qed

end
