(* ===== verification/Spec2Isabelle.thy ===== *)
theory Spec2Isabelle
  imports Mlx4_Mr Hca_Profile Mthca_Mcg Cl_Map_Merge Osm_Table
begin

text \<open>
  Verification development for WinOFED, the Windows port of the OpenFabrics stack: drivers of two families of
  InfiniBand adapters (\<open>hw/mthca\<close>, \<open>hw/mlx4\<close>), the access layer and component library (\<open>core\<close>), and the
  upper layers (\<open>ulp\<close>), of which the subnet manager OpenSM is the largest.  What is modelled is the code whose effect is
  in its own data: the resource managers of the two drivers, the map of the component
  library in which most tables of the stack are kept, and the decision who is master of the subnet.

  \<^bold>\<open>Conventions.\<close>  A C structure is a record, an integer of \<open>w\<close> bits a word of that width, so that wrap-around is the
  code's.  An operation is a function on the structures it changes.  Errors the code returns are values; \<open>None\<close> is a
  step the code must not take (an access out of range, through a null or freed pointer, or a loop that does not end), so that a theorem
  that a result is \<open>Some\<close> is a theorem that the code is safe and terminates.  Locks are held throughout each operation of
  the resource managers and left out.  Log output is left out, save for the failure to start a timer.  Memory allocation and firmware commands that can fail
  are parameters, or oracles consumed by the operation.

  \<^bold>\<open>Theories and what they model\<close>
  \<^item> \<open>OFED_Prelude\<close>: integer types, proof collections, generic facts.
  \<^item> \<open>L2w_Bit\<close>: word and bitmap primitives, \<open>hw/mlx4/kernel/inc/l2w_bit.h\<close>, \<open>l2w_bitmap.h\<close> and \<open>bus/core/l2w.c\<close>.  Shown: the table-driven
    searches agree with the bit-by-bit ones; the search for a clear bit finds the first one below the size, or a value not below the size when there is none; rounding to a power of two.
  \<^item> \<open>Id_Alloc\<close>: the contract of an allocator of identifiers, a locale over allocation, release, the identifiers in use and the
    capacity, and what every history of its clients then satisfies.  A weaker contract, which the first one implies, allows a failing allocation to lose
    identifiers: the masks that reserve no prefix make the all-ones handle, which callers take for failure, reachable.
  \<^item> \<open>Mlx4_Bitmap\<close> (\<open>hw/mlx4/kernel/bus/net/alloc.c\<close>) and \<open>Mthca_Alloc\<close> (\<open>hw/mthca/kernel/mthca_allocator.c\<close>): the two providers of these
    contracts, the weaker one for every mask, the other for masks that leave a prefix out; aligned ranges of identifiers; the array of pages of pointers, which behaves as a
    finite map.
  \<^item> \<open>Buddy_Spec\<close> and \<open>Mtt_Buddy\<close>: the abstract buddy system with its contract, and the two buddy allocators of translation-table segments
    (\<open>mthca_mr.c\<close>, \<open>bus/net/mr.c\<close>) that refine it: blocks given out never overlap, are aligned to their size, and free memory merges back; the
    optimised allocator with counters returns what the simple one returns.
  \<^item> \<open>Icm_Table\<close> (\<open>bus/net/icm.c\<close>): reference-counted chunks of context memory, ranges with roll-back on failure, initialisation and cleanup.
    The products of initialisation and of the address to unmap are those of signed 32-bit integers, which overflow at 2 GB: the theorems about
    whole tables stay below, and two lemmas say what happens from there on.
  \<^item> \<open>Mlx4_Mr\<close> (\<open>bus/net/mr.c\<close>): memory regions and fast regions over the three components above; no history of operations with
    any failures loses a segment, a key or a chunk, except where a finding says so.
  \<^item> \<open>Hca_Profile\<close> (\<open>bus/net/profile.c\<close>, \<open>mthca_profile.c\<close>): the layout of context memory: entry sizes, the sort, the packing and what is told
    to the firmware, through the locale of a writer that records each resource's base; regions are disjoint, aligned and inside the device memory.
  \<^item> \<open>Hash_Chain\<close> and \<open>Mthca_Mcg\<close> (\<open>mthca_mcg.c\<close> and its commands in \<open>mthca_cmd.c\<close>): the multicast table in device memory, a hash table with
    collision chains of slot numbers, refined to a map from groups to the queue pairs attached, with every firmware command able to fail.
  \<^item> \<open>Cl_Byteswap\<close> (\<open>inc/complib/cl_byteswap.h\<close>): byte order conversion.
  \<^item> \<open>Keyed_Table\<close>: the contract of a table with 64-bit keys, a locale over lookup, insertion and removal and a relation to a list of
    entries in key order, and what every history of such a table then satisfies.
  \<^item> \<open>Cl_Map\<close> (\<open>core/complib/cl_map.c\<close>, \<open>inc/complib/cl_qmap.h\<close>, \<open>cl_qlist.h\<close>): the quick map, a red-black tree with parent pointers threaded by a
    doubly linked list, on a heap of items and one assignment at a time.  \<open>Cl_Map_Tree\<close> describes a tree in the heap and a position in it and
    proves the rotations; \<open>Cl_Map_Ops\<close> proves lookup and insertion with rebalancing, \<open>Cl_Map_Del\<close> removal, each with what it leaves
    unchanged.  \<open>Cl_Map_Spec\<close> interprets the contract: after any history the map is the ordered table, all loops end, and a lookup is
    logarithmic.  \<open>Cl_Map_Merge\<close> treats several maps in one heap: merging one into another and comparing two.
  \<^item> \<open>Osm_Sm\<close> and \<open>Osm_Mastership\<close> (\<open>ulp/opensm/user/opensm/osm_sm_state_mgr.c\<close>, \<open>osm_sminfo_rcv.c\<close>, the election in \<open>osm_state_mgr.c\<close>): the subnet
    manager's state machine with its poll timer (\<open>core/complib/user/cl_timer.c\<close>), whose start can fail and then is only logged, the SMInfo messages, the election, and runs of one manager under
    messages, ticks, sweeps and dropped nodes: safety, take-over from a silent master, election of the greatest, handover between two managers.
  \<^item> \<open>Osm_Table\<close>: the table of remote managers, a list in \<open>Osm_Sm\<close>, is what the quick map of the code holds under each operation the subnet
    manager uses.

  \<^bold>\<open>How the components interact.\<close>  \<open>Mlx4_Mr\<close> calls the buddy allocator for translation-table segments, the bitmap allocator for key
  indices and the context-memory tables for backing storage; \<open>Mthca_Mcg\<close> calls the InfiniHost identifier allocator for chained
  slots; both rest on the contracts, not on the code, of the components they call.  \<open>Osm_Sm\<close> compares identifiers in host order with
  \<open>Cl_Byteswap\<close> and keeps remote managers in a table with the contract of \<open>Keyed_Table\<close>, which the quick map provides.

  \<^bold>\<open>Bounds and fuel.\<close>  Loops over a word, a bitmap or an order are recursions on the remaining count.  The chain walk of the multicast
  table and the search for the order of a request may not end on arbitrary input; they are partial functions into \<open>option\<close>, and the
  theorems show that they return on every reachable state, respectively exactly when the order exists.  The loops of the quick map follow
  pointers and are partial functions too; they return on every well-formed map, and every map reached from initialisation is well formed.
  The count of a map is a 64-bit word and wraps as the code's does.

  \<^bold>\<open>Not modelled.\<close>  Code whose effect lies in the device or the operating system: command mailboxes, event and completion queues,
  doorbells, interrupt handlers, plug and play, NDIS and StorPort miniports, Windows I/O requests, and the user-mode wrappers around them.
  The fabric discovered by OpenSM, its routing engines and the answers of its subnet administration, which work on one large
  graph of mutable objects.  Of the component library, the object map over a pool, the flexi map, which repeats the tree for a comparison callback, the debug
  fields and the assertions.  Generated parsers, tools and tests.  The functions that only release memory at unload.  Concurrency: each operation
  modelled runs under its lock.
\<close>

end
